(* ===== verification/Prelude.thy ===== *)
theory Prelude
  imports Main "HOL-Library.Word"
begin

text \<open>
  Shared vocabulary of the development: the machine integer types of the C code
  (the target is ILP32 RISC-V, so \<open>int\<close>, \<open>unsigned\<close>, \<open>long\<close>, \<open>size_t\<close> and
  \<open>uintptr_t\<close> are 32 bits wide and \<open>long long\<close> is 64), the collections the
  component proofs share, and generic lemmas on words, lists and state machines.
\<close>

unbundle bit_operations_syntax

section \<open>Machine integers\<close>

type_synonym u8 = "8 word"
type_synonym u16 = "16 word"
type_synonym u32 = "32 word"
type_synonym u64 = "64 word"

named_theorems word_nat \<open>facts that read a word operation as an operation on natural numbers\<close>
named_theorems frame \<open>facts that say which parts of a state an operation leaves alone\<close>
named_theorems inv_intro \<open>preservation facts of a component invariant\<close>

lemma unat_below: "unat (x :: 'a::len word) < 2 ^ LENGTH('a)"
  by (rule unsigned_less)

lemma unat_lt_u8: "unat (x :: u8) < 256"
  using unat_below [of x] by simp

lemma unat_lt_u16: "unat (x :: u16) < 65536"
  using unat_below [of x] by simp

lemma unat_lt_u32: "unat (x :: u32) < 4294967296"
  using unat_below [of x] by simp

lemma unat_lt_u64: "unat (x :: u64) < 18446744073709551616"
  using unat_below [of x] by simp

lemma unat_drop_bit [word_nat]: "unat (drop_bit n (x :: 'a::len word)) = unat x div 2 ^ n"
  unfolding unat_drop_bit_eq by (rule drop_bit_eq_div)

lemma unat_push_bit [word_nat]:
  "unat (push_bit n (x :: 'a::len word)) = unat x * 2 ^ n mod 2 ^ LENGTH('a)"
  unfolding unsigned_push_bit_eq by (simp only: take_bit_eq_mod push_bit_eq_mult)

lemma unat_take_bit [word_nat]: "unat (take_bit n (x :: 'a::len word)) = unat x mod 2 ^ n"
  unfolding unsigned_take_bit_eq by (rule take_bit_eq_mod)

lemma unat_or_disjoint:
  "x AND y = 0 \<Longrightarrow> unat (x OR y) = unat (x :: 'a::len word) + unat y"
proof -
  assume a: "x AND y = 0"
  have "unat x AND unat y = 0"
    using a by (simp flip: unsigned_and_eq)
  then have "unat x + unat y = unat x OR unat y"
    by (rule disjunctive_add_eq_or)
  then show ?thesis by (simp add: unsigned_or_eq)
qed

lemma word_or_add: "x AND y = 0 \<Longrightarrow> x + y = x OR y" for x y :: "'a::len word"
  using arg_cong [OF unat_or_disjoint [of x y], of "of_nat :: nat \<Rightarrow> 'a word"] by simp

lemma unat_ucast_mod [word_nat]:
  "unat (ucast (x :: 'a::len word) :: 'b::len word) = unat x mod 2 ^ LENGTH('b)"
  by (simp add: unsigned_ucast_eq take_bit_eq_mod)

lemma unat_ucast_up:
  "LENGTH('a) \<le> LENGTH('b) \<Longrightarrow> unat (ucast (x :: 'a::len word) :: 'b::len word) = unat x"
proof -
  assume "LENGTH('a) \<le> LENGTH('b)"
  then have "unat x < 2 ^ LENGTH('b)"
    using unat_below [of x] power_increasing [of "LENGTH('a)" "LENGTH('b)" "2::nat"] by linarith
  then show ?thesis by (simp add: unat_ucast_mod)
qed

lemma take_bit_id_iff: "take_bit n x = x \<longleftrightarrow> unat x < 2 ^ n" for x :: "'a::len word"
proof -
  have "take_bit n x = x \<longleftrightarrow> unat x mod 2 ^ n = unat x"
    by (simp only: word_unat_eq_iff unat_take_bit)
  also have "\<dots> \<longleftrightarrow> unat x < 2 ^ n"
    by (metis mod_less mod_less_divisor zero_less_numeral zero_less_power)
  finally show ?thesis .
qed

lemma unat_or_below: "unat x < 2 ^ n \<Longrightarrow> unat y < 2 ^ n \<Longrightarrow> unat (x OR y) < 2 ^ n" for x y :: "'a::len word"
  unfolding take_bit_id_iff [symmetric] by (simp add: take_bit_or)

lemma unat_xor_below: "unat x < 2 ^ n \<Longrightarrow> unat y < 2 ^ n \<Longrightarrow> unat (x XOR y) < 2 ^ n" for x y :: "'a::len word"
  unfolding take_bit_id_iff [symmetric] by (simp add: take_bit_xor)

lemma unat_and_below: "unat y < 2 ^ n \<Longrightarrow> unat (x AND y) < 2 ^ n" for x y :: "'a::len word"
  unfolding take_bit_id_iff [symmetric] by (metis take_bit_and and.assoc and.commute take_bit_eq_mask)

section \<open>Runs of a state machine\<close>

text \<open>
  A component whose operations are functions on a state keeps an invariant over every
  sequence of operations as soon as each operation keeps it. The components interpret
  this locale on their own step functions.
\<close>

locale machine =
  fixes step :: "'s \<Rightarrow> 'e \<Rightarrow> 's"
    and inv :: "'s \<Rightarrow> bool"
  assumes step_inv: "inv s \<Longrightarrow> inv (step s e)"
begin

lemma fold_inv: "inv s \<Longrightarrow> inv (fold (\<lambda>e s. step s e) es s)"
  by (induction es arbitrary: s) (simp_all add: step_inv)

lemma prefix_inv: "inv s \<Longrightarrow> inv (fold (\<lambda>e s. step s e) (take n es) s)"
  by (rule fold_inv)

lemma iterate_inv: "inv s \<Longrightarrow> inv (((\<lambda>s. step s e) ^^ n) s)"
  by (induction n) (simp_all add: step_inv)

end

end
