(* ===== verification/Klib_String.thy ===== *)
theory Klib_String
  imports Prelude
begin

text \<open>
  The string and memory functions of klib (\<open>abstract-machine/klib/src/string.c\<close>) over a
  flat byte memory. A pointer is an address; a function that writes returns the new
  memory (each of them also returns its first argument, which the model leaves out).
  A scan that may run past the end of the memory is a partial function: \<open>None\<close> is a
  scan that never meets the byte it looks for.
\<close>

type_synonym mem = "nat \<Rightarrow> u8"

section \<open>Strings\<close>

partial_function (option) scan_nul :: "mem \<Rightarrow> nat \<Rightarrow> nat option" where
  "scan_nul m p = (if m p \<noteq> 0 then scan_nul m (p + 1) else Some p)"

definition strlen :: "mem \<Rightarrow> nat \<Rightarrow> u32 option" where
  "strlen m s = map_option (\<lambda>p. of_nat (p - s)) (scan_nul m s)"

partial_function (option) strcpy_loop :: "nat \<Rightarrow> nat \<Rightarrow> nat \<Rightarrow> mem \<Rightarrow> mem option" where
  "strcpy_loop dst src i m =
    (if m (src + i) \<noteq> 0 then strcpy_loop dst src (i + 1) (m(dst + i := m (src + i)))
     else Some (m(dst + i := 0)))"

definition strcpy :: "mem \<Rightarrow> nat \<Rightarrow> nat \<Rightarrow> mem option" where
  "strcpy m dst src = strcpy_loop dst src 0 m"

function strncpy_loop :: "nat \<Rightarrow> nat \<Rightarrow> u32 \<Rightarrow> nat \<Rightarrow> mem \<Rightarrow> mem" where
  "strncpy_loop dst src n i m =
    (if i < unat (n - 1) \<and> m (src + i) \<noteq> 0 then strncpy_loop dst src n (i + 1) (m(dst + i := m (src + i)))
     else m(dst + i := 0))"
  by pat_completeness auto
termination by (relation "measure (\<lambda>(dst, src, n, i, m). unat (n - 1) - i)") auto

declare strncpy_loop.simps [simp del]

definition strncpy :: "mem \<Rightarrow> nat \<Rightarrow> nat \<Rightarrow> u32 \<Rightarrow> mem" where
  "strncpy m dst src n = strncpy_loop dst src n 0 m"

partial_function (option) strcat_loop :: "nat \<Rightarrow> nat \<Rightarrow> mem \<Rightarrow> mem option" where
  "strcat_loop ptr src m =
    (if m src \<noteq> 0 then strcat_loop (ptr + 1) (src + 1) (m(ptr := m src))
     else Some (m(ptr := 0)))"

definition strcat :: "mem \<Rightarrow> nat \<Rightarrow> nat \<Rightarrow> mem option" where
  "strcat m dst src = Option.bind (scan_nul m dst) (\<lambda>ptr. strcat_loop ptr src m)"

definition byte_diff :: "u8 \<Rightarrow> u8 \<Rightarrow> int" where
  "byte_diff a b = int (unat a) - int (unat b)"

partial_function (option) strcmp :: "mem \<Rightarrow> nat \<Rightarrow> nat \<Rightarrow> int option" where
  "strcmp m s1 s2 =
    (if m s1 \<noteq> 0 \<and> m s1 = m s2 then strcmp m (s1 + 1) (s2 + 1)
     else Some (byte_diff (m s1) (m s2)))"

text \<open>
  The post-decrement of \<open>n-- > 0\<close> happens whether or not the test succeeds, so a
  \<open>size_t\<close> of 0 leaves \<open>SIZE_MAX\<close>. The result of the loop is \<open>n\<close> and the two pointers.
\<close>

function strncmp_loop :: "mem \<Rightarrow> nat \<Rightarrow> nat \<Rightarrow> u32 \<Rightarrow> u32 \<times> nat \<times> nat" where
  "strncmp_loop m s1 s2 n =
    (if n > 0 \<and> m s1 \<noteq> 0 \<and> m s1 = m s2 then strncmp_loop m (s1 + 1) (s2 + 1) (n - 1)
     else (n - 1, s1, s2))"
  by pat_completeness auto
termination
  by (relation "measure (\<lambda>(m, s1, s2, n). unat n)") (auto simp: unat_minus_one unat_gt_0)

declare strncmp_loop.simps [simp del]

definition strncmp :: "mem \<Rightarrow> nat \<Rightarrow> nat \<Rightarrow> u32 \<Rightarrow> int" where
  "strncmp m s1 s2 n =
    (case strncmp_loop m s1 s2 n of
       (n', p1, p2) \<Rightarrow> if n' = - 1 then 0 else byte_diff (m p1) (m p2))"

section \<open>Blocks of memory\<close>

primrec memset_loop :: "nat \<Rightarrow> nat \<Rightarrow> u8 \<Rightarrow> mem \<Rightarrow> mem" where
  "memset_loop 0 ptr c m = m"
| "memset_loop (Suc n) ptr c m = memset_loop n (ptr + 1) c (m(ptr := c))"

definition memset :: "mem \<Rightarrow> nat \<Rightarrow> u32 \<Rightarrow> u32 \<Rightarrow> mem" where
  "memset m s c n = memset_loop (unat n) s (ucast c) m"

primrec copy_up :: "nat \<Rightarrow> nat \<Rightarrow> nat \<Rightarrow> mem \<Rightarrow> mem" where
  "copy_up 0 d s m = m"
| "copy_up (Suc n) d s m = copy_up n (d + 1) (s + 1) (m(d := m s))"

primrec copy_down :: "nat \<Rightarrow> nat \<Rightarrow> nat \<Rightarrow> mem \<Rightarrow> mem" where
  "copy_down 0 d s m = m"
| "copy_down (Suc n) d s m = copy_down n (d - 1) (s - 1) (m(d - 1 := m (s - 1)))"

definition memmove :: "mem \<Rightarrow> nat \<Rightarrow> nat \<Rightarrow> u32 \<Rightarrow> mem" where
  "memmove m dst src n =
    (if dst < src then copy_up (unat n) dst src m
     else copy_down (unat n) (dst + unat n) (src + unat n) m)"

definition memcpy :: "mem \<Rightarrow> nat \<Rightarrow> nat \<Rightarrow> u32 \<Rightarrow> mem" where
  "memcpy m out src n = copy_up (unat n) out src m"

primrec memcmp_loop :: "nat \<Rightarrow> nat \<Rightarrow> nat \<Rightarrow> mem \<Rightarrow> int" where
  "memcmp_loop 0 p1 p2 m = 0"
| "memcmp_loop (Suc n) p1 p2 m =
    (if m p1 \<noteq> m p2 then byte_diff (m p1) (m p2) else memcmp_loop n (p1 + 1) (p2 + 1) m)"

definition memcmp :: "mem \<Rightarrow> nat \<Rightarrow> nat \<Rightarrow> u32 \<Rightarrow> int" where
  "memcmp m s1 s2 n = memcmp_loop (unat n) s1 s2 m"

section \<open>What the functions do to the memory\<close>

text \<open>The bytes of a block, and a string: bytes that are not 0, then a 0.\<close>

definition bytes :: "mem \<Rightarrow> nat \<Rightarrow> nat \<Rightarrow> u8 list" where
  "bytes m p n = map (\<lambda>i. m (p + i)) [0..<n]"

definition string_at :: "mem \<Rightarrow> nat \<Rightarrow> u8 list \<Rightarrow> bool" where
  "string_at m p xs \<longleftrightarrow> bytes m p (length xs) = xs \<and> m (p + length xs) = 0 \<and> 0 \<notin> set xs"

definition put :: "mem \<Rightarrow> nat \<Rightarrow> u8 list \<Rightarrow> mem" where
  "put m p xs = (\<lambda>a. if p \<le> a \<and> a < p + length xs then xs ! (a - p) else m a)"

lemma bytes_0 [simp]: "bytes m p 0 = []"
  by (simp add: bytes_def)

lemma length_bytes [simp]: "length (bytes m p n) = n"
  by (simp add: bytes_def)

lemma nth_bytes [simp]: "i < n \<Longrightarrow> bytes m p n ! i = m (p + i)"
  by (simp add: bytes_def)

lemma bytes_Suc: "bytes m p (Suc n) = m p # bytes m (p + 1) n"
  by (rule nth_equalityI) (auto simp: nth_Cons')

lemma string_at_Nil [simp]: "string_at m p [] \<longleftrightarrow> m p = 0"
  by (simp add: string_at_def)

lemma string_at_Cons [simp]:
  "string_at m p (x # xs) \<longleftrightarrow> m p = x \<and> x \<noteq> 0 \<and> string_at m (p + 1) xs"
  by (auto simp: string_at_def bytes_Suc)

lemma put_Nil [simp]: "put m p [] = m"
  unfolding put_def by (rule ext) (metis length_0_conv add_0_right leD list.size(3))

lemma put_Cons: "put m p (x # xs) = put (m(p := x)) (p + 1) xs"
  by (rule ext) (auto simp: put_def nth_Cons' Suc_le_eq Suc_diff_Suc)

lemma put_other: "a < p \<or> p + length xs \<le> a \<Longrightarrow> put m p xs a = m a"
  by (auto simp: put_def)

lemma put_same: "i < length xs \<Longrightarrow> put m p xs (p + i) = xs ! i"
  by (simp add: put_def)

lemma bytes_put: "n \<le> length xs \<Longrightarrow> bytes (put m p xs) p n = take n xs"
  by (rule nth_equalityI) (simp_all add: put_same)

lemma string_at_put: "0 \<notin> set xs \<Longrightarrow> string_at (put m p (xs @ [0])) p xs"
  by (auto simp: string_at_def put_def nth_append intro!: nth_equalityI)

lemma put_append: "put m p (xs @ ys) = put (put m p xs) (p + length xs) ys"
  by (rule ext) (auto simp: put_def nth_append)

lemma put_bytes_self: "bytes m p (length xs) = xs \<Longrightarrow> put m p xs = m"
proof (rule ext)
  fix a
  assume b: "bytes m p (length xs) = xs"
  have "m (p + i) = xs ! i" if "i < length xs" for i
    using that arg_cong [OF b, of "\<lambda>xs. xs ! i"] by simp
  from this [of "a - p"] show "put m p xs a = m a" by (auto simp: put_def)
qed

lemma string_at_cong:
  "(\<And>a. p \<le> a \<Longrightarrow> a \<le> p + length xs \<Longrightarrow> m' a = m a) \<Longrightarrow> string_at m' p xs = string_at m p xs"
  by (induction xs arbitrary: p) auto

section \<open>Scans\<close>

lemma scan_nul_string: "string_at m p xs \<Longrightarrow> scan_nul m p = Some (p + length xs)"
  by (induction xs arbitrary: p) (auto simp: scan_nul.simps)

lemma strcpy_loop_eq:
  assumes "string_at m (src + i) xs" and "dst + i + length xs < src + i \<or> src + i + length xs < dst"
  shows "strcpy_loop dst src i m = Some (put m (dst + i) (xs @ [0]))"
  using assms
proof (induction xs arbitrary: i m)
  case Nil
  then show ?case by (simp add: strcpy_loop.simps put_Cons fun_upd_def)
next
  case (Cons x xs)
  let ?m = "m(dst + i := x)"
  have "string_at ?m (src + (i + 1)) xs = string_at m (src + (i + 1)) xs"
    using Cons.prems(2) by (intro string_at_cong) auto
  then have "strcpy_loop dst src (i + 1) ?m = Some (put ?m (dst + (i + 1)) (xs @ [0]))"
    using Cons.prems by (intro Cons.IH) (auto simp: fun_upd_def)
  then show ?case using Cons.prems(1) by (subst strcpy_loop.simps) (auto simp: put_Cons add.assoc fun_upd_def)
qed

lemma strcat_loop_eq:
  assumes "string_at m src xs" and "ptr + length xs < src \<or> src + length xs < ptr"
  shows "strcat_loop ptr src m = Some (put m ptr (xs @ [0]))"
  using assms
proof (induction xs arbitrary: ptr src m)
  case Nil
  then show ?case by (simp add: strcat_loop.simps put_Cons fun_upd_def)
next
  case (Cons x xs)
  let ?m = "m(ptr := x)"
  have "string_at ?m (src + 1) xs = string_at m (src + 1) xs"
    using Cons.prems(2) by (intro string_at_cong) auto
  then have "strcat_loop (ptr + 1) (src + 1) ?m = Some (put ?m (ptr + 1) (xs @ [0]))"
    using Cons.prems by (intro Cons.IH) (auto simp: fun_upd_def)
  then show ?case using Cons.prems(1) by (subst strcat_loop.simps) (auto simp: put_Cons fun_upd_def)
qed

lemma strncpy_loop_eq:
  assumes "string_at m (src + i) xs" and "i \<le> unat (n - 1)"
    and "dst + i + length xs < src + i \<or> src + i + length xs < dst"
  shows "strncpy_loop dst src n i m = put m (dst + i) (take (unat (n - 1) - i) xs @ [0])"
  using assms
proof (induction xs arbitrary: i m)
  case Nil
  then show ?case by (simp add: strncpy_loop.simps put_Cons fun_upd_def)
next
  case (Cons x xs)
  show ?case
  proof (cases "i < unat (n - 1)")
    case False
    then show ?thesis using Cons.prems(2) by (simp add: strncpy_loop.simps put_Cons fun_upd_def)
  next
    case True
    let ?m = "m(dst + i := x)"
    have "string_at ?m (src + (i + 1)) xs = string_at m (src + (i + 1)) xs"
      using Cons.prems(3) by (intro string_at_cong) auto
    then have "strncpy_loop dst src n (i + 1) ?m = put ?m (dst + (i + 1)) (take (unat (n - 1) - (i + 1)) xs @ [0])"
      using Cons.prems True by (intro Cons.IH) (auto simp: fun_upd_def)
    moreover have "unat (n - 1) - i = Suc (unat (n - 1) - (i + 1))" using True by simp
    ultimately show ?thesis using Cons.prems(1) True
      by (subst strncpy_loop.simps) (auto simp: put_Cons add.assoc fun_upd_def)
  qed
qed

section \<open>Comparisons\<close>

text \<open>The order of the C strings: byte by byte, a prefix first.\<close>

fun string_less :: "u8 list \<Rightarrow> u8 list \<Rightarrow> bool" where
  "string_less xs [] \<longleftrightarrow> False"
| "string_less [] (y # ys) \<longleftrightarrow> True"
| "string_less (x # xs) (y # ys) \<longleftrightarrow> x < y \<or> x = y \<and> string_less xs ys"

lemma byte_diff_sign [simp]:
  "byte_diff a b = 0 \<longleftrightarrow> a = b" "byte_diff a b < 0 \<longleftrightarrow> a < b" "0 < byte_diff a b \<longleftrightarrow> b < a"
  unfolding byte_diff_def word_unat_eq_iff word_less_nat_alt by linarith+

lemma strcmp_eq:
  assumes "string_at m s1 xs" and "string_at m s2 ys"
  shows "\<exists>r. strcmp m s1 s2 = Some r \<and> (r = 0 \<longleftrightarrow> xs = ys) \<and> (r < 0 \<longleftrightarrow> string_less xs ys)"
  using assms
proof (induction xs ys arbitrary: s1 s2 rule: string_less.induct)
  case (1 xs)
  then show ?case
    by (cases xs) (auto simp: strcmp.simps [of m s1 s2])
next
  case (2 y ys)
  then show ?case by (auto simp: strcmp.simps [of m s1 s2] word_gt_0)
next
  case (3 x xs y ys)
  then show ?case by (cases "x = y") (auto simp: strcmp.simps [of m s1 s2])
qed

lemma strncmp_rec:
  "strncmp m s1 s2 n =
    (if n = 0 then 0
     else if m s1 \<noteq> 0 \<and> m s1 = m s2 then strncmp m (s1 + 1) (s2 + 1) (n - 1)
     else byte_diff (m s1) (m s2))"
proof -
  have "n - 1 = - 1 \<longleftrightarrow> n = 0" by (metis add_diff_cancel_left' diff_0 diff_add_cancel)
  then show ?thesis
    by (simp add: strncmp_def strncmp_loop.simps [of m s1 s2 n] word_gt_0)
qed

lemma strncmp_eq:
  assumes "string_at m s1 xs" and "string_at m s2 ys"
  shows "(strncmp m s1 s2 n = 0 \<longleftrightarrow> take (unat n) xs = take (unat n) ys) \<and>
    (strncmp m s1 s2 n < 0 \<longleftrightarrow> string_less (take (unat n) xs) (take (unat n) ys))"
proof (cases "n = 0")
  case False
  then obtain k where k: "unat n = Suc k" "unat (n - 1) = k"
    by (metis One_nat_def Suc_pred' diff_Suc_1 unat_gt_0 unat_minus_one)
  from assms False k show ?thesis
  proof (induction xs ys arbitrary: s1 s2 n k rule: string_less.induct)
    case (1 xs)
    then show ?case by (cases xs) (auto simp: strncmp_rec [of m s1 s2])
  next
    case (2 y ys)
    then show ?case by (auto simp: strncmp_rec [of m s1 s2] word_gt_0)
  next
    case (3 x xs y ys)
    show ?case
    proof (cases "x = y \<and> n - 1 \<noteq> 0")
      case True
      then obtain l where "unat (n - 1) = Suc l" "unat (n - 1 - 1) = l"
        by (metis One_nat_def Suc_pred' diff_Suc_1 unat_gt_0 unat_minus_one)
      then show ?thesis using 3 True by (auto simp: strncmp_rec [of m s1 s2])
    next
      case False
      then show ?thesis using 3 by (auto simp: strncmp_rec [of m s1 s2] strncmp_rec [of m "Suc s1"])
    qed
  qed
qed (simp add: strncmp_rec [of m s1 s2])

section \<open>Blocks\<close>

lemma memset_loop_eq: "memset_loop n p c m = put m p (replicate n c)"
  by (induction n arbitrary: p m) (simp_all add: put_Cons fun_upd_def)

lemma copy_up_eq: "d \<le> s \<or> s + n \<le> d \<Longrightarrow> copy_up n d s m = put m d (bytes m s n)"
proof (induction n arbitrary: d s m)
  case (Suc n)
  have "bytes (m(d := m s)) (s + 1) n = bytes m (s + 1) n"
    using Suc.prems by (intro nth_equalityI) auto
  then show ?case using Suc by (auto simp: bytes_Suc put_Cons fun_upd_def)
qed simp

lemma copy_down_eq: "s \<le> d \<Longrightarrow> copy_down n (d + n) (s + n) m = put m d (bytes m s n)"
proof (induction n arbitrary: m)
  case (Suc n)
  let ?m = "m(d + n := m (s + n))"
  have "copy_down (Suc n) (d + Suc n) (s + Suc n) m = put ?m d (bytes ?m s n)"
    using Suc by simp
  also have "bytes ?m s n = bytes m s n"
    using Suc.prems by (intro nth_equalityI) auto
  also have "put ?m d (bytes m s n) = put m d (bytes m s (Suc n))"
    by (rule ext) (auto simp: put_def bytes_def nth_append)
  finally show ?case .
qed simp

lemma memmove_eq: "memmove m dst src n = put m dst (bytes m src (unat n))"
  by (simp add: memmove_def copy_up_eq copy_down_eq)

lemma memcmp_loop_eq: "memcmp_loop n p1 p2 m = 0 \<longleftrightarrow> bytes m p1 n = bytes m p2 n"
  by (induction n arbitrary: p1 p2) (auto simp: bytes_Suc)

lemma memcmp_loop_less:
  "memcmp_loop n p1 p2 m < 0 \<longleftrightarrow> string_less (bytes m p1 n) (bytes m p2 n)"
  by (induction n arbitrary: p1 p2) (auto simp: bytes_Suc)

section \<open>Properties\<close>

text \<open>
  C27: \<open>memmove\<close> copies the bytes of the source block as they were before the call,
  however the two blocks overlap, and changes nothing else; \<open>memcpy\<close>, which always
  copies upwards, agrees with it unless the destination starts inside the source;
  \<open>memset\<close> fills the block with the low byte of its argument.
\<close>

theorem memmove_correct:
  "memmove m dst src n = put m dst (bytes m src (unat n))
    \<and> memset m dst c n = put m dst (replicate (unat n) (ucast c))
    \<and> (dst \<le> src \<or> src + unat n \<le> dst \<longrightarrow> memcpy m dst src n = memmove m dst src n)"
  by (simp add: memmove_eq memset_def memset_loop_eq memcpy_def copy_up_eq)

theorem memmove_witness: "memcpy (\<lambda>a. of_nat a) 4 6 3 = memmove (\<lambda>a. of_nat a) 4 6 3"
  using memmove_correct [of "\<lambda>a. of_nat a" 4 6 3 0] by simp

text \<open>
  The string functions on a string \<open>xs\<close> whose copy does not overlap it: \<open>strlen\<close>
  returns its length, \<open>strcpy\<close> and \<open>strcat\<close> return and leave the string \<open>xs\<close>, or \<open>ys\<close>
  followed by \<open>xs\<close>, in the destination, with every byte outside the copy as before.
\<close>

lemma strcpy_correct:
  assumes "string_at m src xs" and "string_at m dst ys"
    and "dst + length ys + length xs < src \<or> src + length xs < dst"
  shows "strlen m src = Some (of_nat (length xs))
    \<and> strcpy m dst src = Some (put m dst (xs @ [0])) \<and> string_at (put m dst (xs @ [0])) dst xs
    \<and> strcat m dst src = Some (put m (dst + length ys) (xs @ [0]))
    \<and> string_at (put m (dst + length ys) (xs @ [0])) dst (ys @ xs)"
proof -
  have z: "0 \<notin> set xs" "0 \<notin> set ys" using assms(1,2) by (simp_all add: string_at_def)
  have "put m (dst + length ys) (xs @ [0]) = put m dst ((ys @ xs) @ [0])"
    using assms(2) by (simp only: append_assoc put_append put_bytes_self string_at_def)
  then have "string_at (put m (dst + length ys) (xs @ [0])) dst (ys @ xs)"
    using string_at_put [of "ys @ xs" m dst] z by simp
  then show ?thesis
    using assms z strcpy_loop_eq [of m src 0 xs dst] strcat_loop_eq [of m src xs "dst + length ys"]
    by (auto simp: strlen_def scan_nul_string strcpy_def strcat_def string_at_put)
qed

text \<open>
  \<open>strncpy\<close> copies at most \<open>n - 1\<close> bytes of the string and always terminates the copy.
  The bound is computed as a \<open>size_t\<close>, so that a count of 0 is the bound \<open>SIZE_MAX\<close>: the
  call then copies the whole string instead of nothing.
\<close>

lemma strncpy_correct:
  assumes "string_at m src xs" and "dst + length xs < src \<or> src + length xs < dst"
  shows "strncpy m dst src n = put m dst (take (unat (n - 1)) xs @ [0])
    \<and> strncpy m dst src 0 = put m dst (take 4294967295 xs @ [0])"
proof -
  have *: "strncpy m dst src n = put m dst (take (unat (n - 1)) xs @ [0])" for n
    using assms strncpy_loop_eq [of m src 0 xs n dst] by (simp add: strncpy_def)
  show ?thesis using * [of n] * [of 0] by (simp add: unsigned_minus_1_eq_mask mask_eq_exp_minus_1)
qed

text \<open>
  \<open>strcmp\<close> returns on every two strings, with 0 exactly on equal strings and a
  negative result exactly when the first comes before the second in byte order;
  \<open>strncmp\<close> compares their first \<open>n\<close> bytes that way, \<open>memcmp\<close> two blocks of \<open>n\<close> bytes.
\<close>

lemma strcmp_correct:
  assumes "string_at m s1 xs" and "string_at m s2 ys"
  shows "(\<exists>r. strcmp m s1 s2 = Some r \<and> (r = 0 \<longleftrightarrow> xs = ys) \<and> (r < 0 \<longleftrightarrow> string_less xs ys))
    \<and> (strncmp m s1 s2 n = 0 \<longleftrightarrow> take (unat n) xs = take (unat n) ys)
    \<and> (strncmp m s1 s2 n < 0 \<longleftrightarrow> string_less (take (unat n) xs) (take (unat n) ys))
    \<and> (memcmp m s1 s2 n = 0 \<longleftrightarrow> bytes m s1 (unat n) = bytes m s2 (unat n))
    \<and> (memcmp m s1 s2 n < 0 \<longleftrightarrow> string_less (bytes m s1 (unat n)) (bytes m s2 (unat n)))"
  using strcmp_eq [OF assms] strncmp_eq [OF assms, of n]
  by (simp add: memcmp_def memcmp_loop_eq memcmp_loop_less)

end
