(* ===== verification/Klib_Stdlib.thy ===== *)
theory Klib_Stdlib
  imports Klib_String
begin

text \<open>
  \<open>abstract-machine/klib/src/stdlib.c\<close>: the linear congruential generator, \<open>abs\<close>, \<open>atoi\<close>
  and the bump allocator behind \<open>malloc\<close>; and the rounding macros of
  \<open>klib-macros.h\<close>. The file also states the contract of a bump allocator as a locale,
  which the allocator of microbench meets too.
\<close>

section \<open>Rounding\<close>

definition ROUNDUP :: "u32 \<Rightarrow> u32 \<Rightarrow> u32" where
  "ROUNDUP a sz = (a + sz - 1) AND NOT (sz - 1)"

definition ROUNDDOWN :: "u32 \<Rightarrow> u32 \<Rightarrow> u32" where
  "ROUNDDOWN a sz = a AND NOT (sz - 1)"

section \<open>The state of the library\<close>

record klib =
  next_rand :: u32
  start_addr :: u32

definition klib_init :: klib where
  "klib_init = \<lparr>next_rand = 1, start_addr = 0\<rparr>"

definition rand :: "klib \<Rightarrow> u32 \<times> klib" where
  "rand k =
    (let n = next_rand k * 1103515245 + 12345
     in ((n div 65536) mod 32768, k\<lparr>next_rand := n\<rparr>))"

definition srand :: "u32 \<Rightarrow> klib \<Rightarrow> klib" where
  "srand seed k = k\<lparr>next_rand := seed\<rparr>"

text \<open>The negation of \<open>int\<close> wraps, as the compiled code does.\<close>

definition abs_c :: "u32 \<Rightarrow> u32" where
  "abs_c x = (if sint x < 0 then - x else x)"

partial_function (option) skip_spaces :: "mem \<Rightarrow> nat \<Rightarrow> nat option" where
  "skip_spaces m p = (if m p = 32 then skip_spaces m (p + 1) else Some p)"

partial_function (option) atoi_loop :: "mem \<Rightarrow> nat \<Rightarrow> u32 \<Rightarrow> u32 option" where
  "atoi_loop m p x =
    (if 48 \<le> m p \<and> m p \<le> 57 then atoi_loop m (p + 1) (x * 10 + ucast (m p) - 48) else Some x)"

definition atoi :: "mem \<Rightarrow> nat \<Rightarrow> u32 option" where
  "atoi m nptr = Option.bind (skip_spaces m nptr) (\<lambda>p. atoi_loop m p 0)"

text \<open>
  \<open>heap.start\<close> is the platform's. The allocator never compares with \<open>heap.end\<close> and
  never reuses a block: \<open>free\<close> does nothing.
\<close>

definition malloc :: "u32 \<Rightarrow> klib \<Rightarrow> u32 \<Rightarrow> u32 \<times> klib" where
  "malloc heap_start k n =
    (let k = (if start_addr k = 0 then k\<lparr>start_addr := ROUNDUP heap_start 8\<rparr> else k);
         n = ROUNDUP n 8;
         old = start_addr k
     in (old, k\<lparr>start_addr := start_addr k + n\<rparr>))"

definition free :: "u32 \<Rightarrow> klib \<Rightarrow> klib" where
  "free ptr k = k"

section \<open>Rounding, in numbers\<close>

lemma and_not_mask: "x AND NOT (mask n) = push_bit n (drop_bit n x)" for x :: "'a::len word"
  by (rule bit_word_eqI) (auto simp: bit_simps)

lemma unat_and_not_mask: "unat (x AND NOT (mask n)) = unat x div 2 ^ n * 2 ^ n" for x :: "'a::len word"
proof -
  have "unat x div 2 ^ n * 2 ^ n \<le> unat x" by (rule div_times_less_eq_dividend)
  then have "unat x div 2 ^ n * 2 ^ n < 2 ^ LENGTH('a)" using unat_below [of x] by linarith
  then show ?thesis unfolding and_not_mask unat_push_bit unat_drop_bit by simp
qed

definition round8 :: "nat \<Rightarrow> nat" where
  "round8 n = (n + 7) div 8 * 8"

lemma round8_ge: "n \<le> round8 n" and round8_le: "round8 n \<le> n + 7" and round8_dvd: "8 dvd round8 n"
  unfolding round8_def by presburger+

lemma unat_ROUNDUP8:
  assumes "unat a + 7 < 2 ^ 32"
  shows "unat (ROUNDUP a 8) = round8 (unat a)"
proof -
  have "unat (a + 7) = unat a + 7" using assms by (simp add: unat_word_ariths)
  moreover have "ROUNDUP a 8 = (a + 7) AND NOT (mask 3)"
    by (simp add: ROUNDUP_def mask_eq_exp_minus_1 add.commute)
  ultimately show ?thesis using unat_and_not_mask [of "a + 7" 3] by (simp add: round8_def)
qed

section \<open>Bump allocation\<close>

text \<open>
  The contract: an allocation that returns gives the current break, which is then moved
  up by the size rounded to 8. The client is a sequence of allocations; what it relies
  on is that their blocks are aligned and never overlap.
\<close>

primrec alloc_seq :: "('s \<Rightarrow> u32 \<Rightarrow> (u32 \<times> 's) option) \<Rightarrow> u32 list \<Rightarrow> 's \<Rightarrow> (u32 list \<times> 's) option" where
  "alloc_seq alloc [] s = Some ([], s)"
| "alloc_seq alloc (n # ns) s =
    (case alloc s n of
       None \<Rightarrow> None
     | Some (p, s') \<Rightarrow> map_option (\<lambda>(ps, t). (p # ps, t)) (alloc_seq alloc ns s'))"

text \<open>The blocks lie one after the other in \<open>[lo, hi]\<close>.\<close>

fun laid_out :: "nat \<Rightarrow> u32 list \<Rightarrow> u32 list \<Rightarrow> nat \<Rightarrow> bool" where
  "laid_out lo [] [] hi \<longleftrightarrow> lo \<le> hi"
| "laid_out lo (p # ps) (n # ns) hi \<longleftrightarrow>
    lo \<le> unat p \<and> 8 dvd unat p \<and> laid_out (unat p + unat n) ps ns hi"
| "laid_out lo _ _ hi \<longleftrightarrow> False"

lemma laid_out_mono: "laid_out lo ps ns hi \<Longrightarrow> lo' \<le> lo \<Longrightarrow> laid_out lo' ps ns hi"
  by (induction lo ps ns hi rule: laid_out.induct) auto

lemma laid_out_bounds: "laid_out lo ps ns hi \<Longrightarrow> lo \<le> hi"
  by (induction lo ps ns hi rule: laid_out.induct) auto

lemma laid_out_above: "laid_out lo ps ns hi \<Longrightarrow> i < length ps \<Longrightarrow> lo \<le> unat (ps ! i) \<and> unat (ps ! i) + unat (ns ! i) \<le> hi"
proof (induction lo ps ns hi arbitrary: i rule: laid_out.induct)
  case (2 lo p ps n ns hi)
  have "unat p + unat n \<le> hi" using 2(2) laid_out_bounds [of "unat p + unat n" ps ns hi] by simp
  with 2 show ?case by (cases i) fastforce+
qed auto

lemma laid_out_disjoint:
  "laid_out lo ps ns hi \<Longrightarrow> i < j \<Longrightarrow> j < length ps \<Longrightarrow> unat (ps ! i) + unat (ns ! i) \<le> unat (ps ! j)"
proof (induction lo ps ns hi arbitrary: i j rule: laid_out.induct)
  case (2 lo p ps n ns hi)
  then obtain j' where j: "j = Suc j'" "j' < length ps" by (cases j) auto
  show ?case
  proof (cases i)
    case 0
    then show ?thesis using 2 j laid_out_above [of "unat p + unat n" ps ns hi j'] by simp
  next
    case (Suc i')
    then show ?thesis using 2 j by simp
  qed
qed auto

lemma laid_out_aligned: "laid_out lo ps ns hi \<Longrightarrow> i < length ps \<Longrightarrow> 8 dvd unat (ps ! i)"
  by (induction lo ps ns hi arbitrary: i rule: laid_out.induct) (auto simp: nth_Cons')

locale bump_allocator =
  fixes alloc :: "'s \<Rightarrow> u32 \<Rightarrow> (u32 \<times> 's) option"
    and brk :: "'s \<Rightarrow> nat"
  assumes alloc_bumps:
    "alloc s n = Some (p, s') \<Longrightarrow> 8 dvd brk s \<Longrightarrow> 0 < brk s \<Longrightarrow> brk s + unat n + 7 < 2 ^ 32 \<Longrightarrow>
      unat p = brk s \<and> brk s' = brk s + round8 (unat n)"
begin

lemma alloc_seq_laid_out:
  assumes "alloc_seq alloc ns s = Some (ps, t)" and "8 dvd brk s" and "0 < brk s"
    and "brk s + (\<Sum>n\<leftarrow>ns. unat n + 7) < 2 ^ 32"
  shows "laid_out (brk s) ps ns (brk t) \<and> 8 dvd brk t"
  using assms
proof (induction ns arbitrary: s ps)
  case (Cons n ns)
  obtain p s' ps' where a: "alloc s n = Some (p, s')" "alloc_seq alloc ns s' = Some (ps', t)" "ps = p # ps'"
    using Cons.prems(1) by (auto split: option.splits)
  have b: "unat p = brk s" "brk s' = brk s + round8 (unat n)"
    using alloc_bumps [OF a(1) Cons.prems(2,3)] Cons.prems(3,4) by auto
  have "8 dvd brk s'" using b(2) Cons.prems(2) round8_dvd by simp
  then have "laid_out (brk s') ps' ns (brk t) \<and> 8 dvd brk t"
    using a(2) Cons.prems(3,4) b(2) round8_le [of "unat n"] by (intro Cons.IH) auto
  then show ?case
    using a(3) b Cons.prems(2) round8_ge [of "unat n"] laid_out_mono by auto
qed auto

end

text \<open>\<open>malloc\<close> meets the contract; its break starts at \<open>heap.start\<close> rounded up.\<close>

definition malloc_brk :: "u32 \<Rightarrow> klib \<Rightarrow> nat" where
  "malloc_brk heap_start k =
    unat (if start_addr k = 0 then ROUNDUP heap_start 8 else start_addr k)"

lemma malloc_bumps:
  assumes "malloc heap_start k n = (p, k')" and "malloc_brk heap_start k + unat n + 7 < 2 ^ 32"
    and "0 < malloc_brk heap_start k"
  shows "unat p = malloc_brk heap_start k" and "malloc_brk heap_start k' = malloc_brk heap_start k + round8 (unat n)"
proof -
  define b where "b = (if start_addr k = 0 then ROUNDUP heap_start 8 else start_addr k)"
  have b: "malloc_brk heap_start k = unat b" by (simp add: malloc_brk_def b_def)
  have p: "p = b" and k': "start_addr k' = b + ROUNDUP n 8"
    using assms(1) by (auto simp: malloc_def Let_def b_def split: if_splits)
  have "unat (b + ROUNDUP n 8) = unat b + round8 (unat n)"
    using assms(2) round8_le [of "unat n"] by (simp add: b unat_word_ariths unat_ROUNDUP8)
  moreover from this have "b + ROUNDUP n 8 \<noteq> 0" using assms(3) b by (metis add_is_0 less_irrefl unat_0)
  ultimately show "unat p = malloc_brk heap_start k"
    "malloc_brk heap_start k' = malloc_brk heap_start k + round8 (unat n)"
    by (simp_all add: p b k' malloc_brk_def [of _ k'])
qed

interpretation heap: bump_allocator "\<lambda>k n. Some (malloc heap_start k n)" "malloc_brk heap_start" for heap_start
  by unfold_locales (auto dest: malloc_bumps)

section \<open>Numbers in memory\<close>

primrec digits_value :: "nat \<Rightarrow> u8 list \<Rightarrow> nat" where
  "digits_value x [] = x"
| "digits_value x (d # ds) = digits_value (x * 10 + (unat d - 48)) ds"

definition is_digit :: "u8 \<Rightarrow> bool" where
  "is_digit c \<longleftrightarrow> 48 \<le> c \<and> c \<le> 57"

lemma digit_word: "is_digit d \<Longrightarrow> of_nat x * 10 + ucast d - 48 = (of_nat (x * 10 + (unat d - 48)) :: u32)"
proof -
  assume "is_digit d"
  then have "48 \<le> unat d" by (simp add: is_digit_def word_le_nat_alt)
  then have "(of_nat (unat d - 48) :: u32) = ucast d - 48" by (simp add: of_nat_diff)
  then show ?thesis by (simp add: algebra_simps)
qed

lemma atoi_loop_digits:
  assumes "\<forall>i < length ds. m (p + i) = ds ! i" and "list_all is_digit ds" and "\<not> is_digit (m (p + length ds))"
  shows "atoi_loop m p (of_nat x) = Some (of_nat (digits_value x ds))"
  using assms
proof (induction ds arbitrary: p x)
  case Nil
  then show ?case by (subst atoi_loop.simps) (auto simp: is_digit_def)
next
  case (Cons d ds)
  have d: "m p = d" using Cons.prems(1) by fastforce
  have "\<forall>i < length ds. m (p + 1 + i) = ds ! i" using Cons.prems(1) by fastforce
  then have "atoi_loop m (p + 1) (of_nat (x * 10 + (unat d - 48))) = Some (of_nat (digits_value x (d # ds)))"
    using Cons.prems(2,3) Cons.IH [of "p + 1" "x * 10 + (unat d - 48)"] by simp
  moreover have "is_digit d" using Cons.prems(2) by simp
  ultimately show ?case using d digit_word [of d x]
    by (subst atoi_loop.simps) (simp only: is_digit_def [symmetric] if_True)
qed

lemma skip_spaces_eq:
  "\<forall>i < k. m (p + i) = 32 \<Longrightarrow> m (p + k) \<noteq> 32 \<Longrightarrow> skip_spaces m p = Some (p + k)"
proof (induction k arbitrary: p)
  case (Suc k)
  have "m p = 32" using Suc.prems(1) by fastforce
  moreover have "\<forall>i < k. m (p + 1 + i) = 32" using Suc.prems(1) by fastforce
  ultimately show ?case using Suc by (simp add: skip_spaces.simps)
qed (simp add: skip_spaces.simps)

lemma atoi_digits:
  assumes "bytes m p (k + length ds) = replicate k 32 @ ds" and "list_all is_digit ds"
    and "\<not> is_digit (m (p + k + length ds))" and "m (p + k) \<noteq> 32"
  shows "atoi m p = Some (of_nat (digits_value 0 ds))"
proof -
  have b: "m (p + i) = (replicate k 32 @ ds) ! i" if "i < k + length ds" for i
    using that arg_cong [OF assms(1), of "\<lambda>xs. xs ! i"] by simp
  have "\<forall>i < length ds. m (p + k + i) = ds ! i"
    using b [of "k + i" for i] by (auto simp: nth_append add.assoc)
  from atoi_loop_digits [OF this assms(2,3), of 0] skip_spaces_eq [of k m p] b assms(4)
  show ?thesis by (simp add: atoi_def nth_append)
qed

section \<open>Properties\<close>

text \<open>
  A sequence of \<open>malloc\<close> calls whose blocks fit below the end of the address space
  returns blocks aligned to 8 that lie one after the other: no two of them overlap, and
  none reaches below \<open>heap.start\<close>. \<open>heap.end\<close> plays no part.
\<close>

lemma malloc_blocks_disjoint:
  assumes "alloc_seq (\<lambda>k n. Some (malloc heap_start k n)) ns (k\<lparr>start_addr := 0\<rparr>) = Some (ps, t)"
    and "0 < unat heap_start" and "unat heap_start + 7 + (\<Sum>n\<leftarrow>ns. unat n + 7) < 2 ^ 32"
  shows "(\<forall>i < length ps. unat heap_start \<le> unat (ps ! i) \<and> 8 dvd unat (ps ! i)) \<and>
    (\<forall>i j. i < j \<and> j < length ps \<longrightarrow> unat (ps ! i) + unat (ns ! i) \<le> unat (ps ! j))"
proof -
  let ?s = "k\<lparr>start_addr := 0\<rparr>"
  have b: "malloc_brk heap_start ?s = round8 (unat heap_start)"
    using assms(3) by (simp add: malloc_brk_def unat_ROUNDUP8)
  have "8 dvd malloc_brk heap_start ?s" "0 < malloc_brk heap_start ?s"
    "malloc_brk heap_start ?s + (\<Sum>n\<leftarrow>ns. unat n + 7) < 2 ^ 32"
    using assms(2,3) round8_ge [of "unat heap_start"] round8_le [of "unat heap_start"] round8_dvd
    unfolding b by auto
  note l = heap.alloc_seq_laid_out [OF assms(1) this, THEN conjunct1]
  have "unat heap_start \<le> malloc_brk heap_start ?s" unfolding b by (rule round8_ge)
  then show ?thesis
    using laid_out_above [OF l] laid_out_aligned [OF l] laid_out_disjoint [OF l] by (meson order_trans)
qed

text \<open>
  \<open>atoi\<close> skips leading spaces and returns the value of the digits up to the first
  other character, modulo the range of \<open>int\<close>.
\<close>

lemma atoi_correct:
  assumes "bytes m p (k + length ds) = replicate k 32 @ ds" and "list_all is_digit ds"
    and "\<not> is_digit (m (p + k + length ds))" and "m (p + k) \<noteq> 32"
  shows "atoi m p = Some (of_nat (digits_value 0 ds))"
  by (rule atoi_digits [OF assms])

text \<open>
  \<open>rand\<close> returns a number below 32768, and its state transition is a permutation of
  the 32-bit states: the state before a call can be computed from the state after it, so
  two generators whose states differ never fall into step.
\<close>

lemma rand_correct:
  "unat (fst (rand k)) < 32768
    \<and> next_rand k = (next_rand (snd (rand k)) - 12345) * 4005161829"
proof -
  have "(next_rand (snd (rand k)) - 12345) * 4005161829 = next_rand k * (1103515245 * 4005161829)"
    by (simp add: rand_def Let_def)
  also have "(1103515245 * 4005161829 :: u32) = 1" by simp
  finally show ?thesis by (simp add: rand_def Let_def unat_mod_distrib)
qed

end
