(* ===== verification/Klib_Stdio.thy ===== *)
theory Klib_Stdio
  imports Klib_Stdlib "HOL-Library.Signed_Division"
begin

text \<open>
  The formatted output of klib (\<open>abstract-machine/klib/src/stdio.c\<close>). A format is the list of
  its bytes without the terminating 0; the variable arguments are a list of words and
  strings, and taking an argument that is missing or of the other kind is undefined in C:
  \<open>None\<close>. So is a format that ends in a percent sign, after which the code reads on behind the
  terminator. What \<open>putch\<close> receives, or what lies behind \<open>out\<close>, is the list of bytes.
\<close>

datatype va = VInt u32 | VStr "u8 list"

section \<open>Numbers\<close>

text \<open>The signed \<open>num % 10\<close> and \<open>num /= 10\<close> truncate; the negation of \<open>INT_MIN\<close> wraps.\<close>

definition neg32 :: "int \<Rightarrow> int" where
  "neg32 n = sint (- word_of_int n :: u32)"

function dec_loop :: "nat \<Rightarrow> int \<Rightarrow> nat \<Rightarrow> u8 list" where
  "dec_loop limit num len =
    (let c = word_of_int (48 + num smod 10); num = num sdiv 10
     in if num > 0 \<and> len + 1 < limit then c # dec_loop limit num (len + 1) else [c])"
  by pat_completeness auto
termination by (relation "measure (\<lambda>(limit, num, len). limit - len)") auto

function hex_loop :: "nat \<Rightarrow> u32 \<Rightarrow> nat \<Rightarrow> u8 list" where
  "hex_loop limit num len =
    (let d = num mod 16; c = ucast (if d < 10 then 48 + d else 87 + d); num = num div 16
     in if num > 0 \<and> len + 1 < limit then c # hex_loop limit num (len + 1) else [c])"
  by pat_completeness auto
termination by (relation "measure (\<lambda>(limit, num, len). limit - len)") auto

declare dec_loop.simps [simp del] hex_loop.simps [simp del]

text \<open>The digits are produced from the last and put out from the first.\<close>

definition print_dec :: "nat \<Rightarrow> u32 \<Rightarrow> u8 list" where
  "print_dec limit w =
    (let num = sint w
     in if num < 0 then 45 # rev (dec_loop limit (neg32 num) 0) else rev (dec_loop limit num 0))"

section \<open>printf\<close>

definition printf_conv :: "u8 \<Rightarrow> va list \<Rightarrow> (u8 list \<times> va list) option" where
  "printf_conv c args =
    (if c = 115 then (case args of VStr s # as \<Rightarrow> Some (s, as) | _ \<Rightarrow> None)
     else if c = 100 then (case args of VInt n # as \<Rightarrow> Some (print_dec 31 n, as) | _ \<Rightarrow> None)
     else if c = 120 then (case args of VInt n # as \<Rightarrow> Some (rev (hex_loop 31 n 0), as) | _ \<Rightarrow> None)
     else if c = 99 then (case args of VInt n # as \<Rightarrow> Some ([ucast n], as) | _ \<Rightarrow> None)
     else if c = 37 then Some ([37], args)
     else Some ([37, c], args))"

fun printf_loop :: "u8 list \<Rightarrow> va list \<Rightarrow> u8 list \<Rightarrow> nat \<Rightarrow> (u8 list \<times> nat) option" where
  "printf_loop [] args out count = Some (out, count)"
| "printf_loop (c # fmt) args out count =
    (if c \<noteq> 37 then printf_loop fmt args (out @ [c]) (count + 1)
     else case fmt of
       [] \<Rightarrow> None
     | d # fmt' \<Rightarrow>
         (case printf_conv d args of
            None \<Rightarrow> None
          | Some (s, args') \<Rightarrow> printf_loop fmt' args' (out @ s) (count + length s)))"

definition printf :: "u8 list \<Rightarrow> va list \<Rightarrow> (u8 list \<times> nat) option" where
  "printf fmt args = printf_loop fmt args [] 0"

section \<open>sprintf\<close>

text \<open>
  \<open>sprintf\<close> knows \<open>%s\<close> and \<open>%d\<close>, whose digit loop has no bound of its own (the 128 bytes of
  \<open>buf\<close> are enough: see \<open>dec_loop_digits\<close>); any other conversion character is copied
  without its percent sign, which \<open>p[-1]\<close> overwrites.
\<close>

definition sprintf_conv :: "u8 \<Rightarrow> va list \<Rightarrow> (u8 list \<times> va list) option" where
  "sprintf_conv c args =
    (if c = 115 then (case args of VStr s # as \<Rightarrow> Some (s, as) | _ \<Rightarrow> None)
     else if c = 100 then (case args of VInt n # as \<Rightarrow> Some (print_dec 128 n, as) | _ \<Rightarrow> None)
     else Some ([c], args))"

fun sprintf_loop :: "u8 list \<Rightarrow> va list \<Rightarrow> u8 list \<Rightarrow> u8 list option" where
  "sprintf_loop [] args p = Some p"
| "sprintf_loop (c # fmt) args p =
    (if c \<noteq> 37 then sprintf_loop fmt args (p @ [c])
     else case fmt of
       [] \<Rightarrow> None
     | d # fmt' \<Rightarrow>
         (case sprintf_conv d args of
            None \<Rightarrow> None
          | Some (s, args') \<Rightarrow> sprintf_loop fmt' args' (p @ s)))"

text \<open>The bytes written from \<open>out\<close> on, and the number returned.\<close>

definition sprintf :: "u8 list \<Rightarrow> va list \<Rightarrow> (u8 list \<times> nat) option" where
  "sprintf fmt args = map_option (\<lambda>p. (p @ [0], length p)) (sprintf_loop fmt args [])"

section \<open>The digits of a number\<close>

lemma sdiv_nonneg: "0 \<le> (n :: int) \<Longrightarrow> n sdiv 10 = n div 10" "0 \<le> n \<Longrightarrow> n smod 10 = n mod 10"
  by (auto simp: signed_divide_int_def signed_modulo_int_def sgn_if)

primrec dec_value :: "u8 list \<Rightarrow> nat" where
  "dec_value [] = 0"
| "dec_value (d # ds) = unat d - 48 + 10 * dec_value ds"

lemma digits_value_append: "digits_value x (xs @ ys) = digits_value (digits_value x xs) ys"
  by (induction xs arbitrary: x) auto

lemma digits_value_rev: "digits_value 0 (rev ds) = dec_value ds"
  by (induction ds) (simp_all add: digits_value_append)

lemma dec_digit: "0 \<le> r \<Longrightarrow> r < 10 \<Longrightarrow> unat (word_of_int (48 + r) :: u8) = 48 + nat r"
proof -
  assume "0 \<le> r" "r < 10"
  then obtain k where k: "r = int k" "k < 10" using nonneg_int_cases [of r] by auto
  have "(word_of_int (48 + r) :: u8) = of_nat (48 + k)" by (simp add: k)
  moreover have "unat (of_nat (48 + k) :: u8) = (48 + k) mod 256" by (simp only: unat_of_nat) simp
  ultimately show ?thesis using k by simp
qed

lemma dec_loop_digits:
  assumes "0 \<le> n" and "n < 10 ^ k" and "len + k \<le> limit" and "0 < k"
  shows "dec_value (dec_loop limit n len) = nat n \<and> list_all is_digit (dec_loop limit n len)
    \<and> length (dec_loop limit n len) \<le> k \<and> dec_loop limit n len \<noteq> []"
  using assms
proof (induction limit n len arbitrary: k rule: dec_loop.induct)
  case (1 limit n len)
  define c :: u8 where "c = word_of_int (48 + n mod 10)"
  have c: "unat c = 48 + nat (n mod 10)" unfolding c_def by (rule dec_digit) simp_all
  then have dig: "is_digit c" by (simp add: is_digit_def word_le_nat_alt nat_le_iff)
  have rec: "dec_loop limit n len = (if n div 10 > 0 \<and> len + 1 < limit then c # dec_loop limit (n div 10) (len + 1) else [c])"
    using 1(2) by (subst dec_loop.simps) (simp add: Let_def sdiv_nonneg c_def)
  show ?case
  proof (cases "n div 10 > 0")
    case True
    then obtain k' where k: "k = Suc k'" "0 < k'" using 1(3,5) by (cases k; cases "k - 1") auto
    have lt: "n div 10 < 10 ^ k'" using 1(3) k by simp
    have "dec_value (dec_loop limit (n div 10) (len + 1)) = nat (n div 10)
        \<and> list_all is_digit (dec_loop limit (n div 10) (len + 1))
        \<and> length (dec_loop limit (n div 10) (len + 1)) \<le> k' \<and> dec_loop limit (n div 10) (len + 1) \<noteq> []"
      by (rule 1(1) [OF refl refl, of k', unfolded sdiv_nonneg(1) [OF 1(2)]])
        (use 1(2,4) lt k True in auto)
    moreover have "nat n = nat (n mod 10) + 10 * nat (n div 10)"
      using 1(2) by (simp add: nat_mod_distrib nat_div_distrib)
    moreover have "dec_loop limit n len = c # dec_loop limit (n div 10) (len + 1)"
      using True 1(4) k by (simp add: rec)
    ultimately show ?thesis using k(1) c dig by (simp only: dec_value.simps list.pred_inject list.size) simp
  next
    case False
    then have "n mod 10 = n" using 1(2) by presburger
    then show ?thesis using False 1(5) c dig by (simp add: rec)
  qed
qed

lemma neg32_abs: "sint w \<noteq> - 2147483648 \<Longrightarrow> sint w < 0 \<Longrightarrow> neg32 (sint w) = \<bar>sint w\<bar>" for w :: u32
proof -
  assume "sint w \<noteq> - 2147483648" "sint w < 0"
  then have "sint (word_of_int (- sint w) :: u32) = - sint w"
    using sint_ge [of w] unfolding int_word_sint by (simp add: mod_pos_pos_trivial)
  then show ?thesis using \<open>sint w < 0\<close> by (simp add: neg32_def)
qed

lemma print_dec_digits:
  assumes "sint w \<noteq> - 2147483648" and "10 \<le> limit"
  shows "\<exists>ds. print_dec limit w = (if sint w < 0 then [45] else []) @ ds \<and> list_all is_digit ds \<and> ds \<noteq> []
    \<and> length ds \<le> 10 \<and> digits_value 0 ds = nat \<bar>sint w\<bar>"
proof -
  have range: "\<bar>sint w\<bar> < 10 ^ 10" using sint_ge [of w] sint_lt [of w] by auto
  let ?ds = "dec_loop limit \<bar>sint w\<bar> 0"
  have d: "dec_value ?ds = nat \<bar>sint w\<bar> \<and> list_all is_digit ?ds \<and> length ?ds \<le> 10 \<and> ?ds \<noteq> []"
    using assms(2) by (intro dec_loop_digits) (use range in auto)
  have "print_dec limit w = (if sint w < 0 then [45] else []) @ rev ?ds"
    by (auto simp: print_dec_def Let_def neg32_abs [OF assms(1)])
  with d show ?thesis by (intro exI [of _ "rev ?ds"]) (simp add: digits_value_rev)
qed

lemma dec_loop_limit:
  "0 \<le> n \<Longrightarrow> n < 10 ^ Suc k \<Longrightarrow> len + Suc k \<le> l \<Longrightarrow> len + Suc k \<le> l' \<Longrightarrow>
    dec_loop l n len = dec_loop l' n len"
proof (induction k arbitrary: n len)
  case 0
  then have "n div 10 = 0" by simp
  with 0 show ?case by (subst (1 2) dec_loop.simps) (simp add: sdiv_nonneg)
next
  case (Suc k)
  have "dec_loop l (n div 10) (len + 1) = dec_loop l' (n div 10) (len + 1)"
    using Suc.prems by (intro Suc.IH) auto
  with Suc.prems show ?case by (subst (1 2) dec_loop.simps) (simp add: sdiv_nonneg Let_def)
qed

lemma print_dec_limit: "sint w \<noteq> - 2147483648 \<Longrightarrow> print_dec 31 w = print_dec 128 w"
proof -
  assume w: "sint w \<noteq> - 2147483648"
  have "dec_loop 31 \<bar>sint w\<bar> 0 = dec_loop 128 \<bar>sint w\<bar> 0"
    using sint_ge [of w] sint_lt [of w] by (intro dec_loop_limit [where k = 9]) auto
  then show ?thesis by (auto simp: print_dec_def Let_def neg32_abs [OF w])
qed

lemma printf_loop_count:
  "printf_loop fmt args out n = Some (out', n') \<Longrightarrow> n = length out \<Longrightarrow> n' = length out'"
proof (induction fmt args out n rule: printf_loop.induct)
  case (2 c fmt args out n)
  show ?case
  proof (cases "c = 37")
    case True
    then obtain d fmt' where f: "fmt = d # fmt'" using 2(3) by (cases fmt) auto
    obtain s args' where p: "printf_conv d args = Some (s, args')"
      using 2(3) True f by (cases "printf_conv d args") auto
    show ?thesis using 2(2) [of d fmt' "(s, args')" s args'] 2(3,4) True f p by simp
  qed (use 2 in simp)
qed simp

lemma printf_loop_plain:
  "37 \<notin> set fmt \<Longrightarrow> printf_loop fmt args out n = Some (out @ fmt, n + length fmt)"
  by (induction fmt arbitrary: out n) auto

lemma sprintf_loop_plain: "37 \<notin> set fmt \<Longrightarrow> sprintf_loop fmt args p = Some (p @ fmt)"
  by (induction fmt arbitrary: p) auto

section \<open>Properties\<close>

text \<open>
  \<open>printf\<close> returns the number of characters it put out, \<open>sprintf\<close> the number it wrote
  before the terminating 0, and a format without percent signs is printed as it is.
\<close>

lemma printf_count_correct:
  assumes "printf fmt args = Some (out, n)" and "sprintf fmt args = Some (buf, k)" and "37 \<notin> set text"
  shows "n = length out \<and> (\<exists>s. buf = s @ [0] \<and> k = length s)
    \<and> printf text args = Some (text, length text) \<and> sprintf text args = Some (text @ [0], length text)"
  using assms printf_loop_count [of fmt args "[]" 0]
  by (auto simp: printf_def sprintf_def printf_loop_plain sprintf_loop_plain)

text \<open>
  \<open>%d\<close> prints every \<open>int\<close> but the least as an optional minus sign and at most ten
  digits whose value is its magnitude, in \<open>printf\<close> and \<open>sprintf\<close> alike; the buffers of 32 and
  128 bytes are never full. The least \<open>int\<close>, whose negation overflows, is printed as \<open>-(\<close>.
\<close>

lemma print_decimal_correct:
  assumes "sint w \<noteq> - 2147483648"
  shows "(\<exists>ds. printf [37, 100] [VInt w] = Some ((if sint w < 0 then [45] else []) @ ds, length ds + (if sint w < 0 then 1 else 0))
      \<and> list_all is_digit ds \<and> ds \<noteq> [] \<and> length ds \<le> 10 \<and> digits_value 0 ds = nat \<bar>sint w\<bar>)
    \<and> map_option (\<lambda>(out, n). (out @ [0], n)) (printf [37, 100] [VInt w]) = sprintf [37, 100] [VInt w]
    \<and> printf [37, 100] [VInt 0x80000000] = Some ([45, 40], 2)"
proof -
  have p: "printf [37, 100] [VInt v] = Some (print_dec 31 v, length (print_dec 31 v))"
    "sprintf [37, 100] [VInt v] = Some (print_dec 128 v @ [0], length (print_dec 128 v))" for v
    by (simp_all add: printf_def printf_conv_def sprintf_def sprintf_conv_def)
  have "print_dec 31 w = print_dec 128 w" using assms by (rule print_dec_limit)
  moreover have "print_dec 31 0x80000000 = [45, 40]"
    by (simp add: print_dec_def neg32_def dec_loop.simps Let_def signed_modulo_int_def signed_divide_int_def)
  ultimately show ?thesis using print_dec_digits [OF assms, of 31] by (auto simp: p)
qed

text \<open>
  C31: \<open>sprintf\<close> with \<open>%d\<close> always succeeds, and \<open>atoi\<close> reads what it wrote, from wherever it lies in
  memory, as the same number when that is not negative; a negative number reads as 0, because
  \<open>atoi\<close> does not know the sign that \<open>sprintf\<close> writes.
\<close>

theorem atoi_sprintf_roundtrip:
  "\<exists>buf n. sprintf [37, 100] [VInt w] = Some (buf, n)
    \<and> atoi (put m p buf) p = Some (if 0 \<le> sint w then w else 0)"
proof (cases "0 \<le> sint w")
  case True
  then have ne: "sint w \<noteq> - 2147483648" by simp
  obtain ds where ds: "print_dec 128 w = ds" "list_all is_digit ds" "ds \<noteq> []" "digits_value 0 ds = nat (sint w)"
    using print_dec_digits [OF ne, of 128] True by auto
  have buf: "\<exists>n. sprintf [37, 100] [VInt w] = Some (ds @ [0], n)" using ds(1) by (auto simp: sprintf_def sprintf_conv_def)
  let ?m = "put m p (ds @ [0])"
  have "bytes ?m p (0 + length ds) = replicate 0 32 @ ds"
    by (simp add: bytes_put)
  moreover have "\<not> is_digit (?m (p + 0 + length ds))"
    using put_same [of "length ds" "ds @ [0]" m p] by (simp add: is_digit_def)
  moreover have "?m (p + 0) \<noteq> 32"
    using put_same [of 0 "ds @ [0]" m p] ds(2,3) by (cases ds) (auto simp: is_digit_def)
  ultimately have "atoi ?m p = Some (of_nat (digits_value 0 ds))"
    using ds(2) by (intro atoi_digits)
  also have "(of_nat (digits_value 0 ds) :: u32) = w"
    using True by (simp add: ds(4))
  finally show ?thesis using buf True by auto
next
  case False
  obtain ds where ds: "print_dec 128 w = 45 # ds" using False by (auto simp: print_dec_def)
  then have buf: "\<exists>n. sprintf [37, 100] [VInt w] = Some ((45 # ds) @ [0], n)" by (auto simp: sprintf_def sprintf_conv_def)
  let ?m = "put m p ((45 # ds) @ [0])"
  have c: "?m p = 45" using put_same [of 0 "(45 # ds) @ [0]" m p] by simp
  have "atoi ?m p = Some (of_nat (digits_value 0 []))"
    by (rule atoi_digits [where k = 0]) (use c in \<open>simp_all add: is_digit_def\<close>)
  then show ?thesis using buf False by auto
qed

end
