(* ===== verification/Klib_Int64.thy ===== *)
theory Klib_Int64
  imports Prelude "HOL-Library.Signed_Division"
begin

text \<open>
  The 64-bit integer runtime of klib (\<open>abstract-machine/klib/src/int64.c\<close>): the count
  of leading and trailing zeros, the shift-and-subtract division \<open>__udivmoddi4\<close> on a
  32-bit machine, and the signed and unsigned wrappers around it. A C division by zero
  is undefined and is the result \<open>None\<close>.
\<close>

section \<open>The halves of a 64-bit word\<close>

definition hi64 :: "u64 \<Rightarrow> u32" where
  "hi64 a = ucast (drop_bit 32 a)"

definition lo64 :: "u64 \<Rightarrow> u32" where
  "lo64 a = ucast a"

definition mk64 :: "u32 \<Rightarrow> u32 \<Rightarrow> u64" where
  "mk64 h l = push_bit 32 (ucast h) OR ucast l"

section \<open>Counting zeros\<close>

definition bool_shl :: "bool \<Rightarrow> nat \<Rightarrow> nat" where
  "bool_shl b n = (if b then 2 ^ n else 0)"

definition clzsi2 :: "u32 \<Rightarrow> u32" where
  "clzsi2 a =
    (let x = a;
         t = bool_shl (x AND 0xFFFF0000 = 0) 4; x = drop_bit (16 - t) x; r = of_nat t;
         t = bool_shl (x AND 0xFF00 = 0) 3; x = drop_bit (8 - t) x; r = r + of_nat t;
         t = bool_shl (x AND 0xF0 = 0) 2; x = drop_bit (4 - t) x; r = r + of_nat t;
         t = bool_shl (x AND 0xC = 0) 1; x = drop_bit (2 - t) x; r = r + of_nat t
     in r + ((2 - x) AND (- (if x AND 2 = 0 then 1 else 0))))"

definition ctzsi2 :: "u32 \<Rightarrow> u32" where
  "ctzsi2 a =
    (let x = a;
         t = bool_shl (x AND 0x0000FFFF = 0) 4; x = drop_bit t x; r = of_nat t;
         t = bool_shl (x AND 0x00FF = 0) 3; x = drop_bit t x; r = r + of_nat t;
         t = bool_shl (x AND 0x0F = 0) 2; x = drop_bit t x; r = r + of_nat t;
         t = bool_shl (x AND 0x3 = 0) 1; x = drop_bit t x; x = x AND 3; r = r + of_nat t
     in r + ((2 - drop_bit 1 x) AND (- (if x AND 1 = 0 then 1 else 0))))"

definition ctzdi2 :: "u64 \<Rightarrow> u32" where
  "ctzdi2 a =
    (let f = - (if lo64 a = 0 then 1 else 0)
     in ctzsi2 ((hi64 a AND f) OR (lo64 a AND NOT f)) + (f AND 32))"

definition clzdi2 :: "u64 \<Rightarrow> u32" where
  "clzdi2 a =
    (let f = - (if hi64 a = 0 then 1 else 0)
     in clzsi2 ((hi64 a AND NOT f) OR (lo64 a AND f)) + (f AND 32))"

section \<open>Division\<close>

text \<open>The state of the division loop: the halves of \<open>q\<close> and \<open>r\<close>, and \<open>carry\<close>.\<close>

record divst =
  q_hi :: u32
  q_lo :: u32
  r_hi :: u32
  r_lo :: u32
  carry :: u32

definition udivmod_step :: "u64 \<Rightarrow> divst \<Rightarrow> divst" where
  "udivmod_step d st =
    (let rh = push_bit 1 (r_hi st) OR drop_bit 31 (r_lo st);
         rl = push_bit 1 (r_lo st) OR drop_bit 31 (q_hi st);
         qh = push_bit 1 (q_hi st) OR drop_bit 31 (q_lo st);
         ql = push_bit 1 (q_lo st) OR carry st;
         s = signed_drop_bit 63 (d - mk64 rh rl - 1);
         r = mk64 rh rl - (d AND s)
     in \<lparr>q_hi = qh, q_lo = ql, r_hi = hi64 r, r_lo = lo64 r, carry = ucast (s AND 1)\<rparr>)"

primrec udivmod_loop :: "u64 \<Rightarrow> nat \<Rightarrow> divst \<Rightarrow> divst" where
  "udivmod_loop d 0 st = st"
| "udivmod_loop d (Suc sr) st = udivmod_loop d sr (udivmod_step d st)"

definition udivmod_finish :: "u64 \<Rightarrow> nat \<Rightarrow> u32 \<Rightarrow> u32 \<Rightarrow> u32 \<Rightarrow> u32 \<Rightarrow> u64 \<times> u64" where
  "udivmod_finish d sr qh ql rh rl =
    (let st = udivmod_loop d sr \<lparr>q_hi = qh, q_lo = ql, r_hi = rh, r_lo = rl, carry = 0\<rparr>
     in (push_bit 1 (mk64 (q_hi st) (q_lo st)) OR ucast (carry st), mk64 (r_hi st) (r_lo st)))"

text \<open>The quotient and the value stored through \<open>rem\<close>.\<close>

definition udivmoddi4 :: "u64 \<Rightarrow> u64 \<Rightarrow> (u64 \<times> u64) option" where
  "udivmoddi4 a b =
    (let nh = hi64 a; nl = lo64 a; dh = hi64 b; dl = lo64 b in
     if nh = 0 then
       (if dh = 0 then
          (if dl = 0 then None else Some (ucast (nl div dl), ucast (nl mod dl)))
        else Some (0, ucast nl))
     else if dl = 0 then
       (if dh = 0 then None
        else if nl = 0 then Some (ucast (nh div dh), mk64 (nh mod dh) 0)
        else if dh AND (dh - 1) = 0 then
          Some (ucast (drop_bit (unat (ctzsi2 dh)) nh), mk64 (nh AND (dh - 1)) nl)
        else
          (let sr = clzsi2 dh - clzsi2 nh in
           if sr > 30 then Some (0, a)
           else
             (let sr = unat (sr + 1) in
              Some (udivmod_finish b sr (push_bit (32 - sr) nl) 0
                (drop_bit sr nh) (push_bit (32 - sr) nh OR drop_bit sr nl)))))
     else if dh = 0 then
       (if dl AND (dl - 1) = 0 then
          (if dl = 1 then Some (a, ucast (nl AND (dl - 1)))
           else
             (let sr = unat (ctzsi2 dl) in
              Some (mk64 (drop_bit sr nh) (push_bit (32 - sr) nh OR drop_bit sr nl),
                ucast (nl AND (dl - 1)))))
        else
          (let sr = unat (1 + 32 + clzsi2 dl - clzsi2 nh) in
           if sr = 32 then Some (udivmod_finish b sr nl 0 0 nh)
           else if sr < 32 then
             Some (udivmod_finish b sr (push_bit (32 - sr) nl) 0
               (drop_bit sr nh) (push_bit (32 - sr) nh OR drop_bit sr nl))
           else
             Some (udivmod_finish b sr
               (push_bit (64 - sr) nh OR drop_bit (sr - 32) nl) (push_bit (64 - sr) nl)
               0 (drop_bit (sr - 32) nh))))
     else
       (let sr = clzsi2 dh - clzsi2 nh in
        if sr > 31 then Some (0, a)
        else
          (let sr = unat (sr + 1) in
           if sr = 32 then Some (udivmod_finish b sr nl 0 0 nh)
           else
             Some (udivmod_finish b sr (push_bit (32 - sr) nl) 0
               (drop_bit sr nh) (push_bit (32 - sr) nh OR drop_bit sr nl)))))"

definition udivdi3 :: "u64 \<Rightarrow> u64 \<Rightarrow> u64 option" where
  "udivdi3 a b = map_option fst (udivmoddi4 a b)"

definition umoddi3 :: "u64 \<Rightarrow> u64 \<Rightarrow> u64 option" where
  "umoddi3 a b = map_option snd (udivmoddi4 a b)"

definition divdi3 :: "u64 \<Rightarrow> u64 \<Rightarrow> u64 option" where
  "divdi3 a b =
    (let s_a = signed_drop_bit 63 a;
         s_b = signed_drop_bit 63 b;
         a = (a XOR s_a) - s_a;
         b = (b XOR s_b) - s_b;
         s_a = s_a XOR s_b
     in map_option (\<lambda>(q, r). (q XOR s_a) - s_a) (udivmoddi4 a b))"

definition divmoddi4 :: "u64 \<Rightarrow> u64 \<Rightarrow> (u64 \<times> u64) option" where
  "divmoddi4 a b = map_option (\<lambda>d. (d, a - d * b)) (divdi3 a b)"

definition moddi3 :: "u64 \<Rightarrow> u64 \<Rightarrow> u64 option" where
  "moddi3 a b =
    (let s = signed_drop_bit 63 b;
         b = (b XOR s) - s;
         s = signed_drop_bit 63 a;
         a = (a XOR s) - s
     in map_option (\<lambda>(q, r). (r XOR s) - s) (udivmoddi4 a b))"

section \<open>Reading words as numbers\<close>

lemma unat_hi64 [word_nat]: "unat (hi64 a) = unat a div 4294967296"
proof -
  have "unat a div 4294967296 < 4294967296"
    using unat_lt_u64 [of a] by linarith
  then show ?thesis by (simp add: hi64_def word_nat)
qed

lemma unat_lo64 [word_nat]: "unat (lo64 a) = unat a mod 4294967296"
  by (simp add: lo64_def word_nat)

lemma unat_mk64 [word_nat]: "unat (mk64 h l) = unat h * 4294967296 + unat l"
proof -
  have "push_bit 32 (ucast h) AND ucast l = (0 :: u64)"
    by (rule bit_word_eqI) (auto simp: bit_simps dest: bit_imp_le_length)
  then have "unat (mk64 h l) = unat (push_bit 32 (ucast h) :: u64) + unat (ucast l :: u64)"
    unfolding mk64_def by (rule unat_or_disjoint)
  also have "unat (push_bit 32 (ucast h) :: u64) = unat h * 4294967296"
    using unat_lt_u32 [of h] by (simp add: unat_push_bit unat_ucast_up del: push_bit_eq_mult)
  also have "unat (ucast l :: u64) = unat l"
    by (simp add: unat_ucast_up)
  finally show ?thesis .
qed

lemma mk64_hi_lo [simp]: "mk64 (hi64 a) (lo64 a) = a"
  by (rule bit_word_eqI) (auto simp: mk64_def hi64_def lo64_def bit_simps dest: bit_imp_le_length)

lemma unat_shl_or:
  fixes x y :: u32
  assumes "n \<le> 32"
  shows "unat (push_bit n x OR drop_bit (32 - n) y) = unat x * 2 ^ n mod 4294967296 + unat y div 2 ^ (32 - n)"
proof -
  have "push_bit n x AND drop_bit (32 - n) y = 0"
    by (rule bit_word_eqI) (auto simp: bit_simps dest: bit_imp_le_length)
  from unat_or_disjoint [OF this] show ?thesis by (simp add: word_nat)
qed

lemma and_pred_pow2_nat: "x AND (x - 1) = 0 \<Longrightarrow> 0 < x \<Longrightarrow> \<exists>k. x = 2 ^ k" for x :: nat
proof (induction x rule: less_induct)
  case (less x)
  show ?case
  proof (cases "even x")
    case True
    then obtain y where y: "x = 2 * y" by blast
    with less.prems have "0 < y" by simp
    have "(x - 1) div 2 = y - 1" using y \<open>0 < y\<close> by simp
    with less.prems(1) y \<open>0 < y\<close> have "y AND (y - 1) = 0"
      by (subst (asm) and_nat_rec) simp
    with less.IH [of y] y \<open>0 < y\<close> obtain k where "y = 2 ^ k" by auto
    with y have "x = 2 ^ Suc k" by simp
    then show ?thesis by blast
  next
    case False
    then obtain y where y: "x = 2 * y + 1" by (rule oddE)
    have "x AND (x - 1) = 2 * (y AND y)"
      by (subst and_nat_rec) (simp add: y)
    with less.prems(1) have "y = 0" by simp
    with y have "x = 2 ^ 0" by simp
    then show ?thesis by blast
  qed
qed

lemma clz_stage:
  fixes x a r h :: nat
  assumes "x = a div 2 ^ (32 - r - 2 * h)" and "0 < x" and "x < 2 ^ (2 * h)" and "r + 2 * h \<le> 32"
    and "t = (if x < 2 ^ h then h else 0)" and "x' = x div 2 ^ (h - t)" and "r' = r + t"
  shows "x' = a div 2 ^ (32 - r' - h) \<and> 0 < x' \<and> x' < 2 ^ h \<and> r' + h \<le> 32"
proof (cases "x < 2 ^ h")
  case True
  then have "r' = r + h" "x' = x" using assms by simp_all
  moreover have "32 - r - 2 * h = 32 - (r + h) - h" by simp
  ultimately show ?thesis using True assms(1-4) by (simp add: mult_2)
next
  case False
  then have r: "r' = r" and x': "x' = x div 2 ^ h" using assms by simp_all
  have "32 - r - h = (32 - r - 2 * h) + h" using assms(4) by simp
  then have "a div 2 ^ (32 - r - h) = x div 2 ^ h"
    by (simp add: assms(1) power_add div_mult2_eq)
  moreover have "x div 2 ^ h < 2 ^ h"
    using assms(3) by (simp add: less_mult_imp_div_less mult_2 power_add)
  moreover have "0 < x div 2 ^ h" using False by (simp add: div_greater_zero_iff)
  ultimately show ?thesis using r x' assms(4) by simp
qed

lemma and_high_zero:
  fixes x :: u32
  assumes "unat x < 2 ^ (2 * h)"
  shows "x AND push_bit h (mask h) = 0 \<longleftrightarrow> unat x < 2 ^ h"
proof -
  have "unat x div 2 ^ h < 2 ^ h"
    using assms by (simp add: less_mult_imp_div_less mult_2 power_add)
  then have "take_bit h (drop_bit h x) = drop_bit h x"
    by (simp add: word_unat_eq_iff unat_take_bit unat_drop_bit del: take_bit_eq_mod drop_bit_eq_div)
  moreover have "x AND push_bit h (mask h) = push_bit h (take_bit h (drop_bit h x))"
    by (rule bit_word_eqI) (auto simp: bit_simps)
  ultimately have "x AND push_bit h (mask h) = push_bit h (drop_bit h x)" by simp
  then have "unat (x AND push_bit h (mask h)) = unat x div 2 ^ h * 2 ^ h mod 2 ^ 32"
    by (simp add: unat_push_bit unat_drop_bit del: push_bit_eq_mult drop_bit_eq_div)
  also have "\<dots> = unat x div 2 ^ h * 2 ^ h"
    using le_less_trans [OF div_times_less_eq_dividend unat_lt_u32] by (intro mod_less) simp
  finally have "x AND push_bit h (mask h) = 0 \<longleftrightarrow> unat x div 2 ^ h = 0"
    by (simp add: word_unat_eq_iff)
  then show ?thesis by (simp add: div_eq_0_iff)
qed

lemma and_low_zero:
  fixes x :: u32
  shows "x AND mask h = 0 \<longleftrightarrow> 2 ^ h dvd unat x"
proof -
  have "x AND mask h = take_bit h x" by (simp add: take_bit_eq_mask)
  then show ?thesis by (simp add: word_unat_eq_iff unat_take_bit dvd_eq_mod_eq_0)
qed

lemma drop_stage:
  fixes x :: u32
  shows "unat (drop_bit n x) = unat x div 2 ^ n"
  by (rule unat_drop_bit)

lemma div_eq_1_iff_bounds: "(x :: nat) div 2 ^ k = 1 \<longleftrightarrow> 2 ^ k \<le> x \<and> x < 2 ^ Suc k"
proof -
  have "x div 2 ^ k = 1 \<longleftrightarrow> 1 \<le> x div 2 ^ k \<and> x div 2 ^ k < 2" by auto
  also have "\<dots> \<longleftrightarrow> 2 ^ k \<le> x \<and> x < 2 ^ Suc k"
    by (simp add: less_eq_div_iff_mult_less_eq div_less_iff_less_mult mult.commute)
  finally show ?thesis .
qed

lemma clzsi2_correct:
  assumes "a \<noteq> 0"
  shows "unat (clzsi2 a) < 32 \<and> 2 ^ (31 - unat (clzsi2 a)) \<le> unat a \<and> unat a < 2 ^ (32 - unat (clzsi2 a))"
proof -
  define t1 where "t1 = bool_shl (a AND 0xFFFF0000 = 0) 4"
  define x1 where "x1 = drop_bit (16 - t1) a"
  define t2 where "t2 = bool_shl (x1 AND 0xFF00 = 0) 3"
  define x2 where "x2 = drop_bit (8 - t2) x1"
  define t3 where "t3 = bool_shl (x2 AND 0xF0 = 0) 2"
  define x3 where "x3 = drop_bit (4 - t3) x2"
  define t4 where "t4 = bool_shl (x3 AND 0xC = 0) 1"
  define x4 where "x4 = drop_bit (2 - t4) x3"
  define r4 where "r4 = t1 + t2 + t3 + t4"
  have pos: "0 < unat a" using assms by (simp add: unat_gt_0)
  have t1: "t1 = (if unat a < 2 ^ 16 then 16 else 0)"
    using and_high_zero [of a 16] unat_lt_u32 [of a]
    by (simp add: t1_def bool_shl_def mask_eq_exp_minus_1)
  have s1: "unat x1 = unat a div 2 ^ (32 - t1 - 16) \<and> 0 < unat x1 \<and> unat x1 < 2 ^ 16 \<and> t1 + 16 \<le> 32"
    by (rule clz_stage [where r = 0 and x = "unat a" and t = t1])
      (use pos unat_lt_u32 [of a] in \<open>simp_all add: t1 x1_def drop_stage\<close>)
  have t2: "t2 = (if unat x1 < 2 ^ 8 then 8 else 0)"
    using and_high_zero [of x1 8] s1
    by (simp add: t2_def bool_shl_def mask_eq_exp_minus_1)
  have s2: "unat x2 = unat a div 2 ^ (32 - (t1 + t2) - 8) \<and> 0 < unat x2 \<and> unat x2 < 2 ^ 8 \<and> t1 + t2 + 8 \<le> 32"
    by (rule clz_stage [where r = t1 and x = "unat x1" and t = t2])
      (use s1 in \<open>simp_all add: t2 x2_def drop_stage\<close>)
  have t3: "t3 = (if unat x2 < 2 ^ 4 then 4 else 0)"
    using and_high_zero [of x2 4] s2
    by (simp add: t3_def bool_shl_def mask_eq_exp_minus_1)
  have s3: "unat x3 = unat a div 2 ^ (32 - (t1 + t2 + t3) - 4) \<and> 0 < unat x3 \<and> unat x3 < 2 ^ 4 \<and> t1 + t2 + t3 + 4 \<le> 32"
    by (rule clz_stage [where r = "t1 + t2" and x = "unat x2" and t = t3])
      (use s2 in \<open>simp_all add: t3 x3_def drop_stage\<close>)
  have t4: "t4 = (if unat x3 < 2 ^ 2 then 2 else 0)"
    using and_high_zero [of x3 2] s3
    by (simp add: t4_def bool_shl_def mask_eq_exp_minus_1)
  have s4: "unat x4 = unat a div 2 ^ (32 - r4 - 2) \<and> 0 < unat x4 \<and> unat x4 < 2 ^ 2 \<and> r4 + 2 \<le> 32"
    unfolding r4_def
    by (rule clz_stage [where r = "t1 + t2 + t3" and x = "unat x3" and t = t4])
      (use s3 in \<open>simp_all add: t4 x4_def drop_stage\<close>)
  have clz: "clzsi2 a = of_nat r4 + ((2 - x4) AND (- (if x4 AND 2 = 0 then 1 else 0)))"
    unfolding clzsi2_def Let_def t1_def [symmetric] x1_def [symmetric] t2_def [symmetric]
      x2_def [symmetric] t3_def [symmetric] x3_def [symmetric] t4_def [symmetric] x4_def [symmetric]
    by (simp only: r4_def of_nat_add)
  from s4 have r4: "r4 \<le> 30" by simp
  from s4 have "0 < unat x4" "unat x4 < 4" by simp_all
  then consider "unat x4 = 1" | "unat x4 = 2" | "unat x4 = 3" by linarith
  then have "\<exists>c. unat (clzsi2 a) = r4 + c \<and> c \<le> 1 \<and> unat x4 div 2 ^ (1 - c) = 1"
  proof cases
    case 1
    then have "x4 = 1" by (simp add: word_unat_eq_iff)
    then show ?thesis using r4 by (intro exI [of _ 1]) (simp add: clz unat_of_nat unat_word_ariths)
  next
    case 2
    then have "x4 = 2" by (simp add: word_unat_eq_iff)
    then show ?thesis using r4 by (intro exI [of _ 0]) (simp add: clz unat_of_nat)
  next
    case 3
    then have "x4 = 3" by (simp add: word_unat_eq_iff)
    then show ?thesis using r4 by (intro exI [of _ 0]) (simp add: clz unat_of_nat)
  qed
  then obtain c where c: "unat (clzsi2 a) = r4 + c" "c \<le> 1" "unat x4 div 2 ^ (1 - c) = 1" by blast
  have e: "31 - (r4 + c) = (32 - r4 - 2) + (1 - c)" using s4 c(2) by simp
  have "unat a div 2 ^ (31 - (r4 + c)) = 1"
    unfolding e power_add using s4 c(3) by (simp add: div_mult2_eq)
  moreover have "32 - (r4 + c) = Suc (31 - (r4 + c))" using r4 c(2) by arith
  ultimately show ?thesis
    using r4 c(1,2) unfolding div_eq_1_iff_bounds by simp
qed

lemma ctz_stage:
  fixes x a r h :: nat
  assumes "x = a div 2 ^ r" and "2 ^ r dvd a" and "\<not> 2 ^ (2 * h) dvd x" 
    and "t = (if 2 ^ h dvd x then h else 0)" and "x' = x div 2 ^ t" and "r' = r + t"
  shows "x' = a div 2 ^ r'" and "2 ^ r' dvd a" and "\<not> 2 ^ h dvd x'"
proof -
  have "x' = a div 2 ^ r' \<and> 2 ^ r' dvd a \<and> \<not> 2 ^ h dvd x'"
proof (cases "2 ^ h dvd x")
  case True
  then obtain k where k: "x = 2 ^ h * k" by (rule dvdE)
  from assms(1,2) k have a: "a = 2 ^ (r + h) * k" by (auto simp: power_add)
  have "\<not> 2 ^ h dvd k" using assms(3) k by (auto simp: mult_2 power_add)
  moreover have "x' = k" "r' = r + h" using assms(4-6) True k by simp_all
  ultimately show ?thesis by (simp add: a)
next
  case False
  then show ?thesis using assms by simp
qed
  then show "x' = a div 2 ^ r'" "2 ^ r' dvd a" "\<not> 2 ^ h dvd x'" by blast+
qed

lemma ctzsi2_correct:
  assumes "a \<noteq> 0"
  shows "2 ^ unat (ctzsi2 a) dvd unat a \<and> odd (unat a div 2 ^ unat (ctzsi2 a))"
proof -
  define t1 where "t1 = bool_shl (a AND 0x0000FFFF = 0) 4"
  define x1 where "x1 = drop_bit t1 a"
  define t2 where "t2 = bool_shl (x1 AND 0x00FF = 0) 3"
  define x2 where "x2 = drop_bit t2 x1"
  define t3 where "t3 = bool_shl (x2 AND 0x0F = 0) 2"
  define x3 where "x3 = drop_bit t3 x2"
  define t4 where "t4 = bool_shl (x3 AND 0x3 = 0) 1"
  define x4 where "x4 = drop_bit t4 x3"
  define r4 where "r4 = t1 + t2 + t3 + t4"
  have t1: "t1 = (if 2 ^ 16 dvd unat a then 16 else 0)"
    using and_low_zero [of a 16] by (simp add: t1_def bool_shl_def mask_eq_exp_minus_1)
  have "0 < unat a" using assms by (simp add: unat_gt_0)
  then have "\<not> 2 ^ 32 dvd unat a"
    using unat_lt_u32 [of a] by (auto dest: dvd_imp_le)
  then have z: "unat a = unat a div 2 ^ 0" "2 ^ 0 dvd unat a" "\<not> 2 ^ (2 * 16) dvd unat a" by simp_all
  note s1 = ctz_stage [OF z t1 drop_stage refl, folded x1_def]
  have t2: "t2 = (if 2 ^ 8 dvd unat x1 then 8 else 0)"
    using and_low_zero [of x1 8] by (simp add: t2_def bool_shl_def mask_eq_exp_minus_1)
  have "\<not> 2 ^ (2 * 8) dvd unat x1" using s1(3) by simp
  note s2 = ctz_stage [OF s1(1,2) this t2 drop_stage refl, folded x2_def]
  have t3: "t3 = (if 2 ^ 4 dvd unat x2 then 4 else 0)"
    using and_low_zero [of x2 4] by (simp add: t3_def bool_shl_def mask_eq_exp_minus_1)
  have "\<not> 2 ^ (2 * 4) dvd unat x2" using s2(3) by simp
  note s3 = ctz_stage [OF s2(1,2) this t3 drop_stage refl, folded x3_def]
  have t4: "t4 = (if 2 ^ 2 dvd unat x3 then 2 else 0)"
    using and_low_zero [of x3 2] by (simp add: t4_def bool_shl_def mask_eq_exp_minus_1)
  have "\<not> 2 ^ (2 * 2) dvd unat x3" using s3(3) by simp
  note s4 = ctz_stage [OF s3(1,2) this t4 drop_stage refl, folded x4_def, unfolded add_0_left, folded r4_def]
  have ctz: "ctzsi2 a = of_nat r4 + ((2 - drop_bit 1 (x4 AND 3)) AND (- (if (x4 AND 3) AND 1 = 0 then 1 else 0)))"
    unfolding ctzsi2_def Let_def t1_def [symmetric] x1_def [symmetric] t2_def [symmetric]
      x2_def [symmetric] t3_def [symmetric] x3_def [symmetric] t4_def [symmetric] x4_def [symmetric]
    by (simp only: r4_def of_nat_add)
  have r4: "r4 \<le> 30" by (simp add: r4_def t1 t2 t3 t4)
  have x4: "unat (x4 AND 3) = unat x4 mod 4"
    using unat_take_bit [of 2 x4] by (simp add: take_bit_eq_mask mask_eq_exp_minus_1)
  from s4(3) have "unat x4 mod 4 \<noteq> 0" by (simp add: dvd_eq_mod_eq_0)
  moreover have "unat x4 mod 4 < 4" by simp
  ultimately consider "unat x4 mod 4 = 1" | "unat x4 mod 4 = 2" | "unat x4 mod 4 = 3" by linarith
  then have "\<exists>c. unat (ctzsi2 a) = r4 + c \<and> 2 ^ c dvd unat x4 \<and> odd (unat x4 div 2 ^ c)"
  proof cases
    case 1
    then have "x4 AND 3 = 1" using x4 by (simp add: word_unat_eq_iff)
    moreover have "odd (unat x4)" using 1 by presburger
    ultimately show ?thesis using r4 by (intro exI [of _ 0]) (simp add: ctz unat_of_nat)
  next
    case 2
    then have "x4 AND 3 = 2" using x4 by (simp add: word_unat_eq_iff)
    moreover have "even (unat x4)" "odd (unat x4 div 2)" using 2 by presburger+
    ultimately show ?thesis using r4 by (intro exI [of _ 1]) (simp add: ctz unat_of_nat unat_word_ariths)
  next
    case 3
    then have "x4 AND 3 = 3" using x4 by (simp add: word_unat_eq_iff)
    moreover have "odd (unat x4)" using 3 by presburger
    ultimately show ?thesis using r4 by (intro exI [of _ 0]) (simp add: ctz unat_of_nat)
  qed
  then obtain c where c: "unat (ctzsi2 a) = r4 + c" "2 ^ c dvd unat x4" "odd (unat x4 div 2 ^ c)" by blast
  from s4(1,2) have "unat a = 2 ^ r4 * unat x4" by simp
  with c show ?thesis by (simp add: power_add mult_dvd_mono div_mult2_eq)
qed

lemma signed_drop_bit_63: "signed_drop_bit 63 (w :: u64) = (if 2 ^ 63 \<le> unat w then - 1 else 0)"
proof -
  have "bit w 63 \<longleftrightarrow> bit (unat w) 63"
    by (simp add: bit_unsigned_iff)
  also have "\<dots> \<longleftrightarrow> odd (unat w div 2 ^ 63)"
    by (rule bit_iff_odd)
  also have "\<dots> \<longleftrightarrow> 2 ^ 63 \<le> unat w"
  proof -
    have "unat w div 2 ^ 63 < 2" using unat_lt_u64 [of w] by (simp add: div_less_iff_less_mult)
    moreover have "unat w div 2 ^ 63 = 0 \<longleftrightarrow> unat w < 2 ^ 63" by (simp add: div_eq_0_iff)
    ultimately show ?thesis by (metis even_zero less_2_cases linorder_not_less odd_one One_nat_def)
  qed
  finally have b: "bit w 63 \<longleftrightarrow> 2 ^ 63 \<le> unat w" .
  have "bit (signed_drop_bit 63 w) n = bit (if bit w 63 then - 1 else 0 :: u64) n" if "n < 64" for n
    using that by (cases "n = 0") (auto simp: bit_signed_drop_bit_iff)
  then have "signed_drop_bit 63 w = (if bit w 63 then - 1 else 0)"
    by (intro bit_word_eqI) simp
  then show ?thesis by (simp only: b)
qed

abbreviation st_q :: "divst \<Rightarrow> nat" where
  "st_q st \<equiv> unat (mk64 (q_hi st) (q_lo st))"

abbreviation st_r :: "divst \<Rightarrow> nat" where
  "st_r st \<equiv> unat (mk64 (r_hi st) (r_lo st))"

lemma shl1_nat:
  fixes h l t :: nat
  assumes "h < 4294967296" "l < 4294967296"
  shows "(h * 2 mod 4294967296 + l div 2147483648) * 4294967296 + (l * 2 mod 4294967296 + t)
    = (2 * (h * 4294967296 + l)) mod 18446744073709551616 + t"
proof -
  define a h' b l' where "a = h div 2147483648" and "h' = h mod 2147483648"
    and "b = l div 2147483648" and "l' = l mod 2147483648"
  have h: "h = a * 2147483648 + h'" and l: "l = b * 2147483648 + l'"
    by (simp_all add: a_def h'_def b_def l'_def)
  have h': "h' < 2147483648" and l': "l' < 2147483648"
    by (simp_all add: h'_def l'_def)
  have b1: "b \<le> 1" using assms(2) by (simp add: b_def)
  have m: "x * 2147483648 * 2 + 2 * y = 4294967296 * x + 2 * y" for x y :: nat by simp
  have "h * 2 mod 4294967296 = 2 * h'" "l * 2 mod 4294967296 = 2 * l'"
    using h' l' by (simp_all add: h l add_mult_distrib)
  moreover have "2 * (h * 4294967296 + l) = a * 18446744073709551616 + ((2 * h' + b) * 4294967296 + 2 * l')"
    by (simp add: h l algebra_simps)
  moreover have "(2 * h' + b) * 4294967296 + 2 * l' < 18446744073709551616"
    using h' l' b1 by simp
  ultimately show ?thesis by (simp add: b_def)
qed

lemma shl1_mk64:
  "unat (mk64 (push_bit 1 h OR drop_bit 31 l) (push_bit 1 l OR t))
    = (2 * unat (mk64 h l)) mod 18446744073709551616 + unat t" if "unat t \<le> 1"
proof -
  have "push_bit 1 l AND t = 0"
  proof (rule bit_word_eqI)
    fix n
    have "\<not> bit t n" if "0 < n"
    proof -
      have "t = 0 \<or> t = 1"
        using \<open>unat t \<le> 1\<close> by (cases "unat t") (simp_all add: word_unat_eq_iff)
      with that show ?thesis by (auto simp: bit_1_iff)
    qed
    then show "bit (push_bit 1 l AND t) n = bit 0 n" by (cases n) (auto simp: bit_simps bit_0 even_and_iff)
  qed
  from unat_or_disjoint [OF this]
  have "unat (push_bit 1 l OR t) = unat l * 2 mod 4294967296 + unat t"
    unfolding unat_push_bit by simp
  then show ?thesis
    using unat_shl_or [of 1 h l] shl1_nat [of "unat h" "unat l" "unat t"] unat_lt_u32 [of h] unat_lt_u32 [of l]
    by (simp add: unat_mk64)
qed

lemma udivmod_step_q:
  "st_q (udivmod_step d st) = (2 * st_q st) mod 18446744073709551616 + unat (carry st)"
  if "unat (carry st) \<le> 1"
  using shl1_mk64 [OF that] by (simp add: udivmod_step_def Let_def)

lemma udivmod_step_r:
  fixes d :: u64 and st :: divst
  defines "r1 \<equiv> 2 * st_r st + st_q st div 9223372036854775808"
  assumes lt: "r1 < 18446744073709551616"
    and ge: "unat d \<le> r1 \<Longrightarrow> r1 - unat d < 9223372036854775808"
    and le: "r1 < unat d \<Longrightarrow> unat d - r1 \<le> 9223372036854775808"
  shows "st_r (udivmod_step d st) = (if unat d \<le> r1 then r1 - unat d else r1)"
    and "unat (carry (udivmod_step d st)) = (if unat d \<le> r1 then 1 else 0)"
proof -
  define r where "r = mk64 (push_bit 1 (r_hi st) OR drop_bit 31 (r_lo st)) (push_bit 1 (r_lo st) OR drop_bit 31 (q_hi st))"
  have t: "unat (drop_bit 31 (q_hi st)) = st_q st div 9223372036854775808"
    using unat_lt_u32 [of "q_lo st"] by (simp add: unat_drop_bit unat_mk64 del: drop_bit_eq_div)
  have "st_q st div 9223372036854775808 \<le> 1"
    using unat_lt_u64 [of "mk64 (q_hi st) (q_lo st)"] by linarith
  with shl1_mk64 [of "drop_bit 31 (q_hi st)" "r_hi st" "r_lo st"] t lt
  have r: "unat r = r1" by (simp add: r_def r1_def)
  have s: "signed_drop_bit 63 (d - r - 1) = (if unat d \<le> r1 then - 1 else 0 :: u64)"
  proof (cases "unat d \<le> r1")
    case True
    then have "d - r - 1 = of_nat (18446744073709551616 - (r1 - unat d + 1))"
      using lt by (simp add: of_nat_diff flip: r)
    then have "unat (d - r - 1) = 18446744073709551616 - (r1 - unat d + 1)"
      by (simp add: unat_of_nat)
    then show ?thesis using ge [OF True] True by (simp add: signed_drop_bit_63)
  next
    case False
    then have "d - r - 1 = of_nat (unat d - r1 - 1)"
      by (simp add: of_nat_diff flip: r)
    then have "unat (d - r - 1) = unat d - r1 - 1"
      using unat_lt_u64 [of d] by (simp add: unat_of_nat)
    then show ?thesis using le False by (simp add: signed_drop_bit_63)
  qed
  have st: "mk64 (r_hi (udivmod_step d st)) (r_lo (udivmod_step d st)) = r - (d AND signed_drop_bit 63 (d - r - 1))"
    "carry (udivmod_step d st) = ucast (signed_drop_bit 63 (d - r - 1) AND 1)"
    by (simp_all add: udivmod_step_def Let_def r_def)
  show "st_r (udivmod_step d st) = (if unat d \<le> r1 then r1 - unat d else r1)"
    unfolding st s using r by (simp add: unat_sub word_le_nat_alt)
  show "unat (carry (udivmod_step d st)) = (if unat d \<le> r1 then 1 else 0)"
    unfolding st s by simp
qed

text \<open>The loop invariant.\<close>

definition div_inv :: "nat \<Rightarrow> nat \<Rightarrow> nat \<Rightarrow> divst \<Rightarrow> bool" where
  "div_inv N D sr st \<longleftrightarrow>
    (\<exists>P. st_q st = (N mod 2 ^ sr) * 2 ^ (64 - sr) + P \<and> unat (carry st) \<le> 1 \<and>
      N div 2 ^ sr = (2 * P + unat (carry st)) * D + st_r st \<and> st_r st < D)"

lemma mod_pow_Suc: "N mod 2 ^ Suc k = (N div 2 ^ k mod 2) * 2 ^ k + N mod 2 ^ k" for N :: nat
  by (metis mod_mult2_eq power_Suc2 mult.commute)

lemma div_inv_step:
  assumes inv: "div_inv N (unat d) (Suc sr) st" and N: "N < 2 ^ 64" and sr: "Suc sr \<le> 63"
    and side: "unat d \<le> 2 ^ 63 \<or> (sr = 0 \<and> 2 ^ 63 \<le> N)"
  shows "div_inv N (unat d) sr (udivmod_step d st)"
proof -
  define D where "D = unat d"
  obtain P where q: "st_q st = (N mod 2 ^ Suc sr) * 2 ^ (64 - Suc sr) + P"
    and c: "unat (carry st) \<le> 1"
    and e: "N div 2 ^ Suc sr = (2 * P + unat (carry st)) * D + st_r st" and r: "st_r st < D"
    using inv by (auto simp: div_inv_def D_def)
  define b where "b = N div 2 ^ sr mod 2"
  define P' where "P' = 2 * P + unat (carry st)"
  have b1: "b \<le> 1" by (simp add: b_def)
  have pw: "(2::nat) ^ sr * 2 ^ (64 - Suc sr) = 2 ^ 63"
    using sr by (simp flip: power_add)
  have pw': "(2::nat) ^ (64 - sr) = 2 * 2 ^ (64 - Suc sr)"
    using sr by (simp flip: power_Suc add: Suc_diff_Suc)
  have "P' * 1 \<le> P' * D" using r by (intro mult_le_mono2) simp
  moreover have "N div 2 ^ Suc sr = P' * D + st_r st" using e by (simp only: P'_def)
  ultimately have "P' \<le> N div 2 ^ Suc sr" by linarith
  also have "\<dots> < 2 ^ (64 - Suc sr)"
  proof -
    have "(2::nat) ^ (64 - Suc sr) * 2 ^ Suc sr = 2 ^ 64"
      using sr by (simp flip: power_add del: power_Suc)
    with N have "N < 2 ^ (64 - Suc sr) * 2 ^ Suc sr" by (simp only:)
    then show ?thesis by (rule less_mult_imp_div_less)
  qed
  finally have P': "P' < 2 ^ (64 - Suc sr)" .
  have q': "st_q st = b * 2 ^ 63 + ((N mod 2 ^ sr) * 2 ^ (64 - Suc sr) + P)"
    unfolding q mod_pow_Suc using pw by (simp add: b_def algebra_simps)
  have small: "(N mod 2 ^ sr) * 2 ^ (64 - Suc sr) + P < 2 ^ 63"
  proof -
    have "N mod 2 ^ sr + 1 \<le> 2 ^ sr" by (simp add: Suc_le_eq)
    then have "(N mod 2 ^ sr + 1) * 2 ^ (64 - Suc sr) \<le> 2 ^ sr * 2 ^ (64 - Suc sr)" by (rule mult_le_mono1)
    then show ?thesis unfolding pw using P' by (simp add: P'_def add_mult_distrib)
  qed
  have top: "st_q st div 9223372036854775808 = b" unfolding q' using small by simp
  have step_q: "st_q (udivmod_step d st) = (N mod 2 ^ sr) * 2 ^ (64 - sr) + P'"
  proof -
    define y where "y = (N mod 2 ^ sr) * 2 ^ (64 - Suc sr) + P"
    have "2 * (b * 2 ^ 63 + y) = y * 2 + b * 18446744073709551616" by simp
    then have "2 * (b * 2 ^ 63 + y) mod 18446744073709551616 = y * 2"
      using small by (simp add: y_def)
    then show ?thesis
      using udivmod_step_q [OF c, of d] unfolding q' y_def [symmetric]
      by (simp add: pw' P'_def y_def)
  qed
  define r1 where "r1 = 2 * st_r st + b"
  have "N div 2 ^ Suc sr = N div 2 ^ sr div 2" by (metis div_mult2_eq power_Suc2)
  then have half: "N div 2 ^ sr = 2 * (N div 2 ^ Suc sr) + b" by (simp add: b_def)
  then have r1: "N div 2 ^ sr = 2 * P' * D + r1" using e by (simp add: r1_def P'_def algebra_simps)
  have "N div 2 ^ sr \<le> N" by (rule div_le_dividend)
  with r1 N have lt: "r1 < 18446744073709551616" by simp
  have up: "r1 < 2 * D" using r b1 by (simp add: r1_def)
  have ge: "r1 - D < 9223372036854775808" if "D \<le> r1"
    using side that up lt by (auto simp: D_def)
  have le: "D - r1 \<le> 9223372036854775808" if "r1 < D"
  proof (cases "D \<le> 2 ^ 63")
    case False
    with side have sr0: "sr = 0" and big: "2 ^ 63 \<le> N" by (auto simp: D_def)
    have "P' = 0"
    proof (rule ccontr)
      assume "P' \<noteq> 0"
      then have "2 * D \<le> 2 * P' * D" by simp
      with r1 sr0 N False show False by simp
    qed
    with r1 sr0 big unat_lt_u64 [of d] show ?thesis by (simp add: D_def)
  qed simp
  have t: "2 * st_r st + st_q st div 9223372036854775808 = r1" by (simp add: r1_def top)
  note step_r = udivmod_step_r [where d = d and st = st, unfolded t, OF lt, folded D_def, OF ge le]
  show ?thesis
  proof (cases "D \<le> r1")
    case True
    with step_q step_r r1 up show ?thesis
      by (auto simp: div_inv_def D_def [symmetric] algebra_simps intro!: exI [of _ P'])
  next
    case False
    with step_q step_r r1 show ?thesis
      by (auto simp: div_inv_def D_def [symmetric] algebra_simps intro!: exI [of _ P'])
  qed
qed

lemma div_inv_loop:
  assumes "div_inv N (unat d) sr st" and "N < 2 ^ 64" and "sr \<le> 63"
    and "unat d \<le> 2 ^ 63 \<or> (sr \<le> 1 \<and> 2 ^ 63 \<le> N)"
  shows "div_inv N (unat d) 0 (udivmod_loop d sr st)"
  using assms
proof (induction sr arbitrary: st)
  case 0
  then show ?case by simp
next
  case (Suc sr)
  have "div_inv N (unat d) sr (udivmod_step d st)"
    using Suc.prems by (intro div_inv_step) auto
  then show ?case using Suc.IH [of "udivmod_step d st"] Suc.prems by auto
qed

lemma udivmod_finish_correct:
  assumes sr: "1 \<le> sr" "sr \<le> 63" and q: "unat (mk64 qh ql) = unat a mod 2 ^ sr * 2 ^ (64 - sr)"
    and r: "unat (mk64 rh rl) = unat a div 2 ^ sr" and lt: "unat a div 2 ^ sr < unat b"
    and side: "unat b \<le> 2 ^ 63 \<or> (sr \<le> 1 \<and> 2 ^ 63 \<le> unat a)"
  shows "udivmod_finish b sr qh ql rh rl = (a div b, a mod b)"
proof -
  define st where "st = udivmod_loop b sr \<lparr>q_hi = qh, q_lo = ql, r_hi = rh, r_lo = rl, carry = 0\<rparr>"
  have "div_inv (unat a) (unat b) sr \<lparr>q_hi = qh, q_lo = ql, r_hi = rh, r_lo = rl, carry = 0\<rparr>"
    using q r lt by (auto simp: div_inv_def intro!: exI [of _ 0])
  then have "div_inv (unat a) (unat b) 0 st"
    unfolding st_def using unat_lt_u64 [of a] sr side by (intro div_inv_loop) simp_all
  then have c: "unat (carry st) \<le> 1" and e: "unat a = (2 * st_q st + unat (carry st)) * unat b + st_r st"
    and lt: "st_r st < unat b"
    by (auto simp: div_inv_def)
  define Q where "Q = 2 * st_q st + unat (carry st)"
  have "Q * 1 \<le> Q * unat b" using lt by (intro mult_le_mono2) simp
  moreover have "unat a = Q * unat b + st_r st" using e by (simp only: Q_def)
  ultimately have "Q < 18446744073709551616" using unat_lt_u64 [of a] by linarith
  then have small: "2 * st_q st + unat (carry st) < 18446744073709551616" by (simp only: Q_def)
  have "carry st = 0 \<or> carry st = 1"
    using c by (cases "unat (carry st)") (simp_all add: word_unat_eq_iff)
  then have "push_bit 1 (mk64 (q_hi st) (q_lo st)) AND ucast (carry st) = 0"
    by (intro bit_word_eqI) (auto simp: bit_simps bit_1_iff bit_0)
  from unat_or_disjoint [OF this]
  have "unat (push_bit 1 (mk64 (q_hi st) (q_lo st)) OR ucast (carry st)) = 2 * st_q st + unat (carry st)"
    unfolding unat_push_bit using small by (simp add: unat_ucast_up)
  moreover have "2 * st_q st + unat (carry st) = unat a div unat b" "st_r st = unat a mod unat b"
    using e lt by (simp_all add: div_nat_eqI mod_nat_eqI)
  ultimately show ?thesis
    by (simp add: udivmod_finish_def Let_def st_def [symmetric] word_unat_eq_iff unat_div_distrib unat_mod_distrib)
qed

lemma mult_pow_mod: "i + j = k \<Longrightarrow> x * 2 ^ i mod 2 ^ k = (x mod 2 ^ j) * 2 ^ i" for x :: nat
  by (auto simp: power_add mult.commute [of "2 ^ i" "2 ^ j"] mod_mult_mult2)

lemma mult_pow_div_mod: "i + j = k \<Longrightarrow> x * 2 ^ i = (x div 2 ^ j) * 2 ^ k + (x mod 2 ^ j) * 2 ^ i" for x :: nat
proof -
  assume "i + j = k"
  then have k: "(2::nat) ^ k = 2 ^ j * 2 ^ i" by (auto simp: power_add)
  show ?thesis unfolding k by (metis add_mult_distrib div_mult_mod_eq mult.assoc)
qed

lemma init_low:
  fixes nh nl :: u32
  assumes "1 \<le> sr" and "sr \<le> 31"
  shows "unat (mk64 (push_bit (32 - sr) nl) 0) = unat (mk64 nh nl) mod 2 ^ sr * 2 ^ (64 - sr)"
    and "unat (mk64 (drop_bit sr nh) (push_bit (32 - sr) nh OR drop_bit sr nl)) = unat (mk64 nh nl) div 2 ^ sr"
proof -
  define h l where "h = unat nh" and "l = unat nl"
  have s: "(32 - sr) + sr = 32" "(64 - sr) = (32 - sr) + 32" using assms by simp_all
  have hl: "h * 4294967296 = h * 2 ^ (32 - sr) * 2 ^ sr"
    using s(1) by (simp add: mult.assoc flip: power_add)
  have "(h * 4294967296 + l) mod 2 ^ sr = l mod 2 ^ sr" unfolding hl by simp
  then show "unat (mk64 (push_bit (32 - sr) nl) 0) = unat (mk64 nh nl) mod 2 ^ sr * 2 ^ (64 - sr)"
    using mult_pow_mod [OF s(1), of l] unfolding unat_mk64 unat_push_bit h_def [symmetric] l_def [symmetric] s(2)
    by (simp add: power_add)
  have "(h * 4294967296 + l) div 2 ^ sr = h * 2 ^ (32 - sr) + l div 2 ^ sr" unfolding hl by simp
  moreover have "32 - (32 - sr) = sr" using assms by simp
  ultimately show "unat (mk64 (drop_bit sr nh) (push_bit (32 - sr) nh OR drop_bit sr nl)) = unat (mk64 nh nl) div 2 ^ sr"
    using mult_pow_div_mod [OF s(1), of h] mult_pow_mod [OF s(1), of h] unat_shl_or [of "32 - sr" nh nl]
    unfolding unat_mk64 unat_drop_bit h_def [symmetric] l_def [symmetric] by simp
qed

lemma init_mid:
  fixes nh nl :: u32
  shows "unat (mk64 nl 0) = unat (mk64 nh nl) mod 2 ^ 32 * 2 ^ (64 - 32)"
    and "unat (mk64 0 nh) = unat (mk64 nh nl) div 2 ^ 32"
  using unat_lt_u32 [of nl] by (simp_all add: unat_mk64)

lemma init_high:
  fixes nh nl :: u32
  assumes "33 \<le> sr" and "sr \<le> 63"
  shows "unat (mk64 (push_bit (64 - sr) nh OR drop_bit (sr - 32) nl) (push_bit (64 - sr) nl))
      = unat (mk64 nh nl) mod 2 ^ sr * 2 ^ (64 - sr)"
    and "unat (mk64 0 (drop_bit (sr - 32) nh)) = unat (mk64 nh nl) div 2 ^ sr"
proof -
  define h l where "h = unat nh" and "l = unat nl"
  have l: "l < 4294967296" by (simp add: l_def unat_lt_u32)
  have s: "(64 - sr) + (sr - 32) = 32" "32 - (64 - sr) = sr - 32" using assms by simp_all
  have p: "(2::nat) ^ sr = 4294967296 * 2 ^ (sr - 32)"
    using assms power_add [of "2::nat" 32 "sr - 32"] by simp
  have m: "(h * 4294967296 + l) mod 2 ^ sr = (h mod 2 ^ (sr - 32)) * 4294967296 + l"
    unfolding p mod_mult2_eq using l by simp
  show "unat (mk64 (push_bit (64 - sr) nh OR drop_bit (sr - 32) nl) (push_bit (64 - sr) nl))
      = unat (mk64 nh nl) mod 2 ^ sr * 2 ^ (64 - sr)"
  proof -
    define j k where "j = (2::nat) ^ (64 - sr)" and "k = (2::nat) ^ (sr - 32)"
    have hh: "h * j mod 4294967296 = (h mod k) * j"
      using mult_pow_mod [OF s(1), of h] by (simp add: j_def k_def)
    have ll: "l * j mod 4294967296 = (l mod k) * j"
      using mult_pow_mod [OF s(1), of l] by (simp add: j_def k_def)
    have l2: "(l div k) * 4294967296 + (l mod k) * j = l * j"
      using mult_pow_div_mod [OF s(1), of l] by (simp add: j_def k_def)
    have "unat (push_bit (64 - sr) nh OR drop_bit (sr - 32) nl) = h * j mod 4294967296 + l div k"
      using unat_shl_or [of "64 - sr" nh nl] s assms by (simp add: h_def l_def j_def k_def)
    moreover have "unat (push_bit (64 - sr) nl) = l * j mod 4294967296"
      unfolding unat_push_bit by (simp add: l_def j_def)
    ultimately have "unat (mk64 (push_bit (64 - sr) nh OR drop_bit (sr - 32) nl) (push_bit (64 - sr) nl))
        = ((h mod k) * j + l div k) * 4294967296 + (l mod k) * j"
      by (simp add: unat_mk64 hh ll)
    also have "\<dots> = (h mod k) * j * 4294967296 + l * j"
      unfolding l2 [symmetric] by (simp add: add_mult_distrib)
    also have "\<dots> = ((h mod k) * 4294967296 + l) * j"
      by (simp add: algebra_simps)
    finally show ?thesis
      unfolding unat_mk64 [of nh nl] h_def [symmetric] l_def [symmetric] m by (simp only: j_def k_def)
  qed
  show "unat (mk64 0 (drop_bit (sr - 32) nh)) = unat (mk64 nh nl) div 2 ^ sr"
    unfolding unat_mk64 unat_drop_bit h_def [symmetric] l_def [symmetric] p
    using l by (simp add: div_mult2_eq)
qed

lemma pow2_and_pred:
  fixes d :: u32
  assumes "d AND (d - 1) = 0" and "d \<noteq> 0"
  shows "unat d = 2 ^ unat (ctzsi2 d)" and "unat (ctzsi2 d) < 32"
    and "unat (x AND (d - 1)) = unat x mod unat d"
proof -
  have pos: "0 < unat d" using assms(2) by (simp add: unat_gt_0)
  have "unat (d - 1) = unat d - 1" using assms(2) by (simp add: unat_minus_one)
  then have "unat d AND (unat d - 1) = 0"
    using assms(1) by (metis unsigned_0 unsigned_and_eq)
  then obtain k where k: "unat d = 2 ^ k" using and_pred_pow2_nat pos by blast
  let ?c = "unat (ctzsi2 d)"
  from ctzsi2_correct [OF assms(2)] have c: "2 ^ ?c dvd (2::nat) ^ k" "odd ((2::nat) ^ k div 2 ^ ?c)" by (simp_all add: k)
  then have "?c \<le> k" by (simp add: power_dvd_imp_le)
  moreover from this c(2) have "odd ((2::nat) ^ (k - ?c))" by (simp add: power_diff)
  ultimately have "?c = k" by simp
  then show d: "unat d = 2 ^ ?c" by (simp add: k)
  have "(2::nat) ^ k < 2 ^ 32" using unat_lt_u32 [of d] k by simp
  then show "?c < 32" using \<open>?c = k\<close> power_less_imp_less_exp [of "2::nat" k 32] by simp
  have "d = 2 ^ k" using arg_cong [OF k, of "of_nat :: nat \<Rightarrow> u32"] by simp
  then have "d - 1 = mask k" by (simp add: mask_eq_exp_minus_1)
  then have "x AND (d - 1) = take_bit k x" by (simp add: take_bit_eq_mask)
  then show "unat (x AND (d - 1)) = unat x mod unat d" by (simp only: unat_take_bit k)
qed

section \<open>The division routine\<close>

lemma clz_less_imp_less:
  assumes "n \<noteq> 0" and "d \<noteq> 0" and "unat (clzsi2 d) < unat (clzsi2 n)"
  shows "unat n < unat d"
proof -
  have "unat n < 2 ^ (32 - unat (clzsi2 n))" using clzsi2_correct [OF assms(1)] by simp
  also have "(2::nat) ^ (32 - unat (clzsi2 n)) \<le> 2 ^ (31 - unat (clzsi2 d))"
    using assms(3) by (intro power_increasing) auto
  also have "\<dots> \<le> unat d" using clzsi2_correct [OF assms(2)] by simp
  finally show ?thesis .
qed

text \<open>The shift count of a division of two words whose high halves are not zero.\<close>

lemma clz_diff:
  fixes n d :: u32
  assumes "n \<noteq> 0" and "d \<noteq> 0"
  shows "unat (clzsi2 d - clzsi2 n) \<le> 31 \<Longrightarrow>
      unat (clzsi2 n) \<le> unat (clzsi2 d) \<and> unat (clzsi2 d - clzsi2 n) = unat (clzsi2 d) - unat (clzsi2 n)"
    and "31 < unat (clzsi2 d - clzsi2 n) \<Longrightarrow> unat n < unat d"
proof -
  have c: "unat (clzsi2 n) < 32" "unat (clzsi2 d) < 32"
    using clzsi2_correct assms by blast+
  have sub: "unat (clzsi2 d - clzsi2 n) = (if unat (clzsi2 n) \<le> unat (clzsi2 d)
      then unat (clzsi2 d) - unat (clzsi2 n) else unat (clzsi2 d) + 4294967296 - unat (clzsi2 n))"
    by (simp add: unat_sub_if')
  show "unat (clzsi2 d - clzsi2 n) \<le> 31 \<Longrightarrow>
      unat (clzsi2 n) \<le> unat (clzsi2 d) \<and> unat (clzsi2 d - clzsi2 n) = unat (clzsi2 d) - unat (clzsi2 n)"
    using sub c by (simp split: if_splits)
  show "31 < unat (clzsi2 d - clzsi2 n) \<Longrightarrow> unat n < unat d"
    using sub c clz_less_imp_less [OF assms] by (simp split: if_splits)
qed

lemma div_mod_eqI:
  fixes a b q r :: "'a::len word"
  assumes "unat a = unat q * unat b + unat r" and "unat r < unat b"
  shows "q = a div b \<and> r = a mod b"
proof -
  have "unat q = unat a div unat b" "unat r = unat a mod unat b"
    using assms by (simp_all add: div_nat_eqI mod_nat_eqI)
  then show ?thesis by (simp add: word_unat_eq_iff unat_div_distrib unat_mod_distrib)
qed

text \<open>The two normalised cases that enter the loop.\<close>

lemma loop_start_high:
  assumes a: "a = mk64 nh nl" and b: "b = mk64 dh dl" and nh: "nh \<noteq> 0" and dh: "dh \<noteq> 0"
    and le: "unat (clzsi2 nh) \<le> unat (clzsi2 dh)" and sr: "sr = unat (clzsi2 dh) - unat (clzsi2 nh) + 1"
  shows "unat a div 2 ^ sr < unat b" and "unat b \<le> 2 ^ 63 \<or> (sr \<le> 1 \<and> 2 ^ 63 \<le> unat a)"
proof -
  let ?n = "unat (clzsi2 nh)" and ?d = "unat (clzsi2 dh)"
  have n: "?n < 32" "2 ^ (31 - ?n) \<le> unat nh" "unat nh < 2 ^ (32 - ?n)" using clzsi2_correct [OF nh] by auto
  have d: "?d < 32" "2 ^ (31 - ?d) \<le> unat dh" using clzsi2_correct [OF dh] by auto
  have "unat a < 2 ^ (32 - ?n) * 2 ^ 32"
  proof -
    have "unat a < (unat nh + 1) * 2 ^ 32"
      using unat_lt_u32 [of nl] by (simp add: a unat_mk64)
    also have "\<dots> \<le> 2 ^ (32 - ?n) * 2 ^ 32" using n(3) by (intro mult_le_mono1) simp
    finally show ?thesis .
  qed
  also have "(2::nat) ^ (32 - ?n) * 2 ^ 32 = 2 ^ (31 - ?d + 32) * 2 ^ sr"
    using n(1) d(1) le by (simp only: sr power_add [symmetric]) (rule arg_cong [of _ _ "(^) 2"], linarith)
  finally have "unat a div 2 ^ sr < 2 ^ (31 - ?d + 32)" by (rule less_mult_imp_div_less)
  also have "\<dots> \<le> unat b" using d(2) by (simp add: b unat_mk64 power_add)
  finally show "unat a div 2 ^ sr < unat b" .
  show "unat b \<le> 2 ^ 63 \<or> (sr \<le> 1 \<and> 2 ^ 63 \<le> unat a)"
  proof (cases "?d = 0")
    case True
    then have "sr = 1" "?n = 0" using le sr by simp_all
    then show ?thesis using n(2) by (simp add: a unat_mk64)
  next
    case False
    have "unat dh < 2 ^ (32 - ?d)" using clzsi2_correct [OF dh] by auto
    also have "(2::nat) ^ (32 - ?d) \<le> 2 ^ 31" using False by (intro power_increasing) auto
    finally show ?thesis using unat_lt_u32 [of dl] by (simp add: b unat_mk64)
  qed
qed

lemma loop_start_low:
  assumes a: "a = mk64 nh nl" and b: "b = mk64 0 dl" and nh: "nh \<noteq> 0" and dl: "dl \<noteq> 0"
    and sr: "sr = 33 + unat (clzsi2 dl) - unat (clzsi2 nh)"
  shows "unat a div 2 ^ sr < unat b"
proof -
  let ?n = "unat (clzsi2 nh)" and ?d = "unat (clzsi2 dl)"
  have n: "?n < 32" "unat nh < 2 ^ (32 - ?n)" using clzsi2_correct [OF nh] by auto
  have d: "?d < 32" "2 ^ (31 - ?d) \<le> unat dl" using clzsi2_correct [OF dl] by auto
  have "unat a < (unat nh + 1) * 2 ^ 32"
    using unat_lt_u32 [of nl] by (simp add: a unat_mk64)
  also have "\<dots> \<le> 2 ^ (32 - ?n) * 2 ^ 32" using n(2) by (intro mult_le_mono1) simp
  also have "(2::nat) ^ (32 - ?n) * 2 ^ 32 = 2 ^ (31 - ?d) * 2 ^ sr"
    using n(1) d(1) by (simp only: sr power_add [symmetric]) (rule arg_cong [of _ _ "(^) 2"], linarith)
  finally have "unat a div 2 ^ sr < 2 ^ (31 - ?d)" by (rule less_mult_imp_div_less)
  also have "\<dots> \<le> unat b" using d(2) by (simp add: b unat_mk64)
  finally show ?thesis .
qed

lemma finish_low:
  assumes a: "a = mk64 nh nl" and sr: "1 \<le> sr" "sr \<le> 31"
    and lt: "unat a div 2 ^ sr < unat b" and side: "unat b \<le> 2 ^ 63 \<or> (sr \<le> 1 \<and> 2 ^ 63 \<le> unat a)"
  shows "udivmod_finish b sr (push_bit (32 - sr) nl) 0
      (drop_bit sr nh) (push_bit (32 - sr) nh OR drop_bit sr nl) = (a div b, a mod b)"
  using sr lt side init_low [OF sr] by (intro udivmod_finish_correct) (simp_all only: a)

lemma finish_mid:
  assumes a: "a = mk64 nh nl"
    and lt: "unat a div 2 ^ 32 < unat b" and side: "unat b \<le> 2 ^ 63"
  shows "udivmod_finish b 32 nl 0 0 nh = (a div b, a mod b)"
  using lt side init_mid [where nh = nh and nl = nl]
  by (intro udivmod_finish_correct) (simp_all only: a, simp_all)

lemma finish_high:
  assumes a: "a = mk64 nh nl" and sr: "33 \<le> sr" "sr \<le> 63"
    and lt: "unat a div 2 ^ sr < unat b" and side: "unat b \<le> 2 ^ 63"
  shows "udivmod_finish b sr (push_bit (64 - sr) nh OR drop_bit (sr - 32) nl) (push_bit (64 - sr) nl)
      0 (drop_bit (sr - 32) nh) = (a div b, a mod b)"
  using sr lt side init_high [OF sr] by (intro udivmod_finish_correct) (simp_all only: a, simp_all)

lemma ucast_mk64: "(ucast (x :: u32) :: u64) = mk64 0 x"
  by (simp add: mk64_def)

text \<open>The four shapes of the operands, each with its path through the routine.\<close>

lemma hi64_mk64 [simp]: "hi64 (mk64 h l) = h"
  using unat_lt_u32 [of l] by (simp add: word_unat_eq_iff unat_hi64 unat_mk64)

lemma lo64_mk64 [simp]: "lo64 (mk64 h l) = l"
  using unat_lt_u32 [of l] by (simp add: word_unat_eq_iff unat_lo64 unat_mk64)

lemmas udivmoddi4_halves =
  udivmoddi4_def [of "mk64 nh nl" "mk64 dh dl" for nh nl dh dl, unfolded Let_def hi64_mk64 lo64_mk64]

lemma divides_smaller_high:
  assumes a: "a = mk64 nh nl" and b: "b = mk64 dh dl" and "unat nh < unat dh"
  shows "0 = a div b \<and> a = a mod b"
  using assms(3) unat_lt_u32 [of nl] unat_lt_u32 [of dl]
  by (intro div_mod_eqI) (simp_all add: a b unat_mk64)

lemma udivmoddi4_nh0:
  assumes a: "a = mk64 nh nl" and b: "b = mk64 dh dl"
    and nh0: "nh = 0" and nz0: "b \<noteq> 0"
  shows "udivmoddi4 a b = Some (a div b, a mod b)"
proof -
  have A: "unat a = unat nh * 4294967296 + unat nl" and B: "unat b = unat dh * 4294967296 + unat dl"
    by (simp_all only: a b unat_mk64)
  have bound: "unat nl < 4294967296" "unat dl < 4294967296" by (rule unat_lt_u32)+
  note U = udivmoddi4_halves [of nh nl dh dl, folded a b]
  have nz: "dh \<noteq> 0 \<or> dl \<noteq> 0" using nz0 b by (auto simp: mk64_def)
  show ?thesis
  proof (cases "dh = 0")
    case True
    from nz True have dl: "0 < unat dl" by (simp add: unat_gt_0)
    have "mk64 0 (nl div dl) = a div b \<and> mk64 0 (nl mod dl) = a mod b"
      using nh0 True dl by (intro div_mod_eqI)
        (simp_all add: A B unat_mk64 unat_div_distrib unat_mod_distrib)
    with nh0 True dl show ?thesis by (auto simp: U ucast_mk64)
  next
    case False
    then have "0 < unat dh" by (simp add: unat_gt_0)
    then have "0 = a div b \<and> mk64 0 nl = a mod b"
      using nh0 bound by (intro div_mod_eqI) (simp_all add: A B unat_mk64)
    with nh0 False show ?thesis by (simp add: U ucast_mk64)
  qed
qed

lemma udivmoddi4_dl0:
  assumes a: "a = mk64 nh nl" and b: "b = mk64 dh dl"
    and nh0: "nh \<noteq> 0" and dl0: "dl = 0" and nz0: "b \<noteq> 0"
  shows "udivmoddi4 a b = Some (a div b, a mod b)"
proof -
  have A: "unat a = unat nh * 4294967296 + unat nl" and B: "unat b = unat dh * 4294967296 + unat dl"
    by (simp_all only: a b unat_mk64)
  have bound: "unat nl < 4294967296" "unat dl < 4294967296" by (rule unat_lt_u32)+
  note U = udivmoddi4_halves [of nh nl dh dl, folded a b]
  have nz: "dh \<noteq> 0 \<or> dl \<noteq> 0" using nz0 b by (auto simp: mk64_def)
  note less = divides_smaller_high [OF a b]
  from nz dl0 have dh0: "dh \<noteq> 0" and dh: "0 < unat dh" by (simp_all add: unat_gt_0)
  have lt: "unat nh mod unat dh < unat dh" using dh by simp
  have rem: "(unat nh mod unat dh) * 4294967296 + unat nl < unat dh * 4294967296"
    using lt bound by linarith
  have quo: "unat nh * 4294967296 = unat nh div unat dh * unat dh * 4294967296 + unat nh mod unat dh * 4294967296"
    by (metis add_mult_distrib div_mult_mod_eq)
  consider (zero) "nl = 0" | (pow) "nl \<noteq> 0" "dh AND (dh - 1) = 0"
    | (loop) "nl \<noteq> 0" "dh AND (dh - 1) \<noteq> 0" by blast
  then show ?thesis
  proof cases
    case zero
    have "mk64 0 (nh div dh) = a div b \<and> mk64 (nh mod dh) 0 = a mod b"
      using zero dl0 dh lt quo by (intro div_mod_eqI)
        (simp_all add: A B unat_mk64 unat_div_distrib unat_mod_distrib flip: mult.assoc)
    with nh0 dl0 dh0 zero show ?thesis by (simp add: U ucast_mk64)
  next
    case pow
    note p = pow2_and_pred [OF pow(2) dh0]
    have "unat (drop_bit (unat (ctzsi2 dh)) nh) = unat nh div unat dh"
      by (simp only: unat_drop_bit p(1))
    then have "mk64 0 (drop_bit (unat (ctzsi2 dh)) nh) = a div b \<and> mk64 (nh AND (dh - 1)) nl = a mod b"
      using dl0 quo rem by (intro div_mod_eqI)
        (simp_all add: A B unat_mk64 p(3) flip: mult.assoc)
    with nh0 dl0 dh0 pow show ?thesis by (simp add: U ucast_mk64)
  next
    case loop
    define sr where "sr = clzsi2 dh - clzsi2 nh"
    have ne31: "unat sr \<noteq> 31"
    proof
      assume "unat sr = 31"
      then have "unat (clzsi2 dh) = 31"
        using clz_diff(1) [OF nh0 dh0] clzsi2_correct [OF dh0] by (auto simp: sr_def)
      then have "unat dh = 1" using clzsi2_correct [OF dh0] dh by simp
      then have "dh = 1" by (simp add: word_unat_eq_iff)
      with loop show False by simp
    qed
    show ?thesis
    proof (cases "sr > 30")
      case True
      with ne31 have "31 < unat sr" by (simp add: word_less_nat_alt)
      then have "unat nh < unat dh" using clz_diff(2) [OF nh0 dh0] by (simp add: sr_def)
      with less nh0 dl0 dh0 loop True show ?thesis by (simp add: U sr_def)
    next
      case False
      then have s: "unat sr \<le> 30" by (simp add: word_less_nat_alt)
      define n where "n = unat (sr + 1)"
      have n: "n = unat sr + 1" using s by (simp add: n_def unat_word_ariths)
      have "unat (clzsi2 nh) \<le> unat (clzsi2 dh)" "n = unat (clzsi2 dh) - unat (clzsi2 nh) + 1"
        using clz_diff(1) [OF nh0 dh0] s n by (simp_all add: sr_def)
      note start = loop_start_high [OF a b nh0 dh0 this]
      have "1 \<le> n" "n \<le> 31" using n s by simp_all
      note fin = finish_low [OF a this start]
      from nh0 dl0 dh0 loop False fin show ?thesis
        by (simp add: U flip: sr_def n_def)
    qed
  qed
qed

lemma udivmoddi4_pow2:
  assumes a: "a = mk64 nh nl" and b: "b = mk64 dh dl"
    and nh0: "nh \<noteq> 0" and dl0: "dl \<noteq> 0" and dh0: "dh = 0"
    and pow: "dl AND (dl - 1) = 0"
  shows "udivmoddi4 a b = Some (a div b, a mod b)"
proof -
  have A: "unat a = unat nh * 4294967296 + unat nl" and B: "unat b = unat dh * 4294967296 + unat dl"
    by (simp_all only: a b unat_mk64)
  have bound: "unat nl < 4294967296" "unat dl < 4294967296" by (rule unat_lt_u32)+
  note U = udivmoddi4_halves [of nh nl dh dl, folded a b]
  note p = pow2_and_pred [OF pow dl0]
  define sr where "sr = unat (ctzsi2 dl)"
  have dvd: "unat a mod unat dl = unat nl mod unat dl" 
  proof -
    have "(4294967296::nat) = 2 ^ (32 - sr) * 2 ^ sr"
      using p(2) by (simp add: sr_def flip: power_add)
    then have "unat nh * 4294967296 = unat nh * 2 ^ (32 - sr) * unat dl"
      by (simp only: p(1) sr_def mult.assoc)
    then show ?thesis unfolding A by (simp only: mod_mult_self3)
  qed
  have r: "unat (mk64 0 (nl AND (dl - 1))) = unat a mod unat b"
    by (simp add: unat_mk64 p(3) dvd B dh0)
  show ?thesis
  proof (cases "dl = 1")
    case True
    have "a = a div b \<and> mk64 0 (nl AND (dl - 1)) = a mod b"
      by (intro div_mod_eqI) (simp_all only: r, simp_all add: B dh0 True)
    with True nh0 dl0 dh0 show ?thesis by (simp add: U ucast_mk64)
  next
    case False
    have "sr \<noteq> 0" using p(1) False by (auto simp: sr_def word_unat_eq_iff)
    then have "1 \<le> sr" "sr \<le> 31" using p(2) by (simp_all add: sr_def)
    note q = init_low(2) [OF this, of nh nl, folded a]
    have bsr: "unat b = 2 ^ sr" using p(1) by (simp add: B dh0 sr_def)
    have "mk64 (drop_bit sr nh) (push_bit (32 - sr) nh OR drop_bit sr nl) = a div b
        \<and> mk64 0 (nl AND (dl - 1)) = a mod b"
      by (intro div_mod_eqI) (simp_all only: r q bsr div_mult_mod_eq, simp)
    with False pow nh0 dl0 dh0 show ?thesis by (simp add: U ucast_mk64 flip: sr_def)
  qed
qed

lemma udivmoddi4_low:
  assumes a: "a = mk64 nh nl" and b: "b = mk64 dh dl"
    and nh0: "nh \<noteq> 0" and dl0: "dl \<noteq> 0" and dh0: "dh = 0"
    and loop: "dl AND (dl - 1) \<noteq> 0"
  shows "udivmoddi4 a b = Some (a div b, a mod b)"
proof -
  have A: "unat a = unat nh * 4294967296 + unat nl" and B: "unat b = unat dh * 4294967296 + unat dl"
    by (simp_all only: a b unat_mk64)
  have bound: "unat nl < 4294967296" "unat dl < 4294967296" by (rule unat_lt_u32)+
  note U = udivmoddi4_halves [of nh nl dh dl, folded a b]
  have "dl \<noteq> 1" "dl \<noteq> 0" using loop by auto
  then have "unat dl \<noteq> 1" "unat dl \<noteq> 0" by (auto simp: word_unat_eq_iff)
  then have "2 \<le> unat dl" by linarith
  have cd: "unat (clzsi2 dl) \<le> 30"
  proof (rule ccontr)
    assume "\<not> unat (clzsi2 dl) \<le> 30"
    then have "unat (clzsi2 dl) = 31" using clzsi2_correct [OF dl0] by auto
    then show False using clzsi2_correct [OF dl0] \<open>2 \<le> unat dl\<close> by simp
  qed
  have cn: "unat (clzsi2 nh) \<le> 31" using clzsi2_correct [OF nh0] by auto
  define sr where "sr = unat (1 + 32 + clzsi2 dl - clzsi2 nh)"
  have sum: "unat (1 + 32 + clzsi2 dl) = 33 + unat (clzsi2 dl)"
    using cd by (simp add: unat_word_ariths)
  have sr: "sr = 33 + unat (clzsi2 dl) - unat (clzsi2 nh)"
    unfolding sr_def using cn by (subst unat_sub) (simp_all only: word_le_nat_alt sum)
  have srd: "unat (33 + clzsi2 dl - clzsi2 nh) = sr" by (simp add: sr_def)
  note lt = loop_start_low [OF a b [unfolded dh0] nh0 dl0 sr]
  have side: "unat b \<le> 2 ^ 63" using bound(2) by (simp add: B dh0)
  have lo: "2 \<le> sr" and hi: "sr \<le> 63" using sr cd cn by simp_all
  consider (mid) "sr = 32" | (low) "sr < 32" | (high) "32 < sr" by linarith
  then show ?thesis
  proof cases
    case mid
    with finish_mid [OF a lt [unfolded mid] side] nh0 dl0 dh0 loop show ?thesis
      by (simp add: U srd)
  next
    case low
    have "1 \<le> sr" "sr \<le> 31" using lo low by simp_all
    with finish_low [OF a this lt disjI1 [OF side]] low nh0 dl0 dh0 loop show ?thesis
      by (simp add: U srd)
  next
    case high
    have "33 \<le> sr" using high by simp
    with finish_high [OF a this hi lt side] high nh0 dl0 dh0 loop show ?thesis
      by (simp add: U srd)
  qed
qed

lemma udivmoddi4_high:
  assumes a: "a = mk64 nh nl" and b: "b = mk64 dh dl"
    and nh0: "nh \<noteq> 0" and dl0: "dl \<noteq> 0" and dh0: "dh \<noteq> 0"
  shows "udivmoddi4 a b = Some (a div b, a mod b)"
proof -
  have A: "unat a = unat nh * 4294967296 + unat nl" and B: "unat b = unat dh * 4294967296 + unat dl"
    by (simp_all only: a b unat_mk64)
  have bound: "unat nl < 4294967296" "unat dl < 4294967296" by (rule unat_lt_u32)+
  note U = udivmoddi4_halves [of nh nl dh dl, folded a b]
  note less = divides_smaller_high [OF a b]
  define sr where "sr = clzsi2 dh - clzsi2 nh"
  show ?thesis
  proof (cases "sr > 31")
    case True
    then have "31 < unat sr" by (simp add: word_less_nat_alt)
    then have "unat nh < unat dh" using clz_diff(2) [OF nh0 dh0] by (simp add: sr_def)
    with less nh0 dl0 dh0 True show ?thesis by (simp add: U sr_def)
  next
    case False
    then have s: "unat sr \<le> 31" by (simp add: word_less_nat_alt)
    define n where "n = unat (sr + 1)"
    have n: "n = unat sr + 1" using s by (simp add: n_def unat_word_ariths)
    have "unat (clzsi2 nh) \<le> unat (clzsi2 dh)" "n = unat (clzsi2 dh) - unat (clzsi2 nh) + 1"
      using clz_diff(1) [OF nh0 dh0] s n by (simp_all add: sr_def)
    note start = loop_start_high [OF a b nh0 dh0 this]
    show ?thesis
    proof (cases "n = 32")
      case True
      then have "unat b \<le> 2 ^ 63" using start(2) by simp
      note fin = finish_mid [OF a start(1) [unfolded True] this]
      from nh0 dl0 dh0 False True fin show ?thesis
        by (simp add: U flip: sr_def n_def)
    next
      case ne: False
      then have "1 \<le> n" "n \<le> 31" using n s by simp_all
      note fin = finish_low [OF a this start]
      from nh0 dl0 dh0 False ne fin show ?thesis
        by (simp add: U flip: sr_def n_def)
    qed
  qed
qed

lemma udivmoddi4_eq:
  assumes "b \<noteq> 0"
  shows "udivmoddi4 a b = Some (a div b, a mod b)"
proof -
  have ab: "a = mk64 (hi64 a) (lo64 a)" "b = mk64 (hi64 b) (lo64 b)" by simp_all
  show ?thesis
    using udivmoddi4_nh0 [OF ab] udivmoddi4_dl0 [OF ab] udivmoddi4_pow2 [OF ab]
      udivmoddi4_low [OF ab] udivmoddi4_high [OF ab] assms
    by blast
qed


section \<open>The signed wrappers\<close>

lemma sign_mask: "signed_drop_bit 63 (a :: u64) = (if sint a < 0 then - 1 else 0)"
proof -
  have "bit (signed_drop_bit 63 a) n = bit (if bit a 63 then - 1 else 0 :: u64) n" if "n < 64" for n
    using that by (cases "n = 0") (auto simp: bit_signed_drop_bit_iff)
  then have "signed_drop_bit 63 a = (if bit a 63 then - 1 else 0)"
    by (intro bit_word_eqI) simp
  then show ?thesis using bit_last_iff [of a] by simp
qed

lemma xor_sub_sign:
  "((x :: u64) XOR (if c then - 1 else 0)) - (if c then - 1 else 0) = (if c then - x else x)"
  by (cases c) (simp_all add: not_eq_complement)

lemma xor_masks: "((if c then - 1 else 0 :: u64) XOR (if d then - 1 else 0)) = (if c \<noteq> d then - 1 else 0)"
  by (cases c; cases d) simp_all

text \<open>The magnitude of a signed value, computed without a branch.\<close>

lemma magnitude: "(a XOR signed_drop_bit 63 a) - signed_drop_bit 63 a = word_of_int \<bar>sint (a :: u64)\<bar>"
  unfolding sign_mask xor_sub_sign by (simp add: abs_if wi_hom_neg [symmetric])

lemma uint_magnitude: "uint (word_of_int \<bar>sint (a :: u64)\<bar> :: u64) = \<bar>sint a\<bar>"
proof -
  have "\<bar>sint a\<bar> \<le> 2 ^ 63" using sint_ge [of a] sint_lt [of a] by auto
  then show ?thesis by (simp add: uint_word_of_int mod_pos_pos_trivial)
qed

lemma magnitude_nz: "b \<noteq> 0 \<Longrightarrow> word_of_int \<bar>sint (b :: u64)\<bar> \<noteq> (0 :: u64)"
  using uint_magnitude [of b] by (metis abs_eq_0 signed_eq_0_iff uint_0_eq)

lemma div_magnitudes:
  fixes a b :: u64
  shows "word_of_int \<bar>sint a\<bar> div word_of_int \<bar>sint b\<bar> = (word_of_int (\<bar>sint a\<bar> div \<bar>sint b\<bar>) :: u64)"
    and "word_of_int \<bar>sint a\<bar> mod word_of_int \<bar>sint b\<bar> = (word_of_int (\<bar>sint a\<bar> mod \<bar>sint b\<bar>) :: u64)"
  by (simp_all only: word_div_def word_mod_def uint_magnitude)

lemma signed_results:
  fixes A B :: int
  shows "(if (A < 0) \<noteq> (B < 0) then - word_of_int (\<bar>A\<bar> div \<bar>B\<bar>) else word_of_int (\<bar>A\<bar> div \<bar>B\<bar>))
      = (word_of_int (A sdiv B) :: u64)"
    and "(if A < 0 then - word_of_int (\<bar>A\<bar> mod \<bar>B\<bar>) else word_of_int (\<bar>A\<bar> mod \<bar>B\<bar>))
      = (word_of_int (A smod B) :: u64)"
  by (cases A "0 :: int" rule: linorder_cases; cases B "0 :: int" rule: linorder_cases;
      simp add: signed_divide_int_def signed_modulo_int_def)+

text \<open>
  The contract the wrappers rely on: a routine that divides unsigned words. The wrappers
  only need it, so they are verified against it and not against the shift-and-subtract loop.
\<close>

locale unsigned_division =
  fixes dm :: "u64 \<Rightarrow> u64 \<Rightarrow> (u64 \<times> u64) option"
  assumes dm_div: "b \<noteq> 0 \<Longrightarrow> dm a b = Some (a div b, a mod b)"
begin

lemma magnitudes:
  fixes a b :: u64
  shows "b \<noteq> 0 \<Longrightarrow> dm (word_of_int \<bar>sint a\<bar>) (word_of_int \<bar>sint b\<bar>) =
    Some (word_of_int (\<bar>sint a\<bar> div \<bar>sint b\<bar>), word_of_int (\<bar>sint a\<bar> mod \<bar>sint b\<bar>))"
  by (subst dm_div [OF magnitude_nz], assumption) (simp only: div_magnitudes)

lemma signed_quotient:
  assumes "b \<noteq> 0"
  shows "map_option (\<lambda>(q, r). (q XOR (signed_drop_bit 63 a XOR signed_drop_bit 63 b))
        - (signed_drop_bit 63 a XOR signed_drop_bit 63 b))
      (dm ((a XOR signed_drop_bit 63 a) - signed_drop_bit 63 a) ((b XOR signed_drop_bit 63 b) - signed_drop_bit 63 b))
    = Some (word_of_int (sint a sdiv sint b))"
  unfolding magnitude unfolding magnitudes [OF assms] sign_mask xor_masks
  by (simp only: option.map prod.case xor_sub_sign signed_results)

lemma signed_remainder:
  assumes "b \<noteq> 0"
  shows "map_option (\<lambda>(q, r). (r XOR signed_drop_bit 63 a) - signed_drop_bit 63 a)
      (dm ((a XOR signed_drop_bit 63 a) - signed_drop_bit 63 a) ((b XOR signed_drop_bit 63 b) - signed_drop_bit 63 b))
    = Some (word_of_int (sint a smod sint b))"
  unfolding magnitude unfolding magnitudes [OF assms] sign_mask
  by (simp only: option.map prod.case xor_sub_sign signed_results)

end

interpretation soft_div: unsigned_division udivmoddi4
  by unfold_locales (rule udivmoddi4_eq)

lemma sdiv_mult_word: "word_of_int (sint a sdiv sint b) * b + word_of_int (sint a smod sint b) = (a :: u64)"
  using arg_cong [OF sdiv_mult_smod_eq [of "sint a" "sint b"], of "word_of_int :: int \<Rightarrow> u64"]
  by (simp del: sdiv_mult_smod_eq)


section \<open>The 64-bit scans\<close>

lemma halves_nat: "unat a = unat (hi64 a) * 2 ^ 32 + unat (lo64 a)"
  using unat_mk64 [of "hi64 a" "lo64 a"] by simp

lemma halves_nonzero:
  assumes "a \<noteq> 0"
  shows "lo64 a = 0 \<Longrightarrow> hi64 a \<noteq> 0" and "hi64 a = 0 \<Longrightarrow> lo64 a \<noteq> 0"
  using assms mk64_hi_lo [of a] by (auto simp: mk64_def)

lemma clzdi2_eq: "unat (clzdi2 a) = (if hi64 a = 0 then 32 + unat (clzsi2 (lo64 a)) else unat (clzsi2 (hi64 a)))"
  if "a \<noteq> 0"
proof -
  note nz = halves_nonzero(2) [OF that]
  show ?thesis
  proof (cases "hi64 a = 0")
    case True
    have "unat (clzsi2 (lo64 a) + 32) = unat (clzsi2 (lo64 a)) + 32"
      using clzsi2_correct [OF nz [OF True]] by (simp add: unat_word_ariths)
    with True show ?thesis by (simp add: clzdi2_def)
  qed (simp add: clzdi2_def)
qed

lemma ctzdi2_eq: "unat (ctzdi2 a) = (if lo64 a = 0 then 32 + unat (ctzsi2 (hi64 a)) else unat (ctzsi2 (lo64 a)))"
  if "a \<noteq> 0"
proof -
  note nz = halves_nonzero(1) [OF that]
  show ?thesis
  proof (cases "lo64 a = 0")
    case True
    have "2 ^ unat (ctzsi2 (hi64 a)) dvd unat (hi64 a)" "unat (hi64 a) \<noteq> 0"
      using ctzsi2_correct [OF nz [OF True]] nz [OF True] by (auto simp: unat_eq_zero)
    then have "2 ^ unat (ctzsi2 (hi64 a)) < (2::nat) ^ 32"
      using unat_lt_u32 [of "hi64 a"] by (auto dest: dvd_imp_le)
    then have "unat (ctzsi2 (hi64 a)) < 32" by (rule power_less_imp_less_exp [rotated]) simp
    then have "unat (ctzsi2 (hi64 a) + 32) = unat (ctzsi2 (hi64 a)) + 32"
      by (simp add: unat_word_ariths)
    with True show ?thesis by (simp add: ctzdi2_def)
  qed (simp add: ctzdi2_def)
qed

lemma clz64_bounds:
  assumes "a \<noteq> 0"
  shows "unat (clzdi2 a) < 64 \<and> 2 ^ (63 - unat (clzdi2 a)) \<le> unat a \<and> unat a < 2 ^ (64 - unat (clzdi2 a))"
proof -
  have bl: "unat (lo64 a) < 2 ^ 32" using unat_lt_u32 by simp
  show "unat (clzdi2 a) < 64 \<and> 2 ^ (63 - unat (clzdi2 a)) \<le> unat a \<and> unat a < 2 ^ (64 - unat (clzdi2 a))"
  proof (cases "hi64 a = 0")
    case True
    from clzsi2_correct [OF halves_nonzero(2) [OF assms True]] True show ?thesis by (simp add: clzdi2_eq [OF assms] halves_nat [of a])
  next
    case False
    define c where "c = unat (clzsi2 (hi64 a))"
    have c: "c < 32" "2 ^ (31 - c) \<le> unat (hi64 a)" "unat (hi64 a) + 1 \<le> 2 ^ (32 - c)"
      using clzsi2_correct [OF False] by (simp_all add: c_def)
    have e: "63 - c = 31 - c + 32" "64 - c = 32 - c + 32" using c(1) by simp_all
    have "2 ^ (31 - c) * 2 ^ 32 \<le> unat (hi64 a) * 2 ^ 32" using c(2) by (rule mult_le_mono1)
    moreover have "(unat (hi64 a) + 1) * 2 ^ 32 \<le> 2 ^ (32 - c) * 2 ^ 32" using c(3) by (rule mult_le_mono1)
    ultimately show ?thesis
      using bl c(1) False by (simp only: clzdi2_eq [OF assms] halves_nat [of a] e power_add c_def [symmetric] if_False) simp
  qed
qed

lemma ctz64_exact:
  assumes "a \<noteq> 0"
  shows "2 ^ unat (ctzdi2 a) dvd unat a \<and> odd (unat a div 2 ^ unat (ctzdi2 a))"
proof -
  have bl: "unat (lo64 a) < 2 ^ 32" using unat_lt_u32 by simp
  show "2 ^ unat (ctzdi2 a) dvd unat a \<and> odd (unat a div 2 ^ unat (ctzdi2 a))"
  proof (cases "lo64 a = 0")
    case True
    then have "unat a = 2 ^ 32 * unat (hi64 a)" by (simp add: halves_nat [of a])
    with ctzsi2_correct [OF halves_nonzero(1) [OF assms True]] True show ?thesis
      by (simp add: ctzdi2_eq [OF assms] power_add div_mult2_eq)
  next
    case False
    define c where "c = unat (ctzsi2 (lo64 a))"
    obtain m where m: "unat (lo64 a) = 2 ^ c * m" "odd m"
      using ctzsi2_correct [OF False] by (auto simp: c_def)
    have "2 ^ c \<le> unat (lo64 a)" using m by (cases m) auto
    then have "(2::nat) ^ c < 2 ^ 32" using bl by linarith
    then have "c < 32" by (rule power_less_imp_less_exp [rotated]) simp
    then have "(2::nat) ^ 32 = 2 ^ c * (2 * 2 ^ (31 - c))" by (simp flip: power_Suc power_add)
    then have "unat a = 2 ^ c * (2 * 2 ^ (31 - c) * unat (hi64 a) + m)"
      by (simp only: halves_nat [of a] m(1) distrib_left mult_ac)
    moreover have "odd (2 * 2 ^ (31 - c) * unat (hi64 a) + m)" using m(2) by simp
    ultimately show ?thesis using False by (simp add: ctzdi2_eq [OF assms] flip: c_def)
  qed
qed


section \<open>Properties\<close>

text \<open>
  The bit scans of the division are exact on every nonzero 64-bit word: \<open>__clzdi2\<close>
  returns the number \<open>c < 64\<close> of leading zeros, so that the word lies in
  \<open>[2^(63-c), 2^(64-c))\<close>, and \<open>__ctzdi2\<close> the exponent of the largest power of two that
  divides the word.
\<close>

lemma bit_scans_correct:
  assumes "a \<noteq> 0"
  shows "unat (clzdi2 a) < 64 \<and> 2 ^ (63 - unat (clzdi2 a)) \<le> unat a \<and> unat a < 2 ^ (64 - unat (clzdi2 a))
    \<and> 2 ^ unat (ctzdi2 a) dvd unat a \<and> odd (unat a div 2 ^ unat (ctzdi2 a))"
  using clz64_bounds [OF assms] ctz64_exact [OF assms] by simp

text \<open>
  C2: the shift-and-subtract routine \<open>__udivmoddi4\<close> computes the quotient and the
  remainder of every two 64-bit words with a nonzero divisor, on each of its paths
  (32-bit operands, powers of two, the normalised loop), and so do \<open>__udivdi3\<close> and
  \<open>__umoddi3\<close>.
\<close>

theorem udivmoddi4_correct:
  assumes "b \<noteq> 0"
  shows "udivmoddi4 a b = Some (a div b, a mod b)
    \<and> udivdi3 a b = Some (a div b) \<and> umoddi3 a b = Some (a mod b)"
  by (simp add: udivmoddi4_eq [OF assms] udivdi3_def umoddi3_def)

theorem udivmoddi4_witness:
  "udivmoddi4 0x123456789ABCDEF0 0x100000007 = Some (0x12345678, 0x1b4e81a8)"
  using udivmoddi4_correct [of "0x100000007" "0x123456789ABCDEF0"] by simp

text \<open>
  The signed wrappers \<open>__divdi3\<close>, \<open>__moddi3\<close> and \<open>__divmoddi4\<close> implement C's
  truncating division: the quotient rounds towards zero, the remainder has the sign
  of the dividend, and the one overflow (the least value by -1) wraps around.
\<close>

lemma divdi3_correct:
  assumes "b \<noteq> 0"
  shows "divdi3 a b = Some (word_of_int (sint a sdiv sint b))
    \<and> moddi3 a b = Some (word_of_int (sint a smod sint b))
    \<and> divmoddi4 a b = Some (word_of_int (sint a sdiv sint b), word_of_int (sint a smod sint b))"
proof -
  have "divdi3 a b = Some (word_of_int (sint a sdiv sint b))"
    unfolding divdi3_def Let_def by (rule soft_div.signed_quotient [OF assms])
  moreover have "moddi3 a b = Some (word_of_int (sint a smod sint b))"
    unfolding moddi3_def Let_def by (rule soft_div.signed_remainder [OF assms])
  ultimately show ?thesis
    using sdiv_mult_word [of a b] by (simp add: divmoddi4_def algebra_simps)
qed

end
