(* ===== verification/Nes_State.thy ===== *)
theory Nes_State
  imports Prelude
begin

text \<open>
  The state of the NES emulator \<open>am-kernels/kernels/litenes\<close>: the globals of its modules as
  one record, with the C structures \<open>CPU_STATE\<close> and \<open>PPU_STATE\<close> inside it, and the bit
  operations of \<open>common.c\<close>. An array is a function on its index type; an access outside
  the array the code declares is undefined in C and raises the sticky flag \<open>fault\<close>.
\<close>

section \<open>Bits (common.c)\<close>

definition common_bit_set :: "'a::len word \<Rightarrow> nat \<Rightarrow> bool" where
  "common_bit_set value position \<longleftrightarrow> value AND push_bit position 1 \<noteq> 0"

definition common_set_bit :: "nat \<Rightarrow> 'a::len word \<Rightarrow> 'a word" where
  "common_set_bit position v = v OR push_bit position 1"

definition common_unset_bit :: "nat \<Rightarrow> 'a::len word \<Rightarrow> 'a word" where
  "common_unset_bit position v = v AND NOT (push_bit position 1)"

definition common_toggle_bit :: "nat \<Rightarrow> 'a::len word \<Rightarrow> 'a word" where
  "common_toggle_bit position v = v XOR push_bit position 1"

definition common_modify_bit :: "nat \<Rightarrow> bool \<Rightarrow> 'a::len word \<Rightarrow> 'a word" where
  "common_modify_bit position on v =
    (if on then common_set_bit position v else common_unset_bit position v)"

lemma common_bit_set_iff: "common_bit_set v n \<longleftrightarrow> bit v n" for v :: "'a::len word"
  by (simp add: common_bit_set_def bit_iff_and_push_bit_not_eq_0)

lemma bit_modify [simp]:
  "bit (common_modify_bit n b v) k \<longleftrightarrow> (if k = n \<and> k < LENGTH('a) then b else bit v k)"
  for v :: "'a::len word"
  by (auto simp: common_modify_bit_def common_set_bit_def common_unset_bit_def bit_simps dest: bit_imp_le_length)

lemma bit_toggle [simp]:
  "bit (common_toggle_bit n v) k \<longleftrightarrow> (if k = n \<and> k < LENGTH('a) then \<not> bit v k else bit v k)"
  for v :: "'a::len word"
  by (auto simp: common_toggle_bit_def bit_simps dest: bit_imp_le_length)

lemma set_unset_is_modify [simp]:
  "common_set_bit n = common_modify_bit n True" "common_unset_bit n = common_modify_bit n False"
  by (auto simp: common_modify_bit_def)

section \<open>The state\<close>

record CPU_STATE =
  PC :: u16
  SP :: u8
  rA :: u8
  rX :: u8
  rY :: u8
  rP :: u8

record PPU_STATE =
  PPUCTRL :: u8
  PPUMASK :: u8
  PPUSTATUS :: u8
  OAMADDR :: u8
  PPUSCROLL :: u16
  PPUSCROLL_X :: u8
  PPUSCROLL_Y :: u8
  PPUADDR :: u16
  PPUDATA :: u16
  scroll_received_x :: bool
  addr_received_high_byte :: bool
  ready :: bool
  mirroring :: int
  mirroring_xor :: int
  scanline :: int

record nes =
  cpu :: CPU_STATE
  CPU_RAM :: "u16 \<Rightarrow> u8"
  op_code :: u8
  op_value :: int
  op_address :: int
  op_cycles :: int
  cpu_cycles :: u64
  ppu :: PPU_STATE
  ppu_2007_first_read :: bool
  ppu_addr_latch :: u8
  PPU_SPRRAM :: "u8 \<Rightarrow> u8"
  PPU_RAM :: "u16 \<Rightarrow> u8"
  ppu_sprite_hit_occured :: bool
  ppu_latch :: u8
  ppu_screen_background :: "nat \<Rightarrow> nat \<Rightarrow> u8"
  mmc_id :: u8
  mmc_chr_pages :: "nat \<Rightarrow> u8"
  mmc_chr_pages_number :: int
  memory :: "u16 \<Rightarrow> u8"
  psg_p :: u32
  psg_fault :: bool
  key_state :: "nat \<Rightarrow> u8"
  prev_write :: u8
  frame_cnt :: int
  canvas :: "nat \<Rightarrow> u32"
  frames :: "(nat \<Rightarrow> u32) list"
  fault :: bool

text \<open>A reading operation returns its value with the state it leaves.\<close>

type_synonym 'a reading = "nes \<Rightarrow> 'a \<times> nes"

definition nes_init :: nes where
  "nes_init =
    \<lparr>cpu = \<lparr>PC = 0, SP = 0, rA = 0, rX = 0, rY = 0, rP = 0\<rparr>,
     CPU_RAM = (\<lambda>_. 0), op_code = 0, op_value = 0, op_address = 0, op_cycles = 0, cpu_cycles = 0,
     ppu = \<lparr>PPUCTRL = 0, PPUMASK = 0, PPUSTATUS = 0, OAMADDR = 0, PPUSCROLL = 0,
       PPUSCROLL_X = 0, PPUSCROLL_Y = 0, PPUADDR = 0, PPUDATA = 0, scroll_received_x = False,
       addr_received_high_byte = False, ready = False, mirroring = 0, mirroring_xor = 0, scanline = 0\<rparr>,
     ppu_2007_first_read = False, ppu_addr_latch = 0, PPU_SPRRAM = (\<lambda>_. 0), PPU_RAM = (\<lambda>_. 0),
     ppu_sprite_hit_occured = False, ppu_latch = 0, ppu_screen_background = (\<lambda>_ _. 0),
     mmc_id = 0, mmc_chr_pages = (\<lambda>_. 0), mmc_chr_pages_number = 0, memory = (\<lambda>_. 0),
     psg_p = 10, psg_fault = False, key_state = (\<lambda>_. 0), prev_write = 0,
     frame_cnt = 0, canvas = (\<lambda>_. 0), frames = [], fault = False\<rparr>"

lemma nes_init_simps [simp]:
  "cpu nes_init = \<lparr>PC = 0, SP = 0, rA = 0, rX = 0, rY = 0, rP = 0\<rparr>"
  "CPU_RAM nes_init = (\<lambda>_. 0)" "op_value nes_init = 0" "op_cycles nes_init = 0" "cpu_cycles nes_init = 0"
  "mirroring_xor (ppu nes_init) = 0" "ready (ppu nes_init) = False" "scanline (ppu nes_init) = 0"
  "PPUMASK (ppu nes_init) = 0" "PPUCTRL (ppu nes_init) = 0" "PPUSTATUS (ppu nes_init) = 0"
  "mmc_id nes_init = 0" "memory nes_init = (\<lambda>_. 0)" "psg_p nes_init = 10" "psg_fault nes_init = False"
  "prev_write nes_init = 0" "frame_cnt nes_init = 0" "fault nes_init = False" "frames nes_init = []"
  "mmc_chr_pages_number nes_init = 0" "PPU_RAM nes_init = (\<lambda>_. 0)" "key_state nes_init = (\<lambda>_. 0)"
  by (simp_all add: nes_init_def)

end
