(* ===== verification/Nes_Io.thy ===== *)
theory Nes_Io
  imports Nes_State
begin

text \<open>
  The memory-mapped side of litenes: the RAM of the CPU (\<open>cpu.c\<close>), the registers and the
  RAM of the picture unit (\<open>ppu.c\<close>), the joystick port (\<open>psg.c\<close>), the cartridge (\<open>mmc.c\<close>)
  and the address decoder that joins them (\<open>memory.c\<close>).
\<close>

section \<open>CPU RAM\<close>

definition cpu_ram_read :: "u16 \<Rightarrow> nes \<Rightarrow> u8" where
  "cpu_ram_read address s = CPU_RAM s (address AND 0x7FF)"

definition cpu_ram_write :: "u16 \<Rightarrow> u8 \<Rightarrow> nes \<Rightarrow> nes" where
  "cpu_ram_write address data s = s\<lparr>CPU_RAM := (CPU_RAM s)(address AND 0x7FF := data)\<rparr>"

section \<open>PPU registers\<close>

definition ppu_base_nametable_address :: "nes \<Rightarrow> u16" where
  "ppu_base_nametable_address s = [0x2000, 0x2400, 0x2800, 0x2C00] ! unat (PPUCTRL (ppu s) AND 3)"

definition ppu_vram_address_increment :: "nes \<Rightarrow> u16" where
  "ppu_vram_address_increment s = (if common_bit_set (PPUCTRL (ppu s)) 2 then 32 else 1)"

definition ppu_sprite_pattern_table_address :: "nes \<Rightarrow> u16" where
  "ppu_sprite_pattern_table_address s = (if common_bit_set (PPUCTRL (ppu s)) 3 then 0x1000 else 0)"

definition ppu_background_pattern_table_address :: "nes \<Rightarrow> u16" where
  "ppu_background_pattern_table_address s = (if common_bit_set (PPUCTRL (ppu s)) 4 then 0x1000 else 0)"

definition ppu_sprite_height :: "nes \<Rightarrow> int" where
  "ppu_sprite_height s = (if common_bit_set (PPUCTRL (ppu s)) 5 then 16 else 8)"

definition ppu_generates_nmi :: "nes \<Rightarrow> bool" where
  "ppu_generates_nmi s = common_bit_set (PPUCTRL (ppu s)) 7"

definition ppu_shows_background_in_leftmost_8px :: "nes \<Rightarrow> bool" where
  "ppu_shows_background_in_leftmost_8px s = common_bit_set (PPUMASK (ppu s)) 1"

definition ppu_shows_background :: "nes \<Rightarrow> bool" where
  "ppu_shows_background s = common_bit_set (PPUMASK (ppu s)) 3"

definition ppu_shows_sprites :: "nes \<Rightarrow> bool" where
  "ppu_shows_sprites s = common_bit_set (PPUMASK (ppu s)) 4"

definition ppu_set_status :: "nat \<Rightarrow> bool \<Rightarrow> nes \<Rightarrow> nes" where
  "ppu_set_status position yesno s =
    s\<lparr>ppu := (ppu s)\<lparr>PPUSTATUS := common_modify_bit position yesno (PPUSTATUS (ppu s))\<rparr>\<rparr>"

definition ppu_set_sprite_overflow :: "bool \<Rightarrow> nes \<Rightarrow> nes" where
  "ppu_set_sprite_overflow = ppu_set_status 5"

definition ppu_set_sprite_0_hit :: "bool \<Rightarrow> nes \<Rightarrow> nes" where
  "ppu_set_sprite_0_hit = ppu_set_status 6"

definition ppu_set_in_vblank :: "bool \<Rightarrow> nes \<Rightarrow> nes" where
  "ppu_set_in_vblank = ppu_set_status 7"

section \<open>PPU RAM\<close>

definition ppu_get_real_ram_address :: "u16 \<Rightarrow> u16" where
  "ppu_get_real_ram_address address =
    (if address < 0x2000 then address
     else if address < 0x3F00 then (if address < 0x3000 then address else address)
     else if address < 0x4000 then
       (let address = 0x3F00 OR (address AND 0x1F)
        in if address = 0x3F10 \<or> address = 0x3F14 \<or> address = 0x3F18 \<or> address = 0x3F1C
           then address - 0x10 else address)
     else 0xFFFF)"

text \<open>\<open>PPU_RAM\<close> has 0x4000 bytes.\<close>

definition check :: "bool \<Rightarrow> nes \<Rightarrow> nes" where
  "check ok s = (if ok then s else s\<lparr>fault := True\<rparr>)"

definition ppu_ram_read :: "u16 \<Rightarrow> u8 reading" where
  "ppu_ram_read address s =
    (let a = ppu_get_real_ram_address address in (PPU_RAM s a, check (a < 0x4000) s))"

definition ppu_ram_write :: "u16 \<Rightarrow> u8 \<Rightarrow> nes \<Rightarrow> nes" where
  "ppu_ram_write address data s =
    (let a = ppu_get_real_ram_address address
     in check (a < 0x4000) (s\<lparr>PPU_RAM := (PPU_RAM s)(a := data)\<rparr>))"

definition ppu_copy :: "u16 \<Rightarrow> (nat \<Rightarrow> u8) \<Rightarrow> nat \<Rightarrow> nes \<Rightarrow> nes" where
  "ppu_copy address source len s =
    check (unat address + len \<le> 0x4000)
      (s\<lparr>PPU_RAM := (\<lambda>a. if unat address \<le> unat a \<and> unat a < unat address + len
                         then source (unat a - unat address) else PPU_RAM s a)\<rparr>)"

definition ppu_sprram_write :: "u8 \<Rightarrow> nes \<Rightarrow> nes" where
  "ppu_sprram_write data s =
    s\<lparr>PPU_SPRRAM := (PPU_SPRRAM s)(OAMADDR (ppu s) := data),
      ppu := (ppu s)\<lparr>OAMADDR := OAMADDR (ppu s) + 1\<rparr>\<rparr>"

definition ppu_set_mirroring :: "u8 \<Rightarrow> nes \<Rightarrow> nes" where
  "ppu_set_mirroring m s =
    s\<lparr>ppu := (ppu s)\<lparr>mirroring := uint m, mirroring_xor := push_bit (unat m) 0x400\<rparr>\<rparr>"

section \<open>PPU ports\<close>

definition ppuio_read_status :: "u8 reading" where
  "ppuio_read_status s =
    (let value = PPUSTATUS (ppu s);
         s = ppu_set_in_vblank False s;
         s = ppu_set_sprite_0_hit False s
     in (value,
         s\<lparr>ppu := (ppu s)\<lparr>scroll_received_x := False, PPUSCROLL := 0, addr_received_high_byte := False\<rparr>,
           ppu_latch := value, ppu_addr_latch := 0, ppu_2007_first_read := True\<rparr>))"

definition ppuio_read_data :: "u8 reading" where
  "ppuio_read_data s =
    (let (data, s') =
       (if PPUADDR (ppu s) < 0x3F00 then
          (let (d, t) = ppu_ram_read (PPUADDR (ppu s)) s in (d, t\<lparr>ppu_latch := d\<rparr>))
        else
          (let (d, t) = ppu_ram_read (PPUADDR (ppu s)) s in (d, t\<lparr>ppu_latch := 0\<rparr>)))
     in if ppu_2007_first_read s' then (data, s'\<lparr>ppu_2007_first_read := False\<rparr>)
        else (data, s'\<lparr>ppu := (ppu s')\<lparr>PPUADDR := PPUADDR (ppu s') + ppu_vram_address_increment s'\<rparr>\<rparr>))"

definition ppuio_read :: "u16 \<Rightarrow> u8 reading" where
  "ppuio_read address s =
    (let s = s\<lparr>ppu := (ppu s)\<lparr>PPUADDR := PPUADDR (ppu s) AND 0x3FFF\<rparr>\<rparr>
     in if address AND 7 = 2 then ppuio_read_status s
        else if address AND 7 = 4 then
          (let d = PPU_SPRRAM s (OAMADDR (ppu s)) in (d, s\<lparr>ppu_latch := d\<rparr>))
        else if address AND 7 = 7 then ppuio_read_data s
        else (0xFF, s))"

definition ppuio_write_addr :: "u8 \<Rightarrow> nes \<Rightarrow> nes" where
  "ppuio_write_addr data s =
    (let s = (if addr_received_high_byte (ppu s)
              then s\<lparr>ppu := (ppu s)\<lparr>PPUADDR := push_bit 8 (ucast (ppu_addr_latch s)) + ucast data\<rparr>\<rparr>
              else s\<lparr>ppu_addr_latch := data\<rparr>)
     in s\<lparr>ppu := (ppu s)\<lparr>addr_received_high_byte := \<not> addr_received_high_byte (ppu s)\<rparr>,
          ppu_2007_first_read := True\<rparr>)"

definition ppuio_write_data :: "u8 \<Rightarrow> nes \<Rightarrow> nes" where
  "ppuio_write_data data s =
    (if PPUADDR (ppu s) > 0x1FFF \<or> PPUADDR (ppu s) < 0x4000 then
       (let s = ppu_ram_write (word_of_int (uint (PPUADDR (ppu s)) XOR mirroring_xor (ppu s))) data s
        in ppu_ram_write (PPUADDR (ppu s)) data s)
     else ppu_ram_write (PPUADDR (ppu s)) data s)"

definition ppuio_write :: "u16 \<Rightarrow> u8 \<Rightarrow> nes \<Rightarrow> nes" where
  "ppuio_write address data s =
    (let address = address AND 7;
         s = s\<lparr>ppu_latch := data, ppu := (ppu s)\<lparr>PPUADDR := PPUADDR (ppu s) AND 0x3FFF\<rparr>\<rparr>
     in if address = 0 then (if ready (ppu s) then s\<lparr>ppu := (ppu s)\<lparr>PPUCTRL := data\<rparr>\<rparr> else s)
        else if address = 1 then (if ready (ppu s) then s\<lparr>ppu := (ppu s)\<lparr>PPUMASK := data\<rparr>\<rparr> else s)
        else if address = 3 then s\<lparr>ppu := (ppu s)\<lparr>OAMADDR := data\<rparr>\<rparr>
        else if address = 4 then ppu_sprram_write data s
        else if address = 5 then
          (let s = (if scroll_received_x (ppu s) then s\<lparr>ppu := (ppu s)\<lparr>PPUSCROLL_Y := data\<rparr>\<rparr>
                    else s\<lparr>ppu := (ppu s)\<lparr>PPUSCROLL_X := data\<rparr>\<rparr>)
           in s\<lparr>ppu := (ppu s)\<lparr>scroll_received_x := \<not> scroll_received_x (ppu s)\<rparr>\<rparr>)
        else if address = 6 then (if ready (ppu s) then ppuio_write_addr data s else s)
        else if address = 7 then ppuio_write_data data s
        else s)"

text \<open>The precomputed pattern tables are constant after \<open>ppu_init\<close>; the model computes their entries.\<close>

definition ppu_l_h_addition_table :: "u8 \<Rightarrow> u8 \<Rightarrow> nat \<Rightarrow> u8" where
  "ppu_l_h_addition_table l h x =
    push_bit 1 (drop_bit (7 - x) h AND 1) OR (drop_bit (7 - x) l AND 1)"

definition ppu_l_h_addition_flip_table :: "u8 \<Rightarrow> u8 \<Rightarrow> nat \<Rightarrow> u8" where
  "ppu_l_h_addition_flip_table l h x = push_bit 1 (drop_bit x h AND 1) OR (drop_bit x l AND 1)"

definition ppu_init :: "nes \<Rightarrow> nes" where
  "ppu_init s =
    s\<lparr>ppu := (ppu s)\<lparr>PPUCTRL := 0, PPUMASK := 0, PPUSTATUS := 0 OR 0xA0, OAMADDR := 0,
        PPUSCROLL_X := 0, PPUSCROLL_Y := 0, PPUADDR := 0, PPUDATA := 0\<rparr>,
      ppu_2007_first_read := True\<rparr>"

section \<open>The joystick\<close>

text \<open>The codes of the keys J, K, U, I, W, S, A and D of \<open>amdev.h\<close>, for the eight buttons; the
  other entries of the array of 256 are 0.\<close>

definition MAP :: "nat list" where
  "MAP = [0, 49, 50, 35, 36, 30, 44, 43, 45, 255] @ replicate 246 0"

text \<open>The counter \<open>p\<close> is an \<open>int\<close> that every read increments and only a strobe resets. An overflow of
  the increment and an access outside \<open>MAP\<close> raise the sticky flag \<open>psg_fault\<close>.\<close>

definition psgio_read :: "u16 \<Rightarrow> u8 reading" where
  "psgio_read address s =
    (if address = 0x4016 then
       (let old = psg_p s;
            s = s\<lparr>psg_p := psg_p s + 1, psg_fault := psg_fault s \<or> psg_p s = 0x7FFFFFFF\<rparr>
        in if sint old < 9 then
             (if 0 \<le> sint (psg_p s) \<and> sint (psg_p s) < 256
              then (key_state s (MAP ! nat (sint (psg_p s))), s)
              else (0, s\<lparr>psg_fault := True\<rparr>))
           else (0, s))
     else (0, s))"

definition psgio_write :: "u16 \<Rightarrow> u8 \<Rightarrow> nes \<Rightarrow> nes" where
  "psgio_write address data s =
    (let s = (if address = 0x4016 \<and> data AND 1 = 0 \<and> prev_write s = 1 then s\<lparr>psg_p := 0\<rparr> else s)
     in s\<lparr>prev_write := data AND 1\<rparr>)"

text \<open>The events the keyboard reports until it has none left: key code and key down.\<close>

primrec psg_detect_key :: "(nat \<times> bool) list \<Rightarrow> nes \<Rightarrow> nes" where
  "psg_detect_key [] s = s"
| "psg_detect_key (ev # evs) s =
    psg_detect_key evs (s\<lparr>key_state := (key_state s)(fst ev := if snd ev then 1 else 0)\<rparr>)"

definition psg_init :: "nes \<Rightarrow> nes" where
  "psg_init s = s\<lparr>key_state := (key_state s)(0 := 1)\<rparr>"

section \<open>The cartridge\<close>

definition mmc_read :: "u16 \<Rightarrow> nes \<Rightarrow> u8" where
  "mmc_read address s = memory s address"

text \<open>\<open>mmc_chr_pages\<close> has one page of 0x2000 bytes; the index \<open>data & 3\<close> may exceed it.\<close>

definition mmc_write :: "u16 \<Rightarrow> u8 \<Rightarrow> nes \<Rightarrow> nes" where
  "mmc_write address data s =
    (let s = (if mmc_id s = 3 then
                ppu_copy 0 (\<lambda>i. mmc_chr_pages s (unat (data AND 3) * 0x2000 + i)) 0x2000
                  (check (data AND 3 = 0) s)
              else s)
     in s\<lparr>memory := (memory s)(address := data)\<rparr>)"

definition mmc_copy :: "u16 \<Rightarrow> (nat \<Rightarrow> u8) \<Rightarrow> nat \<Rightarrow> nes \<Rightarrow> nes" where
  "mmc_copy address source len s =
    check (unat address + len \<le> 0x10000)
      (s\<lparr>memory := (\<lambda>a. if unat address \<le> unat a \<and> unat a < unat address + len
                        then source (unat a - unat address) else memory s a)\<rparr>)"

text \<open>A failed assertion stops the program: \<open>None\<close>.\<close>

definition mmc_append_chr_rom_page :: "(nat \<Rightarrow> u8) \<Rightarrow> nes \<Rightarrow> nes option" where
  "mmc_append_chr_rom_page source s =
    (if mmc_chr_pages_number s < 1 then
       Some (s\<lparr>mmc_chr_pages := (\<lambda>i. if i < 0x2000 then source i else mmc_chr_pages s i),
               mmc_chr_pages_number := mmc_chr_pages_number s + 1\<rparr>)
     else None)"

section \<open>The address decoder\<close>

definition memory_readb :: "u16 \<Rightarrow> u8 reading" where
  "memory_readb address s =
    (let k = drop_bit 13 address
     in if k = 0 then (cpu_ram_read (address AND 0x07FF) s, s)
        else if k = 1 then ppuio_read address s
        else if k = 2 then psgio_read address s
        else if k = 3 then (cpu_ram_read (address AND 0x1FFF) s, s)
        else (mmc_read address s, s))"

primrec dma_transfer :: "u8 \<Rightarrow> nat \<Rightarrow> nes \<Rightarrow> nes" where
  "dma_transfer data 0 s = s"
| "dma_transfer data (Suc n) s =
    dma_transfer data n (ppu_sprram_write (cpu_ram_read (0x100 * ucast data + of_nat (256 - Suc n)) s) s)"

definition memory_writeb :: "u16 \<Rightarrow> u8 \<Rightarrow> nes \<Rightarrow> nes" where
  "memory_writeb address data s =
    (if address = 0x4014 then dma_transfer data 256 s
     else
       (let k = drop_bit 13 address
        in if k = 0 then cpu_ram_write (address AND 0x07FF) data s
           else if k = 1 then ppuio_write address data s
           else if k = 2 then psgio_write address data s
           else if k = 3 then cpu_ram_write (address AND 0x1FFF) data s
           else mmc_write address data s))"

text \<open>The two reads of a word are made low byte first.\<close>

definition memory_readw :: "u16 \<Rightarrow> u16 reading" where
  "memory_readw address s =
    (let (l, s) = memory_readb address s; (h, s) = memory_readb (address + 1) s
     in (ucast l + push_bit 8 (ucast h), s))"

definition memory_writew :: "u16 \<Rightarrow> u16 \<Rightarrow> nes \<Rightarrow> nes" where
  "memory_writew address data s =
    memory_writeb (address + 1) (ucast (drop_bit 8 data)) (memory_writeb address (ucast (data AND 0xFF)) s)"

section \<open>Ranges of addresses\<close>

lemma real_ram_address_in_range: "a < 0x4000 \<Longrightarrow> ppu_get_real_ram_address a < 0x4000"
proof -
  assume a: "a < 0x4000"
  define b where "b = 0x3F00 OR (a AND 0x1F)"
  have "unat b < 2 ^ 14" unfolding b_def by (intro unat_or_below unat_and_below) simp_all
  then have b: "b < 0x4000" by (simp add: word_less_nat_alt)
  have "b - 0x10 < 0x4000" if "b = 0x3F10 \<or> b = 0x3F14 \<or> b = 0x3F18 \<or> b = 0x3F1C"
    using that by auto
  then show ?thesis using a b unfolding ppu_get_real_ram_address_def b_def [symmetric] Let_def by auto
qed

lemma masked_in_range: "a AND 0x3FFF < (0x4000 :: u16)"
  using unat_and_below [of "0x3FFF :: u16" 14 a] by (simp add: word_less_nat_alt)

text \<open>What the bus relies on: the mirroring offset set by \<open>ppu_set_mirroring\<close>, and mapper 0.\<close>

definition bus_ok :: "nes \<Rightarrow> bool" where
  "bus_ok s \<longleftrightarrow> mirroring_xor (ppu s) \<in> {0, 0x400, 0x800} \<and> mmc_id s \<noteq> 3"

lemma mirrored_in_range:
  assumes "m \<in> {0, 0x400, 0x800}" and "a < (0x4000 :: u16)"
  shows "(word_of_int (uint a XOR m) :: u16) < 0x4000"
proof -
  have "(word_of_int (uint a XOR m) :: u16) = a XOR word_of_int m"
    by (rule bit_word_eqI) (auto simp: bit_simps)
  moreover have "unat (a XOR word_of_int m) < 2 ^ 14"
    using assms by (intro unat_xor_below) (auto simp: word_less_nat_alt)
  ultimately show ?thesis by (simp add: word_less_nat_alt)
qed

section \<open>What each operation leaves alone\<close>

lemma check_simps [simp]:
  "check True s = s" "cpu (check b s) = cpu s" "op_cycles (check b s) = op_cycles s"
  "cpu_cycles (check b s) = cpu_cycles s"
  "ppu (check b s) = ppu s" "mmc_id (check b s) = mmc_id s" "CPU_RAM (check b s) = CPU_RAM s"
  "memory (check b s) = memory s" "PPU_RAM (check b s) = PPU_RAM s"
  "fault (check b s) \<longleftrightarrow> fault s \<or> \<not> b"
  by (simp_all add: check_def)

lemma ppu_ram_frame [simp]:
  "cpu (snd (ppu_ram_read a s)) = cpu s" "op_cycles (snd (ppu_ram_read a s)) = op_cycles s"
  "cpu_cycles (snd (ppu_ram_read a s)) = cpu_cycles s"
  "ppu (snd (ppu_ram_read a s)) = ppu s" "mmc_id (snd (ppu_ram_read a s)) = mmc_id s"
  "CPU_RAM (snd (ppu_ram_read a s)) = CPU_RAM s" "memory (snd (ppu_ram_read a s)) = memory s"
  "cpu (ppu_ram_write a d s) = cpu s" "op_cycles (ppu_ram_write a d s) = op_cycles s"
  "cpu_cycles (ppu_ram_write a d s) = cpu_cycles s"
  "ppu (ppu_ram_write a d s) = ppu s" "mmc_id (ppu_ram_write a d s) = mmc_id s"
  "CPU_RAM (ppu_ram_write a d s) = CPU_RAM s" "memory (ppu_ram_write a d s) = memory s"
  by (simp_all add: ppu_ram_read_def ppu_ram_write_def Let_def)

lemma ppu_ram_safe [simp]:
  "a < 0x4000 \<Longrightarrow> fault (snd (ppu_ram_read a s)) = fault s"
  "a < 0x4000 \<Longrightarrow> fault (ppu_ram_write a d s) = fault s"
  using real_ram_address_in_range [of a] by (simp_all add: ppu_ram_read_def ppu_ram_write_def Let_def)

lemma ppu_set_status_frame [simp]:
  "cpu (ppu_set_status n b s) = cpu s" "op_cycles (ppu_set_status n b s) = op_cycles s"
  "cpu_cycles (ppu_set_status n b s) = cpu_cycles s"
  "mmc_id (ppu_set_status n b s) = mmc_id s" "fault (ppu_set_status n b s) = fault s"
  "mirroring_xor (ppu (ppu_set_status n b s)) = mirroring_xor (ppu s)"
  "scanline (ppu (ppu_set_status n b s)) = scanline (ppu s)"
  "CPU_RAM (ppu_set_status n b s) = CPU_RAM s" "memory (ppu_set_status n b s) = memory s"
  by (simp_all add: ppu_set_status_def)

lemma ppuio_read_frame [simp]:
  "cpu (snd (ppuio_read a s)) = cpu s" "op_cycles (snd (ppuio_read a s)) = op_cycles s"
  "cpu_cycles (snd (ppuio_read a s)) = cpu_cycles s"
  "mmc_id (snd (ppuio_read a s)) = mmc_id s" "mirroring_xor (ppu (snd (ppuio_read a s))) = mirroring_xor (ppu s)"
  "scanline (ppu (snd (ppuio_read a s))) = scanline (ppu s)"
  "CPU_RAM (snd (ppuio_read a s)) = CPU_RAM s" "memory (snd (ppuio_read a s)) = memory s"
  by (simp_all add: ppuio_read_def ppuio_read_status_def ppuio_read_data_def Let_def split_beta
      ppu_set_in_vblank_def ppu_set_sprite_0_hit_def)

lemma ppuio_read_safe [simp]: "fault (snd (ppuio_read a s)) = fault s"
  by (simp add: ppuio_read_def ppuio_read_status_def ppuio_read_data_def Let_def split_beta
      ppu_set_in_vblank_def ppu_set_sprite_0_hit_def masked_in_range)

lemma ppu_sprram_write_frame [simp]:
  "cpu (ppu_sprram_write d s) = cpu s" "op_cycles (ppu_sprram_write d s) = op_cycles s"
  "cpu_cycles (ppu_sprram_write d s) = cpu_cycles s"
  "mmc_id (ppu_sprram_write d s) = mmc_id s" "mirroring_xor (ppu (ppu_sprram_write d s)) = mirroring_xor (ppu s)"
  "scanline (ppu (ppu_sprram_write d s)) = scanline (ppu s)"
  "fault (ppu_sprram_write d s) = fault s" "CPU_RAM (ppu_sprram_write d s) = CPU_RAM s"
  "memory (ppu_sprram_write d s) = memory s"
  by (simp_all add: ppu_sprram_write_def)

lemma ppuio_write_frame [simp]:
  "cpu (ppuio_write a d s) = cpu s" "op_cycles (ppuio_write a d s) = op_cycles s"
  "cpu_cycles (ppuio_write a d s) = cpu_cycles s"
  "mmc_id (ppuio_write a d s) = mmc_id s" "mirroring_xor (ppu (ppuio_write a d s)) = mirroring_xor (ppu s)"
  "scanline (ppu (ppuio_write a d s)) = scanline (ppu s)"
  "CPU_RAM (ppuio_write a d s) = CPU_RAM s" "memory (ppuio_write a d s) = memory s"
  by (simp_all add: ppuio_write_def ppuio_write_addr_def ppuio_write_data_def Let_def)

lemma ppuio_write_safe: "bus_ok s \<Longrightarrow> fault (ppuio_write a d s) = fault s"
  by (simp add: ppuio_write_def ppuio_write_addr_def ppuio_write_data_def Let_def bus_ok_def
      masked_in_range mirrored_in_range)

lemma psg_frame [simp]:
  "cpu (snd (psgio_read a s)) = cpu s" "op_cycles (snd (psgio_read a s)) = op_cycles s"
  "cpu_cycles (snd (psgio_read a s)) = cpu_cycles s"
  "ppu (snd (psgio_read a s)) = ppu s" "mmc_id (snd (psgio_read a s)) = mmc_id s"
  "fault (snd (psgio_read a s)) = fault s" "CPU_RAM (snd (psgio_read a s)) = CPU_RAM s"
  "memory (snd (psgio_read a s)) = memory s"
  "cpu (psgio_write a d s) = cpu s" "op_cycles (psgio_write a d s) = op_cycles s"
  "cpu_cycles (psgio_write a d s) = cpu_cycles s"
  "ppu (psgio_write a d s) = ppu s" "mmc_id (psgio_write a d s) = mmc_id s"
  "fault (psgio_write a d s) = fault s" "CPU_RAM (psgio_write a d s) = CPU_RAM s"
  "memory (psgio_write a d s) = memory s"
  by (simp_all add: psgio_read_def psgio_write_def Let_def)

lemma mmc_write_frame [simp]:
  "cpu (mmc_write a d s) = cpu s" "op_cycles (mmc_write a d s) = op_cycles s"
  "cpu_cycles (mmc_write a d s) = cpu_cycles s"
  "ppu (mmc_write a d s) = ppu s" "mmc_id (mmc_write a d s) = mmc_id s"
  "mmc_id s \<noteq> 3 \<Longrightarrow> fault (mmc_write a d s) = fault s" "CPU_RAM (mmc_write a d s) = CPU_RAM s"
  by (simp_all add: mmc_write_def ppu_copy_def Let_def)

lemma cpu_ram_write_frame [simp]:
  "cpu (cpu_ram_write a d s) = cpu s" "op_cycles (cpu_ram_write a d s) = op_cycles s"
  "cpu_cycles (cpu_ram_write a d s) = cpu_cycles s"
  "ppu (cpu_ram_write a d s) = ppu s" "mmc_id (cpu_ram_write a d s) = mmc_id s"
  "fault (cpu_ram_write a d s) = fault s" "memory (cpu_ram_write a d s) = memory s"
  by (simp_all add: cpu_ram_write_def)

lemma dma_transfer_frame [simp]:
  "cpu (dma_transfer d n s) = cpu s" "op_cycles (dma_transfer d n s) = op_cycles s"
  "cpu_cycles (dma_transfer d n s) = cpu_cycles s"
  "mmc_id (dma_transfer d n s) = mmc_id s" "mirroring_xor (ppu (dma_transfer d n s)) = mirroring_xor (ppu s)"
  "scanline (ppu (dma_transfer d n s)) = scanline (ppu s)"
  "fault (dma_transfer d n s) = fault s" "CPU_RAM (dma_transfer d n s) = CPU_RAM s"
  "memory (dma_transfer d n s) = memory s"
  by (induction n arbitrary: s) (simp_all del: of_nat_Suc)

lemma memory_readb_frame [simp]:
  "cpu (snd (memory_readb a s)) = cpu s" "op_cycles (snd (memory_readb a s)) = op_cycles s"
  "cpu_cycles (snd (memory_readb a s)) = cpu_cycles s"
  "mmc_id (snd (memory_readb a s)) = mmc_id s" "mirroring_xor (ppu (snd (memory_readb a s))) = mirroring_xor (ppu s)"
  "scanline (ppu (snd (memory_readb a s))) = scanline (ppu s)"
  "fault (snd (memory_readb a s)) = fault s" "CPU_RAM (snd (memory_readb a s)) = CPU_RAM s"
  "memory (snd (memory_readb a s)) = memory s"
  by (simp_all add: memory_readb_def Let_def)

lemma memory_readw_frame [simp]:
  "cpu (snd (memory_readw a s)) = cpu s" "op_cycles (snd (memory_readw a s)) = op_cycles s"
  "cpu_cycles (snd (memory_readw a s)) = cpu_cycles s"
  "mmc_id (snd (memory_readw a s)) = mmc_id s" "mirroring_xor (ppu (snd (memory_readw a s))) = mirroring_xor (ppu s)"
  "scanline (ppu (snd (memory_readw a s))) = scanline (ppu s)"
  "fault (snd (memory_readw a s)) = fault s" "CPU_RAM (snd (memory_readw a s)) = CPU_RAM s"
  "memory (snd (memory_readw a s)) = memory s"
  by (simp_all add: memory_readw_def Let_def split_beta)

lemma memory_writeb_frame [simp]:
  "cpu (memory_writeb a d s) = cpu s" "op_cycles (memory_writeb a d s) = op_cycles s"
  "cpu_cycles (memory_writeb a d s) = cpu_cycles s"
  "mmc_id (memory_writeb a d s) = mmc_id s" "mirroring_xor (ppu (memory_writeb a d s)) = mirroring_xor (ppu s)"
  "scanline (ppu (memory_writeb a d s)) = scanline (ppu s)"
  by (simp_all add: memory_writeb_def Let_def)

lemma memory_writeb_safe [simp]: "bus_ok s \<Longrightarrow> fault (memory_writeb a d s) = fault s"
  using ppuio_write_safe [of s] by (simp add: memory_writeb_def Let_def bus_ok_def)

lemma bus_ok_frame [simp]:
  "bus_ok (snd (memory_readb a s)) = bus_ok s" "bus_ok (snd (memory_readw a s)) = bus_ok s"
  "bus_ok (memory_writeb a d s) = bus_ok s"
  by (simp_all add: bus_ok_def)

lemma memory_writew_frame [simp]:
  "cpu (memory_writew a w s) = cpu s" "op_cycles (memory_writew a w s) = op_cycles s"
  "cpu_cycles (memory_writew a w s) = cpu_cycles s"
  "scanline (ppu (memory_writew a w s)) = scanline (ppu s)"
  "bus_ok (memory_writew a w s) = bus_ok s" "bus_ok s \<Longrightarrow> fault (memory_writew a w s) = fault s"
  by (simp_all add: memory_writew_def)

end
