(* ===== verification/Nes_Cpu.thy ===== *)
theory Nes_Cpu
  imports Nes_Io "HOL-Library.Signed_Division"
begin

text \<open>
  The 6502 processor of litenes: interrupt vectors, stack, instruction handlers, the decode
  tables and the run loop of \<open>cpu.c\<close>, and the addressing modes of \<open>cpu-addressing.c\<close>.
  \<open>op_value\<close>, \<open>op_address\<close> and \<open>op_cycles\<close> are C \<open>int\<close>s whose values stay far below the
  range of the type and are HOL integers; registers are words.
\<close>

section \<open>Registers and flags\<close>

definition set_cpu :: "(CPU_STATE \<Rightarrow> CPU_STATE) \<Rightarrow> nes \<Rightarrow> nes" where
  "set_cpu f s = s\<lparr>cpu := f (cpu s)\<rparr>"

definition carry_bp :: nat where "carry_bp = 0"
definition zero_bp :: nat where "zero_bp = 1"
definition interrupt_bp :: nat where "interrupt_bp = 2"
definition decimal_bp :: nat where "decimal_bp = 3"
definition break_bp :: nat where "break_bp = 4"
definition unused_bp :: nat where "unused_bp = 5"
definition overflow_bp :: nat where "overflow_bp = 6"
definition negative_bp :: nat where "negative_bp = 7"

lemmas bp_defs = carry_bp_def zero_bp_def interrupt_bp_def decimal_bp_def break_bp_def
  unused_bp_def overflow_bp_def negative_bp_def

definition cpu_zn_flag_table :: "u8 \<Rightarrow> u8" where
  "cpu_zn_flag_table v = (if v = 0 then 0x02 else if v < 0x80 then 0 else 0x80)"

definition cpu_flag_set :: "nat \<Rightarrow> nes \<Rightarrow> bool" where
  "cpu_flag_set flag s = common_bit_set (rP (cpu s)) flag"

definition cpu_modify_flag :: "nat \<Rightarrow> bool \<Rightarrow> nes \<Rightarrow> nes" where
  "cpu_modify_flag flag value = set_cpu (\<lambda>c. c\<lparr>rP := common_modify_bit flag value (rP c)\<rparr>)"

definition cpu_update_zn_flags :: "u8 \<Rightarrow> nes \<Rightarrow> nes" where
  "cpu_update_zn_flags value =
    set_cpu (\<lambda>c. c\<lparr>rP := (rP c AND NOT (0x02 OR 0x80)) OR cpu_zn_flag_table value\<rparr>)"

definition set_A :: "u8 \<Rightarrow> nes \<Rightarrow> nes" where "set_A v = set_cpu (\<lambda>c. c\<lparr>rA := v\<rparr>)"
definition set_X :: "u8 \<Rightarrow> nes \<Rightarrow> nes" where "set_X v = set_cpu (\<lambda>c. c\<lparr>rX := v\<rparr>)"
definition set_Y :: "u8 \<Rightarrow> nes \<Rightarrow> nes" where "set_Y v = set_cpu (\<lambda>c. c\<lparr>rY := v\<rparr>)"
definition set_P :: "u8 \<Rightarrow> nes \<Rightarrow> nes" where "set_P v = set_cpu (\<lambda>c. c\<lparr>rP := v\<rparr>)"
definition set_PC :: "u16 \<Rightarrow> nes \<Rightarrow> nes" where "set_PC v = set_cpu (\<lambda>c. c\<lparr>PC := v\<rparr>)"
definition set_SP :: "u8 \<Rightarrow> nes \<Rightarrow> nes" where "set_SP v = set_cpu (\<lambda>c. c\<lparr>SP := v\<rparr>)"

section \<open>Interrupt addresses and stack\<close>

definition cpu_nmi_interrupt_address :: "u16 reading" where
  "cpu_nmi_interrupt_address = memory_readw 0xFFFA"

definition cpu_reset_interrupt_address :: "u16 reading" where
  "cpu_reset_interrupt_address = memory_readw 0xFFFC"

definition cpu_irq_interrupt_address :: "u16 reading" where
  "cpu_irq_interrupt_address = memory_readw 0xFFFE"

definition cpu_stack_pushb :: "u8 \<Rightarrow> nes \<Rightarrow> nes" where
  "cpu_stack_pushb data s =
    (let a = 0x100 + ucast (SP (cpu s)) in memory_writeb a data (set_SP (SP (cpu s) - 1) s))"

definition cpu_stack_pushw :: "u16 \<Rightarrow> nes \<Rightarrow> nes" where
  "cpu_stack_pushw data s =
    (let s = memory_writew (0xFF + ucast (SP (cpu s))) data s in set_SP (SP (cpu s) - 2) s)"

definition cpu_stack_popb :: "u8 reading" where
  "cpu_stack_popb s =
    (let s = set_SP (SP (cpu s) + 1) s in memory_readb (0x100 + ucast (SP (cpu s))) s)"

definition cpu_stack_popw :: "u16 reading" where
  "cpu_stack_popw s =
    (let s = set_SP (SP (cpu s) + 2) s in memory_readw (0xFF + ucast (SP (cpu s))) s)"

section \<open>Addressing modes\<close>

definition pc_word :: "nes \<Rightarrow> int" where
  "pc_word s = uint (PC (cpu s))"

definition advance :: "u16 \<Rightarrow> nes \<Rightarrow> nes" where
  "advance n s = set_PC (PC (cpu s) + n) s"

text \<open>\<open>if ((op_address >> 8) != (cpu.PC >> 8)) op_cycles++\<close>\<close>

definition page_cross :: "nes \<Rightarrow> nes" where
  "page_cross s =
    (if drop_bit 8 (op_address s) \<noteq> drop_bit 8 (pc_word s) then s\<lparr>op_cycles := op_cycles s + 1\<rparr> else s)"

definition load_operand :: "nes \<Rightarrow> nes" where
  "load_operand s =
    (let (v, s) = memory_readb (word_of_int (op_address s)) s in s\<lparr>op_value := uint v\<rparr>)"

definition cpu_address_implied :: "nes \<Rightarrow> nes" where
  "cpu_address_implied s = s"

definition cpu_address_immediate :: "nes \<Rightarrow> nes" where
  "cpu_address_immediate s =
    (let (v, s) = memory_readb (PC (cpu s)) s in advance 1 (s\<lparr>op_value := uint v\<rparr>))"

text \<open>The zero page is read from \<open>CPU_RAM\<close> directly.\<close>

definition zero_page_operand :: "int \<Rightarrow> nes \<Rightarrow> nes" where
  "zero_page_operand a s =
    advance 1 (s\<lparr>op_address := a, op_value := uint (CPU_RAM s (word_of_int a))\<rparr>)"

definition cpu_address_zero_page :: "nes \<Rightarrow> nes" where
  "cpu_address_zero_page s =
    (let (b, s) = memory_readb (PC (cpu s)) s in zero_page_operand (uint b) s)"

definition cpu_address_zero_page_x :: "nes \<Rightarrow> nes" where
  "cpu_address_zero_page_x s =
    (let (b, s) = memory_readb (PC (cpu s)) s
     in zero_page_operand ((uint b + uint (rX (cpu s))) AND 0xFF) s)"

definition cpu_address_zero_page_y :: "nes \<Rightarrow> nes" where
  "cpu_address_zero_page_y s =
    (let (b, s) = memory_readb (PC (cpu s)) s
     in zero_page_operand ((uint b + uint (rY (cpu s))) AND 0xFF) s)"

definition cpu_address_absolute :: "nes \<Rightarrow> nes" where
  "cpu_address_absolute s =
    (let (w, s) = memory_readw (PC (cpu s)) s
     in advance 2 (load_operand (s\<lparr>op_address := uint w\<rparr>)))"

definition cpu_address_absolute_x :: "nes \<Rightarrow> nes" where
  "cpu_address_absolute_x s =
    (let (w, s) = memory_readw (PC (cpu s)) s
     in page_cross (advance 2 (load_operand (s\<lparr>op_address := uint w + uint (rX (cpu s))\<rparr>))))"

definition cpu_address_absolute_y :: "nes \<Rightarrow> nes" where
  "cpu_address_absolute_y s =
    (let (w, s) = memory_readw (PC (cpu s)) s
     in page_cross (advance 2 (load_operand (s\<lparr>op_address := (uint w + uint (rY (cpu s))) AND 0xFFFF\<rparr>))))"

definition cpu_address_relative :: "nes \<Rightarrow> nes" where
  "cpu_address_relative s =
    (let (b, s) = memory_readb (PC (cpu s)) s;
         s = advance 1 s;
         a = (if uint b AND 0x80 \<noteq> 0 then uint b - 0x100 else uint b)
     in page_cross (s\<lparr>op_address := a + pc_word s\<rparr>))"

definition cpu_address_indirect :: "nes \<Rightarrow> nes" where
  "cpu_address_indirect s =
    (let (arg_addr, s) = memory_readw (PC (cpu s)) s
     in if arg_addr AND 0xFF = 0xFF then
          (let (h, s) = memory_readb (arg_addr AND 0xFF00) s;
               (l, s) = memory_readb arg_addr s
           in advance 2 (s\<lparr>op_address := uint h * 256 + uint l\<rparr>))
        else
          (let (w, s) = memory_readw arg_addr s in advance 2 (s\<lparr>op_address := uint w\<rparr>)))"

definition cpu_address_indirect_x :: "nes \<Rightarrow> nes" where
  "cpu_address_indirect_x s =
    (let (arg_addr, s) = memory_readb (PC (cpu s)) s;
         base = uint arg_addr + uint (rX (cpu s));
         (h, s) = memory_readb (word_of_int ((base + 1) AND 0xFF)) s;
         (l, s) = memory_readb (word_of_int (base AND 0xFF)) s
     in advance 1 (load_operand (s\<lparr>op_address := uint h * 256 OR uint l\<rparr>)))"

definition cpu_address_indirect_y :: "nes \<Rightarrow> nes" where
  "cpu_address_indirect_y s =
    (let (arg_addr, s) = memory_readb (PC (cpu s)) s;
         (h, s) = memory_readb (word_of_int ((uint arg_addr + 1) AND 0xFF)) s;
         (l, s) = memory_readb (ucast arg_addr) s
     in page_cross (advance 1 (load_operand
          (s\<lparr>op_address := ((uint h * 256 OR uint l) + uint (rY (cpu s))) AND 0xFFFF\<rparr>))))"

section \<open>Instructions\<close>

text \<open>The low byte of an \<open>int\<close>.\<close>

definition byte :: "int \<Rightarrow> u8" where
  "byte v = word_of_int v"

definition cpu_branch :: "bool \<Rightarrow> nes \<Rightarrow> nes" where
  "cpu_branch flag s = (if flag then set_PC (word_of_int (op_address s)) s else s)"

definition cpu_compare :: "u8 \<Rightarrow> nes \<Rightarrow> nes" where
  "cpu_compare reg s =
    (let result = uint reg - op_value s;
         s = cpu_modify_flag carry_bp (result \<ge> 0) s;
         s = cpu_modify_flag zero_bp (result = 0) s
     in cpu_modify_flag negative_bp (drop_bit 7 result AND 1 \<noteq> 0) s)"

definition store :: "u8 \<Rightarrow> nes \<Rightarrow> nes" where
  "store v s = memory_writeb (word_of_int (op_address s)) v s"

definition FE :: "nes \<Rightarrow> nes" where "FE s = s"
definition cpu_op_nop :: "nes \<Rightarrow> nes" where "cpu_op_nop s = s"

definition cpu_op_adc :: "nes \<Rightarrow> nes" where
  "cpu_op_adc s =
    (let a = uint (rA (cpu s));
         result = a + op_value s + (if cpu_flag_set carry_bp s then 1 else 0);
         s = cpu_modify_flag carry_bp (result AND 0x100 \<noteq> 0) s;
         s = cpu_modify_flag overflow_bp (NOT (a XOR op_value s) AND (a XOR result) AND 0x80 \<noteq> 0) s;
         s = set_A (byte (result AND 0xFF)) s
     in cpu_update_zn_flags (rA (cpu s)) s)"

definition cpu_op_sbc :: "nes \<Rightarrow> nes" where
  "cpu_op_sbc s =
    (let a = uint (rA (cpu s));
         result = a - op_value s - (if cpu_flag_set carry_bp s then 0 else 1);
         s = cpu_modify_flag carry_bp (result AND 0x100 = 0) s;
         s = cpu_modify_flag overflow_bp ((a XOR op_value s) AND (a XOR result) AND 0x80 \<noteq> 0) s;
         s = set_A (byte (result AND 0xFF)) s
     in cpu_update_zn_flags (rA (cpu s)) s)"

text \<open>\<open>cpu_update_zn_flags(cpu.A = v)\<close>, and the same for X and Y.\<close>

definition load_A :: "u8 \<Rightarrow> nes \<Rightarrow> nes" where "load_A v s = cpu_update_zn_flags v (set_A v s)"
definition load_X :: "u8 \<Rightarrow> nes \<Rightarrow> nes" where "load_X v s = cpu_update_zn_flags v (set_X v s)"
definition load_Y :: "u8 \<Rightarrow> nes \<Rightarrow> nes" where "load_Y v s = cpu_update_zn_flags v (set_Y v s)"

definition cpu_op_and :: "nes \<Rightarrow> nes" where
  "cpu_op_and s = load_A (byte (uint (rA (cpu s)) AND op_value s)) s"

definition cpu_op_bit :: "nes \<Rightarrow> nes" where
  "cpu_op_bit s =
    (let s = cpu_modify_flag zero_bp (uint (rA (cpu s)) AND op_value s = 0) s
     in set_P ((rP (cpu s) AND 0x3F) OR byte (0xC0 AND op_value s)) s)"

definition cpu_op_eor :: "nes \<Rightarrow> nes" where
  "cpu_op_eor s = load_A (byte (uint (rA (cpu s)) XOR op_value s)) s"

definition cpu_op_ora :: "nes \<Rightarrow> nes" where
  "cpu_op_ora s = load_A (byte (uint (rA (cpu s)) OR op_value s)) s"

definition cpu_op_asla :: "nes \<Rightarrow> nes" where
  "cpu_op_asla s =
    (let s = cpu_modify_flag carry_bp (rA (cpu s) AND 0x80 \<noteq> 0) s
     in load_A (push_bit 1 (rA (cpu s))) s)"

definition cpu_op_asl :: "nes \<Rightarrow> nes" where
  "cpu_op_asl s =
    (let s = cpu_modify_flag carry_bp (op_value s AND 0x80 \<noteq> 0) s;
         s = s\<lparr>op_value := op_value s * 2 AND 0xFF\<rparr>;
         s = cpu_update_zn_flags (byte (op_value s)) s
     in store (byte (op_value s)) s)"

definition cpu_op_lsra :: "nes \<Rightarrow> nes" where
  "cpu_op_lsra s =
    (let value = drop_bit 1 (rA (cpu s));
         s = cpu_modify_flag carry_bp (rA (cpu s) AND 1 \<noteq> 0) s
     in load_A value s)"

definition cpu_op_lsr :: "nes \<Rightarrow> nes" where
  "cpu_op_lsr s =
    (let s = cpu_modify_flag carry_bp (op_value s AND 1 \<noteq> 0) s;
         s = s\<lparr>op_value := drop_bit 1 (op_value s) AND 0xFF\<rparr>;
         s = store (byte (op_value s)) s
     in cpu_update_zn_flags (byte (op_value s)) s)"

definition cpu_op_rola :: "nes \<Rightarrow> nes" where
  "cpu_op_rola s =
    (let value = uint (rA (cpu s)) * 2 OR (if cpu_flag_set carry_bp s then 1 else 0);
         s = cpu_modify_flag carry_bp (value > 0xFF) s
     in load_A (byte (value AND 0xFF)) s)"

definition cpu_op_rol :: "nes \<Rightarrow> nes" where
  "cpu_op_rol s =
    (let s = s\<lparr>op_value := op_value s * 2 OR (if cpu_flag_set carry_bp s then 1 else 0)\<rparr>;
         s = cpu_modify_flag carry_bp (op_value s > 0xFF) s;
         s = s\<lparr>op_value := op_value s AND 0xFF\<rparr>;
         s = store (byte (op_value s)) s
     in cpu_update_zn_flags (byte (op_value s)) s)"

definition cpu_op_rora :: "nes \<Rightarrow> nes" where
  "cpu_op_rora s =
    (let carry = cpu_flag_set carry_bp s;
         s = cpu_modify_flag carry_bp (rA (cpu s) AND 1 \<noteq> 0) s;
         s = set_A (drop_bit 1 (rA (cpu s)) OR (if carry then 0x80 else 0)) s;
         s = cpu_modify_flag zero_bp (rA (cpu s) = 0) s
     in cpu_modify_flag negative_bp carry s)"

definition cpu_op_ror :: "nes \<Rightarrow> nes" where
  "cpu_op_ror s =
    (let carry = cpu_flag_set carry_bp s;
         s = cpu_modify_flag carry_bp (op_value s AND 1 \<noteq> 0) s;
         s = s\<lparr>op_value := (drop_bit 1 (op_value s) OR (if carry then 0x80 else 0)) AND 0xFF\<rparr>;
         s = cpu_modify_flag zero_bp (op_value s = 0) s;
         s = cpu_modify_flag negative_bp carry s
     in store (byte (op_value s)) s)"

definition cpu_op_lda :: "nes \<Rightarrow> nes" where "cpu_op_lda s = load_A (byte (op_value s)) s"
definition cpu_op_ldx :: "nes \<Rightarrow> nes" where "cpu_op_ldx s = load_X (byte (op_value s)) s"
definition cpu_op_ldy :: "nes \<Rightarrow> nes" where "cpu_op_ldy s = load_Y (byte (op_value s)) s"
definition cpu_op_sta :: "nes \<Rightarrow> nes" where "cpu_op_sta s = store (rA (cpu s)) s"
definition cpu_op_stx :: "nes \<Rightarrow> nes" where "cpu_op_stx s = store (rX (cpu s)) s"
definition cpu_op_sty :: "nes \<Rightarrow> nes" where "cpu_op_sty s = store (rY (cpu s)) s"
definition cpu_op_tax :: "nes \<Rightarrow> nes" where "cpu_op_tax s = load_X (rA (cpu s)) s"
definition cpu_op_txa :: "nes \<Rightarrow> nes" where "cpu_op_txa s = load_A (rX (cpu s)) s"
definition cpu_op_tay :: "nes \<Rightarrow> nes" where "cpu_op_tay s = load_Y (rA (cpu s)) s"
definition cpu_op_tya :: "nes \<Rightarrow> nes" where "cpu_op_tya s = load_A (rY (cpu s)) s"
definition cpu_op_tsx :: "nes \<Rightarrow> nes" where "cpu_op_tsx s = load_X (SP (cpu s)) s"
definition cpu_op_txs :: "nes \<Rightarrow> nes" where "cpu_op_txs s = set_SP (rX (cpu s)) s"

definition cpu_op_bcs :: "nes \<Rightarrow> nes" where "cpu_op_bcs s = cpu_branch (cpu_flag_set carry_bp s) s"
definition cpu_op_beq :: "nes \<Rightarrow> nes" where "cpu_op_beq s = cpu_branch (cpu_flag_set zero_bp s) s"
definition cpu_op_bmi :: "nes \<Rightarrow> nes" where "cpu_op_bmi s = cpu_branch (cpu_flag_set negative_bp s) s"
definition cpu_op_bvs :: "nes \<Rightarrow> nes" where "cpu_op_bvs s = cpu_branch (cpu_flag_set overflow_bp s) s"
definition cpu_op_bne :: "nes \<Rightarrow> nes" where "cpu_op_bne s = cpu_branch (\<not> cpu_flag_set zero_bp s) s"
definition cpu_op_bcc :: "nes \<Rightarrow> nes" where "cpu_op_bcc s = cpu_branch (\<not> cpu_flag_set carry_bp s) s"
definition cpu_op_bpl :: "nes \<Rightarrow> nes" where "cpu_op_bpl s = cpu_branch (\<not> cpu_flag_set negative_bp s) s"
definition cpu_op_bvc :: "nes \<Rightarrow> nes" where "cpu_op_bvc s = cpu_branch (\<not> cpu_flag_set overflow_bp s) s"

definition cpu_op_jmp :: "nes \<Rightarrow> nes" where
  "cpu_op_jmp s = set_PC (word_of_int (op_address s)) s"

definition cpu_op_jsr :: "nes \<Rightarrow> nes" where
  "cpu_op_jsr s =
    (let s = cpu_stack_pushw (PC (cpu s) - 1) s in set_PC (word_of_int (op_address s)) s)"

definition cpu_op_rts :: "nes \<Rightarrow> nes" where
  "cpu_op_rts s = (let (w, s) = cpu_stack_popw s in set_PC (w + 1) s)"

definition cpu_op_brk :: "nes \<Rightarrow> nes" where
  "cpu_op_brk s =
    (let s = cpu_stack_pushw (PC (cpu s) - 1) s;
         s = cpu_stack_pushb (rP (cpu s)) s;
         s = set_P (rP (cpu s) OR 0x20 OR 0x10) s;
         (w, s) = cpu_nmi_interrupt_address s
     in set_PC w s)"

definition cpu_op_rti :: "nes \<Rightarrow> nes" where
  "cpu_op_rti s =
    (let (p, s) = cpu_stack_popb s;
         s = set_P (p OR 0x20) s;
         (w, s) = cpu_stack_popw s
     in set_PC w s)"

definition cpu_op_clc :: "nes \<Rightarrow> nes" where "cpu_op_clc = cpu_modify_flag carry_bp False"
definition cpu_op_cld :: "nes \<Rightarrow> nes" where "cpu_op_cld = cpu_modify_flag decimal_bp False"
definition cpu_op_cli :: "nes \<Rightarrow> nes" where "cpu_op_cli = cpu_modify_flag interrupt_bp False"
definition cpu_op_clv :: "nes \<Rightarrow> nes" where "cpu_op_clv = cpu_modify_flag overflow_bp False"
definition cpu_op_sec :: "nes \<Rightarrow> nes" where "cpu_op_sec = cpu_modify_flag carry_bp True"
definition cpu_op_sed :: "nes \<Rightarrow> nes" where "cpu_op_sed = cpu_modify_flag decimal_bp True"
definition cpu_op_sei :: "nes \<Rightarrow> nes" where "cpu_op_sei = cpu_modify_flag interrupt_bp True"

definition cpu_op_cmp :: "nes \<Rightarrow> nes" where "cpu_op_cmp s = cpu_compare (rA (cpu s)) s"
definition cpu_op_cpx :: "nes \<Rightarrow> nes" where "cpu_op_cpx s = cpu_compare (rX (cpu s)) s"
definition cpu_op_cpy :: "nes \<Rightarrow> nes" where "cpu_op_cpy s = cpu_compare (rY (cpu s)) s"

definition cpu_op_inc :: "nes \<Rightarrow> nes" where
  "cpu_op_inc s =
    (let result = byte (op_value s + 1) in cpu_update_zn_flags result (store result s))"

definition cpu_op_dec :: "nes \<Rightarrow> nes" where
  "cpu_op_dec s =
    (let result = byte (op_value s - 1) in cpu_update_zn_flags result (store result s))"

definition cpu_op_inx :: "nes \<Rightarrow> nes" where "cpu_op_inx s = load_X (rX (cpu s) + 1) s"
definition cpu_op_iny :: "nes \<Rightarrow> nes" where "cpu_op_iny s = load_Y (rY (cpu s) + 1) s"
definition cpu_op_dex :: "nes \<Rightarrow> nes" where "cpu_op_dex s = load_X (rX (cpu s) - 1) s"
definition cpu_op_dey :: "nes \<Rightarrow> nes" where "cpu_op_dey s = load_Y (rY (cpu s) - 1) s"

definition cpu_op_php :: "nes \<Rightarrow> nes" where "cpu_op_php s = cpu_stack_pushb (rP (cpu s) OR 0x30) s"
definition cpu_op_pha :: "nes \<Rightarrow> nes" where "cpu_op_pha s = cpu_stack_pushb (rA (cpu s)) s"

definition cpu_op_pla :: "nes \<Rightarrow> nes" where
  "cpu_op_pla s = (let (v, s) = cpu_stack_popb s in load_A v s)"

definition cpu_op_plp :: "nes \<Rightarrow> nes" where
  "cpu_op_plp s = (let (v, s) = cpu_stack_popb s in set_P ((v AND 0xEF) OR 0x20) s)"

text \<open>The extended instruction set.\<close>

definition cpu_op_aso :: "nes \<Rightarrow> nes" where "cpu_op_aso s = cpu_op_ora (cpu_op_asl s)"

definition cpu_op_axa :: "nes \<Rightarrow> nes" where
  "cpu_op_axa s =
    store (byte (uint (rA (cpu s)) AND uint (rX (cpu s)) AND drop_bit 8 (op_address s))) s"

definition cpu_op_axs :: "nes \<Rightarrow> nes" where
  "cpu_op_axs s = store (rA (cpu s) AND rX (cpu s)) s"

definition cpu_op_dcm :: "nes \<Rightarrow> nes" where
  "cpu_op_dcm s =
    (let s = s\<lparr>op_value := (op_value s - 1) AND 0xFF\<rparr>
     in cpu_op_cmp (store (byte (op_value s)) s))"

definition cpu_op_ins :: "nes \<Rightarrow> nes" where
  "cpu_op_ins s =
    (let s = s\<lparr>op_value := (op_value s + 1) AND 0xFF\<rparr>
     in cpu_op_sbc (store (byte (op_value s)) s))"

definition cpu_op_lax :: "nes \<Rightarrow> nes" where
  "cpu_op_lax s = load_A (byte (op_value s)) (set_X (byte (op_value s)) s)"

definition cpu_op_lse :: "nes \<Rightarrow> nes" where "cpu_op_lse s = cpu_op_eor (cpu_op_lsr s)"
definition cpu_op_rla :: "nes \<Rightarrow> nes" where "cpu_op_rla s = cpu_op_and (cpu_op_rol s)"
definition cpu_op_rra :: "nes \<Rightarrow> nes" where "cpu_op_rra s = cpu_op_adc (cpu_op_ror s)"

section \<open>The decode tables\<close>

text \<open>
  An entry is the number of cycles, the handler and the addressing mode that \<open>cpu_init\<close>
  stores for an opcode; an opcode without an entry has a null addressing mode, no handler
  and no cycles.
\<close>

type_synonym op_entry = "int \<times> (nes \<Rightarrow> nes) \<times> (nes \<Rightarrow> nes)"

definition ops_base :: "(u8 \<times> op_entry) list" where
  "ops_base =
    [(0x00, 7, cpu_op_brk, cpu_address_implied),
     (0x01, 6, cpu_op_ora, cpu_address_indirect_x),
     (0x05, 3, cpu_op_ora, cpu_address_zero_page),
     (0x06, 5, cpu_op_asl, cpu_address_zero_page),
     (0x08, 3, cpu_op_php, cpu_address_implied),
     (0x09, 2, cpu_op_ora, cpu_address_immediate),
     (0x0A, 2, cpu_op_asla, cpu_address_implied),
     (0x0D, 4, cpu_op_ora, cpu_address_absolute),
     (0x0E, 6, cpu_op_asl, cpu_address_absolute),
     (0x10, 2, cpu_op_bpl, cpu_address_relative),
     (0x11, 5, cpu_op_ora, cpu_address_indirect_y),
     (0x15, 4, cpu_op_ora, cpu_address_zero_page_x),
     (0x16, 6, cpu_op_asl, cpu_address_zero_page_x),
     (0x18, 2, cpu_op_clc, cpu_address_implied),
     (0x19, 4, cpu_op_ora, cpu_address_absolute_y),
     (0x1D, 4, cpu_op_ora, cpu_address_absolute_x),
     (0x1E, 7, cpu_op_asl, cpu_address_absolute_x),
     (0x20, 6, cpu_op_jsr, cpu_address_absolute),
     (0x21, 6, cpu_op_and, cpu_address_indirect_x),
     (0x24, 3, cpu_op_bit, cpu_address_zero_page),
     (0x25, 3, cpu_op_and, cpu_address_zero_page),
     (0x26, 5, cpu_op_rol, cpu_address_zero_page),
     (0x28, 4, cpu_op_plp, cpu_address_implied),
     (0x29, 2, cpu_op_and, cpu_address_immediate),
     (0x2A, 2, cpu_op_rola, cpu_address_implied),
     (0x2C, 4, cpu_op_bit, cpu_address_absolute),
     (0x2D, 2, cpu_op_and, cpu_address_absolute),
     (0x2E, 6, cpu_op_rol, cpu_address_absolute),
     (0x30, 2, cpu_op_bmi, cpu_address_relative),
     (0x31, 5, cpu_op_and, cpu_address_indirect_y),
     (0x35, 4, cpu_op_and, cpu_address_zero_page_x),
     (0x36, 6, cpu_op_rol, cpu_address_zero_page_x),
     (0x38, 2, cpu_op_sec, cpu_address_implied),
     (0x39, 4, cpu_op_and, cpu_address_absolute_y),
     (0x3D, 4, cpu_op_and, cpu_address_absolute_x),
     (0x3E, 7, cpu_op_rol, cpu_address_absolute_x),
     (0x40, 6, cpu_op_rti, cpu_address_implied),
     (0x41, 6, cpu_op_eor, cpu_address_indirect_x),
     (0x45, 3, cpu_op_eor, cpu_address_zero_page),
     (0x46, 5, cpu_op_lsr, cpu_address_zero_page),
     (0x48, 3, cpu_op_pha, cpu_address_implied),
     (0x49, 2, cpu_op_eor, cpu_address_immediate),
     (0x4A, 2, cpu_op_lsra, cpu_address_implied),
     (0x4C, 3, cpu_op_jmp, cpu_address_absolute),
     (0x4D, 4, cpu_op_eor, cpu_address_absolute),
     (0x4E, 6, cpu_op_lsr, cpu_address_absolute),
     (0x50, 2, cpu_op_bvc, cpu_address_relative),
     (0x51, 5, cpu_op_eor, cpu_address_indirect_y),
     (0x55, 4, cpu_op_eor, cpu_address_zero_page_x),
     (0x56, 6, cpu_op_lsr, cpu_address_zero_page_x),
     (0x58, 2, cpu_op_cli, cpu_address_implied),
     (0x59, 4, cpu_op_eor, cpu_address_absolute_y),
     (0x5D, 4, cpu_op_eor, cpu_address_absolute_x),
     (0x5E, 7, cpu_op_lsr, cpu_address_absolute_x),
     (0x60, 6, cpu_op_rts, cpu_address_implied),
     (0x61, 6, cpu_op_adc, cpu_address_indirect_x),
     (0x65, 3, cpu_op_adc, cpu_address_zero_page),
     (0x66, 5, cpu_op_ror, cpu_address_zero_page),
     (0x68, 4, cpu_op_pla, cpu_address_implied),
     (0x69, 2, cpu_op_adc, cpu_address_immediate),
     (0x6A, 2, cpu_op_rora, cpu_address_implied),
     (0x6C, 5, cpu_op_jmp, cpu_address_indirect),
     (0x6D, 4, cpu_op_adc, cpu_address_absolute),
     (0x6E, 6, cpu_op_ror, cpu_address_absolute),
     (0x70, 2, cpu_op_bvs, cpu_address_relative),
     (0x71, 5, cpu_op_adc, cpu_address_indirect_y),
     (0x75, 4, cpu_op_adc, cpu_address_zero_page_x),
     (0x76, 6, cpu_op_ror, cpu_address_zero_page_x),
     (0x78, 2, cpu_op_sei, cpu_address_implied),
     (0x79, 4, cpu_op_adc, cpu_address_absolute_y),
     (0x7D, 4, cpu_op_adc, cpu_address_absolute_x),
     (0x7E, 7, cpu_op_ror, cpu_address_absolute_x),
     (0x81, 6, cpu_op_sta, cpu_address_indirect_x),
     (0x84, 3, cpu_op_sty, cpu_address_zero_page),
     (0x85, 3, cpu_op_sta, cpu_address_zero_page),
     (0x86, 3, cpu_op_stx, cpu_address_zero_page),
     (0x88, 2, cpu_op_dey, cpu_address_implied),
     (0x8A, 2, cpu_op_txa, cpu_address_implied),
     (0x8C, 4, cpu_op_sty, cpu_address_absolute),
     (0x8D, 4, cpu_op_sta, cpu_address_absolute),
     (0x8E, 4, cpu_op_stx, cpu_address_absolute),
     (0x90, 2, cpu_op_bcc, cpu_address_relative),
     (0x91, 6, cpu_op_sta, cpu_address_indirect_y),
     (0x94, 4, cpu_op_sty, cpu_address_zero_page_x),
     (0x95, 4, cpu_op_sta, cpu_address_zero_page_x),
     (0x96, 4, cpu_op_stx, cpu_address_zero_page_y),
     (0x98, 2, cpu_op_tya, cpu_address_implied),
     (0x99, 5, cpu_op_sta, cpu_address_absolute_y),
     (0x9A, 2, cpu_op_txs, cpu_address_implied),
     (0x9D, 5, cpu_op_sta, cpu_address_absolute_x),
     (0xA0, 2, cpu_op_ldy, cpu_address_immediate),
     (0xA1, 6, cpu_op_lda, cpu_address_indirect_x),
     (0xA2, 2, cpu_op_ldx, cpu_address_immediate),
     (0xA4, 3, cpu_op_ldy, cpu_address_zero_page),
     (0xA5, 3, cpu_op_lda, cpu_address_zero_page),
     (0xA6, 3, cpu_op_ldx, cpu_address_zero_page),
     (0xA8, 2, cpu_op_tay, cpu_address_implied),
     (0xA9, 2, cpu_op_lda, cpu_address_immediate),
     (0xAA, 2, cpu_op_tax, cpu_address_implied),
     (0xAC, 4, cpu_op_ldy, cpu_address_absolute),
     (0xAD, 4, cpu_op_lda, cpu_address_absolute),
     (0xAE, 4, cpu_op_ldx, cpu_address_absolute),
     (0xB0, 2, cpu_op_bcs, cpu_address_relative),
     (0xB1, 5, cpu_op_lda, cpu_address_indirect_y),
     (0xB4, 4, cpu_op_ldy, cpu_address_zero_page_x),
     (0xB5, 4, cpu_op_lda, cpu_address_zero_page_x),
     (0xB6, 4, cpu_op_ldx, cpu_address_zero_page_y),
     (0xB8, 2, cpu_op_clv, cpu_address_implied),
     (0xB9, 4, cpu_op_lda, cpu_address_absolute_y),
     (0xBA, 2, cpu_op_tsx, cpu_address_implied),
     (0xBC, 4, cpu_op_ldy, cpu_address_absolute_x),
     (0xBD, 4, cpu_op_lda, cpu_address_absolute_x),
     (0xBE, 4, cpu_op_ldx, cpu_address_absolute_y),
     (0xC0, 2, cpu_op_cpy, cpu_address_immediate),
     (0xC1, 6, cpu_op_cmp, cpu_address_indirect_x),
     (0xC4, 3, cpu_op_cpy, cpu_address_zero_page),
     (0xC5, 3, cpu_op_cmp, cpu_address_zero_page),
     (0xC6, 5, cpu_op_dec, cpu_address_zero_page),
     (0xC8, 2, cpu_op_iny, cpu_address_implied),
     (0xC9, 2, cpu_op_cmp, cpu_address_immediate),
     (0xCA, 2, cpu_op_dex, cpu_address_implied),
     (0xCC, 4, cpu_op_cpy, cpu_address_absolute),
     (0xCD, 4, cpu_op_cmp, cpu_address_absolute),
     (0xCE, 6, cpu_op_dec, cpu_address_absolute),
     (0xD0, 2, cpu_op_bne, cpu_address_relative),
     (0xD1, 5, cpu_op_cmp, cpu_address_indirect_y),
     (0xD5, 4, cpu_op_cmp, cpu_address_zero_page_x),
     (0xD6, 6, cpu_op_dec, cpu_address_zero_page_x),
     (0xD8, 2, cpu_op_cld, cpu_address_implied),
     (0xD9, 4, cpu_op_cmp, cpu_address_absolute_y),
     (0xDD, 4, cpu_op_cmp, cpu_address_absolute_x),
     (0xDE, 7, cpu_op_dec, cpu_address_absolute_x),
     (0xE0, 2, cpu_op_cpx, cpu_address_immediate),
     (0xE1, 6, cpu_op_sbc, cpu_address_indirect_x),
     (0xE4, 3, cpu_op_cpx, cpu_address_zero_page),
     (0xE5, 3, cpu_op_sbc, cpu_address_zero_page),
     (0xE6, 5, cpu_op_inc, cpu_address_zero_page),
     (0xE8, 2, cpu_op_inx, cpu_address_implied),
     (0xE9, 2, cpu_op_sbc, cpu_address_immediate),
     (0xEA, 2, cpu_op_nop, cpu_address_implied),
     (0xEC, 4, cpu_op_cpx, cpu_address_absolute),
     (0xED, 4, cpu_op_sbc, cpu_address_absolute),
     (0xEE, 6, cpu_op_inc, cpu_address_absolute),
     (0xF0, 2, cpu_op_beq, cpu_address_relative),
     (0xF1, 5, cpu_op_sbc, cpu_address_indirect_y),
     (0xF5, 4, cpu_op_sbc, cpu_address_zero_page_x),
     (0xF6, 6, cpu_op_inc, cpu_address_zero_page_x),
     (0xF8, 2, cpu_op_sed, cpu_address_implied),
     (0xF9, 4, cpu_op_sbc, cpu_address_absolute_y),
     (0xFD, 4, cpu_op_sbc, cpu_address_absolute_x),
     (0xFE, 7, cpu_op_inc, cpu_address_absolute_x)]"

definition ops_extended :: "(u8 \<times> op_entry) list" where
  "ops_extended =
    [(0x03, 8, cpu_op_aso, cpu_address_indirect_x),
     (0x07, 5, cpu_op_aso, cpu_address_zero_page),
     (0x0F, 6, cpu_op_aso, cpu_address_absolute),
     (0x13, 8, cpu_op_aso, cpu_address_indirect_y),
     (0x17, 6, cpu_op_aso, cpu_address_zero_page_x),
     (0x1B, 7, cpu_op_aso, cpu_address_absolute_y),
     (0x1F, 7, cpu_op_aso, cpu_address_absolute_x),
     (0x23, 8, cpu_op_rla, cpu_address_indirect_x),
     (0x27, 5, cpu_op_rla, cpu_address_zero_page),
     (0x2F, 6, cpu_op_rla, cpu_address_absolute),
     (0x33, 8, cpu_op_rla, cpu_address_indirect_y),
     (0x37, 6, cpu_op_rla, cpu_address_zero_page_x),
     (0x3B, 7, cpu_op_rla, cpu_address_absolute_y),
     (0x3F, 7, cpu_op_rla, cpu_address_absolute_x),
     (0x43, 8, cpu_op_lse, cpu_address_indirect_x),
     (0x47, 5, cpu_op_lse, cpu_address_zero_page),
     (0x4F, 6, cpu_op_lse, cpu_address_absolute),
     (0x53, 8, cpu_op_lse, cpu_address_indirect_y),
     (0x57, 6, cpu_op_lse, cpu_address_zero_page_x),
     (0x5B, 7, cpu_op_lse, cpu_address_absolute_y),
     (0x5F, 7, cpu_op_lse, cpu_address_absolute_x),
     (0x63, 8, cpu_op_rra, cpu_address_indirect_x),
     (0x67, 5, cpu_op_rra, cpu_address_zero_page),
     (0x6F, 6, cpu_op_rra, cpu_address_absolute),
     (0x73, 8, cpu_op_rra, cpu_address_indirect_y),
     (0x77, 6, cpu_op_rra, cpu_address_zero_page_x),
     (0x7B, 7, cpu_op_rra, cpu_address_absolute_y),
     (0x7F, 7, cpu_op_rra, cpu_address_absolute_x),
     (0x83, 6, cpu_op_axs, cpu_address_indirect_x),
     (0x87, 3, cpu_op_axs, cpu_address_zero_page),
     (0x8F, 4, cpu_op_axs, cpu_address_absolute),
     (0x93, 6, cpu_op_axa, cpu_address_indirect_y),
     (0x97, 4, cpu_op_axs, cpu_address_zero_page_y),
     (0x9F, 5, cpu_op_axa, cpu_address_absolute_y),
     (0xA3, 6, cpu_op_lax, cpu_address_indirect_x),
     (0xA7, 3, cpu_op_lax, cpu_address_zero_page),
     (0xAF, 4, cpu_op_lax, cpu_address_absolute),
     (0xB3, 5, cpu_op_lax, cpu_address_indirect_y),
     (0xB7, 4, cpu_op_lax, cpu_address_zero_page_y),
     (0xBF, 4, cpu_op_lax, cpu_address_absolute_y),
     (0xC3, 8, cpu_op_dcm, cpu_address_indirect_x),
     (0xC7, 5, cpu_op_dcm, cpu_address_zero_page),
     (0xCF, 6, cpu_op_dcm, cpu_address_absolute),
     (0xD3, 8, cpu_op_dcm, cpu_address_indirect_y),
     (0xD7, 6, cpu_op_dcm, cpu_address_zero_page_x),
     (0xDB, 7, cpu_op_dcm, cpu_address_absolute_y),
     (0xDF, 7, cpu_op_dcm, cpu_address_absolute_x),
     (0xE3, 8, cpu_op_ins, cpu_address_indirect_x),
     (0xE7, 5, cpu_op_ins, cpu_address_zero_page),
     (0xEB, 2, cpu_op_sbc, cpu_address_immediate),
     (0xEF, 6, cpu_op_ins, cpu_address_absolute),
     (0xF3, 8, cpu_op_ins, cpu_address_indirect_y),
     (0xF7, 6, cpu_op_ins, cpu_address_zero_page_x),
     (0xFB, 7, cpu_op_ins, cpu_address_absolute_y),
     (0xFF, 7, cpu_op_ins, cpu_address_absolute_x)]"

definition ops_missing :: "(u8 \<times> op_entry) list" where
  "ops_missing =
    [(0x04, 1, FE, cpu_address_zero_page),
     (0x0C, 1, FE, cpu_address_absolute),
     (0x14, 1, FE, cpu_address_zero_page_x),
     (0x1A, 1, FE, cpu_address_implied),
     (0x1C, 1, FE, cpu_address_absolute_x),
     (0x34, 1, FE, cpu_address_zero_page_x),
     (0x3A, 1, FE, cpu_address_implied),
     (0x3C, 1, FE, cpu_address_absolute_x),
     (0x44, 1, FE, cpu_address_zero_page),
     (0x54, 1, FE, cpu_address_zero_page_x),
     (0x5A, 1, FE, cpu_address_implied),
     (0x5C, 1, FE, cpu_address_absolute_x),
     (0x64, 1, FE, cpu_address_zero_page),
     (0x74, 1, FE, cpu_address_zero_page_x),
     (0x7A, 1, FE, cpu_address_implied),
     (0x7C, 1, FE, cpu_address_absolute_x),
     (0x80, 1, FE, cpu_address_immediate),
     (0xD4, 1, FE, cpu_address_zero_page_x),
     (0xDA, 1, FE, cpu_address_implied),
     (0xDC, 1, FE, cpu_address_absolute_x),
     (0xF4, 1, FE, cpu_address_zero_page_x),
     (0xFA, 1, FE, cpu_address_implied),
     (0xFC, 1, FE, cpu_address_absolute_x)]"

definition decode :: "u8 \<Rightarrow> op_entry option" where
  "decode opcode = map_of (ops_base @ ops_extended @ ops_missing) opcode"

section \<open>Life cycle\<close>

definition cpu_init :: "nes \<Rightarrow> nes" where
  "cpu_init = set_cpu (\<lambda>c. c\<lparr>rP := 0x24, SP := 0, rA := 0, rX := 0, rY := 0\<rparr>)"

definition cpu_reset :: "nes \<Rightarrow> nes" where
  "cpu_reset s =
    (let (w, s) = cpu_reset_interrupt_address s
     in set_cpu (\<lambda>c. c\<lparr>PC := w, SP := SP c - 3, rP := rP c OR 0x04\<rparr>) s)"

definition cpu_interrupt :: "nes \<Rightarrow> nes" where
  "cpu_interrupt s =
    (if ppu_generates_nmi s then
       (let s = set_P (rP (cpu s) OR 0x04) s;
            s = cpu_modify_flag unused_bp False s;
            s = cpu_stack_pushw (PC (cpu s)) s;
            s = cpu_stack_pushb (rP (cpu s)) s;
            (w, s) = cpu_nmi_interrupt_address s
        in set_PC w s)
     else s)"

definition cpu_clock :: "nes \<Rightarrow> u64" where
  "cpu_clock s = cpu_cycles s"

text \<open>One round of the loop of \<open>cpu_run\<close>: the cycles it subtracts, and the state.\<close>

definition cpu_step :: "nes \<Rightarrow> int \<times> nes" where
  "cpu_step s =
    (let (b, s) = memory_readb (PC (cpu s)) (advance 1 s);
         s = s\<lparr>op_code := b\<rparr>;
         (base, s) = (case decode b of None \<Rightarrow> (0, s) | Some (c, handler, mode) \<Rightarrow> (c, handler (mode s)));
         cost = base + op_cycles s
     in (cost, s\<lparr>cpu_cycles := cpu_cycles s - word_of_int cost, op_cycles := 0\<rparr>))"

partial_function (option) cpu_loop :: "int \<Rightarrow> nes \<Rightarrow> nes option" where
  "cpu_loop cycles s =
    (if cycles > 0 then (case cpu_step s of (cost, t) \<Rightarrow> cpu_loop (cycles - cost) t) else Some s)"

definition cpu_run :: "int \<Rightarrow> nes \<Rightarrow> nes option" where
  "cpu_run cycles s = cpu_loop (cycles sdiv 3) s"

section \<open>What an instruction leaves alone\<close>

lemma set_cpu_frame [simp]:
  "cpu (set_cpu f s) = f (cpu s)" "op_cycles (set_cpu f s) = op_cycles s"
  "cpu_cycles (set_cpu f s) = cpu_cycles s"
  "scanline (ppu (set_cpu f s)) = scanline (ppu s)" "op_value (set_cpu f s) = op_value s"
  "op_address (set_cpu f s) = op_address s" "bus_ok (set_cpu f s) = bus_ok s" "fault (set_cpu f s) = fault s"
  by (simp_all add: set_cpu_def bus_ok_def)

lemma bus_ok_updates [simp]:
  "bus_ok (s\<lparr>op_value := v\<rparr>) = bus_ok s" "bus_ok (s\<lparr>op_address := a\<rparr>) = bus_ok s"
  "bus_ok (s\<lparr>op_cycles := c\<rparr>) = bus_ok s" "bus_ok (s\<lparr>op_code := b\<rparr>) = bus_ok s"
  "bus_ok (s\<lparr>cpu_cycles := k\<rparr>) = bus_ok s"
  by (simp_all add: bus_ok_def)

lemmas setters = cpu_modify_flag_def cpu_update_zn_flags_def set_A_def set_X_def set_Y_def
  set_P_def set_PC_def set_SP_def load_A_def load_X_def load_Y_def advance_def

lemma stack_frame [simp]:
  "op_cycles (cpu_stack_pushb d s) = op_cycles s"
  "cpu_cycles (cpu_stack_pushb d s) = cpu_cycles s"
  "scanline (ppu (cpu_stack_pushb d s)) = scanline (ppu s)" "bus_ok (cpu_stack_pushb d s) = bus_ok s"
  "op_cycles (cpu_stack_pushw w s) = op_cycles s"
  "cpu_cycles (cpu_stack_pushw w s) = cpu_cycles s"
  "scanline (ppu (cpu_stack_pushw w s)) = scanline (ppu s)" "bus_ok (cpu_stack_pushw w s) = bus_ok s"
  "op_cycles (snd (cpu_stack_popb s)) = op_cycles s"
  "cpu_cycles (snd (cpu_stack_popb s)) = cpu_cycles s"
  "scanline (ppu (snd (cpu_stack_popb s))) = scanline (ppu s)" "bus_ok (snd (cpu_stack_popb s)) = bus_ok s"
  "op_cycles (snd (cpu_stack_popw s)) = op_cycles s"
  "cpu_cycles (snd (cpu_stack_popw s)) = cpu_cycles s"
  "scanline (ppu (snd (cpu_stack_popw s))) = scanline (ppu s)" "bus_ok (snd (cpu_stack_popw s)) = bus_ok s"
  "fault (snd (cpu_stack_popb s)) = fault s" "fault (snd (cpu_stack_popw s)) = fault s"
  "bus_ok s \<Longrightarrow> fault (cpu_stack_pushb d s) = fault s"
  "bus_ok s \<Longrightarrow> fault (cpu_stack_pushw w s) = fault s"
  by (simp_all add: cpu_stack_pushb_def cpu_stack_pushw_def cpu_stack_popb_def cpu_stack_popw_def
      Let_def setters)

lemma store_frame [simp]:
  "cpu (store v s) = cpu s" "op_cycles (store v s) = op_cycles s"
  "cpu_cycles (store v s) = cpu_cycles s"
  "scanline (ppu (store v s)) = scanline (ppu s)" "bus_ok (store v s) = bus_ok s"
  "bus_ok s \<Longrightarrow> fault (store v s) = fault s"
  by (simp_all add: store_def)

lemma load_operand_frame [simp]:
  "cpu (load_operand s) = cpu s" "op_cycles (load_operand s) = op_cycles s"
  "cpu_cycles (load_operand s) = cpu_cycles s"
  "scanline (ppu (load_operand s)) = scanline (ppu s)"
  "bus_ok (load_operand s) = bus_ok s" "fault (load_operand s) = fault s"
  by (simp_all add: load_operand_def split_beta)

lemma page_cross_frame [simp]:
  "cpu (page_cross s) = cpu s" "cpu_cycles (page_cross s) = cpu_cycles s"
  "scanline (ppu (page_cross s)) = scanline (ppu s)" "op_cycles s \<le> op_cycles (page_cross s)"
  "bus_ok (page_cross s) = bus_ok s" "fault (page_cross s) = fault s"
  by (simp_all add: page_cross_def)

text \<open>
  An operation is tame when it keeps the bus in order, raises no fault and takes no cycles
  back. Every addressing mode and every instruction is tame.
\<close>

definition tame :: "(nes \<Rightarrow> nes) \<Rightarrow> bool" where
  "tame f \<longleftrightarrow> (\<forall>s. (bus_ok s \<longrightarrow> bus_ok (f s) \<and> fault (f s) = fault s)
    \<and> op_cycles s \<le> op_cycles (f s) \<and> cpu_cycles (f s) = cpu_cycles s
    \<and> scanline (ppu (f s)) = scanline (ppu s))"

lemma tameI:
  "(\<And>s. bus_ok s \<Longrightarrow> bus_ok (f s)) \<Longrightarrow> (\<And>s. bus_ok s \<Longrightarrow> fault (f s) = fault s) \<Longrightarrow>
    (\<And>s. op_cycles s \<le> op_cycles (f s)) \<Longrightarrow> (\<And>s. cpu_cycles (f s) = cpu_cycles s) \<Longrightarrow>
    (\<And>s. scanline (ppu (f s)) = scanline (ppu s)) \<Longrightarrow> tame f"
  by (simp add: tame_def)

lemma tame_comp: "tame f \<Longrightarrow> tame g \<Longrightarrow> tame (\<lambda>s. f (g s))"
  by (auto simp: tame_def intro: order_trans)

lemma tame_page_cross: "tame page_cross"
  by (rule tameI) simp_all

lemma tame_pageI: "tame f \<Longrightarrow> tame (\<lambda>s. page_cross (f s))"
  by (rule tame_comp [OF tame_page_cross])

lemmas mode_defs = cpu_address_implied_def cpu_address_immediate_def cpu_address_zero_page_def
  cpu_address_zero_page_x_def cpu_address_zero_page_y_def cpu_address_absolute_def
  cpu_address_absolute_x_def cpu_address_absolute_y_def cpu_address_relative_def
  cpu_address_indirect_def cpu_address_indirect_x_def cpu_address_indirect_y_def zero_page_operand_def

lemma tame_modes [inv_intro]:
  "tame cpu_address_implied" "tame cpu_address_immediate" "tame cpu_address_zero_page"
  "tame cpu_address_zero_page_x" "tame cpu_address_zero_page_y" "tame cpu_address_absolute"
  "tame cpu_address_indirect" "tame cpu_address_indirect_x"
  by (rule tameI; simp add: mode_defs split_beta Let_def setters)+

lemma tame_paging_modes [inv_intro]:
  "tame cpu_address_absolute_x" "tame cpu_address_absolute_y" "tame cpu_address_relative"
  "tame cpu_address_indirect_y"
  unfolding mode_defs Let_def split_beta
  by (rule tame_pageI, rule tameI; simp add: setters split_beta)+

lemmas simple_ops = cpu_op_nop_def FE_def cpu_op_adc_def cpu_op_sbc_def cpu_op_and_def cpu_op_bit_def
  cpu_op_eor_def cpu_op_ora_def cpu_op_asla_def cpu_op_asl_def cpu_op_lsra_def cpu_op_lsr_def
  cpu_op_rola_def cpu_op_rol_def cpu_op_rora_def cpu_op_ror_def cpu_op_lda_def cpu_op_ldx_def
  cpu_op_ldy_def cpu_op_sta_def cpu_op_stx_def cpu_op_sty_def cpu_op_tax_def cpu_op_txa_def
  cpu_op_tay_def cpu_op_tya_def cpu_op_tsx_def cpu_op_txs_def cpu_op_bcs_def cpu_op_beq_def
  cpu_op_bmi_def cpu_op_bvs_def cpu_op_bne_def cpu_op_bcc_def cpu_op_bpl_def cpu_op_bvc_def
  cpu_op_jmp_def cpu_op_clc_def cpu_op_cld_def cpu_op_cli_def cpu_op_clv_def cpu_op_sec_def
  cpu_op_sed_def cpu_op_sei_def cpu_op_cmp_def cpu_op_cpx_def cpu_op_cpy_def cpu_op_inc_def
  cpu_op_dec_def cpu_op_inx_def cpu_op_iny_def cpu_op_dex_def cpu_op_dey_def cpu_op_axa_def
  cpu_op_axs_def cpu_op_lax_def cpu_branch_def cpu_compare_def

lemmas stack_ops = cpu_op_jsr_def cpu_op_rts_def cpu_op_brk_def cpu_op_rti_def cpu_op_php_def
  cpu_op_pha_def cpu_op_pla_def cpu_op_plp_def cpu_nmi_interrupt_address_def

lemma tame_simple_ops [inv_intro]:
  "tame cpu_op_nop" "tame FE" "tame cpu_op_adc" "tame cpu_op_sbc" "tame cpu_op_and" "tame cpu_op_bit"
  "tame cpu_op_eor" "tame cpu_op_ora" "tame cpu_op_asla" "tame cpu_op_asl" "tame cpu_op_lsra" "tame cpu_op_lsr"
  "tame cpu_op_rola" "tame cpu_op_rol" "tame cpu_op_rora" "tame cpu_op_ror" "tame cpu_op_lda" "tame cpu_op_ldx"
  "tame cpu_op_ldy" "tame cpu_op_sta" "tame cpu_op_stx" "tame cpu_op_sty" "tame cpu_op_tax" "tame cpu_op_txa"
  "tame cpu_op_tay" "tame cpu_op_tya" "tame cpu_op_tsx" "tame cpu_op_txs" "tame cpu_op_bcs" "tame cpu_op_beq"
  "tame cpu_op_bmi" "tame cpu_op_bvs" "tame cpu_op_bne" "tame cpu_op_bcc" "tame cpu_op_bpl" "tame cpu_op_bvc"
  "tame cpu_op_jmp" "tame cpu_op_clc" "tame cpu_op_cld" "tame cpu_op_cli" "tame cpu_op_clv" "tame cpu_op_sec"
  "tame cpu_op_sed" "tame cpu_op_sei" "tame cpu_op_cmp" "tame cpu_op_cpx" "tame cpu_op_cpy" "tame cpu_op_inc"
  "tame cpu_op_dec" "tame cpu_op_inx" "tame cpu_op_iny" "tame cpu_op_dex" "tame cpu_op_dey" "tame cpu_op_axa"
  "tame cpu_op_axs" "tame cpu_op_lax"
  by (rule tameI; simp add: simple_ops Let_def setters)+

lemma tame_stack_ops [inv_intro]:
  "tame cpu_op_jsr" "tame cpu_op_rts" "tame cpu_op_brk" "tame cpu_op_rti" "tame cpu_op_php"
  "tame cpu_op_pha" "tame cpu_op_pla" "tame cpu_op_plp"
  by (rule tameI; simp add: stack_ops Let_def split_beta setters)+

lemma tame_extended_ops [inv_intro]:
  "tame cpu_op_aso" "tame cpu_op_lse" "tame cpu_op_rla" "tame cpu_op_rra"
  unfolding cpu_op_aso_def cpu_op_lse_def cpu_op_rla_def cpu_op_rra_def
  by (rule tame_comp; intro inv_intro)+

lemma tame_compare_ops [inv_intro]: "tame cpu_op_dcm" "tame cpu_op_ins"
  by (rule tameI; simp add: cpu_op_dcm_def cpu_op_ins_def simple_ops Let_def setters)+

definition tame_entry :: "u8 \<times> op_entry \<Rightarrow> bool" where
  "tame_entry e = (case e of (opc, c, h, m) \<Rightarrow> tame h \<and> tame m \<and> 1 \<le> c)"

lemma tame_entryI: "tame h \<Longrightarrow> tame m \<Longrightarrow> 1 \<le> c \<Longrightarrow> tame_entry (opc, c, h, m)"
  by (simp add: tame_entry_def)

lemmas tame_ops = tame_modes tame_paging_modes tame_simple_ops tame_stack_ops tame_extended_ops
  tame_compare_ops one_le_numeral order_refl

lemma tame_tables: "list_all tame_entry ops_base" "list_all tame_entry ops_extended" "list_all tame_entry ops_missing"
  unfolding ops_base_def ops_extended_def ops_missing_def
  by (simp_all add: tame_entryI tame_ops)

lemma decode_tame: "decode b = Some (c, h, m) \<Longrightarrow> tame h \<and> tame m \<and> 1 \<le> c"
proof -
  assume "decode b = Some (c, h, m)"
  then have "(b, c, h, m) \<in> set (ops_base @ ops_extended @ ops_missing)"
    unfolding decode_def by (rule map_of_SomeD)
  then have "tame_entry (b, c, h, m)" using tame_tables by (auto simp only: list_all_iff set_append Un_iff)
  then show ?thesis by (simp add: tame_entry_def)
qed

lemma decode_FF: "decode 0xFF \<noteq> None"
proof -
  have "0xFF \<in> fst ` set ops_extended" by (simp add: ops_extended_def)
  then show ?thesis unfolding decode_def map_of_eq_None_iff by (simp only: set_append image_Un Un_iff) blast
qed

section \<open>The run loop\<close>

definition fetched :: "nes \<Rightarrow> u8" where
  "fetched s = fst (memory_readb (PC (cpu s)) (advance 1 s))"

lemma fetched_io: "PC (cpu s) = 0x2000 \<Longrightarrow> fetched s = 0xFF"
  by (simp add: fetched_def memory_readb_def ppuio_read_def Let_def)

lemma op_cycles_step [simp]: "op_cycles (snd (cpu_step s)) = 0"
  by (simp add: cpu_step_def Let_def split_beta)

lemma cpu_step_undefined:
  assumes "decode (fetched s) = None"
  shows "fst (cpu_step s) = op_cycles s" and "PC (cpu (snd (cpu_step s))) = PC (cpu s) + 1"
  using assms by (simp_all add: cpu_step_def fetched_def split_beta Let_def setters)

lemma cpu_step_defined:
  assumes "decode (fetched s) \<noteq> None" and "0 \<le> op_cycles s"
  shows "1 \<le> fst (cpu_step s)"
proof -
  obtain c h m where d: "decode (fetched s) = Some (c, h, m)" using assms(1) by auto
  define t where "t = (snd (memory_readb (PC (cpu s)) (advance 1 s)))\<lparr>op_code := fetched s\<rparr>"
  have t: "op_cycles t = op_cycles s" by (simp add: t_def setters)
  have "op_cycles t \<le> op_cycles (h (m t))"
    using decode_tame [OF d] by (auto simp: tame_def intro: order_trans)
  moreover have "fst (cpu_step s) = c + op_cycles (h (m t))"
    using d by (simp add: cpu_step_def fetched_def split_beta Let_def t_def)
  ultimately show ?thesis using decode_tame [OF d] assms(2) t by simp
qed

lemma cpu_step_safe:
  assumes "bus_ok s"
  shows "bus_ok (snd (cpu_step s)) \<and> fault (snd (cpu_step s)) = fault s"
proof -
  define t where "t = (snd (memory_readb (PC (cpu s)) (advance 1 s)))\<lparr>op_code := fetched s\<rparr>"
  have t: "bus_ok t" "fault t = fault s" using assms by (simp_all add: t_def setters)
  show ?thesis
  proof (cases "decode (fetched s)")
    case None
    then show ?thesis using t by (simp add: cpu_step_def fetched_def split_beta Let_def t_def)
  next
    case (Some e)
    obtain c h m where e: "e = (c, h, m)" by (cases e) auto
    from t have "bus_ok (h (m t)) \<and> fault (h (m t)) = fault s"
      using decode_tame [of "fetched s" c h m] Some e by (auto simp: tame_def)
    then show ?thesis using Some e by (simp add: cpu_step_def fetched_def split_beta Let_def t_def)
  qed
qed

text \<open>
  An opcode without an entry takes no cycles, so a round does not always bring the loop
  nearer to its end by its counter. But it then moves on by one byte, and the byte at
  0x2000 is a register of the PPU that always reads 0xFF, an instruction with an entry.
\<close>

lemma cpu_step_progress:
  assumes "op_cycles s = 0" and "0 < n"
  shows "nat (n - fst (cpu_step s)) * 65536 + unat (0x2000 - PC (cpu (snd (cpu_step s))))
    < nat n * 65536 + unat (0x2000 - PC (cpu s))"
proof (cases "decode (fetched s)")
  case None
  then have ne: "0x2000 - PC (cpu s) \<noteq> 0" using fetched_io [of s] decode_FF by auto
  have "0x2000 - PC (cpu (snd (cpu_step s))) = 0x2000 - PC (cpu s) - 1"
    by (simp only: cpu_step_undefined(2) [OF None] diff_diff_add)
  then have "unat (0x2000 - PC (cpu (snd (cpu_step s)))) = unat (0x2000 - PC (cpu s)) - 1"
    by (simp only: unat_minus_one [OF ne])
  then have "unat (0x2000 - PC (cpu (snd (cpu_step s)))) < unat (0x2000 - PC (cpu s))"
    using ne unat_gt_0 [of "0x2000 - PC (cpu s)"] by linarith
  then show ?thesis using cpu_step_undefined(1) [OF None] assms(1) by simp
next
  case (Some e)
  then have "1 \<le> fst (cpu_step s)" using cpu_step_defined [of s] assms(1) by simp
  then have "nat (n - fst (cpu_step s)) + 1 \<le> nat n" using assms(2) by linarith
  then have "(nat (n - fst (cpu_step s)) + 1) * 65536 \<le> nat n * 65536" by (rule mult_le_mono1)
  then show ?thesis using unat_lt_u16 [of "0x2000 - PC (cpu (snd (cpu_step s)))"] by simp
qed

lemma cpu_step_cost_nonneg: "op_cycles s = 0 \<Longrightarrow> 0 \<le> fst (cpu_step s)"
  using cpu_step_undefined(1) [of s] cpu_step_defined [of s] by (cases "decode (fetched s)") auto

lemma cpu_step_clock: "cpu_cycles (snd (cpu_step s)) = cpu_cycles s - word_of_int (fst (cpu_step s))"
proof (cases "decode (fetched s)")
  case None
  then show ?thesis by (simp add: cpu_step_def fetched_def split_beta Let_def setters)
next
  case (Some e)
  obtain c h m where e: "e = (c, h, m)" by (cases e) auto
  then have "cpu_cycles (h (m t)) = cpu_cycles t" for t
    using decode_tame [of "fetched s" c h m] Some by (simp add: tame_def)
  then show ?thesis using Some e by (simp add: cpu_step_def fetched_def split_beta Let_def setters)
qed

lemma cpu_step_scanline: "scanline (ppu (snd (cpu_step s))) = scanline (ppu s)"
proof (cases "decode (fetched s)")
  case None
  then show ?thesis by (simp add: cpu_step_def fetched_def split_beta Let_def setters)
next
  case (Some e)
  obtain c h m where e: "e = (c, h, m)" by (cases e) auto
  then have "scanline (ppu (h (m t))) = scanline (ppu t)" for t
    using decode_tame [of "fetched s" c h m] Some by (simp add: tame_def)
  then show ?thesis using Some e by (simp add: cpu_step_def fetched_def split_beta Let_def setters)
qed

text \<open>The state after \<open>m\<close> instructions, and the cycles they cost.\<close>

definition after_steps :: "nat \<Rightarrow> nes \<Rightarrow> nes" where
  "after_steps m s = ((\<lambda>s. snd (cpu_step s)) ^^ m) s"

definition spent :: "nat \<Rightarrow> nes \<Rightarrow> int" where
  "spent m s = (\<Sum>j<m. fst (cpu_step (after_steps j s)))"

lemma after_steps_simps: "after_steps 0 s = s" "after_steps (Suc m) s = after_steps m (snd (cpu_step s))"
  by (simp_all add: after_steps_def funpow_Suc_right del: funpow.simps(2))

lemma spent_simps: "spent 0 s = 0" "spent (Suc m) s = fst (cpu_step s) + spent m (snd (cpu_step s))"
  by (simp_all add: spent_def sum.lessThan_Suc_shift after_steps_simps del: sum.lessThan_Suc)

text \<open>The loop returns, after the first number of instructions whose cost reaches the cycles given.\<close>

lemma cpu_loop_returns:
  assumes "op_cycles s = 0"
  shows "\<exists>m. cpu_loop n s = Some (after_steps m s) \<and> n \<le> spent m s \<and> (\<forall>j<m. 0 \<le> spent j s \<and> spent j s < n)
    \<and> op_cycles (after_steps m s) = 0 \<and> scanline (ppu (after_steps m s)) = scanline (ppu s)
    \<and> cpu_cycles (after_steps m s) = cpu_cycles s - word_of_int (spent m s)
    \<and> (bus_ok s \<longrightarrow> bus_ok (after_steps m s) \<and> fault (after_steps m s) = fault s)"
  using assms
proof (induction "nat n * 65536 + unat (0x2000 - PC (cpu s))" arbitrary: n s rule: less_induct)
  case less
  show ?case
  proof (cases "0 < n")
    case True
    obtain c t where st: "cpu_step s = (c, t)" by (cases "cpu_step s")
    have "nat (n - c) * 65536 + unat (0x2000 - PC (cpu t)) < nat n * 65536 + unat (0x2000 - PC (cpu s))"
      using cpu_step_progress [OF less.prems True] by (simp add: st)
    moreover have "op_cycles t = 0" using op_cycles_step [of s] by (simp add: st)
    ultimately obtain m where m: "cpu_loop (n - c) t = Some (after_steps m t)" "n - c \<le> spent m t"
      "\<forall>j<m. 0 \<le> spent j t \<and> spent j t < n - c" "op_cycles (after_steps m t) = 0"
      "scanline (ppu (after_steps m t)) = scanline (ppu t)"
      "cpu_cycles (after_steps m t) = cpu_cycles t - word_of_int (spent m t)"
      "bus_ok t \<longrightarrow> bus_ok (after_steps m t) \<and> fault (after_steps m t) = fault t"
      using less.hyps by blast
    have "cpu_loop n s = cpu_loop (n - c) t" using True by (subst cpu_loop.simps) (simp add: st)
    moreover have e: "after_steps (Suc m) s = after_steps m t" "spent (Suc j) s = c + spent j t" for j
      by (simp_all add: after_steps_simps spent_simps st)
    moreover have "cpu_cycles (after_steps m t) = cpu_cycles s - word_of_int (c + spent m t)"
      using m(6) cpu_step_clock [of s] by (simp add: st)
    moreover have "0 \<le> c" using cpu_step_cost_nonneg [OF less.prems] by (simp add: st)
    then have "\<forall>j<Suc m. 0 \<le> spent j s \<and> spent j s < n"
      using True m(3) e(2) by (auto simp: less_Suc_eq_0_disj spent_simps)
    ultimately show ?thesis using m cpu_step_safe [of s] cpu_step_scanline [of s] st
      by (intro exI [of _ "Suc m"]) simp
  next
    case False
    then show ?thesis using less.prems
      by (subst cpu_loop.simps) (auto simp: after_steps_simps spent_simps intro: exI [of _ 0])
  qed
qed

end
