(* ===== verification/Nes_Alu.thy ===== *)
theory Nes_Alu
  imports Nes_Cpu
begin

text \<open>
  What the arithmetic of the 6502 model computes: the flag register bit by bit, and the
  addition, subtraction and comparison against the integers they stand for.
\<close>

section \<open>The flag register\<close>

abbreviation flag :: "nes \<Rightarrow> nat \<Rightarrow> bool" where
  "flag s n \<equiv> bit (rP (cpu s)) n"

lemma cpu_flag_set_iff [simp]: "cpu_flag_set n s = flag s n"
  by (simp add: cpu_flag_set_def common_bit_set_iff)

lemma flag_modify [simp]: "n < 8 \<Longrightarrow> flag (cpu_modify_flag n b s) k = (if k = n then b else flag s k)"
  by (simp add: cpu_modify_flag_def)

lemma bit_0x80: "bit (0x80 :: u8) k \<longleftrightarrow> k = 7" and bit_0x02: "bit (0x02 :: u8) k \<longleftrightarrow> k = 1"
  using bit_push_bit_iff [of 7 "1 :: u8" k] bit_push_bit_iff [of 1 "1 :: u8" k]
  by (auto simp: bit_1_iff push_bit_of_1)

lemma flag_zn [simp]:
  "k < 8 \<Longrightarrow> flag (cpu_update_zn_flags v s) k = (if k = 1 then v = 0 else if k = 7 then 0x80 \<le> v else flag s k)"
proof -
  assume k: "k < 8"
  have e: "rP (cpu (cpu_update_zn_flags v s)) = (rP (cpu s) AND NOT (0x02 OR 0x80)) OR cpu_zn_flag_table v"
    by (simp add: cpu_update_zn_flags_def)
  have b: "flag (cpu_update_zn_flags v s) k \<longleftrightarrow> flag s k \<and> k \<noteq> 1 \<and> k \<noteq> 7 \<or> bit (cpu_zn_flag_table v) k"
    unfolding e bit_or_iff bit_and_iff bit_not_iff bit_0x02 bit_0x80 using k by auto
  consider "v = 0" | "v \<noteq> 0" "v < 0x80" | "v \<noteq> 0" "0x80 \<le> v" by force
  then show ?thesis
  proof cases
    case 1
    then show ?thesis unfolding b by (auto simp: cpu_zn_flag_table_def bit_0x02 [simplified])
  next
    case 2
    then show ?thesis unfolding b by (auto simp: cpu_zn_flag_table_def)
  next
    case 3
    then show ?thesis unfolding b by (auto simp: cpu_zn_flag_table_def bit_0x80 [simplified])
  qed
qed

lemma registers_modify [simp]:
  "rA (cpu (cpu_modify_flag n b s)) = rA (cpu s)" "rX (cpu (cpu_modify_flag n b s)) = rX (cpu s)"
  "rY (cpu (cpu_modify_flag n b s)) = rY (cpu s)" "op_value (cpu_modify_flag n b s) = op_value s"
  "rA (cpu (cpu_update_zn_flags v s)) = rA (cpu s)" "rX (cpu (cpu_update_zn_flags v s)) = rX (cpu s)"
  "rY (cpu (cpu_update_zn_flags v s)) = rY (cpu s)"
  by (simp_all add: cpu_modify_flag_def cpu_update_zn_flags_def)

lemma set_A_simps [simp]: "rA (cpu (set_A v s)) = v" "flag (set_A v s) = flag s"
  by (simp_all add: set_A_def)

section \<open>Arithmetic on bytes\<close>

lemma int_and_pow2: "(x AND 2 ^ n \<noteq> 0) = bit x n" for x :: int
  by (simp add: bit_iff_and_push_bit_not_eq_0 push_bit_of_1)

lemma int_and_0x80: "(x AND 0x80 \<noteq> 0) = bit x 7" and int_and_0x100: "(x AND 0x100 \<noteq> 0) = bit x 8" for x :: int
  using int_and_pow2 [of x 7] int_and_pow2 [of x 8] by simp_all

lemma bit7_byte: "0 \<le> x \<Longrightarrow> x < 256 \<Longrightarrow> bit x 7 \<longleftrightarrow> 128 \<le> x" for x :: int
  unfolding bit_iff_odd
  by (cases "128 \<le> x") (simp_all add: div_pos_geq div_pos_pos_trivial)

definition signed8 :: "int \<Rightarrow> int" where
  "signed8 x = (if 128 \<le> x then x - 256 else x)"

lemma sint_u8: "sint (v :: u8) = signed8 (uint v)"
proof -
  define u where "u = uint v"
  have u: "0 \<le> u" "u < 256" using uint_lt2p [of v] by (simp_all add: u_def)
  have "sint v = (u + 128) mod 256 - 128"
    using int_word_sint [of u, where 'a = 8] by (simp add: u_def)
  also have "(u + 128) mod 256 = (if 128 \<le> u then u - 128 else u + 128)"
    using u mod_add_self2 [of "u - 128" 256] by (auto simp: mod_pos_pos_trivial add.commute)
  finally have "sint v = signed8 u" by (simp add: signed8_def)
  then show ?thesis by (simp add: u_def)
qed

lemma uint_byte: "0 \<le> x \<Longrightarrow> x < 256 \<Longrightarrow> uint (byte x) = x"
  by (simp add: byte_def uint_word_of_int mod_pos_pos_trivial)

lemma and_0xFF: "x AND 0xFF = x mod 256" for x :: int
  using take_bit_eq_mask [of 8 x] by (simp add: mask_eq_exp_minus_1 take_bit_eq_mod)

lemma uint_byte_mod: "uint (byte (x AND 0xFF)) = x mod 256"
  by (simp add: and_0xFF uint_byte)

section \<open>Addition and subtraction\<close>

lemma mod_above: "256 \<le> x \<Longrightarrow> x < 512 \<Longrightarrow> x mod 256 = x - 256" for x :: int
proof -
  assume "256 \<le> x" "x < 512"
  have "x mod 256 = (x - 256) mod 256" by simp
  also have "\<dots> = x - 256" using \<open>256 \<le> x\<close> \<open>x < 512\<close> by (intro mod_pos_pos_trivial) simp_all
  finally show ?thesis .
qed

lemma mod_below: "- 256 \<le> x \<Longrightarrow> x < 0 \<Longrightarrow> x mod 256 = x + 256" for x :: int
proof -
  assume "- 256 \<le> x" "x < 0"
  have "x mod 256 = (x + 256) mod 256" by simp
  also have "\<dots> = x + 256" using \<open>- 256 \<le> x\<close> \<open>x < 0\<close> by (intro mod_pos_pos_trivial) simp_all
  finally show ?thesis .
qed

definition carry_in :: "nes \<Rightarrow> int" where
  "carry_in s = (if flag s 0 then 1 else 0)"

lemma bit8_sum: "0 \<le> x \<Longrightarrow> x < 512 \<Longrightarrow> bit x 8 \<longleftrightarrow> 256 \<le> x" for x :: int
  unfolding bit_iff_odd
  by (cases "256 \<le> x") (simp_all add: div_pos_geq div_pos_pos_trivial)

lemma bit7_sum: "bit x 7 \<longleftrightarrow> 128 \<le> x mod 256" for x :: int
proof -
  have "bit x 7 \<longleftrightarrow> bit (take_bit 8 x) 7" by (simp add: bit_take_bit_iff)
  then show ?thesis using bit7_byte [of "x mod 256"] by (simp add: take_bit_eq_mod)
qed

lemma adc_overflow:
  fixes a v c :: int
  assumes "0 \<le> a" "a < 256" "0 \<le> v" "v < 256" "c = 0 \<or> c = 1"
  shows "(NOT (a XOR v) AND (a XOR (a + v + c)) AND 0x80 \<noteq> 0)
    \<longleftrightarrow> signed8 a + signed8 v + c < - 128 \<or> 127 < signed8 a + signed8 v + c"
proof -
  have "(NOT (a XOR v) AND (a XOR (a + v + c)) AND 0x80 \<noteq> 0)
    \<longleftrightarrow> (bit a 7 \<longleftrightarrow> bit v 7) \<and> (bit a 7 \<noteq> bit (a + v + c) 7)"
    unfolding and.assoc [symmetric] int_and_0x80 bit_and_iff bit_not_iff bit_xor_iff by auto
  also have "\<dots> \<longleftrightarrow> (128 \<le> a \<longleftrightarrow> 128 \<le> v) \<and> ((128 \<le> a) \<noteq> (128 \<le> (a + v + c) mod 256))"
    using assms by (simp add: bit7_byte bit7_sum [of "a + v + c"])
  also have "(a + v + c) mod 256 = (if 256 \<le> a + v + c then a + v + c - 256 else a + v + c)"
    using assms mod_above [of "a + v + c"] mod_pos_pos_trivial [of "a + v + c" 256] by auto
  finally show ?thesis using assms unfolding signed8_def by (auto split: if_splits)
qed

lemma sbc_overflow:
  fixes a v b :: int
  assumes "0 \<le> a" "a < 256" "0 \<le> v" "v < 256" "b = 0 \<or> b = 1"
  shows "((a XOR v) AND (a XOR (a - v - b)) AND 0x80 \<noteq> 0)
    \<longleftrightarrow> signed8 a - signed8 v - b < - 128 \<or> 127 < signed8 a - signed8 v - b"
proof -
  have "((a XOR v) AND (a XOR (a - v - b)) AND 0x80 \<noteq> 0)
    \<longleftrightarrow> (bit a 7 \<noteq> bit v 7) \<and> (bit a 7 \<noteq> bit (a - v - b) 7)"
    unfolding and.assoc [symmetric] int_and_0x80 bit_and_iff bit_not_iff bit_xor_iff by auto
  also have "\<dots> \<longleftrightarrow> ((128 \<le> a) \<noteq> (128 \<le> v)) \<and> ((128 \<le> a) \<noteq> (128 \<le> (a - v - b) mod 256))"
    using assms by (simp add: bit7_byte bit7_sum [of "a - v - b"])
  also have "(a - v - b) mod 256 = (if a - v - b < 0 then a - v - b + 256 else a - v - b)"
    using assms mod_below [of "a - v - b"] mod_pos_pos_trivial [of "a - v - b" 256] by auto
  finally show ?thesis using assms unfolding signed8_def by (auto split: if_splits)
qed

lemma sbc_carry:
  fixes a v b :: int
  assumes "0 \<le> a" "a < 256" "0 \<le> v" "v < 256" "b = 0 \<or> b = 1"
  shows "((a - v - b) AND 0x100 = 0) \<longleftrightarrow> v + b \<le> a"
proof -
  have "bit (a - v - b) 8 \<longleftrightarrow> bit (a - v - b + 512) 8"
    unfolding bit_iff_odd using div_mult_self1 [of 256 "a - v - b" 2] by simp
  moreover have "bit (a - v - b + 512) 8 \<longleftrightarrow> a - v - b < 0"
  proof (cases "a - v - b < 0")
    case True
    then have "(a - v - b + 512) div 256 = 1" using assms by (auto simp: div_pos_geq div_pos_pos_trivial)
    then show ?thesis using True by (simp add: bit_iff_odd)
  next
    case False
    then have "(a - v - b + 512) div 256 = 2" using assms by (auto simp: div_pos_geq div_pos_pos_trivial)
    then show ?thesis using False by (simp add: bit_iff_odd)
  qed
  ultimately show ?thesis using int_and_0x100 [of "a - v - b"] by auto
qed

lemma carry_in_cases: "carry_in s = 0 \<or> carry_in s = 1"
  by (simp add: carry_in_def)

lemma adc_eval:
  fixes s :: nes and v :: u8
  assumes "op_value s = uint v"
  defines "tot \<equiv> uint (rA (cpu s)) + uint v + carry_in s" and "t \<equiv> cpu_op_adc s"
  shows "uint (rA (cpu t)) = tot mod 256"
    and "flag t 0 \<longleftrightarrow> 256 \<le> tot"
    and "flag t 6 \<longleftrightarrow> signed8 (uint (rA (cpu s))) + signed8 (uint v) + carry_in s < - 128
      \<or> 127 < signed8 (uint (rA (cpu s))) + signed8 (uint v) + carry_in s"
    and "flag t 1 \<longleftrightarrow> rA (cpu t) = 0" and "flag t 7 \<longleftrightarrow> 0x80 \<le> rA (cpu t)"
    and "k \<in> {2, 3, 4, 5} \<Longrightarrow> flag t k = flag s k"
proof -
  have r: "0 \<le> uint (rA (cpu s))" "uint (rA (cpu s)) < 256" "0 \<le> uint v" "uint v < 256"
    using uint_lt2p [of "rA (cpu s)"] uint_lt2p [of v] by simp_all
  have c: "(if cpu_flag_set carry_bp s then 1 else 0) = carry_in s"
    by (simp add: carry_in_def carry_bp_def)
  note ov = adc_overflow [OF r carry_in_cases [of s]]
  have tot: "0 \<le> tot" "tot < 512" using r carry_in_cases [of s] by (auto simp: tot_def)
  show "uint (rA (cpu t)) = tot mod 256"
    unfolding t_def cpu_op_adc_def Let_def c assms(1) registers_modify set_A_simps tot_def [symmetric] by (simp only: uint_byte_mod)
  show "flag t 0 \<longleftrightarrow> 256 \<le> tot"
    using bit8_sum [OF tot] unfolding t_def cpu_op_adc_def Let_def c assms(1) tot_def [symmetric] int_and_0x100
    by (simp add: bp_defs)
  show "flag t 6 \<longleftrightarrow> signed8 (uint (rA (cpu s))) + signed8 (uint v) + carry_in s < - 128
      \<or> 127 < signed8 (uint (rA (cpu s))) + signed8 (uint v) + carry_in s"
    unfolding ov [symmetric] unfolding t_def cpu_op_adc_def Let_def c assms(1) tot_def [symmetric]
    by (simp add: bp_defs assms(1))
  show "flag t 1 \<longleftrightarrow> rA (cpu t) = 0" "flag t 7 \<longleftrightarrow> 0x80 \<le> rA (cpu t)"
    "k \<in> {2, 3, 4, 5} \<Longrightarrow> flag t k = flag s k"
    unfolding t_def cpu_op_adc_def Let_def by (auto simp: bp_defs)
qed

lemma sbc_eval:
  fixes s :: nes and v :: u8
  assumes "op_value s = uint v"
  defines "dif \<equiv> uint (rA (cpu s)) - uint v - (1 - carry_in s)" and "t \<equiv> cpu_op_sbc s"
  shows "uint (rA (cpu t)) = dif mod 256"
    and "flag t 0 \<longleftrightarrow> 0 \<le> dif"
    and "flag t 6 \<longleftrightarrow> signed8 (uint (rA (cpu s))) - signed8 (uint v) - (1 - carry_in s) < - 128
      \<or> 127 < signed8 (uint (rA (cpu s))) - signed8 (uint v) - (1 - carry_in s)"
    and "flag t 1 \<longleftrightarrow> rA (cpu t) = 0" and "flag t 7 \<longleftrightarrow> 0x80 \<le> rA (cpu t)"
    and "k \<in> {2, 3, 4, 5} \<Longrightarrow> flag t k = flag s k"
proof -
  have r: "0 \<le> uint (rA (cpu s))" "uint (rA (cpu s)) < 256" "0 \<le> uint v" "uint v < 256"
    using uint_lt2p [of "rA (cpu s)"] uint_lt2p [of v] by simp_all
  have c: "(if cpu_flag_set carry_bp s then 0 else 1) = 1 - carry_in s"
    by (simp add: carry_in_def carry_bp_def)
  have b: "1 - carry_in s = 0 \<or> 1 - carry_in s = 1" by (simp add: carry_in_def)
  note ov = sbc_overflow [OF r b]
  have dif: "dif = uint (rA (cpu s)) - uint v - (1 - carry_in s)" by (simp add: dif_def)
  show "uint (rA (cpu t)) = dif mod 256"
    unfolding t_def cpu_op_sbc_def Let_def c assms(1) registers_modify set_A_simps dif_def [symmetric] by (simp only: uint_byte_mod)
  show "flag t 0 \<longleftrightarrow> 0 \<le> dif"
    using sbc_carry [OF r b] unfolding t_def cpu_op_sbc_def Let_def c assms(1) dif
    by (simp add: bp_defs) linarith
  show "flag t 6 \<longleftrightarrow> signed8 (uint (rA (cpu s))) - signed8 (uint v) - (1 - carry_in s) < - 128
      \<or> 127 < signed8 (uint (rA (cpu s))) - signed8 (uint v) - (1 - carry_in s)"
    unfolding ov [symmetric] unfolding t_def cpu_op_sbc_def Let_def c assms(1)
    by (simp add: bp_defs assms(1))
  show "flag t 1 \<longleftrightarrow> rA (cpu t) = 0" "flag t 7 \<longleftrightarrow> 0x80 \<le> rA (cpu t)"
    "k \<in> {2, 3, 4, 5} \<Longrightarrow> flag t k = flag s k"
    unfolding t_def cpu_op_sbc_def Let_def by (auto simp: bp_defs)
qed

lemma drop_and_1: "(drop_bit n x AND 1 \<noteq> 0) = bit x n" for x :: int
  by (simp add: and_one_eq bit_iff_odd drop_bit_eq_div odd_iff_mod_2_eq_one)

lemma compare_eval:
  fixes s :: nes and v :: u8
  assumes "op_value s = uint v"
  shows "flag (cpu_compare reg s) 0 \<longleftrightarrow> v \<le> reg" and "flag (cpu_compare reg s) 1 \<longleftrightarrow> reg = v"
    and "flag (cpu_compare reg s) 7 \<longleftrightarrow> 0x80 \<le> reg - v"
    and "rA (cpu (cpu_compare reg s)) = rA (cpu s)"
proof -
  have "bit (uint reg - uint v) 7 \<longleftrightarrow> 128 \<le> (uint reg - uint v) mod 256" by (rule bit7_sum)
  also have "(uint reg - uint v) mod 256 = uint (reg - v)" by (simp add: uint_word_ariths)
  finally have b: "bit (uint reg - uint v) 7 \<longleftrightarrow> 0x80 \<le> reg - v" by (simp add: word_le_def)
  show "flag (cpu_compare reg s) 0 \<longleftrightarrow> v \<le> reg"
    by (simp add: cpu_compare_def Let_def bp_defs assms word_le_def)
  show "flag (cpu_compare reg s) 1 \<longleftrightarrow> reg = v"
    by (simp add: cpu_compare_def Let_def bp_defs assms word_uint_eq_iff)
  show "flag (cpu_compare reg s) 7 \<longleftrightarrow> 0x80 \<le> reg - v"
    unfolding b [symmetric] by (simp add: cpu_compare_def Let_def bp_defs assms drop_and_1 del: drop_bit_eq_div)
  show "rA (cpu (cpu_compare reg s)) = rA (cpu s)" by (simp add: cpu_compare_def Let_def)
qed

section \<open>Properties\<close>

text \<open>
  C25: \<open>ADC\<close> adds the operand and the carry to the accumulator modulo 256; carry reports a sum
  of 256 or more, overflow a signed sum outside [-128, 127], zero and negative describe the
  new accumulator, and the other four flags keep their value.
\<close>

theorem adc_correct:
  fixes s :: nes and v :: u8
  assumes "op_value s = uint v"
  shows "uint (rA (cpu (cpu_op_adc s))) = (uint (rA (cpu s)) + uint v + carry_in s) mod 256
    \<and> (flag (cpu_op_adc s) 0 \<longleftrightarrow> 256 \<le> uint (rA (cpu s)) + uint v + carry_in s)
    \<and> (flag (cpu_op_adc s) 6 \<longleftrightarrow> sint (rA (cpu s)) + sint v + carry_in s \<notin> {-128..127})
    \<and> (flag (cpu_op_adc s) 1 \<longleftrightarrow> rA (cpu (cpu_op_adc s)) = 0)
    \<and> (flag (cpu_op_adc s) 7 \<longleftrightarrow> 0x80 \<le> rA (cpu (cpu_op_adc s)))
    \<and> (\<forall>k \<in> {2, 3, 4, 5}. flag (cpu_op_adc s) k = flag s k)"
  unfolding sint_u8 atLeastAtMost_iff de_Morgan_conj not_le using adc_eval [OF assms] by blast

theorem adc_witness:
  "uint (rA (cpu (cpu_op_adc (nes_init\<lparr>op_value := 200, cpu := (cpu nes_init)\<lparr>rA := 100\<rparr>\<rparr>)))) = 44"
  using adc_correct [of "nes_init\<lparr>op_value := 200, cpu := (cpu nes_init)\<lparr>rA := 100\<rparr>\<rparr>" 200]
  by (simp add: carry_in_def)

text \<open>
  \<open>SBC\<close> subtracts the operand and the borrow (the complement of carry); carry reports
  that no borrow was needed, overflow a signed difference outside [-128, 127]. A comparison
  sets carry when the register is not below the operand, zero on equality and negative from
  bit 7 of the difference, and leaves the register alone.
\<close>

lemma sbc_cmp_correct:
  fixes s :: nes and v :: u8
  assumes "op_value s = uint v"
  shows "uint (rA (cpu (cpu_op_sbc s))) = (uint (rA (cpu s)) - uint v - (1 - carry_in s)) mod 256
    \<and> (flag (cpu_op_sbc s) 0 \<longleftrightarrow> 0 \<le> uint (rA (cpu s)) - uint v - (1 - carry_in s))
    \<and> (flag (cpu_op_sbc s) 6 \<longleftrightarrow> sint (rA (cpu s)) - sint v - (1 - carry_in s) \<notin> {-128..127})
    \<and> (flag (cpu_op_sbc s) 1 \<longleftrightarrow> rA (cpu (cpu_op_sbc s)) = 0)
    \<and> (flag (cpu_op_sbc s) 7 \<longleftrightarrow> 0x80 \<le> rA (cpu (cpu_op_sbc s)))
    \<and> (flag (cpu_op_cmp s) 0 \<longleftrightarrow> v \<le> rA (cpu s)) \<and> (flag (cpu_op_cmp s) 1 \<longleftrightarrow> rA (cpu s) = v)
    \<and> (flag (cpu_op_cmp s) 7 \<longleftrightarrow> 0x80 \<le> rA (cpu s) - v) \<and> rA (cpu (cpu_op_cmp s)) = rA (cpu s)"
  unfolding sint_u8 atLeastAtMost_iff de_Morgan_conj not_le cpu_op_cmp_def
  using sbc_eval [OF assms] compare_eval [OF assms, of "rA (cpu s)"] by blast

text \<open>
  C5: started between two instructions (\<open>op_cycles\<close> is 0 there, initially and after every run), the
  run loop of the processor returns, whatever program is in memory: an opcode that costs no
  cycles cannot hold it up, because the program counter then reaches a PPU register that reads
  as a costly instruction. It executes the first number of instructions whose cost reaches a
  third of the cycles it was given, the counter \<open>cpu_cycles\<close> has gone down by exactly that cost,
  and on a mapper-0 cartridge no instruction accesses a memory array out of bounds (the
  counter of the joystick port has a flag of its own).
\<close>

theorem cpu_run_returns:
  assumes "op_cycles s = 0"
  shows "\<exists>m t. cpu_run n s = Some t \<and> t = after_steps m s
    \<and> n sdiv 3 \<le> spent m s \<and> (\<forall>j<m. 0 \<le> spent j s \<and> spent j s < n sdiv 3)
    \<and> cpu_cycles t = cpu_cycles s - word_of_int (spent m s) \<and> op_cycles t = 0
    \<and> (bus_ok s \<longrightarrow> bus_ok t \<and> fault t = fault s)"
  unfolding cpu_run_def using cpu_loop_returns [OF assms, of "n sdiv 3"] by blast

theorem cpu_run_witness: "\<exists>m t. cpu_run 256 nes_init = Some t \<and> 85 \<le> spent m nes_init
    \<and> cpu_cycles t = - word_of_int (spent m nes_init) \<and> \<not> fault t"
proof -
  have "op_cycles nes_init = 0" "bus_ok nes_init" "\<not> fault nes_init"
    by (simp_all add: bus_ok_def)
  moreover have "256 sdiv 3 = (85 :: int)" by simp
  ultimately show ?thesis using cpu_run_returns [of nes_init 256] by auto
qed

text \<open>
  The counter \<open>cpu_cycles\<close>, documented as the total number of cycles since power up, is
  decremented: after any run that takes between 1 and a million cycles from power up its
  value is above 29658, the threshold at which \<open>ppu_cycle\<close> takes the PPU to have warmed up.
\<close>

lemma cpu_clock_runs_backwards:
  assumes "cpu_step s = (c, t)" and "cpu_clock s = 0" and "0 < c" and "c < 1000000"
  shows "29658 < cpu_clock t"
proof -
  have "cpu_clock t = - word_of_int c"
    using cpu_step_clock [of s] assms(1,2) by (simp add: cpu_clock_def)
  also have "\<dots> = word_of_int (2 ^ 64 - c)" by simp
  finally have "uint (cpu_clock t) = (2 ^ 64 - c) mod 2 ^ 64"
    by (simp only: uint_word_of_int) simp
  also have "\<dots> = 2 ^ 64 - c"
    using assms(3,4) by (intro mod_pos_pos_trivial) simp_all
  finally have "uint (cpu_clock t) = 2 ^ 64 - c" .
  then show ?thesis using assms(4) by (simp add: word_less_def)
qed

end
