(* ===== verification/Nes_Bus.thy ===== *)
theory Nes_Bus
  imports Nes_Cpu
begin

text \<open>
  What a program on the 6502 model sees through the address decoder: mirrored RAM, the
  stack, sprite DMA, the status register of the PPU and the joystick port.
\<close>

section \<open>Memory that reads back what was written\<close>

text \<open>
  The contract of plain memory behind a bus: a read returns the last byte written to the
  same cell, and has no side effect. A 16-bit value stored low byte first reads back.
\<close>

lemma bytes_of_word: "ucast (ucast (w AND 0xFF) :: u8) + push_bit 8 (ucast (ucast (drop_bit 8 w) :: u8)) = w" for w :: u16
proof -
  have m: "(0xFF :: u16) = mask 8" by (simp add: mask_eq_exp_minus_1)
  have "ucast (ucast (w AND 0xFF) :: u8) AND push_bit 8 (ucast (ucast (drop_bit 8 w) :: u8)) = (0 :: u16)"
    by (rule bit_word_eqI) (auto simp: bit_simps m dest: bit_imp_le_length)
  then have "(ucast (ucast (w AND 0xFF) :: u8) :: u16) + push_bit 8 (ucast (ucast (drop_bit 8 w) :: u8))
    = ucast (ucast (w AND 0xFF) :: u8) OR push_bit 8 (ucast (ucast (drop_bit 8 w) :: u8))"
    by (rule word_or_add)
  also have "\<dots> = w"
    unfolding m by (rule bit_word_eqI) (auto simp: bit_simps dest: bit_imp_le_length)
  finally show ?thesis .
qed

locale byte_bus =
  fixes rd :: "u16 \<Rightarrow> 's \<Rightarrow> u8 \<times> 's"
    and wr :: "u16 \<Rightarrow> u8 \<Rightarrow> 's \<Rightarrow> 's"
    and cell :: "u16 \<Rightarrow> u16"
    and plain :: "u16 \<Rightarrow> bool"
  assumes rd_wr: "plain a \<Longrightarrow> plain b \<Longrightarrow> fst (rd a (wr b d s)) = (if cell a = cell b then d else fst (rd a s))"
    and rd_pure: "plain a \<Longrightarrow> snd (rd a s) = s"
begin

lemma word_roundtrip:
  fixes w :: u16
  assumes "plain a" and "plain (a + 1)" and "cell a \<noteq> cell (a + 1)"
    and "t = wr (a + 1) (ucast (drop_bit 8 w)) (wr a (ucast (w AND 0xFF)) s)"
  shows "(let (l, u) = rd a t; (h, u) = rd (a + 1) u in (ucast l + push_bit 8 (ucast h), u)) = (w, t)"
  using assms(1-3) bytes_of_word [of w]
  by (simp add: split_beta rd_pure rd_wr assms(4))

lemma last_write: "plain a \<Longrightarrow> plain b \<Longrightarrow> cell a = cell b \<Longrightarrow> fst (rd a (wr b d s)) = d"
  by (simp add: rd_wr)

end

lemma ram_decode: "a < 0x2000 \<Longrightarrow> drop_bit 13 a = 0" for a :: u16
proof -
  assume "a < 0x2000"
  then have "unat a < 8192" by (simp add: word_less_nat_alt)
  then show ?thesis by (simp add: word_unat_eq_iff drop_bit_eq_div unat_drop_bit del: drop_bit_eq_div)
qed

lemma memory_readb_ram: "a < 0x2000 \<Longrightarrow> memory_readb a s = (CPU_RAM s (a AND 0x7FF), s)"
  by (simp add: memory_readb_def ram_decode cpu_ram_read_def and.assoc)

lemma memory_writeb_ram:
  "a < 0x2000 \<Longrightarrow> memory_writeb a d s = s\<lparr>CPU_RAM := (CPU_RAM s)(a AND 0x7FF := d)\<rparr>"
  by (auto simp: memory_writeb_def ram_decode cpu_ram_write_def and.assoc)

interpretation ram: byte_bus memory_readb memory_writeb "\<lambda>a. a AND 0x7FF" "\<lambda>a. a < 0x2000"
  by unfold_locales (auto simp: memory_readb_ram memory_writeb_ram)

lemma memory_word_ram:
  assumes "a < 0x2000" and "a + 1 < 0x2000" and "a AND 0x7FF \<noteq> (a + 1) AND 0x7FF"
  shows "memory_readw a (memory_writew a w s) = (w, memory_writew a w s)"
  unfolding memory_readw_def
  by (rule ram.word_roundtrip [OF assms]) (simp add: memory_writew_def)

section \<open>The stack\<close>

lemma stack_address: "unat (0x100 + ucast (x :: u8) :: u16) = 256 + unat x"
  "unat (0xFF + ucast (x :: u8) :: u16) = 255 + unat x"
  using unat_lt_u8 [of x] by (simp_all add: unat_word_ariths unat_ucast_up)

lemma stack_in_ram: "(0x100 + ucast (x :: u8) :: u16) < 0x2000" "(0xFF + ucast (x :: u8) :: u16) < 0x2000"
  using unat_lt_u8 [of x] by (simp_all add: word_less_nat_alt stack_address)

lemma low11: "unat (a AND 0x7FF) = unat a mod 2048" for a :: u16
  using unat_take_bit [of 11 a] by (simp add: take_bit_eq_mask mask_eq_exp_minus_1)

lemma next_address: "(0xFF + ucast (x :: u8) :: u16) + 1 = 0x100 + ucast x"
  by simp

lemma stack_cells: "(0xFF + ucast (x :: u8) :: u16) AND 0x7FF \<noteq> (0x100 + ucast x) AND 0x7FF"
  using unat_lt_u8 [of x] by (simp add: word_unat_eq_iff low11 stack_address)

lemma pushb_eq: "cpu_stack_pushb d s =
    s\<lparr>CPU_RAM := (CPU_RAM s)((0x100 + ucast (SP (cpu s))) AND 0x7FF := d), cpu := (cpu s)\<lparr>SP := SP (cpu s) - 1\<rparr>\<rparr>"
  by (simp add: cpu_stack_pushb_def Let_def memory_writeb_ram stack_in_ram set_SP_def set_cpu_def)

lemma pushw_eq: "cpu_stack_pushw w s =
    (memory_writew (0xFF + ucast (SP (cpu s))) w s)\<lparr>cpu := (cpu s)\<lparr>SP := SP (cpu s) - 2\<rparr>\<rparr>"
  by (simp add: cpu_stack_pushw_def Let_def set_SP_def set_cpu_def)

lemma readw_cpu: "a < 0x2000 \<Longrightarrow> a + 1 < 0x2000 \<Longrightarrow>
    memory_readw a (s\<lparr>cpu := c\<rparr>) = (fst (memory_readw a s), s\<lparr>cpu := c\<rparr>)"
  by (simp add: memory_readw_def memory_readb_ram)

lemma popw_after_pushw:
  assumes "cpu u = c\<lparr>SP := SP (cpu s) - 2\<rparr>" and "u = (memory_writew (0xFF + ucast (SP (cpu s))) w s)\<lparr>cpu := cpu u\<rparr>"
  shows "fst (cpu_stack_popw u) = w \<and> cpu (snd (cpu_stack_popw u)) = c\<lparr>SP := SP (cpu s)\<rparr>"
proof -
  let ?a = "0xFF + ucast (SP (cpu s)) :: u16" and ?t = "memory_writew (0xFF + ucast (SP (cpu s))) w s"
  have r: "memory_readw ?a ?t = (w, ?t)"
    by (rule memory_word_ram) (simp_all only: next_address stack_in_ram stack_cells not_False_eq_True)
  have "set_SP (SP (cpu u) + 2) u = ?t\<lparr>cpu := c\<lparr>SP := SP (cpu s)\<rparr>\<rparr>"
    using assms by (subst assms(2)) (simp add: set_SP_def set_cpu_def)
  moreover have "memory_readw ?a (?t\<lparr>cpu := c'\<rparr>) = (w, ?t\<lparr>cpu := c'\<rparr>)" for c'
    using r by (subst readw_cpu) (simp_all only: next_address stack_in_ram fst_conv)
  ultimately show ?thesis by (simp add: cpu_stack_popw_def Let_def)
qed

lemma popb_pushb:
  "fst (cpu_stack_popb (cpu_stack_pushb d s)) = d \<and> cpu (snd (cpu_stack_popb (cpu_stack_pushb d s))) = cpu s"
  by (simp add: cpu_stack_popb_def pushb_eq Let_def memory_readb_ram stack_in_ram set_SP_def set_cpu_def)

lemma popw_pushw:
  "fst (cpu_stack_popw (cpu_stack_pushw w s)) = w \<and> cpu (snd (cpu_stack_popw (cpu_stack_pushw w s))) = cpu s"
  using popw_after_pushw [where u = "cpu_stack_pushw w s" and c = "cpu s" and s = s and w = w] by (simp add: pushw_eq)

lemma rts_jsr: "cpu (cpu_op_rts (cpu_op_jsr s)) = cpu s"
proof -
  let ?u = "set_PC (word_of_int (op_address (cpu_stack_pushw (PC (cpu s) - 1) s))) (cpu_stack_pushw (PC (cpu s) - 1) s)"
  have "fst (cpu_stack_popw ?u) = PC (cpu s) - 1
      \<and> cpu (snd (cpu_stack_popw ?u)) = ((cpu s)\<lparr>PC := PC (cpu ?u)\<rparr>)\<lparr>SP := SP (cpu s)\<rparr>"
    by (rule popw_after_pushw) (simp_all add: pushw_eq set_PC_def set_cpu_def)
  then show ?thesis
    by (cases "cpu s") (simp add: cpu_op_rts_def cpu_op_jsr_def Let_def split_beta set_PC_def)
qed

lemma pushw_bytes: "SP (cpu s) \<noteq> 0 \<Longrightarrow> cpu_stack_pushw w s
    = cpu_stack_pushb (ucast (w AND 0xFF)) (cpu_stack_pushb (ucast (drop_bit 8 w)) s)"
proof -
  assume "SP (cpu s) \<noteq> 0"
  then have "unat (SP (cpu s) - 1) = unat (SP (cpu s)) - 1" "0 < unat (SP (cpu s))"
    by (simp_all add: unat_minus_one unat_gt_0)
  then have e: "(0x100 + ucast (SP (cpu s) - 1) :: u16) = 0xFF + ucast (SP (cpu s))"
    by (simp add: word_unat_eq_iff stack_address)
  have "(0xFF + ucast (SP (cpu s)) :: u16) AND 0x7FF \<noteq> (0x100 + ucast (SP (cpu s))) AND 0x7FF"
    by (rule stack_cells)
  then show ?thesis
    by (simp add: e pushw_eq pushb_eq memory_writew_def memory_writeb_ram stack_in_ram next_address fun_upd_twist)
qed

lemma pushw_at_zero:
  assumes "SP (cpu s) = 0"
  shows "CPU_RAM (cpu_stack_pushw w s) 0xFF = ucast (w AND 0xFF)"
    and "CPU_RAM (cpu_stack_pushw w s) 0x1FF = CPU_RAM s 0x1FF"
    and "CPU_RAM (cpu_stack_pushb (ucast (w AND 0xFF)) (cpu_stack_pushb (ucast (drop_bit 8 w)) s)) 0x1FF = ucast (w AND 0xFF)"
proof -
  have "unat (0x100 + ucast (- 1 :: u8) :: u16) = 511"
    unfolding stack_address by (simp add: unsigned_minus_1_eq_mask mask_eq_exp_minus_1)
  then have m: "(0x100 + ucast (- 1 :: u8) :: u16) = 0x1FF" by (simp add: word_unat_eq_iff)
  show "CPU_RAM (cpu_stack_pushw w s) 0xFF = ucast (w AND 0xFF)"
    "CPU_RAM (cpu_stack_pushw w s) 0x1FF = CPU_RAM s 0x1FF"
    by (simp_all add: pushw_eq memory_writew_def memory_writeb_ram assms)
  show "CPU_RAM (cpu_stack_pushb (ucast (w AND 0xFF)) (cpu_stack_pushb (ucast (drop_bit 8 w)) s)) 0x1FF = ucast (w AND 0xFF)"
    by (simp add: pushb_eq assms m)
qed

section \<open>Sprite DMA\<close>

lemma dma_transfer_oam:
  "n \<le> 256 \<Longrightarrow> PPU_SPRRAM (dma_transfer d n s) = (\<lambda>k. if unat (k - OAMADDR (ppu s)) < n
      then CPU_RAM s ((0x100 * ucast d + of_nat (256 - n + unat (k - OAMADDR (ppu s)))) AND 0x7FF) else PPU_SPRRAM s k)
    \<and> OAMADDR (ppu (dma_transfer d n s)) = OAMADDR (ppu s) + of_nat n"
proof (induction n arbitrary: s)
  case (Suc n)
  define o0 where "o0 = OAMADDR (ppu s)"
  define u where "u = ppu_sprram_write (cpu_ram_read (0x100 * ucast d + of_nat (256 - Suc n)) s) s"
  have u: "OAMADDR (ppu u) = o0 + 1" "CPU_RAM u = CPU_RAM s"
    "PPU_SPRRAM u = (PPU_SPRRAM s)(o0 := CPU_RAM s ((0x100 * ucast d + of_nat (256 - Suc n)) AND 0x7FF))"
    by (simp_all add: u_def ppu_sprram_write_def cpu_ram_read_def o0_def)
  have k0: "unat (k - o0) = 0 \<longleftrightarrow> k = o0" for k by (simp add: unat_eq_zero)
  have ks: "k \<noteq> o0 \<Longrightarrow> unat (k - (o0 + 1)) = unat (k - o0) - 1" for k
    using unat_minus_one [of "k - o0"] by (simp add: diff_diff_add)
  have top: "unat (o0 - (o0 + 1)) = 255" by (simp add: unsigned_minus_1_eq_mask mask_eq_exp_minus_1)
  have e: "dma_transfer d (Suc n) s = dma_transfer d n u" by (simp add: u_def)
  have "PPU_SPRRAM (dma_transfer d n u) k = (if unat (k - o0) < Suc n
      then CPU_RAM s ((0x100 * ucast d + of_nat (256 - Suc n + unat (k - o0))) AND 0x7FF) else PPU_SPRRAM s k)" for k
  proof (cases "k = o0")
    case True
    have "\<not> unat (k - (o0 + 1)) < n" using Suc.prems top True by simp
    then show ?thesis using Suc.IH [of u] Suc.prems u True by simp
  next
    case False
    then have p: "0 < unat (k - o0)" using k0 [of k] by simp
    then have i: "256 - n + (unat (k - o0) - 1) = 256 - Suc n + unat (k - o0)" using Suc.prems by simp
    show ?thesis using Suc.IH [of u] Suc.prems u False ks [OF False] p i
      by (auto simp del: of_nat_add of_nat_diff)
  qed
  moreover have "OAMADDR (ppu (dma_transfer d n u)) = o0 + of_nat (Suc n)"
    using Suc.IH [of u] Suc.prems u by simp
  ultimately show ?case unfolding e o0_def by blast
qed simp

section \<open>The joystick\<close>

text \<open>What \<open>n\<close> reads of the port at 0x4016 return.\<close>

primrec port_reads :: "nat \<Rightarrow> nes \<Rightarrow> u8 list" where
  "port_reads 0 s = []"
| "port_reads (Suc n) s = (let (v, s) = memory_readb 0x4016 s in v # port_reads n s)"

lemma port_read:
  "k < 9 \<Longrightarrow> psg_p s = of_nat k \<Longrightarrow> memory_readb 0x4016 s = (key_state s (MAP ! Suc k), s\<lparr>psg_p := of_nat (Suc k)\<rparr>)"
  "9 \<le> k \<Longrightarrow> k < 0x7FFFFFFF \<Longrightarrow> psg_p s = of_nat k \<Longrightarrow> memory_readb 0x4016 s = (0, s\<lparr>psg_p := of_nat (Suc k)\<rparr>)"
proof -
  have n: "sint (of_nat m :: u32) = int m" if "m < 0x80000000" for m
    using that by (simp add: signed_of_nat signed_take_bit_int_eq_self)
  have o: "(of_nat k :: u32) \<noteq> 0x7FFFFFFF" if "k < 0x7FFFFFFF" for k
  proof
    assume "(of_nat k :: u32) = 0x7FFFFFFF"
    then have "sint (of_nat k :: u32) = sint (0x7FFFFFFF :: u32)" by simp
    then show False using n [of k] that by simp
  qed
  have r: "memory_readb 0x4016 s = psgio_read 0x4016 s" by (simp add: memory_readb_def)
  have c: "(1 + of_nat k :: u32) = of_nat (Suc k)" for k by simp
  show "memory_readb 0x4016 s = (key_state s (MAP ! Suc k), s\<lparr>psg_p := of_nat (Suc k)\<rparr>)"
    if "k < 9" "psg_p s = of_nat k"
    unfolding r using that n [of k] n [of "Suc k"] o [of k]
    by (simp add: psgio_read_def Let_def c add.commute [of _ 1] del: of_nat_Suc)
  show "memory_readb 0x4016 s = (0, s\<lparr>psg_p := of_nat (Suc k)\<rparr>)"
    if "9 \<le> k" "k < 0x7FFFFFFF" "psg_p s = of_nat k"
    unfolding r using that n [of k] o [of k]
    by (simp add: psgio_read_def Let_def c add.commute [of _ 1] del: of_nat_Suc)
qed

lemma port_reads_silent:
  "9 \<le> k \<Longrightarrow> k + n < 0x80000000 \<Longrightarrow> psg_p s = of_nat k \<Longrightarrow> port_reads n s = replicate n 0"
proof (induction n arbitrary: k s)
  case (Suc n)
  then show ?case using Suc.IH [of "Suc k"] by (simp add: port_read(2) del: of_nat_Suc)
qed simp

text \<open>After \<open>2 ^ 31\<close> reads without a strobe the counter has overflowed, and the next read accesses
  \<open>MAP\<close> at a negative index.\<close>

lemma port_overflow:
  assumes "psg_p s = 0x7FFFFFFF"
  shows "psg_fault (snd (memory_readb 0x4016 s))" "sint (psg_p (snd (memory_readb 0x4016 s))) < 0"
  using assms by (simp_all add: memory_readb_def psgio_read_def Let_def)

lemma port_strobe:
  "d1 AND 1 = 1 \<Longrightarrow> d2 AND 1 = 0 \<Longrightarrow>
    psg_p (memory_writeb 0x4016 d2 (memory_writeb 0x4016 d1 s)) = 0
    \<and> key_state (memory_writeb 0x4016 d2 (memory_writeb 0x4016 d1 s)) = key_state s"
  by (simp add: memory_writeb_def psgio_write_def Let_def)

lemma port_buttons:
  assumes "n < 0x70000000"
  shows "k + j = 9 \<Longrightarrow> psg_p s = of_nat k \<Longrightarrow>
    port_reads (j + n) s = map (\<lambda>i. key_state s (MAP ! i)) [Suc k..<10] @ replicate n 0"
proof (induction j arbitrary: k s)
  case 0
  then show ?case using assms port_reads_silent [of 9 n s] by simp
next
  case (Suc j)
  then have "[Suc k..<10] = Suc k # [Suc (Suc k)..<10]" by (simp add: upt_conv_Cons)
  then show ?case using Suc.IH [of "Suc k" "s\<lparr>psg_p := of_nat (Suc k)\<rparr>"] Suc.prems
      port_read(1) [of k s]
    by (simp del: of_nat_Suc upt_Suc)
qed

lemma port_sequence:
  assumes "psg_p s = 0" "n < 0x70000000"
  shows "port_reads (9 + n) s = map (key_state s) [49, 50, 35, 36, 30, 44, 43, 45, 255] @ replicate n 0"
  using port_buttons [OF assms(2), of 0 9 s] assms(1) by (simp add: MAP_def upt_rec)

section \<open>Properties\<close>

text \<open>
  The 2 KB of RAM appear four times below 0x2000: a byte written at one address is read
  back at every address that is equal modulo 0x800, no other cell changes, and such an
  access has no other effect.
\<close>

lemma ram_mirrored:
  assumes "a < 0x2000" and "b < 0x2000"
  shows "memory_readb a (memory_writeb b d s)
      = (if unat a mod 2048 = unat b mod 2048 then d else fst (memory_readb a s), memory_writeb b d s)
    \<and> memory_writeb b d s = s\<lparr>CPU_RAM := CPU_RAM (memory_writeb b d s)\<rparr>"
  using assms by (simp add: memory_readb_ram memory_writeb_ram word_unat_eq_iff low11 eq_commute)

text \<open>
  The stack gives back what was pushed, for every value of the stack pointer: a byte, a
  word, and the return address of a subroutine; the registers are as before, so \<open>RTS\<close> after
  \<open>JSR\<close> continues at the program counter \<open>JSR\<close> left.
\<close>

lemma stack_roundtrip:
  "fst (cpu_stack_popb (cpu_stack_pushb d s)) = d \<and> cpu (snd (cpu_stack_popb (cpu_stack_pushb d s))) = cpu s
    \<and> fst (cpu_stack_popw (cpu_stack_pushw w s)) = w \<and> cpu (snd (cpu_stack_popw (cpu_stack_pushw w s))) = cpu s
    \<and> cpu (cpu_op_rts (cpu_op_jsr s)) = cpu s"
  using popb_pushb [of d s] popw_pushw [of w s] rts_jsr [of s] by blast

text \<open>
  Pushing a word is pushing its high and its low byte, except with the stack pointer at
  0: the low byte then lands in the zero page, at 0x00FF, and not at the top of the stack
  page, where two byte pushes put it.
\<close>

lemma push_word_bytes:
  "(SP (cpu s) \<noteq> 0 \<longrightarrow> cpu_stack_pushw w s
      = cpu_stack_pushb (ucast (w AND 0xFF)) (cpu_stack_pushb (ucast (drop_bit 8 w)) s))
    \<and> (SP (cpu s) = 0 \<longrightarrow> CPU_RAM (cpu_stack_pushw w s) 0xFF = ucast (w AND 0xFF)
      \<and> CPU_RAM (cpu_stack_pushw w s) 0x1FF = CPU_RAM s 0x1FF
      \<and> CPU_RAM (cpu_stack_pushb (ucast (w AND 0xFF)) (cpu_stack_pushb (ucast (drop_bit 8 w)) s)) 0x1FF = ucast (w AND 0xFF))"
  using pushw_bytes [of s w] pushw_at_zero [of s w] by blast

text \<open>
  A write of \<open>d\<close> to 0x4014 copies the 256 bytes of RAM page \<open>d\<close> into the sprite memory,
  starting at the current sprite address and wrapping around, and leaves that address as it was.
\<close>

lemma dma_copies_page:
  "PPU_SPRRAM (memory_writeb 0x4014 d s)
      = (\<lambda>k. CPU_RAM s ((0x100 * ucast d + ucast (k - OAMADDR (ppu s))) AND 0x7FF))
    \<and> OAMADDR (ppu (memory_writeb 0x4014 d s)) = OAMADDR (ppu s) \<and> CPU_RAM (memory_writeb 0x4014 d s) = CPU_RAM s"
proof -
  have "unat x < 256" for x :: u8 by (rule unat_lt_u8)
  then show ?thesis using dma_transfer_oam [of 256 d s] by (simp add: memory_writeb_def del: dma_transfer.simps)
qed

text \<open>
  Reading the PPU status returns it, clears the vertical-blank and sprite-0 bits and no
  other, and resets the toggles of the scroll and address ports; at every mirror of 0x2002.
\<close>

lemma status_read_correct:
  assumes "drop_bit 13 a = 1" and "a AND 7 = 2"
  shows "fst (memory_readb a s) = PPUSTATUS (ppu s)
    \<and> (\<forall>k < 8. bit (PPUSTATUS (ppu (snd (memory_readb a s)))) k \<longleftrightarrow> k \<noteq> 6 \<and> k \<noteq> 7 \<and> bit (PPUSTATUS (ppu s)) k)
    \<and> \<not> scroll_received_x (ppu (snd (memory_readb a s))) \<and> \<not> addr_received_high_byte (ppu (snd (memory_readb a s)))"
  using assms by (auto simp: memory_readb_def ppuio_read_def ppuio_read_status_def Let_def ppu_set_in_vblank_def
      ppu_set_sprite_0_hit_def ppu_set_status_def)

text \<open>
  After a strobe (a write of an odd and then of an even value to 0x4016) the port reports
  the eight buttons A, B, SELECT, START, UP, DOWN, LEFT and RIGHT in this order, then one more
  key that no keyboard has, and then zeros.
\<close>

lemma joystick_sequence:
  assumes "d1 AND 1 = 1" and "d2 AND 1 = 0" and "n < 0x70000000"
  shows "port_reads (9 + n) (memory_writeb 0x4016 d2 (memory_writeb 0x4016 d1 s))
    = map (key_state s) [49, 50, 35, 36, 30, 44, 43, 45, 255] @ replicate n 0"
  using port_strobe [OF assms(1,2), of s] port_sequence [OF _ assms(3)] by simp

end
