(* ===== verification/Nes_Video.thy ===== *)
theory Nes_Video
  imports Nes_Cpu
begin

text \<open>
  The picture side of litenes and its life cycle: the scanline renderers and \<open>ppu_cycle\<close> of
  \<open>ppu.c\<close>, and the ROM loader, the canvas and the frame loop of \<open>fce.c\<close>. \<open>None\<close> is a
  program that stops in an assertion or a panic. The timers only pace the frames and are
  not modelled; the keyboard events and the size of the screen are parameters.
\<close>

section \<open>The canvas\<close>

definition SCR_W :: int where "SCR_W = 256"
definition SCR_H :: int where "SCR_H = 240"
definition FRAME_SKIP :: int where "FRAME_SKIP = 1"

definition palette :: "u32 list" where
  "palette =
    [0x808080, 0x0000BB, 0x3700BF, 0x8400A6, 0xBB006A, 0xB7001E, 0xB30000, 0x912600,
     0x7B2B00, 0x003E00, 0x00480D, 0x003C22, 0x002F66, 0x000000, 0x050505, 0x050505,
     0xC8C8C8, 0x0059FF, 0x443CFF, 0xB733CC, 0xFF33AA, 0xFF375E, 0xFF371A, 0xD54B00,
     0xC46200, 0x3C7B00, 0x1E8415, 0x009566, 0x0084C4, 0x111111, 0x090909, 0x090909,
     0xFFFFFF, 0x0095FF, 0x6F84FF, 0xD56FFF, 0xFF77CC, 0xFF6F99, 0xFF7B59, 0xFF915F,
     0xFFA233, 0xA6BF00, 0x51D96A, 0x4DD5AE, 0x00D9FF, 0x666666, 0x0D0D0D, 0x0D0D0D,
     0xFFFFFF, 0x84BFFF, 0xBBBBFF, 0xD0BBFF, 0xFFBFEA, 0xFFBFCC, 0xFFC4B7, 0xFFCCAE,
     0xFFD9A2, 0xCCE199, 0xAEEEB7, 0xAAF7EE, 0xB3EEFF, 0xDDDDDD, 0x111111, 0x111111]"

definition candraw :: "nes \<Rightarrow> bool" where
  "candraw s \<longleftrightarrow> frame_cnt s smod (1 + FRAME_SKIP) = 0"

definition draw :: "int \<Rightarrow> int \<Rightarrow> nat \<Rightarrow> nes \<Rightarrow> nes" where
  "draw x y idx s =
    (if x \<ge> 0 \<and> x < SCR_W \<and> y \<ge> 0 \<and> y < SCR_H \<and> candraw s
     then check (idx < 64) (s\<lparr>canvas := (canvas s)(nat (y * SCR_W + x) := palette ! idx)\<rparr>)
     else s)"

section \<open>Background\<close>

text \<open>\<open>ppu_screen_background\<close> has 264 columns of 248 rows.\<close>

definition in_background :: "int \<Rightarrow> int \<Rightarrow> bool" where
  "in_background x y \<longleftrightarrow> 0 \<le> x \<and> x < 264 \<and> 0 \<le> y \<and> y < 248"

definition draw_background_pixel :: "bool \<Rightarrow> int \<Rightarrow> u8 \<Rightarrow> u8 \<Rightarrow> nat \<Rightarrow> nes \<Rightarrow> nes" where
  "draw_background_pixel mirror tile_x l h x s =
    (let color = ppu_l_h_addition_table l h x in
     if color \<noteq> 0 then
       (let line = scanline (ppu s);
            attribute_address = uint (ppu_base_nametable_address s) + (if mirror then 0x400 else 0) + 0x3C0
              + drop_bit 2 tile_x + drop_bit 5 line * 8;
            top = line smod 32 < 16;
            left = tile_x smod 4 < 2;
            (attr, s) = ppu_ram_read (word_of_int attribute_address) s;
            attr = (if \<not> top then drop_bit 4 attr else attr);
            attr = (if \<not> left then drop_bit 2 attr else attr) AND 3;
            palette_address = 0x3F00 + 4 * uint attr;
            (idx, s) = ppu_ram_read (word_of_int (palette_address + uint color)) s;
            px = tile_x * 8 + int x;
            s = check (in_background px line)
              (s\<lparr>ppu_screen_background := (ppu_screen_background s)
                  (nat px := (ppu_screen_background s (nat px))(nat line := color))\<rparr>)
        in draw (px - uint (PPUSCROLL_X (ppu s)) + (if mirror then 256 else 0)) (line + 1) (unat idx) s)
     else s)"

definition draw_background_tile :: "bool \<Rightarrow> int \<Rightarrow> nes \<Rightarrow> nes" where
  "draw_background_tile mirror tile_x s =
    (if tile_x * 8 - uint (PPUSCROLL_X (ppu s)) + (if mirror then 256 else 0) > 256 then s
     else
       (let tile_y = drop_bit 3 (scanline (ppu s));
            (tile_index, s) = ppu_ram_read (word_of_int (uint (ppu_base_nametable_address s) + tile_x
              + tile_y * 32 + (if mirror then 0x400 else 0))) s;
            tile_address = ppu_background_pattern_table_address s + word_of_int (16 * uint tile_index);
            y_in_tile = scanline (ppu s) AND 0x7;
            (l, s) = ppu_ram_read (word_of_int (uint tile_address + y_in_tile)) s;
            (h, s) = ppu_ram_read (word_of_int (uint tile_address + y_in_tile + 8)) s
        in fold (draw_background_pixel mirror tile_x l h) [0..<8] s))"

definition ppu_draw_background_scanline :: "bool \<Rightarrow> nes \<Rightarrow> nes" where
  "ppu_draw_background_scanline mirror s =
    fold (draw_background_tile mirror) (map int [if ppu_shows_background_in_leftmost_8px s then 0 else 1..<32]) s"

section \<open>Sprites\<close>

definition draw_sprite_pixel :: "nat \<Rightarrow> u8 \<Rightarrow> u8 \<Rightarrow> nat \<Rightarrow> nes \<Rightarrow> nes" where
  "draw_sprite_pixel n l h x s =
    (let flags = PPU_SPRRAM s (of_nat n + 2);
         hflip = flags AND 0x40 \<noteq> 0;
         color = (if hflip then ppu_l_h_addition_flip_table l h x else ppu_l_h_addition_table l h x)
     in if color \<noteq> 0 then
       (let screen_x = uint (PPU_SPRRAM s (of_nat n + 3)) + int x;
            screen_y = uint (PPU_SPRRAM s (of_nat n)) + (scanline (ppu s) AND 0x7);
            palette_address = 0x3F10 + 4 * uint (flags AND 0x3);
            (idx, s) = ppu_ram_read (word_of_int (palette_address + uint color)) s;
            s = draw screen_x (screen_y + 1) (unat idx) s
        in if ppu_shows_background s \<and> \<not> ppu_sprite_hit_occured s \<and> n = 0 then
             (let s = check (in_background screen_x screen_y) s
              in if ppu_screen_background s (nat screen_x) (nat screen_y) = color
                 then (ppu_set_sprite_0_hit True s)\<lparr>ppu_sprite_hit_occured := True\<rparr> else s)
           else s)
     else s)"

definition draw_sprite :: "nat \<Rightarrow> nat \<times> nes \<Rightarrow> nat \<times> nes" where
  "draw_sprite n st =
    (let (count, s) = st;
         sprite_y = uint (PPU_SPRRAM s (of_nat n));
         line = scanline (ppu s)
     in if sprite_y > line \<or> sprite_y + ppu_sprite_height s < line then (count, s)
        else
          (let count = count + 1;
               s = (if count > 8 then ppu_set_sprite_overflow True s else s);
               vflip = PPU_SPRRAM s (of_nat n + 2) AND 0x80 \<noteq> 0;
               tile_address = ppu_sprite_pattern_table_address s + word_of_int (16 * uint (PPU_SPRRAM s (of_nat n + 1)));
               y_in_tile = line AND 0x7;
               row = (if vflip then 7 - y_in_tile else y_in_tile);
               (l, s) = ppu_ram_read (word_of_int (uint tile_address + row)) s;
               (h, s) = ppu_ram_read (word_of_int (uint tile_address + row + 8)) s
           in (count, fold (draw_sprite_pixel n l h) [0..<8] s)))"

definition ppu_draw_sprite_scanline :: "nes \<Rightarrow> nes" where
  "ppu_draw_sprite_scanline s = snd (fold draw_sprite (map (\<lambda>i. 4 * i) [0..<64]) (0, s))"

section \<open>The screen\<close>

text \<open>\<open>frames\<close> collects the canvases handed to \<open>AM_GPU_FBDRAW\<close>, the last one first.\<close>

definition fce_update_screen :: "int \<Rightarrow> int \<Rightarrow> nes \<Rightarrow> nes option" where
  "fce_update_screen width height s =
    (let s = s\<lparr>frame_cnt := frame_cnt s + 1\<rparr>
     in if \<not> candraw s then Some s
        else
          (let (idx, s) = ppu_ram_read 0x3F00 s;
               s = check (unat idx < 64) s;
               bgc = palette ! unat idx;
               xpad = (width - SCR_W) sdiv 2;
               ypad = (height - SCR_H) sdiv 2
           in if xpad < 0 \<or> ypad < 0 then None
              else Some (s\<lparr>frames := canvas s # frames s,
                           canvas := (\<lambda>i. if i < nat (SCR_W * SCR_H) then bgc else canvas s i)\<rparr>)))"

section \<open>A scanline\<close>

definition set_scanline :: "int \<Rightarrow> nes \<Rightarrow> nes" where
  "set_scanline n s = s\<lparr>ppu := (ppu s)\<lparr>scanline := n\<rparr>\<rparr>"

definition ppu_cycle :: "int \<Rightarrow> int \<Rightarrow> nes \<Rightarrow> nes option" where
  "ppu_cycle width height s =
    (let s = (if \<not> ready (ppu s) \<and> cpu_clock s > 29658 then s\<lparr>ppu := (ppu s)\<lparr>ready := True\<rparr>\<rparr> else s)
     in Option.bind (cpu_run 256 s) (\<lambda>s.
       let s = set_scanline (scanline (ppu s) + 1) s;
           s = (if scanline (ppu s) < SCR_H \<and> ppu_shows_background s
                then ppu_draw_background_scanline True (ppu_draw_background_scanline False s) else s)
       in Option.bind (cpu_run (85 - 16) s) (\<lambda>s.
         let s = (if scanline (ppu s) < SCR_H \<and> ppu_shows_sprites s then ppu_draw_sprite_scanline s else s)
         in Option.bind (cpu_run 16 s) (\<lambda>s.
           if scanline (ppu s) = 241 then
             Some (cpu_interrupt (ppu_set_sprite_0_hit False (ppu_set_in_vblank True s)))
           else if scanline (ppu s) = 262 then
             fce_update_screen width height
               (ppu_set_in_vblank False ((set_scanline (- 1) s)\<lparr>ppu_sprite_hit_occured := False\<rparr>))
           else Some s))))"

primrec ppu_run :: "int \<Rightarrow> int \<Rightarrow> nat \<Rightarrow> nes \<Rightarrow> nes option" where
  "ppu_run width height 0 s = Some s"
| "ppu_run width height (Suc cycles) s = Option.bind (ppu_cycle width height s) (ppu_run width height cycles)"

section \<open>Loading a ROM\<close>





text \<open>One round of the loop of \<open>fce_run\<close>: 262 scanlines, with the key events after each.\<close>

primrec fce_scanlines :: "int \<Rightarrow> int \<Rightarrow> (nat \<times> bool) list list \<Rightarrow> nes \<Rightarrow> nes option" where
  "fce_scanlines width height [] s = Some s"
| "fce_scanlines width height (evs # rest) s =
    Option.bind (ppu_cycle width height s) (\<lambda>s. fce_scanlines width height rest (psg_detect_key evs s))"

definition fce_frame :: "int \<Rightarrow> int \<Rightarrow> (nat \<Rightarrow> (nat \<times> bool) list) \<Rightarrow> nes \<Rightarrow> nes option" where
  "fce_frame width height events s = fce_scanlines width height (map events [0..<262]) s"

section \<open>Addresses of the picture data\<close>

lemma ppu_address: "0 \<le> i \<Longrightarrow> i < 0x4000 \<Longrightarrow> (word_of_int i :: u16) < 0x4000"
  by (simp add: word_less_def uint_word_of_int mod_pos_pos_trivial)

lemma and_3: "unat (x AND 3) < 4" for x :: u8
  using unat_and_below [of "3 :: u8" 2 x] by simp

lemma nametable_bound: "0x2000 \<le> uint (ppu_base_nametable_address s) \<and> uint (ppu_base_nametable_address s) \<le> 0x2C00"
proof -
  define k where "k = unat (PPUCTRL (ppu s) AND 3)"
  have "k < 4" using and_3 by (simp add: k_def)
  then consider "k = 0" | "k = 1" | "k = 2" | "k = 3" by linarith
  then show ?thesis
    unfolding ppu_base_nametable_address_def k_def [symmetric] by cases simp_all
qed










section \<open>Rendering leaves the machine alone\<close>










lemma attribute_address:
  assumes "0 \<le> tile_x" "tile_x < 32" "0 \<le> line" "line < 240"
  shows "(word_of_int (uint (ppu_base_nametable_address s) + (if mirror then 0x400 else 0) + 0x3C0
      + drop_bit 2 tile_x + drop_bit 5 line * 8) :: u16) < 0x4000"
proof -
  have "0 \<le> drop_bit 2 tile_x" "drop_bit 2 tile_x \<le> 7" "0 \<le> drop_bit 5 line" "drop_bit 5 line \<le> 7"
    using assms by (auto simp: drop_bit_eq_div)
  then show ?thesis using nametable_bound [of s] by (intro ppu_address) auto
qed











section \<open>Scanlines\<close>

text \<open>What every scanline keeps, whatever the palette holds.\<close>

definition steady :: "nes \<Rightarrow> nes \<Rightarrow> bool" where
  "steady s t \<longleftrightarrow> op_cycles t = op_cycles s \<and> bus_ok t = bus_ok s \<and> scanline (ppu t) = scanline (ppu s)"

lemma steady_refl [simp]: "steady s s"
  by (simp add: steady_def)

lemma steady_ops [simp]:
  "steady s (check b t) = steady s t" "steady s (snd (ppu_ram_read a t)) = steady s t"
  "steady s (draw x y i t) = steady s t" "steady s (ppu_set_status n b t) = steady s t"
  "steady s (t\<lparr>ppu_screen_background := f\<rparr>) = steady s t" "steady s (t\<lparr>ppu_sprite_hit_occured := b\<rparr>) = steady s t"
  by (simp_all add: steady_def draw_def bus_ok_def)

lemma steady_fold:
  "steady s t \<Longrightarrow> (\<And>x u. steady s u \<Longrightarrow> steady s (f x u)) \<Longrightarrow> steady s (fold f xs t)"
  by (induction xs arbitrary: t) auto

lemma steady_fold2:
  "steady s (snd t) \<Longrightarrow> (\<And>x u. steady s (snd u) \<Longrightarrow> steady s (snd (f x u))) \<Longrightarrow> steady s (snd (fold f xs t))"
  by (induction xs arbitrary: t) auto

lemma steady_background: "steady s t \<Longrightarrow> steady s (ppu_draw_background_scanline m t)"
  unfolding ppu_draw_background_scanline_def draw_background_tile_def [abs_def]
    draw_background_pixel_def [abs_def] Let_def split_beta
  by (intro steady_fold) (auto intro!: steady_fold)

lemma steady_sprites: "steady s t \<Longrightarrow> steady s (ppu_draw_sprite_scanline t)"
  unfolding ppu_draw_sprite_scanline_def draw_sprite_def [abs_def] draw_sprite_pixel_def [abs_def]
    Let_def split_beta ppu_set_sprite_overflow_def ppu_set_sprite_0_hit_def
  by (intro steady_fold2) (auto intro!: steady_fold)

lemma run_steady: "op_cycles s = 0 \<Longrightarrow> \<exists>t. cpu_run n s = Some t \<and> op_cycles t = 0 \<and> scanline (ppu t) = scanline (ppu s)"
  unfolding cpu_run_def using cpu_loop_returns [of s "n sdiv 3"] by blast

lemma interrupt_frame [simp]:
  "op_cycles (cpu_interrupt s) = op_cycles s" "scanline (ppu (cpu_interrupt s)) = scanline (ppu s)"
  by (simp_all add: cpu_interrupt_def Let_def split_beta cpu_nmi_interrupt_address_def setters)

lemma update_screen_returns:
  assumes "256 \<le> w" and "240 \<le> h"
  shows "\<exists>t. fce_update_screen w h s = Some t \<and> op_cycles t = op_cycles s \<and> scanline (ppu t) = scanline (ppu s)"
proof -
  have "\<not> (w - SCR_W) sdiv 2 < 0" "\<not> (h - SCR_H) sdiv 2 < 0"
    using assms by (simp_all add: SCR_W_def SCR_H_def signed_divide_int_def sgn_if)
  then show ?thesis by (simp add: fce_update_screen_def Let_def split_beta)
qed

definition next_scanline :: "int \<Rightarrow> int" where
  "next_scanline n = (if n + 1 = 262 then - 1 else n + 1)"

lemma ppu_cycle_steps:
  assumes "op_cycles s = 0" and "256 \<le> w" and "240 \<le> h"
  shows "\<exists>t. ppu_cycle w h s = Some t \<and> op_cycles t = 0 \<and> scanline (ppu t) = next_scanline (scanline (ppu s))"
proof -
  define s0 where "s0 = (if \<not> ready (ppu s) \<and> cpu_clock s > 29658 then s\<lparr>ppu := (ppu s)\<lparr>ready := True\<rparr>\<rparr> else s)"
  have s0: "op_cycles s0 = 0" "scanline (ppu s0) = scanline (ppu s)" using assms(1) by (simp_all add: s0_def)
  obtain s1 where s1: "cpu_run 256 s0 = Some s1" "op_cycles s1 = 0" "scanline (ppu s1) = scanline (ppu s)"
    using run_steady [OF s0(1), of 256] s0(2) by auto
  define s2 where "s2 = set_scanline (scanline (ppu s1) + 1) s1"
  have s2: "op_cycles s2 = 0" "scanline (ppu s2) = scanline (ppu s) + 1" using s1 by (simp_all add: s2_def set_scanline_def)
  define s3 where "s3 = (if scanline (ppu s2) < SCR_H \<and> ppu_shows_background s2
      then ppu_draw_background_scanline True (ppu_draw_background_scanline False s2) else s2)"
  have "steady s2 s3" unfolding s3_def by (simp add: steady_background)
  then have s3: "op_cycles s3 = 0" "scanline (ppu s3) = scanline (ppu s) + 1" using s2 by (simp_all add: steady_def)
  obtain s4 where s4: "cpu_run (85 - 16) s3 = Some s4" "op_cycles s4 = 0" "scanline (ppu s4) = scanline (ppu s) + 1"
    using run_steady [OF s3(1), of "85 - 16"] s3(2) by auto
  define s5 where "s5 = (if scanline (ppu s4) < SCR_H \<and> ppu_shows_sprites s4 then ppu_draw_sprite_scanline s4 else s4)"
  have "steady s4 s5" unfolding s5_def by (simp add: steady_sprites)
  then have s5: "op_cycles s5 = 0" "scanline (ppu s5) = scanline (ppu s) + 1" using s4 by (simp_all add: steady_def)
  obtain s6 where s6: "cpu_run 16 s5 = Some s6" "op_cycles s6 = 0" "scanline (ppu s6) = scanline (ppu s) + 1"
    using run_steady [OF s5(1), of 16] s5(2) by auto
  have "ppu_cycle w h s = (if scanline (ppu s6) = 241 then
             Some (cpu_interrupt (ppu_set_sprite_0_hit False (ppu_set_in_vblank True s6)))
           else if scanline (ppu s6) = 262 then
             fce_update_screen w h (ppu_set_in_vblank False ((set_scanline (- 1) s6)\<lparr>ppu_sprite_hit_occured := False\<rparr>))
           else Some s6)"
    unfolding ppu_cycle_def Let_def s0_def [symmetric] s1(1) bind.bind_lunit s2_def [symmetric] s3_def [symmetric]
      s4(1) s5_def [symmetric] s6(1) by (rule refl)
  then show ?thesis
    using s6 update_screen_returns [OF assms(2,3), of "ppu_set_in_vblank False ((set_scanline (- 1) s6)\<lparr>ppu_sprite_hit_occured := False\<rparr>)"]
    by (auto simp: next_scanline_def ppu_set_in_vblank_def ppu_set_sprite_0_hit_def ppu_set_status_def set_scanline_def)
qed

lemma next_scanline_mod:
  assumes "- 1 \<le> n" "n \<le> 261"
  shows "next_scanline n = (n + 2) mod 263 - 1" and "- 1 \<le> next_scanline n" and "next_scanline n \<le> 261"
  using assms by (auto simp: next_scanline_def mod_pos_pos_trivial)

lemma ppu_run_steps:
  assumes "op_cycles s = 0" and "256 \<le> w" and "240 \<le> h" and "- 1 \<le> scanline (ppu s)" and "scanline (ppu s) \<le> 261"
  shows "\<exists>t. ppu_run w h n s = Some t \<and> op_cycles t = 0 \<and> scanline (ppu t) = (scanline (ppu s) + 1 + int n) mod 263 - 1"
  using assms(1,4,5)
proof (induction n arbitrary: s)
  case 0
  then show ?case by (simp add: mod_pos_pos_trivial)
next
  case (Suc n)
  obtain t where t: "ppu_cycle w h s = Some t" "op_cycles t = 0" "scanline (ppu t) = next_scanline (scanline (ppu s))"
    using ppu_cycle_steps [OF Suc.prems(1) assms(2,3)] by blast
  note nx = next_scanline_mod [OF Suc.prems(2,3)]
  have "(scanline (ppu t) + 1 + int n) mod 263 = (scanline (ppu s) + 1 + int (Suc n)) mod 263"
    unfolding t(3) nx(1) by (simp add: mod_add_left_eq mod_add_right_eq algebra_simps)
  then show ?case using Suc.IH [of t] t nx by simp
qed

section \<open>Loading\<close>


lemma mmc_copy_frame [simp]:
  "mmc_chr_pages (mmc_copy a f n s) = mmc_chr_pages s" "mmc_chr_pages_number (mmc_copy a f n s) = mmc_chr_pages_number s"
  "mmc_id (mmc_copy a f n s) = mmc_id s" "cpu (mmc_copy a f n s) = cpu s"
  "unat a + n \<le> 0x10000 \<Longrightarrow> fault (mmc_copy a f n s) = fault s"
  by (simp_all add: mmc_copy_def check_def)





section \<open>Properties\<close>



text \<open>
  C29: on a screen that is large enough every scanline returns, and after \<open>n\<close> of them the
  scanline counter has moved on by \<open>n\<close> modulo 263: it runs through -1, 0, ..., 261.
\<close>

theorem ppu_run_returns:
  assumes "op_cycles s = 0" and "256 \<le> w" and "240 \<le> h" and "- 1 \<le> scanline (ppu s)" and "scanline (ppu s) \<le> 261"
  shows "\<exists>t. ppu_run w h n s = Some t \<and> op_cycles t = 0 \<and> scanline (ppu t) = (scanline (ppu s) + 1 + int n) mod 263 - 1"
  by (rule ppu_run_steps [OF assms])

theorem ppu_run_witness: "\<exists>t. ppu_run 640 480 262 nes_init = Some t \<and> scanline (ppu t) = - 1"
  using ppu_run_returns [of nes_init 640 480 262] by auto



end
