(* ===== verification/Coremark_Util.thy ===== *)
theory Coremark_Util
  imports Klib_Stdlib
begin

text \<open>
  The services of CoreMark (\<open>am-kernels/benchmarks/coremark/src/core_util.c\<close>): the seeds and
  their parser, the check of the data types, and the 16-bit cyclic redundancy check that
  captures every result. Words have the width of the C types (\<open>ee_u8\<close>, \<open>ee_u16\<close>, \<open>ee_u32\<close>);
  a signed type is the word of its two's complement.
\<close>

unbundle bit_operations_syntax

section \<open>Seeds\<close>

text \<open>The five \<open>volatile\<close> variables of the porting layer are the argument \<open>seed\<close>.\<close>

definition get_seed_32 :: "(nat \<Rightarrow> u32) \<Rightarrow> nat \<Rightarrow> u32" where
  "get_seed_32 seed i = (if i \<in> {1, 2, 3, 4, 5} then seed i else 0)"

definition is_hex_digit :: "u8 \<Rightarrow> bool" where
  "is_hex_digit c \<longleftrightarrow> 48 \<le> c \<and> c \<le> 57 \<or> 97 \<le> c \<and> c \<le> 102"

definition hex_digit :: "u8 \<Rightarrow> u32" where
  "hex_digit c = (let digit = ucast c - 48 in if digit > 9 then 10 + ucast c - 97 else digit)"

partial_function (option) parse_hex :: "mem \<Rightarrow> nat \<Rightarrow> u32 \<Rightarrow> (u32 \<times> nat) option" where
  "parse_hex m p retval =
    (if is_hex_digit (m p) then parse_hex m (p + 1) (retval * 16 + hex_digit (m p)) else Some (retval, p))"

partial_function (option) parse_dec :: "mem \<Rightarrow> nat \<Rightarrow> u32 \<Rightarrow> (u32 \<times> nat) option" where
  "parse_dec m p retval =
    (if 48 \<le> m p \<and> m p \<le> 57 then parse_dec m (p + 1) (retval * 10 + (ucast (m p) - 48)) else Some (retval, p))"

definition parseval :: "mem \<Rightarrow> nat \<Rightarrow> u32 option" where
  "parseval m p =
    (let minus = (m p = 45); p = (if minus then p + 1 else p);
         hexmode = (m p = 48 \<and> m (p + 1) = 120); p = (if hexmode then p + 2 else p)
     in case (if hexmode then parse_hex m p 0 else parse_dec m p 0) of
       None \<Rightarrow> None
     | Some (retval, p) \<Rightarrow>
         let retval = (if m p = 75 then retval * 1024 else retval);
             retval = (if m p = 77 then retval * 1024 * 1024 else retval)
         in Some (retval * (if minus then - 1 else 1)))"

definition get_seed_args :: "mem \<Rightarrow> nat list \<Rightarrow> nat \<Rightarrow> u32 option" where
  "get_seed_args m argv i = (if length argv > i then parseval m (argv ! i) else Some 0)"

section \<open>Cyclic redundancy check\<close>

text \<open>One round of the loop of \<open>crcu8\<close>, on the data byte and the register.\<close>

definition crc_bit :: "u8 \<times> u16 \<Rightarrow> u8 \<times> u16" where
  "crc_bit = (\<lambda>(data, crc).
    let x16 = (data AND 1) XOR (ucast crc AND 1);
        data = drop_bit 1 data;
        carry = (x16 = 1);
        crc = (if carry then crc XOR 0x4002 else crc);
        crc = drop_bit 1 crc
    in (data, if carry then crc OR 0x8000 else crc AND 0x7fff))"

definition crcu8 :: "u8 \<Rightarrow> u16 \<Rightarrow> u16" where
  "crcu8 data crc = snd ((crc_bit ^^ 8) (data, crc))"

definition crcu16 :: "u16 \<Rightarrow> u16 \<Rightarrow> u16" where
  "crcu16 newval crc = crcu8 (ucast (drop_bit 8 newval)) (crcu8 (ucast newval) crc)"

definition crc16 :: "u16 \<Rightarrow> u16 \<Rightarrow> u16" where
  "crc16 newval crc = crcu16 newval crc"

definition crcu32 :: "u32 \<Rightarrow> u16 \<Rightarrow> u16" where
  "crcu32 newval crc = crc16 (ucast (drop_bit 16 newval)) (crc16 (ucast newval) crc)"

text \<open>The sizes the compiler gives the types are the arguments of the check.\<close>

definition check_data_types :: "nat \<Rightarrow> nat \<Rightarrow> nat \<Rightarrow> nat \<Rightarrow> nat \<Rightarrow> nat \<Rightarrow> nat \<Rightarrow> u8" where
  "check_data_types s_u8 s_u16 s_s16 s_s32 s_u32 s_ptr_int s_ptr =
    of_bool (s_u8 \<noteq> 1) + of_bool (s_u16 \<noteq> 2) + of_bool (s_s16 \<noteq> 2) + of_bool (s_s32 \<noteq> 4)
    + of_bool (s_u32 \<noteq> 4) + of_bool (s_ptr_int \<noteq> s_ptr)"

section \<open>The check as a shift register\<close>

text \<open>
  The reference: a linear feedback shift register with the reflected polynomial 0xA001
  (CRC-16/ARC), shifted once for every bit.
\<close>

definition lfsr :: "u16 \<Rightarrow> u16" where
  "lfsr c = drop_bit 1 c XOR (if bit c 0 then 0xA001 else 0)"

definition lfsr_back :: "u16 \<Rightarrow> u16" where
  "lfsr_back c = (if bit c 15 then push_bit 1 (c XOR 0xA001) OR 1 else push_bit 1 c)"

lemma bit_poly: "bit (0xA001 :: u16) n \<longleftrightarrow> n \<in> {0, 13, 15}"
proof -
  have "(0xA001 :: u16) = push_bit 15 1 OR push_bit 13 1 OR push_bit 0 1" by simp
  thus ?thesis by (simp only: bit_simps) auto
qed

lemma bit_lfsr: "bit (lfsr c) n \<longleftrightarrow> (bit c (Suc n) \<noteq> (bit c 0 \<and> n \<in> {0, 13, 15}))"
  unfolding lfsr_def bit_xor_iff bit_drop_bit_eq if_distrib[of "\<lambda>w. bit w n"] bit_poly bit_0_eq by auto

lemma bit_u16_bound: "bit (c :: u16) n \<Longrightarrow> n < 16"
  by (auto dest: bit_imp_le_length)

lemma bit_lfsr_back: "bit (lfsr_back c) n \<longleftrightarrow> n < 16 \<and>
    (if n = 0 then bit c 15 else bit c (n - 1) \<noteq> (bit c 15 \<and> n - 1 \<in> {0, 13, 15}))"
  unfolding lfsr_back_def if_distrib[of "\<lambda>w. bit w n"] bit_or_iff bit_push_bit_iff bit_xor_iff bit_poly bit_1_iff
  by (cases n) (auto simp: possible_bit_def dest: bit_u16_bound simp del: push_bit_of_1)

lemma bit_u16_16 [simp]: "\<not> bit (c :: u16) 16"
  by (auto dest: bit_imp_le_length)

lemma lfsr_back [simp]: "lfsr_back (lfsr c) = c"
  by (rule bit_word_eqI) (auto simp: bit_lfsr_back bit_lfsr)

lemma lfsr_inj: "lfsr c = lfsr d \<longleftrightarrow> c = d"
  by (metis lfsr_back)

lemma lfsr_pow_inj: "(lfsr ^^ n) c = (lfsr ^^ n) d \<longleftrightarrow> c = d"
  by (induction n) (simp_all add: lfsr_inj)

lemma lfsr_xor: "lfsr (c XOR d) = lfsr c XOR lfsr d"
  by (rule bit_word_eqI) (auto simp: bit_lfsr bit_xor_iff)

lemma lfsr_pow_xor: "(lfsr ^^ n) (c XOR d) = (lfsr ^^ n) c XOR (lfsr ^^ n) d"
  by (induction n) (simp_all add: lfsr_xor)

lemma lfsr_high: "lfsr (push_bit (Suc k) (ucast d)) = push_bit k (ucast d)" if "k < 8" for d :: u8
proof (rule bit_word_eqI)
  fix n assume "n < LENGTH(16)"
  thus "bit (lfsr (push_bit (Suc k) (ucast d))) n = bit (push_bit k (ucast d) :: u16) n"
    unfolding bit_lfsr bit_push_bit_iff bit_ucast_iff possible_bit_def using that
    by (auto simp: Suc_diff_le dest: bit_imp_le_length simp del: power_Suc)
qed

lemma lfsr_pow_high: "(lfsr ^^ n) (push_bit k (ucast d)) = push_bit (k - n) (ucast d)"
  if "n \<le> k" "k \<le> 8" for d :: u8
  using that
proof (induction n)
  case (Suc n)
  hence "k - n = Suc (k - Suc n)" "k - Suc n < 8" by auto
  with Suc show ?case by (simp add: lfsr_high del: push_bit_Suc)
qed simp

lemma crc_bit_words:
  "drop_bit 1 (c XOR 0x4002) OR 0x8000 = drop_bit 1 c XOR 0xA001" "drop_bit 1 c AND 0x7fff = drop_bit 1 c" for c :: u16
proof -
  have k: "(0x4002 :: u16) = push_bit 14 1 OR push_bit 1 1" "(0x8000 :: u16) = push_bit 15 1" "(0x7fff :: u16) = mask 15"
    by (simp_all add: mask_eq_exp_minus_1)
  have "bit (drop_bit 1 (c XOR 0x4002) OR 0x8000) n \<longleftrightarrow> bit (drop_bit 1 c XOR 0xA001) n" for n
    unfolding bit_or_iff bit_xor_iff bit_drop_bit_eq bit_poly k bit_push_bit_iff bit_1_iff o_apply
    by (auto dest: bit_u16_bound simp: possible_bit_def)
  thus "drop_bit 1 (c XOR 0x4002) OR 0x8000 = drop_bit 1 c XOR 0xA001" by (rule bit_word_eqI)
  show "drop_bit 1 c AND 0x7fff = drop_bit 1 c" unfolding k
    by (rule bit_word_eqI) (auto simp: bit_simps dest: bit_u16_bound)
qed

lemma crc_bit_lfsr: "crc_bit (d, c) = (drop_bit 1 d, lfsr (c XOR (ucast d AND 1)))"
proof -
  have x: "(d AND 1) XOR (ucast c AND 1) = (of_bool (bit d 0 \<noteq> bit c 0) :: u8)"
    by (rule bit_word_eqI) (auto simp: bit_simps)
  have "drop_bit 1 (c XOR (ucast d AND 1)) = drop_bit 1 c"
    by (rule bit_word_eqI) (auto simp: bit_simps)
  moreover have "bit (c XOR (ucast d AND 1)) 0 \<longleftrightarrow> bit d 0 \<noteq> bit c 0" by (auto simp: bit_simps)
  ultimately have "lfsr (c XOR (ucast d AND 1)) = drop_bit 1 c XOR (if bit d 0 \<noteq> bit c 0 then 0xA001 else 0)"
    by (simp only: lfsr_def)
  moreover have "(of_bool b = (1 :: u8)) \<longleftrightarrow> b" for b by simp
  ultimately show ?thesis
    unfolding crc_bit_def prod.case Let_def x using crc_bit_words[of c] by simp
qed

lemma lfsr_low: "lfsr (ucast d XOR (ucast d AND 1)) = ucast (drop_bit 1 d)" for d :: u8
  by (intro bit_word_eqI) (auto simp: bit_lfsr bit_simps dest: bit_imp_le_length)

lemma crc_bits_lfsr: "(crc_bit ^^ n) (d, c) = (drop_bit n d, (lfsr ^^ n) (c XOR ucast d) XOR ucast (drop_bit n d))"
proof (induction n)
  case (Suc n)
  have "lfsr (x XOR ucast e XOR (ucast e AND 1)) = lfsr x XOR ucast (drop_bit 1 e)" for x and e :: u8
    using lfsr_low[of e] lfsr_xor[of x "ucast e XOR (ucast e AND 1)"] by (simp only: xor.assoc)
  moreover have "drop_bit (Suc n) d = drop_bit 1 (drop_bit n d)" by (simp only: drop_bit_drop_bit plus_1_eq_Suc)
  ultimately show ?case by (simp only: funpow.simps o_apply Suc.IH crc_bit_lfsr prod.inject simp_thms xor.assoc)
qed (simp add: xor.assoc)

lemma crcu8_lfsr: "crcu8 d c = (lfsr ^^ 8) (c XOR ucast d)"
proof -
  have "drop_bit 8 d = 0" by (rule bit_word_eqI) (auto simp: bit_simps dest: bit_imp_le_length)
  thus ?thesis by (simp add: crcu8_def crc_bits_lfsr)
qed

lemma crcu16_lfsr: "crcu16 v c = (lfsr ^^ 16) (c XOR v)"
proof -
  let ?lo = "ucast v :: u8" and ?hi = "ucast (drop_bit 8 v) :: u8"
  have v: "v = ucast ?lo XOR push_bit 8 (ucast ?hi)"
    by (rule bit_word_eqI) (auto simp: bit_simps dest: bit_u16_bound)
  have "crcu16 v c = (lfsr ^^ 8) ((lfsr ^^ 8) (c XOR ucast ?lo) XOR (lfsr ^^ 8) (push_bit 8 (ucast ?hi)))"
    unfolding crcu16_def crcu8_lfsr by (simp add: lfsr_pow_high)
  also have "\<dots> = (lfsr ^^ 8) ((lfsr ^^ 8) (c XOR v))"
    by (simp only: lfsr_pow_xor[symmetric] xor.assoc v[symmetric])
  also have "\<dots> = (lfsr ^^ (8 + 8)) (c XOR v)" by (simp only: funpow_add o_apply)
  finally show ?thesis by simp
qed

lemma crcu32_lfsr: "crcu32 w c = crcu16 (ucast (drop_bit 16 w)) (crcu16 (ucast w) c)"
  by (simp add: crcu32_def crc16_def)

text \<open>
  C32: the register after a byte or a 16-bit word is the reference shift register with the
  reflected polynomial 0xA001, shifted 8 or 16 times over the exclusive or of register and
  data. Two words give the same register exactly when they differ from the registers before
  by the same bits: no error within one word, and none in the register alone, goes unnoticed.
\<close>
theorem crc_correct:
  "crcu8 d c = (lfsr ^^ 8) (c XOR ucast d) \<and> crc16 v c = (lfsr ^^ 16) (c XOR v)
    \<and> (crc16 v c = crc16 w e \<longleftrightarrow> c XOR v = e XOR w)"
  by (simp add: crcu8_lfsr crc16_def crcu16_lfsr lfsr_pow_inj)

end
