(* ===== verification/Arrays.thy ===== *)
theory Arrays
  imports Prelude
begin

text \<open>
  Loops over flat arrays, as the matrix benchmarks of CoreMark and MicroBench run them: a
  square matrix is a function from indices to numbers, row after row.
\<close>

text \<open>The nested loops run over the cells row by row.\<close>

definition cells :: "nat \<Rightarrow> (nat \<times> nat) list" where
  "cells N = List.product [0..<N] [0..<N]"

lemma fold_upd_add:
  "fold (\<lambda>k C. C(a := C a + f k)) ks C = C(a := C a + (\<Sum>k\<leftarrow>ks. f k :: 'b::comm_monoid_add))"
  by (induction ks arbitrary: C) (simp_all add: add.assoc)

lemma fold_upd_out: "k \<notin> ix ` set cs \<Longrightarrow> fold (\<lambda>c C. C(ix c := g c (C (ix c)))) cs C k = C k"
  by (induction cs arbitrary: C) auto

lemma fold_upd_in:
  assumes "inj_on ix (set cs)" "distinct cs" "c \<in> set cs"
  shows "fold (\<lambda>c C. C(ix c := g c (C (ix c)))) cs C (ix c) = g c (C (ix c))"
  using assms
proof (induction cs arbitrary: C)
  case (Cons d cs)
  show ?case
  proof (cases "c = d")
    case True
    hence "ix c \<notin> ix ` set cs" using Cons.prems by auto
    from fold_upd_out[OF this, of g "C(ix c := g c (C (ix c)))"] True
    show ?thesis by (simp only: fold.simps o_apply fun_upd_same)
  next
    case False
    hence "ix c \<noteq> ix d" using Cons.prems inj_onD[OF Cons.prems(1), of c d] by auto
    thus ?thesis using False Cons by simp
  qed
qed simp

lemma cell_inj: "i * N + j = i' * N + j' \<longleftrightarrow> i = i' \<and> j = j'" if "j < N" "j' < N" for i :: nat
proof
  assume e: "i * N + j = i' * N + j'"
  have "(i * N + j) div N = i" "(i' * N + j') div N = i'" "(i * N + j) mod N = j" "(i' * N + j') mod N = j'"
    using that by simp_all
  thus "i = i' \<and> j = j'" using e by metis
qed simp

lemma cells_inj: "inj_on (\<lambda>(i, j). i * N + j) (set (cells N))"
  by (auto simp: cells_def inj_on_def cell_inj)

lemma cell_bound: "i * N + j < N * N" if "i < N" "j < N" for i :: nat
proof -
  have "i * N + j < Suc i * N" using that by simp
  also have "\<dots> \<le> N * N" using that by (intro mult_right_mono) auto
  finally show ?thesis .
qed

text \<open>A loop over all cells that updates each from its old value.\<close>

lemma fold_cells:
  assumes "\<And>i j C. h (i, j) C = C(i * N + j := g i j (C (i * N + j)))"
  shows "i < N \<Longrightarrow> j < N \<Longrightarrow> fold h (cells N) C (i * N + j) = g i j (C (i * N + j))"
    and "N * N \<le> k \<Longrightarrow> fold h (cells N) C k = C k"
proof -
  let ?ix = "\<lambda>(i, j). i * N + j" and ?g = "\<lambda>(i, j). g i j"
  have h: "h = (\<lambda>c C. C(?ix c := ?g c (C (?ix c))))" by (auto simp: assms fun_eq_iff)
  show "fold h (cells N) C (i * N + j) = g i j (C (i * N + j))" if "i < N" "j < N"
    using fold_upd_in[OF cells_inj, of N "(i, j)" ?g C] that unfolding h by (simp add: cells_def distinct_product)
  show "fold h (cells N) C k = C k" if "N * N \<le> k"
    using fold_upd_out[of k ?ix "cells N" ?g C] that cell_bound[of _ N] unfolding h by (force simp: cells_def)
qed

lemmas cells_nest = case_prod_conv fold_upd_add fun_upd_upd fun_upd_same

lemma cell_of:
  fixes k :: nat
  obtains i j where "i < N" "j < N" "k = i * N + j" | "N * N \<le> k"
proof (cases "k < N * N")
  case True
  hence "0 < N" by (cases N) auto
  with True have "k div N < N" "k mod N < N" by (auto simp: less_mult_imp_div_less)
  thus ?thesis using that(1)[of "k div N" "k mod N"] by simp
qed (use that(2) in simp)

lemma sum_upto: "(\<Sum>k\<leftarrow>[0..<N]. f k) = (\<Sum>k<N. f k)"
  by (simp add: interv_sum_list_conv_sum_set_nat lessThan_atLeast0)

end
