(* ===== verification/Coremark_Matrix.thy ===== *)
theory Coremark_Matrix
  imports Coremark_Util Arrays "HOL-Library.Signed_Division"
begin

text \<open>
  CoreMark's matrix benchmark (\<open>core_matrix.c\<close>). A matrix is the flat array of the C code, a
  function from indices to words: \<open>MATDAT\<close> is a 16-bit and \<open>MATRES\<close> a 32-bit signed integer.
  The loops are folds over \<open>[0..<N]\<close> in the order of the code. Index arithmetic is exact:
  an \<open>N\<close> whose \<open>N * N\<close> elements lie in memory keeps it below \<open>2 ^ 32\<close>.
\<close>

unbundle bit_operations_syntax

type_synonym MATDAT = u16
type_synonym MATRES = u32

text \<open>The parameters hold the addresses of the three arrays and their contents.\<close>

record mat_params =
  mN :: nat
  addr_A :: u32
  addr_B :: u32
  addr_C :: u32
  mA :: "nat \<Rightarrow> MATDAT"
  mB :: "nat \<Rightarrow> MATDAT"
  mC :: "nat \<Rightarrow> MATRES"

definition matrix_clip :: "MATDAT \<Rightarrow> bool \<Rightarrow> MATDAT" where
  "matrix_clip x y = (if y then x AND 0x0ff else x AND 0x0ffff)"

definition matrix_big :: "MATDAT \<Rightarrow> MATDAT" where
  "matrix_big x = 0xf000 OR x"

definition bit_extract :: "MATRES \<Rightarrow> nat \<Rightarrow> nat \<Rightarrow> MATRES" where
  "bit_extract x from_bit to_bit = signed_drop_bit from_bit x AND NOT (push_bit to_bit 0xffffffff)"

definition matrix_add_const :: "nat \<Rightarrow> (nat \<Rightarrow> MATDAT) \<Rightarrow> MATDAT \<Rightarrow> nat \<Rightarrow> MATDAT" where
  "matrix_add_const N A val = fold (\<lambda>(i, j) A. A(i * N + j := A (i * N + j) + val)) (cells N) A"

definition matrix_mul_const :: "nat \<Rightarrow> (nat \<Rightarrow> MATRES) \<Rightarrow> (nat \<Rightarrow> MATDAT) \<Rightarrow> MATDAT \<Rightarrow> nat \<Rightarrow> MATRES" where
  "matrix_mul_const N C A val =
    fold (\<lambda>(i, j) C. C(i * N + j := scast (A (i * N + j)) * scast val)) (cells N) C"

definition matrix_mul_vect :: "nat \<Rightarrow> (nat \<Rightarrow> MATRES) \<Rightarrow> (nat \<Rightarrow> MATDAT) \<Rightarrow> (nat \<Rightarrow> MATDAT) \<Rightarrow> nat \<Rightarrow> MATRES" where
  "matrix_mul_vect N C A B = fold (\<lambda>i C.
     fold (\<lambda>j C. C(i := C i + scast (A (i * N + j)) * scast (B j))) [0..<N] (C(i := 0))) [0..<N] C"

definition matrix_mul_matrix :: "nat \<Rightarrow> (nat \<Rightarrow> MATRES) \<Rightarrow> (nat \<Rightarrow> MATDAT) \<Rightarrow> (nat \<Rightarrow> MATDAT) \<Rightarrow> nat \<Rightarrow> MATRES" where
  "matrix_mul_matrix N C A B = fold (\<lambda>(i, j) C.
     fold (\<lambda>k C. C(i * N + j := C (i * N + j) + scast (A (i * N + k)) * scast (B (k * N + j)))) [0..<N]
       (C(i * N + j := 0))) (cells N) C"

definition matrix_mul_matrix_bitextract :: "nat \<Rightarrow> (nat \<Rightarrow> MATRES) \<Rightarrow> (nat \<Rightarrow> MATDAT) \<Rightarrow> (nat \<Rightarrow> MATDAT) \<Rightarrow> nat \<Rightarrow> MATRES" where
  "matrix_mul_matrix_bitextract N C A B = fold (\<lambda>(i, j) C.
     fold (\<lambda>k C.
       let tmp = scast (A (i * N + k)) * scast (B (k * N + j))
       in C(i * N + j := C (i * N + j) + bit_extract tmp 2 4 * bit_extract tmp 5 7)) [0..<N]
       (C(i * N + j := 0))) (cells N) C"

text \<open>The accumulator, the previous element and the result of \<open>matrix_sum\<close>.\<close>

definition matrix_sum_step :: "MATDAT \<Rightarrow> MATRES \<Rightarrow> MATRES \<times> MATRES \<times> u16 \<Rightarrow> MATRES \<times> MATRES \<times> u16" where
  "matrix_sum_step clipval cur = (\<lambda>(tmp, prev, ret).
     if sint (tmp + cur) > sint clipval then (0, cur, ret + 10)
     else (tmp + cur, cur, ret + (if sint cur > sint prev then 1 else 0)))"

definition matrix_sum :: "nat \<Rightarrow> (nat \<Rightarrow> MATRES) \<Rightarrow> MATDAT \<Rightarrow> u16" where
  "matrix_sum N C clipval =
    snd (snd (fold (\<lambda>(i, j). matrix_sum_step clipval (C (i * N + j))) (cells N) (0, 0, 0)))"

text \<open>\<open>matrix_test\<close> returns its check value with the matrices \<open>A\<close> and \<open>C\<close> it leaves.\<close>

definition matrix_test :: "nat \<Rightarrow> (nat \<Rightarrow> MATRES) \<Rightarrow> (nat \<Rightarrow> MATDAT) \<Rightarrow> (nat \<Rightarrow> MATDAT) \<Rightarrow> MATDAT \<Rightarrow>
    u16 \<times> (nat \<Rightarrow> MATDAT) \<times> (nat \<Rightarrow> MATRES)" where
  "matrix_test N C A B val =
    (let clipval = matrix_big val;
         A = matrix_add_const N A val;
         C = matrix_mul_const N C A val;
         crc = crc16 (matrix_sum N C clipval) 0;
         C = matrix_mul_vect N C A B;
         crc = crc16 (matrix_sum N C clipval) crc;
         C = matrix_mul_matrix N C A B;
         crc = crc16 (matrix_sum N C clipval) crc;
         C = matrix_mul_matrix_bitextract N C A B;
         crc = crc16 (matrix_sum N C clipval) crc;
         A = matrix_add_const N A (- val)
     in (crc, A, C))"

definition core_bench_matrix :: "mat_params \<Rightarrow> u16 \<Rightarrow> u16 \<Rightarrow> u16 \<times> mat_params" where
  "core_bench_matrix p seed crc =
    (let (r, A, C) = matrix_test (mN p) (mC p) (mA p) (mB p) seed
     in (crc16 r crc, p\<lparr>mA := A, mC := C\<rparr>))"

text \<open>
  The search for the dimension computes with 32-bit words, so that \<open>j\<close> can wrap around; it is
  a partial function. \<open>order\<close> and \<open>seed\<close> are 32-bit signed integers and \<open>%\<close> truncates.
\<close>

partial_function (option) matrix_dim :: "u32 \<Rightarrow> u32 \<Rightarrow> u32 \<Rightarrow> u32 option" where
  "matrix_dim blksize i j =
    (if j < blksize then matrix_dim blksize (i + 1) ((i + 1) * (i + 1) * 2 * 4) else Some (i - 1))"

record matrix_gen =
  g_seed :: u32
  g_order :: u32
  g_A :: "nat \<Rightarrow> MATDAT"
  g_B :: "nat \<Rightarrow> MATDAT"

definition matrix_fill :: "nat \<Rightarrow> nat \<times> nat \<Rightarrow> matrix_gen \<Rightarrow> matrix_gen" where
  "matrix_fill N = (\<lambda>(i, j) g.
    let seed = word_of_int (sint (g_order g * g_seed g) smod 65536);
        val = matrix_clip (ucast (seed + g_order g)) False;
        B = (g_B g)(i * N + j := val);
        val = matrix_clip (ucast (scast val + g_order g)) True;
        A = (g_A g)(i * N + j := val)
    in \<lparr>g_seed = seed, g_order = g_order g + 1, g_A = A, g_B = B\<rparr>)"

definition align_mem :: "u32 \<Rightarrow> u32" where
  "align_mem x = 4 + ((x - 1) AND NOT 3)"

definition core_init_matrix :: "u32 \<Rightarrow> u32 \<Rightarrow> u32 \<Rightarrow> mat_params \<Rightarrow> (u32 \<times> mat_params) option" where
  "core_init_matrix blksize memblk seed p =
    (case matrix_dim blksize 0 0 of None \<Rightarrow> None
     | Some N \<Rightarrow>
         let A = align_mem memblk;
             B = A + 2 * (N * N);
             g = fold (matrix_fill (unat N)) (cells (unat N))
               \<lparr>g_seed = (if seed = 0 then 1 else seed), g_order = 1, g_A = mA p, g_B = mB p\<rparr>
         in Some (N, p\<lparr>mN := unat N, addr_A := A, addr_B := B, addr_C := align_mem (B + 2 * (N * N)),
              mA := g_A g, mB := g_B g\<rparr>))"

section \<open>The products\<close>

lemma matrix_add_const_nth:
  "i < N \<Longrightarrow> j < N \<Longrightarrow> matrix_add_const N A val (i * N + j) = A (i * N + j) + val"
  "N * N \<le> k \<Longrightarrow> matrix_add_const N A val k = A k"
  unfolding matrix_add_const_def
  by (rule fold_cells[where g = "\<lambda>i j x. x + val"]; simp)+

lemma add_const_back: "matrix_add_const N (matrix_add_const N A val) (- val) = A"
proof
  fix k show "matrix_add_const N (matrix_add_const N A val) (- val) k = A k"
    by (cases rule: cell_of[of N k]) (simp_all add: matrix_add_const_nth)
qed

lemma matrix_mul_const_nth:
  "i < N \<Longrightarrow> j < N \<Longrightarrow> matrix_mul_const N C A val (i * N + j) = scast (A (i * N + j)) * scast val"
  "N * N \<le> k \<Longrightarrow> matrix_mul_const N C A val k = C k"
  unfolding matrix_mul_const_def
  by (rule fold_cells[where g = "\<lambda>i j x. scast (A (i * N + j)) * scast val"]; simp)+

lemma matrix_mul_matrix_nth:
  "i < N \<Longrightarrow> j < N \<Longrightarrow> matrix_mul_matrix N C A B (i * N + j) = (\<Sum>k<N. scast (A (i * N + k)) * scast (B (k * N + j)))"
  "N * N \<le> k \<Longrightarrow> matrix_mul_matrix N C A B k = C k"
  unfolding matrix_mul_matrix_def
  by (rule fold_cells[where g = "\<lambda>i j x. \<Sum>k<N. scast (A (i * N + k)) * scast (B (k * N + j))"]; simp add: cells_nest sum_upto)+

definition bitextract_sum :: "nat \<Rightarrow> (nat \<Rightarrow> MATDAT) \<Rightarrow> (nat \<Rightarrow> MATDAT) \<Rightarrow> nat \<Rightarrow> nat \<Rightarrow> MATRES" where
  "bitextract_sum N A B i j = (\<Sum>k<N. let p = scast (A (i * N + k)) * scast (B (k * N + j)) :: MATRES
     in (drop_bit 2 p AND 0xF) * (drop_bit 5 p AND 0x7F))"

lemma bit_extract_drop:
  "bit_extract x 2 4 = drop_bit 2 x AND 0xF" "bit_extract x 5 7 = drop_bit 5 x AND 0x7F"
proof -
  have f: "(0xffffffff :: u32) = - 1" by simp
  have m: "(0xF :: u32) = mask 4" "(0x7F :: u32) = mask 7" by (simp_all add: mask_eq_exp_minus_1)
  have b: "bit (bit_extract x s t) n = bit (drop_bit s x AND mask t) n" if "s + t < 32" for s t n
    unfolding bit_extract_def f using that
    by (auto simp: bit_and_iff bit_signed_drop_bit_iff bit_not_iff bit_push_bit_iff bit_drop_bit_eq bit_mask_iff possible_bit_def
      dest: bit_imp_le_length)
  show "bit_extract x 2 4 = drop_bit 2 x AND 0xF" unfolding m by (rule bit_word_eqI) (rule b, simp)
  show "bit_extract x 5 7 = drop_bit 5 x AND 0x7F" unfolding m by (rule bit_word_eqI) (rule b, simp)
qed

lemma matrix_mul_bitextract_nth:
  "i < N \<Longrightarrow> j < N \<Longrightarrow> matrix_mul_matrix_bitextract N C A B (i * N + j) = bitextract_sum N A B i j"
  "N * N \<le> k \<Longrightarrow> matrix_mul_matrix_bitextract N C A B k = C k"
  unfolding matrix_mul_matrix_bitextract_def
  by (rule fold_cells[where g = "\<lambda>i j x. bitextract_sum N A B i j"];
      simp add: cells_nest sum_upto Let_def bit_extract_drop bitextract_sum_def)+

lemma matrix_mul_vect_nth:
  "i < N \<Longrightarrow> matrix_mul_vect N C A B i = (\<Sum>j<N. scast (A (i * N + j)) * scast (B j))"
  "N \<le> k \<Longrightarrow> matrix_mul_vect N C A B k = C k"
proof -
  have h: "(\<lambda>i C. fold (\<lambda>j C. C(i := C i + scast (A (i * N + j)) * scast (B j))) [0..<N] (C(i := 0)))
    = (\<lambda>i C. C(i := (\<Sum>j<N. scast (A (i * N + j)) * scast (B j)) :: MATRES))"
    by (simp add: cells_nest sum_upto)
  show "matrix_mul_vect N C A B i = (\<Sum>j<N. scast (A (i * N + j)) * scast (B j))" if "i < N"
    using fold_upd_in[of id "[0..<N]" i "\<lambda>i x. \<Sum>j<N. scast (A (i * N + j)) * scast (B j)" C] that
    unfolding matrix_mul_vect_def h by simp
  show "matrix_mul_vect N C A B k = C k" if "N \<le> k"
    using fold_upd_out[of k id "[0..<N]" "\<lambda>i x. \<Sum>j<N. scast (A (i * N + j)) * scast (B j)" C] that
    unfolding matrix_mul_vect_def h by simp
qed


text \<open>
  C34: the products of the matrix benchmark are the matrix products over 32-bit integers with
  wrap-around: \<open>matrix_mul_matrix\<close>, \<open>matrix_mul_vect\<close> (with the first \<open>N\<close> elements of \<open>B\<close>) and
  \<open>matrix_mul_const\<close> compute every cell of the result as the sum of products, the bit extraction
  takes bits 2 to 5 and 5 to 11 of each product, and none of the four writes a cell behind its
  result: \<open>N * N\<close> cells for a matrix, \<open>N\<close> for the vector.
\<close>
theorem matrix_products_correct:
  assumes "i < N" and "j < N"
  shows "matrix_mul_matrix N C A B (i * N + j) = (\<Sum>k<N. scast (A (i * N + k)) * scast (B (k * N + j)))
    \<and> matrix_mul_vect N C A B i = (\<Sum>k<N. scast (A (i * N + k)) * scast (B k))
    \<and> matrix_mul_const N C A val (i * N + j) = scast (A (i * N + j)) * scast val
    \<and> matrix_mul_matrix_bitextract N C A B (i * N + j)
      = (\<Sum>k<N. let p = scast (A (i * N + k)) * scast (B (k * N + j)) in (drop_bit 2 p AND 0xF) * (drop_bit 5 p AND 0x7F))
    \<and> (\<forall>m \<ge> N * N. matrix_mul_matrix N C A B m = C m \<and> matrix_mul_const N C A val m = C m
        \<and> matrix_mul_matrix_bitextract N C A B m = C m)
    \<and> (\<forall>m \<ge> N. matrix_mul_vect N C A B m = C m)"
  using assms
  by (simp add: matrix_mul_matrix_nth matrix_mul_vect_nth matrix_mul_const_nth matrix_mul_bitextract_nth bitextract_sum_def)

theorem matrix_products_witness:
  "matrix_mul_vect 2 (\<lambda>_. 0) (\<lambda>k. of_nat k) (\<lambda>k. 3) 1 = 15"
proof -
  have "matrix_mul_vect 2 (\<lambda>_. 0) (\<lambda>k. of_nat k) (\<lambda>k. 3) 1 = (\<Sum>k<2. scast (of_nat (1 * 2 + k) :: u16) * scast (3 :: u16))"
    using matrix_products_correct[of 1 2 1 "\<lambda>_. 0" "\<lambda>k. of_nat k" "\<lambda>k. 3" 0] by simp
  also have "\<dots> = 15" by (simp add: numeral_2_eq_2)
  finally show ?thesis .
qed

text \<open>
  One run of the matrix benchmark leaves the input matrices as they were: the constant it
  adds to \<open>A\<close> is taken off again, whatever wraps around, and \<open>B\<close> and the parameters are not
  written; so every run with the same seed has the same result.
\<close>
lemma matrix_test_restores:
  "snd (core_bench_matrix p seed crc) = p\<lparr>mC := mC (snd (core_bench_matrix p seed crc))\<rparr>"
  by (cases p) (simp add: core_bench_matrix_def matrix_test_def Let_def add_const_back)

section \<open>Dimension and layout\<close>

lemma matrix_dim_returns:
  assumes "b \<le> 4294784000" and "\<And>k. k < n \<Longrightarrow> 8 * k * k < b" and "b \<le> 8 * n * n" and "i \<le> n" "n \<le> 23170"
  shows "matrix_dim (of_nat b) (of_nat i) (of_nat (8 * i * i)) = Some (of_nat n - 1)"
  using \<open>i \<le> n\<close>
proof (induction "n - i" arbitrary: i)
  case 0
  hence "i = n" by simp
  moreover have "8 * n * n \<le> 8 * 23170 * 23170" using assms(5) by (intro mult_le_mono) auto
  hence "\<not> of_nat (8 * n * n) < (of_nat b :: u32)" using assms by (simp add: word_less_nat_alt unat_of_nat del: of_nat_mult)
  ultimately show ?case by (subst matrix_dim.simps) simp
next
  case (Suc d)
  hence "i < n" by simp
  hence "8 * i * i < b" by (rule assms(2))
  hence "of_nat (8 * i * i) < (of_nat b :: u32)" using assms(1) by (simp add: word_less_nat_alt unat_of_nat del: of_nat_mult)
  moreover have "matrix_dim (of_nat b) (of_nat (Suc i)) (of_nat (8 * Suc i * Suc i)) = Some (of_nat n - 1)"
    using Suc \<open>i < n\<close> by (intro Suc.hyps) auto
  moreover have "(of_nat (8 * Suc i * Suc i) :: u32) = (of_nat i + 1) * (of_nat i + 1) * 2 * 4"
    by (simp add: algebra_simps)
  ultimately show ?case by (subst matrix_dim.simps) (simp del: of_nat_mult add: add.commute)
qed


text \<open>The dimension: the largest \<open>N\<close> with \<open>8 N^2\<close> below the block size.\<close>

lemma matrix_dim_exists:
  assumes "0 < b" and "b \<le> 4294784000"
  shows "\<exists>N. matrix_dim (of_nat b) 0 0 = Some (of_nat N) \<and> 8 * N * N < b \<and> b \<le> 8 * (N + 1) * (N + 1) \<and> N < 23170"
proof -
  define n where "n = (LEAST n. b \<le> 8 * n * n)"
  have ex: "b \<le> 8 * 23170 * 23170" using assms by simp
  have n: "b \<le> 8 * n * n" unfolding n_def by (rule LeastI) (rule ex)
  have lt: "8 * k * k < b" if "k < n" for k using not_less_Least[of k "\<lambda>n. b \<le> 8 * n * n"] that unfolding n_def by simp
  have le: "n \<le> 23170" unfolding n_def by (rule Least_le) (rule ex)
  have "n \<noteq> 0"
  proof
    assume "n = 0"
    with n assms(1) show False by simp
  qed
  then obtain N where N: "n = N + 1" by (cases n) auto
  have "matrix_dim (of_nat b) (of_nat 0) (of_nat (8 * 0 * 0)) = Some (of_nat n - 1)"
    by (rule matrix_dim_returns) (use assms lt n le in auto)
  hence "matrix_dim (of_nat b) 0 0 = Some (of_nat N)" using N by simp
  moreover have "8 * N * N < b" using lt[of N] N by simp
  ultimately show ?thesis using n le N by auto
qed

lemma align_mem_id: "align_mem x = x" if al: "4 dvd unat x" and "x \<noteq> 0"
proof -
  from al obtain k where k: "unat x = 4 * k" by (elim dvdE)
  have "k \<noteq> 0" using k that(2) unat_eq_zero[of x] by (intro notI) simp
  have e: "(x - 1) AND NOT 3 = (x - 1) AND NOT (mask 2)" by (simp add: mask_eq_exp_minus_1)
  have "unat (x - 1) = 4 * k - 1" using that(2) k by (simp add: unat_minus_one)
  hence "unat ((x - 1) AND NOT 3) = (4 * k - 1) div 4 * 4" unfolding e unat_and_not_mask by simp
  also have "\<dots> = 4 * k - 4" using \<open>k \<noteq> 0\<close> by (cases k) auto
  finally have "unat ((x - 1) AND NOT 3) = 4 * k - 4" .
  hence "unat (align_mem x) = 4 * k"
    unfolding align_mem_def using \<open>k \<noteq> 0\<close> k unat_lt_u32[of x] by (subst unat_plus_if_size) (simp add: word_size)
  thus ?thesis using k by (simp add: word_unat_eq_iff)
qed

lemma clip_small: "matrix_clip x True < 0x100"
proof -
  have "x AND 0xff \<le> 0xff" by (rule word_and_le1)
  thus ?thesis by (simp add: matrix_clip_def word_le_nat_alt word_less_nat_alt)
qed

lemma fill_A: "\<exists>v < 0x100. g_A (matrix_fill N (a, b) g) = (g_A g)(a * N + b := v)"
  unfolding matrix_fill_def Let_def prod.case matrix_gen.simps using clip_small by blast

lemma fill_small:
  assumes "g = fold (matrix_fill N) cs g0" and "\<forall>(i, j) \<in> set cs. i < N \<and> j < N" and "(i, j) \<in> set cs" 
  shows "g_A g (i * N + j) < 0x100"
  using assms
proof (induction cs arbitrary: g rule: rev_induct)
  case (snoc c cs)
  obtain a b where c: "c = (a, b)" by (cases c)
  let ?g = "fold (matrix_fill N) cs g0"
  obtain v where v: "v < 0x100" "g_A (matrix_fill N (a, b) ?g) = (g_A ?g)(a * N + b := v)" using fill_A by blast
  have g: "g_A g = (g_A ?g)(a * N + b := v)" using snoc.prems(1) v(2) by (simp add: c)
  show ?case
  proof (cases "(i, j) \<in> set cs")
    case True
    hence "g_A ?g (i * N + j) < 0x100" using snoc.prems(2) by (intro snoc.IH) auto
    thus ?thesis using v(1) unfolding g by simp
  next
    case False
    hence "i = a" "j = b" using snoc.prems(3) c by auto
    thus ?thesis using v(1) unfolding g by simp
  qed
qed simp

text \<open>
  For every block size between 1 and 4294784000 and every seed the initialisation returns
  the largest dimension \<open>N\<close> with \<open>8 N^2\<close> below the block size. In a block that starts at a
  multiple of 4 the three arrays then lie one behind the other inside the block, and every
  element of \<open>A\<close> is below 256.
\<close>
lemma init_matrix_correct:
  assumes "0 < blksize" and "unat blksize \<le> 4294784000" and "4 dvd unat memblk" and "0 < unat memblk"
    and "unat memblk + unat blksize < 2 ^ 32"
  shows "\<exists>N q. core_init_matrix blksize memblk seed p = Some (of_nat N, q) \<and> mN q = N
    \<and> 8 * N * N < unat blksize \<and> unat blksize \<le> 8 * (N + 1) * (N + 1)
    \<and> unat (addr_A q) = unat memblk \<and> unat (addr_B q) = unat (addr_A q) + 2 * N * N
    \<and> unat (addr_C q) = unat (addr_B q) + 2 * N * N \<and> unat (addr_C q) + 4 * N * N < unat memblk + unat blksize
    \<and> (\<forall>i < N. \<forall>j < N. mA q (i * N + j) < 0x100)"
proof -
  obtain N where N: "matrix_dim blksize 0 0 = Some (of_nat N)" "8 * N * N < unat blksize"
      "unat blksize \<le> 8 * (N + 1) * (N + 1)" "N < 23170"
    using matrix_dim_exists[of "unat blksize"] assms(1,2) by (auto simp: word_less_nat_alt)
  have uN: "unat (of_nat N :: u32) = N" using N(4) by (simp add: unat_of_nat)
  define s where "s = (2 * (of_nat N * of_nat N) :: u32)"
  have s: "s = of_nat (2 * N * N)" by (simp add: s_def)
  have A: "align_mem memblk = memblk" using assms(3,4) by (intro align_mem_id) auto
  have B: "unat (memblk + s) = unat memblk + 2 * N * N"
    unfolding s using N(2) assms(5) by (simp add: unat_plus_if_size word_size unat_of_nat del: of_nat_mult)
  have C: "unat (memblk + s + s) = unat memblk + 4 * N * N"
    unfolding s using N(2) assms(5) B[unfolded s] by (subst unat_plus_if_size) (simp add: word_size unat_of_nat del: of_nat_mult)
  have "4 dvd unat (memblk + s + s)" unfolding C using assms(3) by (simp add: mult.assoc)
  moreover have "memblk + s + s \<noteq> 0"
  proof
    assume "memblk + s + s = 0"
    hence "unat (memblk + s + s) = 0" by simp
    thus False using C assms(4) by simp
  qed
  ultimately have C': "align_mem (memblk + s + s) = memblk + s + s" by (rule align_mem_id)
  define q where "q = snd (the (core_init_matrix blksize memblk seed p))"
  note d = core_init_matrix_def N(1) Let_def option.case option.sel snd_conv uN A s_def[symmetric] C'
  have r: "core_init_matrix blksize memblk seed p = Some (of_nat N, q)"
    unfolding q_def d by simp
  have f: "mN q = N" "addr_A q = memblk" "addr_B q = memblk + s" "addr_C q = memblk + s + s"
    unfolding q_def d by simp_all
  have "mA q (i * N + j) < 0x100" if "i < N" "j < N" for i j
  proof -
    have "(i, j) \<in> set (cells N)" "\<forall>(i, j) \<in> set (cells N). i < N \<and> j < N" using that by (auto simp: cells_def)
    from fill_small[OF refl this(2,1)] show ?thesis unfolding q_def d by simp
  qed
  moreover have "unat memblk + 4 * N * N + 4 * N * N < unat memblk + unat blksize" using N(2) by simp
  ultimately have "core_init_matrix blksize memblk seed p = Some (of_nat N, q) \<and> mN q = N
    \<and> 8 * N * N < unat blksize \<and> unat blksize \<le> 8 * (N + 1) * (N + 1)
    \<and> unat (addr_A q) = unat memblk \<and> unat (addr_B q) = unat (addr_A q) + 2 * N * N
    \<and> unat (addr_C q) = unat (addr_B q) + 2 * N * N \<and> unat (addr_C q) + 4 * N * N < unat memblk + unat blksize
    \<and> (\<forall>i < N. \<forall>j < N. mA q (i * N + j) < 0x100)"
    using r N(2,3) unfolding f B C by simp
  thus ?thesis by blast
qed

end
