(* ===== verification/Coremark_State.thy ===== *)
theory Coremark_State
  imports Coremark_Util
begin

text \<open>
  CoreMark's state machine benchmark (\<open>core_state.c\<close>): a scanner that classifies
  comma-separated tokens as integers, decimal fractions or numbers in scientific notation,
  run over a memory block twice, the second time with some bytes changed. The scanner and the
  runs are partial functions: memory without a terminating 0 has no result.
\<close>

unbundle bit_operations_syntax

datatype core_state = CORE_START | CORE_INVALID | CORE_S1 | CORE_S2 | CORE_INT | CORE_FLOAT
  | CORE_EXPONENT | CORE_SCIENTIFIC

definition core_states :: "core_state list" where
  "core_states = [CORE_START, CORE_INVALID, CORE_S1, CORE_S2, CORE_INT, CORE_FLOAT, CORE_EXPONENT, CORE_SCIENTIFIC]"

type_synonym counts = "core_state \<Rightarrow> u32"

definition ee_isdigit :: "u8 \<Rightarrow> bool" where
  "ee_isdigit c \<longleftrightarrow> 48 \<le> c \<and> c \<le> 57"

definition bump :: "core_state \<Rightarrow> counts \<Rightarrow> counts" where
  "bump s n = n(s := n s + 1)"

text \<open>The \<open>switch\<close> of the scanner: one symbol that is neither 0 nor a comma.\<close>

fun core_state_switch :: "core_state \<Rightarrow> u8 \<Rightarrow> counts \<Rightarrow> core_state \<times> counts" where
  "core_state_switch CORE_START c n =
    (if ee_isdigit c then (CORE_INT, bump CORE_START n)
     else if c = 43 \<or> c = 45 then (CORE_S1, bump CORE_START n)
     else if c = 46 then (CORE_FLOAT, bump CORE_START n)
     else (CORE_INVALID, bump CORE_START (bump CORE_INVALID n)))"
| "core_state_switch CORE_S1 c n =
    (if ee_isdigit c then (CORE_INT, bump CORE_S1 n)
     else if c = 46 then (CORE_FLOAT, bump CORE_S1 n)
     else (CORE_INVALID, bump CORE_S1 n))"
| "core_state_switch CORE_INT c n =
    (if c = 46 then (CORE_FLOAT, bump CORE_INT n)
     else if \<not> ee_isdigit c then (CORE_INVALID, bump CORE_INT n)
     else (CORE_INT, n))"
| "core_state_switch CORE_FLOAT c n =
    (if c = 69 \<or> c = 101 then (CORE_S2, bump CORE_FLOAT n)
     else if \<not> ee_isdigit c then (CORE_INVALID, bump CORE_FLOAT n)
     else (CORE_FLOAT, n))"
| "core_state_switch CORE_S2 c n =
    (if c = 43 \<or> c = 45 then (CORE_EXPONENT, bump CORE_S2 n)
     else (CORE_INVALID, bump CORE_S2 n))"
| "core_state_switch CORE_EXPONENT c n =
    (if ee_isdigit c then (CORE_SCIENTIFIC, bump CORE_EXPONENT n)
     else (CORE_INVALID, bump CORE_EXPONENT n))"
| "core_state_switch CORE_SCIENTIFIC c n =
    (if \<not> ee_isdigit c then (CORE_INVALID, bump CORE_INVALID n) else (CORE_SCIENTIFIC, n))"
| "core_state_switch CORE_INVALID c n = (CORE_INVALID, n)"

partial_function (option) transition_loop ::
    "mem \<Rightarrow> nat \<Rightarrow> core_state \<Rightarrow> counts \<Rightarrow> (nat \<times> core_state \<times> counts) option" where
  "transition_loop m str state n =
    (if m str \<noteq> 0 \<and> state \<noteq> CORE_INVALID then
       if m str = 44 then Some (str + 1, state, n)
       else transition_loop m (str + 1) (fst (core_state_switch state (m str) n)) (snd (core_state_switch state (m str) n))
     else Some (str, state, n))"

definition core_state_transition :: "mem \<Rightarrow> nat \<Rightarrow> counts \<Rightarrow> (nat \<times> core_state \<times> counts) option" where
  "core_state_transition m instr n = transition_loop m instr CORE_START n"

text \<open>A run over the input: final and transition counts.\<close>

partial_function (option) state_run :: "mem \<Rightarrow> nat \<Rightarrow> counts \<times> counts \<Rightarrow> (counts \<times> counts) option" where
  "state_run m p ft =
    (if m p \<noteq> 0 then
       (case core_state_transition m p (snd ft) of None \<Rightarrow> None
        | Some r \<Rightarrow> state_run m (fst r) (bump (fst (snd r)) (fst ft), snd (snd r)))
     else Some ft)"

partial_function (option) corrupt :: "nat \<Rightarrow> u16 \<Rightarrow> u16 \<Rightarrow> nat \<Rightarrow> mem \<Rightarrow> mem option" where
  "corrupt block_end step seed p m =
    (if p < block_end then
       corrupt block_end step seed (nat (int p + sint step)) (if m p \<noteq> 44 then m(p := m p XOR ucast seed) else m)
     else Some m)"

definition core_bench_state :: "u32 \<Rightarrow> nat \<Rightarrow> u16 \<Rightarrow> u16 \<Rightarrow> u16 \<Rightarrow> u16 \<Rightarrow> mem \<Rightarrow> (u16 \<times> mem) option" where
  "core_bench_state blksize memblock seed1 seed2 step crc m =
    (let block_end = memblock + unat blksize in
     case state_run m memblock (\<lambda>_. 0, \<lambda>_. 0) of None \<Rightarrow> None | Some ft \<Rightarrow>
     (case corrupt block_end step seed1 memblock m of None \<Rightarrow> None | Some m \<Rightarrow>
     (case state_run m memblock ft of None \<Rightarrow> None | Some (final_counts, track_counts) \<Rightarrow>
     (case corrupt block_end step seed2 memblock m of None \<Rightarrow> None | Some m \<Rightarrow>
       Some (fold (\<lambda>i crc. crcu32 (track_counts i) (crcu32 (final_counts i) crc)) core_states crc, m)))))"

section \<open>Initial data\<close>

definition ascii :: "string \<Rightarrow> u8 list" where
  "ascii = map (\<lambda>c. of_nat (of_char c))"

definition intpat :: "u8 list list" where
  "intpat = map ascii [''5012'', ''1234'', ''-874'', ''+122'']"

definition floatpat :: "u8 list list" where
  "floatpat = map ascii [''35.54400'', ''.1234500'', ''-110.700'', ''+0.64400'']"

definition scipat :: "u8 list list" where
  "scipat = map ascii [''5.500e+3'', ''-.123e-2'', ''-87e+832'', ''+0.6e-12'']"

definition errpat :: "u8 list list" where
  "errpat = map ascii [''T0.3e-1F'', ''-T.T++Tq'', ''1T3.4e4z'', ''34.0e-T^'']"

text \<open>The choice of the next pattern and its length.\<close>

definition next_pattern :: "u16 \<Rightarrow> u8 list \<times> u32" where
  "next_pattern seed =
    (let k = unat (seed AND 7); i = unat (drop_bit 3 seed AND 3) in
     if k \<le> 2 then (intpat ! i, 4)
     else if k \<le> 4 then (floatpat ! i, 8)
     else if k \<le> 6 then (scipat ! i, 8)
     else (errpat ! i, 8))"

definition write_pattern :: "nat \<Rightarrow> u32 \<Rightarrow> u32 \<Rightarrow> u8 list \<Rightarrow> mem \<Rightarrow> mem" where
  "write_pattern p tot next buf m =
    (fold (\<lambda>i m. m(p + unat tot + i := buf ! i)) [0..<unat next] m)(p + unat tot + unat next := 44)"

partial_function (option) init_state_loop ::
    "u32 \<Rightarrow> nat \<Rightarrow> u32 \<Rightarrow> u32 \<Rightarrow> u16 \<Rightarrow> u8 list \<Rightarrow> mem \<Rightarrow> (u32 \<times> mem) option" where
  "init_state_loop sz p tot next seed buf m =
    (if tot + next + 1 < sz then
       init_state_loop sz p (if next > 0 then tot + (next + 1) else tot)
         (snd (next_pattern (seed + 1))) (seed + 1) (fst (next_pattern (seed + 1)))
         (if next > 0 then write_pattern p tot next buf m else m)
     else Some (tot, m))"

definition core_init_state :: "u32 \<Rightarrow> u16 \<Rightarrow> nat \<Rightarrow> mem \<Rightarrow> mem option" where
  "core_init_state sz seed p m =
    (case init_state_loop (sz - 1) p 0 0 seed [] m of None \<Rightarrow> None
     | Some (tot, m) \<Rightarrow> Some (fold (\<lambda>i m. m(p + i := 0)) [unat tot..<unat sz] m))"

section \<open>Tokens\<close>

definition delta :: "core_state \<Rightarrow> u8 \<Rightarrow> core_state" where
  "delta s c = fst (core_state_switch s c (\<lambda>_. 0))"

lemma fst_switch: "fst (core_state_switch s c n) = delta s c"
  unfolding delta_def by (cases s) auto

definition is_sign :: "u8 list \<Rightarrow> bool" where
  "is_sign s \<longleftrightarrow> s \<in> {[], [43], [45]}"

abbreviation digits :: "u8 list \<Rightarrow> bool" where
  "digits \<equiv> list_all ee_isdigit"

definition is_int :: "u8 list \<Rightarrow> bool" where
  "is_int t \<longleftrightarrow> (\<exists>s ds. t = s @ ds \<and> is_sign s \<and> digits ds \<and> ds \<noteq> [])"

definition is_float :: "u8 list \<Rightarrow> bool" where
  "is_float t \<longleftrightarrow> (\<exists>s ds fs. t = s @ ds @ 46 # fs \<and> is_sign s \<and> digits ds \<and> digits fs)"

definition is_sci :: "u8 list \<Rightarrow> bool" where
  "is_sci t \<longleftrightarrow> (\<exists>f e x ds. t = f @ e # x # ds \<and> is_float f \<and> e \<in> {69, 101} \<and> x \<in> {43, 45} \<and> digits ds \<and> ds \<noteq> [])"

fun lang :: "core_state \<Rightarrow> u8 list \<Rightarrow> bool" where
  "lang CORE_START t \<longleftrightarrow> t = []"
| "lang CORE_S1 t \<longleftrightarrow> t \<in> {[43], [45]}"
| "lang CORE_INT t \<longleftrightarrow> is_int t"
| "lang CORE_FLOAT t \<longleftrightarrow> is_float t"
| "lang CORE_S2 t \<longleftrightarrow> (\<exists>f e. t = f @ [e] \<and> is_float f \<and> e \<in> {69, 101})"
| "lang CORE_EXPONENT t \<longleftrightarrow> (\<exists>f e x. t = f @ [e, x] \<and> is_float f \<and> e \<in> {69, 101} \<and> x \<in> {43, 45})"
| "lang CORE_SCIENTIFIC t \<longleftrightarrow> is_sci t"
| "lang CORE_INVALID t \<longleftrightarrow> True"

lemma int_digit:
  assumes "is_int t" and "ee_isdigit c"
  shows "is_int (t @ [c])"
proof -
  obtain s ds where "t = s @ ds" "is_sign s" "digits ds" using assms(1) unfolding is_int_def by blast
  thus ?thesis using assms(2) unfolding is_int_def by (intro exI[of _ s] exI[of _ "ds @ [c]"]) simp
qed

lemma float_digit:
  assumes "is_float t" and "ee_isdigit c"
  shows "is_float (t @ [c])"
proof -
  obtain s ds fs where "t = s @ ds @ 46 # fs" "is_sign s" "digits ds" "digits fs"
    using assms(1) unfolding is_float_def by blast
  thus ?thesis using assms(2) unfolding is_float_def
    by (intro exI[of _ s] exI[of _ ds] exI[of _ "fs @ [c]"]) simp
qed

lemma sci_digit:
  assumes "is_sci t" and "ee_isdigit c"
  shows "is_sci (t @ [c])"
proof -
  obtain f e x ds where "t = f @ e # x # ds" "is_float f" "e \<in> {69, 101}" "x \<in> {43, 45}" "digits ds"
    using assms(1) unfolding is_sci_def by blast
  thus ?thesis using assms(2) unfolding is_sci_def
    by (intro exI[of _ f] exI[of _ e] exI[of _ x] exI[of _ "ds @ [c]"]) simp
qed

lemma lang_delta: "lang s t \<Longrightarrow> lang (delta s c) (t @ [c])"
proof (cases s)
  case CORE_START
  assume "lang s t"
  moreover have "ee_isdigit c \<Longrightarrow> is_int [c]" unfolding is_int_def is_sign_def by (intro exI[of _ "[]"] exI[of _ "[c]"]) simp
  moreover have "is_float [46]" unfolding is_float_def is_sign_def by (intro exI[of _ "[]"]) simp
  ultimately show ?thesis using CORE_START by (auto simp: delta_def)
next
  case CORE_S1
  assume "lang s t"
  moreover have "ee_isdigit c \<Longrightarrow> t \<in> {[43], [45]} \<Longrightarrow> is_int (t @ [c])"
    unfolding is_int_def is_sign_def by (intro exI[of _ t] exI[of _ "[c]"]) auto
  moreover have "t \<in> {[43], [45]} \<Longrightarrow> is_float (t @ [46])"
    unfolding is_float_def is_sign_def by (intro exI[of _ t] exI[of _ "[]"]) auto
  ultimately show ?thesis using CORE_S1 by (auto simp: delta_def)
next
  case CORE_INT
  assume "lang s t"
  moreover have "is_int t \<Longrightarrow> is_float (t @ [46])" unfolding is_int_def is_float_def by fastforce
  ultimately show ?thesis using CORE_INT by (auto simp: delta_def int_digit)
next
  case CORE_EXPONENT
  assume "lang s t"
  moreover have "lang CORE_EXPONENT t \<Longrightarrow> ee_isdigit c \<Longrightarrow> is_sci (t @ [c])" unfolding is_sci_def by fastforce
  ultimately show ?thesis using CORE_EXPONENT by (auto simp: delta_def simp del: lang.simps(6) is_sci_def)
qed (auto simp: delta_def float_digit sci_digit)

lemma lang_run: "lang (foldl delta CORE_START t) t"
  by (induction t rule: rev_induct) (auto intro: lang_delta)

lemma run_digits:
  "digits ds \<Longrightarrow> foldl delta CORE_INT ds = CORE_INT" "digits ds \<Longrightarrow> foldl delta CORE_FLOAT ds = CORE_FLOAT"
  "digits ds \<Longrightarrow> foldl delta CORE_SCIENTIFIC ds = CORE_SCIENTIFIC"
  by (induction ds) (auto simp: delta_def ee_isdigit_def)

lemma run_sign: "is_sign s \<Longrightarrow> foldl delta CORE_START s \<in> {CORE_START, CORE_S1}"
  by (auto simp: is_sign_def delta_def ee_isdigit_def)

lemma delta_start:
  "X \<in> {CORE_START, CORE_S1} \<Longrightarrow> ee_isdigit c \<Longrightarrow> delta X c = CORE_INT"
  "X \<in> {CORE_START, CORE_S1, CORE_INT} \<Longrightarrow> delta X 46 = CORE_FLOAT"
  by (auto simp: delta_def ee_isdigit_def)

lemma run_sign_digits:
  assumes "is_sign s" "digits ds"
  shows "foldl delta CORE_START (s @ ds) \<in> {CORE_START, CORE_S1, CORE_INT}"
    "ds \<noteq> [] \<Longrightarrow> foldl delta CORE_START (s @ ds) = CORE_INT"
  using run_sign[OF assms(1)] assms(2) by (cases ds; force simp: delta_start run_digits)+

lemma run_int: "is_int t \<Longrightarrow> foldl delta CORE_START t = CORE_INT"
  using run_sign_digits(2) unfolding is_int_def by blast

lemma run_float: "is_float t \<Longrightarrow> foldl delta CORE_START t = CORE_FLOAT"
proof -
  assume "is_float t"
  then obtain s ds fs where t: "t = (s @ ds) @ 46 # fs" "is_sign s" "digits ds" "digits fs"
    unfolding is_float_def by auto
  show ?thesis using run_sign_digits(1)[OF t(2,3)] t(4) unfolding t(1) foldl_append
    by (simp add: delta_start(2) run_digits)
qed

lemma run_sci: "is_sci t \<Longrightarrow> foldl delta CORE_START t = CORE_SCIENTIFIC"
proof -
  assume "is_sci t"
  then obtain f e x d ds where t: "t = f @ e # x # d # ds" "is_float f" "e \<in> {69, 101}" "x \<in> {43, 45}" "digits (d # ds)"
    unfolding is_sci_def by (metis neq_Nil_conv)
  have "delta CORE_FLOAT e = CORE_S2" "delta CORE_S2 x = CORE_EXPONENT" "delta CORE_EXPONENT d = CORE_SCIENTIFIC"
    using t by (auto simp: delta_def)
  thus ?thesis using t run_float[OF t(2)] by (simp add: run_digits)
qed

lemma run_class:
  "foldl delta CORE_START t = CORE_INT \<longleftrightarrow> is_int t" "foldl delta CORE_START t = CORE_FLOAT \<longleftrightarrow> is_float t"
  "foldl delta CORE_START t = CORE_SCIENTIFIC \<longleftrightarrow> is_sci t"
  using lang_run[of t] run_int[of t] run_float[of t] run_sci[of t] by auto


section \<open>The scanner on a token\<close>

definition plain :: "u8 list \<Rightarrow> bool" where
  "plain t \<longleftrightarrow> 0 \<notin> set t \<and> 44 \<notin> set t"

lemma delta_invalid [simp]: "delta CORE_INVALID c = CORE_INVALID" "foldl delta CORE_INVALID t = CORE_INVALID"
  by (simp add: delta_def, induction t) (simp_all add: delta_def)

lemma transition_loop_mono: "transition_loop m str s n = Some y \<Longrightarrow> str \<le> fst y"
  by (erule transition_loop.raw_induct[rotated, where P = "\<lambda>m str s n y. str \<le> fst y"])
    (force split: if_splits)

lemma transition_token:
  assumes "bytes m p (length t) = t" and "plain t" and "m (p + length t) \<in> {0, 44}"
  shows "\<exists>q n'. transition_loop m p s n = Some (q, foldl delta s t, n') \<and> q \<le> p + length t + 1
    \<and> (t \<noteq> [] \<and> s \<noteq> CORE_INVALID \<longrightarrow> p < q)
    \<and> (foldl delta s t \<noteq> CORE_INVALID \<longrightarrow> q = p + length t + of_bool (m (p + length t) = 44))"
  using assms
proof (induction t arbitrary: p s n)
  case Nil
  thus ?case by (subst transition_loop.simps) auto
next
  case (Cons c t)
  show ?case
  proof (cases "s = CORE_INVALID")
    case True
    thus ?thesis by (subst transition_loop.simps) simp
  next
    case False
    have c: "m p = c" "c \<noteq> 0" "c \<noteq> 44" and t: "bytes m (p + 1) (length t) = t" "plain t" "m (p + 1 + length t) \<in> {0, 44}"
      using Cons.prems by (auto simp: bytes_Suc plain_def)
    obtain q n' where "transition_loop m (p + 1) (delta s c) (snd (core_state_switch s c n)) = Some (q, foldl delta (delta s c) t, n')"
      "q \<le> p + 1 + length t + 1" "t \<noteq> [] \<and> delta s c \<noteq> CORE_INVALID \<longrightarrow> p + 1 < q"
      "foldl delta (delta s c) t \<noteq> CORE_INVALID \<longrightarrow> q = p + 1 + length t + of_bool (m (p + 1 + length t) = 44)"
      using Cons.IH[OF t] by blast
    moreover have "p < q" using transition_loop_mono[OF calculation(1)] by simp
    ultimately show ?thesis using False c by (subst transition_loop.simps) (auto simp: fst_switch)
  qed
qed


lemma run_start: "t \<noteq> [] \<Longrightarrow> foldl delta CORE_START t \<noteq> CORE_START"
  using lang_run[of t] by auto

text \<open>Before a 0 at \<open>a\<close> the scanner returns, at most at \<open>a\<close>, and it takes at least one byte.\<close>

lemma transition_returns:
  assumes "m a = 0" and "p \<le> a"
  shows "\<exists>q s' n'. transition_loop m p s n = Some (q, s', n') \<and> q \<le> a
    \<and> (m p \<noteq> 0 \<and> s \<noteq> CORE_INVALID \<longrightarrow> p < q)"
  using assms(2)
proof (induction "a - p" arbitrary: p s n)
  case 0
  thus ?case using assms(1) by (subst transition_loop.simps) auto
next
  case (Suc d)
  show ?case
  proof (cases "m p = 0 \<or> s = CORE_INVALID \<or> m p = 44")
    case True
    thus ?thesis using Suc by (subst transition_loop.simps) auto
  next
    case False
    have "d = a - (p + 1)" "p + 1 \<le> a" using Suc.hyps(2) by auto
    from Suc.hyps(1)[OF this, of "delta s (m p)" "snd (core_state_switch s (m p) n)"] obtain q s' n' where
      r: "transition_loop m (p + 1) (delta s (m p)) (snd (core_state_switch s (m p) n)) = Some (q, s', n')" "q \<le> a"
      by blast
    moreover have "p < q" using transition_loop_mono[OF r(1)] by simp
    ultimately show ?thesis using False by (subst transition_loop.simps) (auto simp: fst_switch)
  qed
qed

lemma state_run_returns:
  assumes "m a = 0" and "p \<le> a"
  shows "\<exists>ft'. state_run m p ft = Some ft'"
  using assms(2)
proof (induction "a - p" arbitrary: p ft rule: less_induct)
  case less
  show ?case
  proof (cases "m p = 0")
    case True
    thus ?thesis by (subst state_run.simps) simp
  next
    case False
    obtain q s' n' where r: "core_state_transition m p (snd ft) = Some (q, s', n')" "q \<le> a" "p < q"
      using transition_returns[of m a p CORE_START "snd ft"] assms(1) less.prems False
      unfolding core_state_transition_def by auto
    hence "\<exists>ft'. state_run m q (bump s' (fst ft), n') = Some ft'" by (intro less.hyps) auto
    thus ?thesis using False r(1) by (subst state_run.simps) simp
  qed
qed

text \<open>The bytes the corruption changes.\<close>

definition corrupted :: "nat \<Rightarrow> nat \<Rightarrow> u8 \<Rightarrow> nat \<Rightarrow> mem \<Rightarrow> mem" where
  "corrupted e k s p m = (\<lambda>a. if p \<le> a \<and> a < e \<and> k dvd a - p \<and> m a \<noteq> 44 then m a XOR s else m a)"

lemma corrupt_eq:
  assumes "0 < sint step"
  shows "corrupt e step seed p m = Some (corrupted e (nat (sint step)) (ucast seed) p m)"
proof (induction "e - p" arbitrary: p m rule: less_induct)
  case less
  let ?k = "nat (sint step)"
  have k: "nat (int p + sint step) = p + ?k" using assms by simp
  show ?case
  proof (cases "p < e")
    case False
    thus ?thesis by (subst corrupt.simps) (auto simp: corrupted_def fun_eq_iff)
  next
    case True
    let ?m = "if m p \<noteq> 44 then m(p := m p XOR ucast seed) else m"
    have "corrupt e step seed (p + ?k) ?m = Some (corrupted e ?k (ucast seed) (p + ?k) ?m)"
      using less True assms by simp
    moreover have "corrupted e ?k (ucast seed) (p + ?k) ?m = corrupted e ?k (ucast seed) p m"
    proof
      fix a
      have "?k dvd a - p \<longleftrightarrow> ?k dvd a - (p + ?k)" if "p + ?k \<le> a"
        using that dvd_add_right_iff[of ?k ?k "a - (p + ?k)"] by (simp add: add.commute)
      moreover have "\<not> ?k dvd a - p" if "p < a" "a < p + ?k"
        using that by (auto dest!: dvd_imp_le)
      ultimately show "corrupted e ?k (ucast seed) (p + ?k) ?m a = corrupted e ?k (ucast seed) p m a"
        using True assms unfolding corrupted_def by (cases "a = p"; cases "p + ?k \<le> a"; cases "p < a") auto
    qed
    ultimately show ?thesis using True by (subst corrupt.simps) (simp add: k)
  qed
qed

text \<open>Of two adjacent zeros the corruption with a step of at least 2 leaves one.\<close>

lemma corrupted_zero:
  assumes "m a = 0" "m (a + 1) = 0" "1 < k" "p \<le> a"
  shows "\<exists>b \<in> {a, a + 1}. corrupted e k s p m b = 0"
proof (cases "k dvd a - p")
  case True
  hence "\<not> k dvd Suc (a - p)" using assms(3) by (metis dvd_diffD1 dvd_1_iff_1 One_nat_def le_SucI less_numeral_extra(4) plus_1_eq_Suc dvd_add_right_iff add.commute)
  hence "\<not> k dvd a + 1 - p" using assms(4) by (simp add: Suc_diff_le)
  thus ?thesis using assms by (auto simp: corrupted_def)
qed (use assms in \<open>auto simp: corrupted_def\<close>)


section \<open>The initial data\<close>

lemma fold_put: "fold (\<lambda>i m. m(p + i := xs ! i)) [0..<length xs] m = put m p xs"
proof (induction xs rule: rev_induct)
  case (snoc x xs)
  have "fold (\<lambda>i m. m(p + i := (xs @ [x]) ! i)) [0..<length xs] m = fold (\<lambda>i m. m(p + i := xs ! i)) [0..<length xs] m"
    by (rule fold_cong) (auto simp: nth_append)
  moreover have "fold (\<lambda>i m. m(p + i := (xs @ [x]) ! i)) [0..<length (xs @ [x])] m
    = (fold (\<lambda>i m. m(p + i := (xs @ [x]) ! i)) [0..<length xs] m)(p + length xs := x)"
    by (simp add: fun_upd_def cong: if_cong)
  moreover have "put m p (xs @ [x]) = (put m p xs)(p + length xs := x)" unfolding put_append put_Cons put_Nil ..
  ultimately show ?case using snoc by (simp only:)
qed simp

lemma write_pattern_put:
  "length buf = unat nxt \<Longrightarrow> write_pattern p tot nxt buf m = put m (p + unat tot) (buf @ [44])"
  using fold_put[of "p + unat tot" buf m] by (simp add: write_pattern_def put_append put_Cons)

definition patterns :: "u8 list list" where
  "patterns = intpat @ floatpat @ scipat @ errpat"

lemma pattern_facts:
  "b \<in> set intpat \<Longrightarrow> length b = 4" "b \<in> set floatpat \<union> set scipat \<union> set errpat \<Longrightarrow> length b = 8"
  "b \<in> set patterns \<Longrightarrow> plain b"
  by (auto simp: intpat_def floatpat_def scipat_def errpat_def patterns_def ascii_def plain_def)

lemma next_pattern_facts:
  "fst (next_pattern s) \<in> set patterns" "unat (snd (next_pattern s)) = length (fst (next_pattern s))"
  "unat (snd (next_pattern s)) \<in> {4, 8}"
proof -
  have "unat (drop_bit 3 s AND 3) < 2 ^ 2" by (rule unat_and_below) simp
  hence i: "unat (drop_bit 3 s AND 3) < length p" if "p \<in> {intpat, floatpat, scipat, errpat}" for p
    using that by (auto simp: intpat_def floatpat_def scipat_def errpat_def)
  have n: "intpat ! unat (drop_bit 3 s AND 3) \<in> set intpat" "floatpat ! unat (drop_bit 3 s AND 3) \<in> set floatpat"
    "scipat ! unat (drop_bit 3 s AND 3) \<in> set scipat" "errpat ! unat (drop_bit 3 s AND 3) \<in> set errpat"
    by (rule nth_mem, rule i, simp)+
  show "fst (next_pattern s) \<in> set patterns"
    using n unfolding next_pattern_def Let_def patterns_def by simp
  show "unat (snd (next_pattern s)) = length (fst (next_pattern s))"
    using n pattern_facts unfolding next_pattern_def Let_def by simp
  show "unat (snd (next_pattern s)) \<in> {4, 8}"
    unfolding next_pattern_def Let_def by simp
qed

text \<open>The text the loop writes: patterns, each followed by a comma.\<close>

definition joined :: "u8 list list \<Rightarrow> u8 list" where
  "joined ts = concat (map (\<lambda>t. t @ [44]) ts)"

lemma joined_snoc [simp]: "joined (ts @ [t]) = joined ts @ t @ [44]" and joined_Nil [simp]: "joined [] = []"
  by (simp_all add: joined_def)

lemma init_loop_returns:
  assumes "unat sz < 2 ^ 31" and "set ts \<subseteq> set patterns" and "unat tot = length (joined ts)" and "unat tot \<le> unat sz - 1"
    and "nxt = 0 \<or> buf \<in> set patterns \<and> length buf = unat nxt" and "nxt = 0 \<longrightarrow> k = 1" and "unat nxt \<le> 8"
  shows "\<exists>us. init_state_loop sz p tot nxt seed buf (put m p (joined ts)) = Some (of_nat (length (joined us)), put m p (joined us))
    \<and> set us \<subseteq> set patterns \<and> length (joined us) \<le> unat sz - 1"
  using assms(2-)
proof (induction "(unat sz - unat tot) + (if nxt = 0 then 1 else 0)" arbitrary: ts tot nxt seed buf rule: less_induct)
  case less
  have nw: "unat (tot + nxt + 1) = unat tot + unat nxt + 1"
    using assms(1) less.prems by (simp add: unat_word_ariths)
  show ?case
  proof (cases "tot + nxt + 1 < sz")
    case False
    have "tot = of_nat (length (joined ts))" by (simp flip: less.prems(2))
    thus ?thesis using False less.prems by (subst init_state_loop.simps) (intro exI[of _ ts], simp)
  next
    case True
    define us where "us = (if nxt = 0 then ts else ts @ [buf])"
    define tot' where "tot' = (if nxt > 0 then tot + (nxt + 1) else tot)"
    let ?n = "next_pattern (seed + 1)"
    have n: "snd ?n \<noteq> 0" using next_pattern_facts(3)[of "seed + 1"] by auto
    have t: "unat tot' = length (joined us)"
      using less.prems nw by (auto simp: tot'_def us_def word_gt_0 algebra_simps)
    have w: "(if nxt > 0 then write_pattern p tot nxt buf (put m p (joined ts)) else put m p (joined ts)) = put m p (joined us)"
      using less.prems by (auto simp: us_def write_pattern_put word_gt_0 put_append)
    have lt: "unat tot + unat nxt + 1 < unat sz" using True nw by (simp add: word_less_nat_alt)
    have t': "unat tot' = (if nxt = 0 then unat tot else unat tot + unat nxt + 1)"
      using nw by (auto simp: tot'_def word_gt_0 algebra_simps)
    have "\<exists>vs. init_state_loop sz p tot' (snd ?n) (seed + 1) (fst ?n) (put m p (joined us))
        = Some (of_nat (length (joined vs)), put m p (joined vs)) \<and> set vs \<subseteq> set patterns \<and> length (joined vs) \<le> unat sz - 1"
    proof (rule less.hyps)
      show "unat sz - unat tot' + (if snd ?n = 0 then 1 else 0) < unat sz - unat tot + (if nxt = 0 then 1 else 0)"
        using n t' lt by auto
      show "set us \<subseteq> set patterns" using less.prems by (auto simp: us_def)
      show "unat tot' \<le> unat sz - 1" using t' lt by auto
      show "snd ?n = 0 \<or> fst ?n \<in> set patterns \<and> length (fst ?n) = unat (snd ?n)"
        using next_pattern_facts[of "seed + 1"] by simp
      show "unat (snd ?n) \<le> 8" using next_pattern_facts(3)[of "seed + 1"] by auto
    qed (use n t in auto)
    thus ?thesis using True w by (subst init_state_loop.simps) (simp add: tot'_def)
  qed
qed

lemma fold_zero: "fold (\<lambda>i m. m(p + i := 0)) [a..<b] m = (\<lambda>x. if p + a \<le> x \<and> x < p + b then 0 else m x)"
  by (induction b) (auto simp: fun_eq_iff)

lemma joined_plain: "set ts \<subseteq> set patterns \<Longrightarrow> 0 \<notin> set (joined ts)"
  using pattern_facts(3) by (induction ts rule: rev_induct) (auto simp: plain_def)

lemma init_state_form:
  assumes "1 < unat sz" and "unat sz < 2 ^ 31"
  shows "\<exists>ts. core_init_state sz seed p m = Some (put m p (joined ts @ replicate (unat sz - length (joined ts)) 0))
    \<and> set ts \<subseteq> set patterns \<and> length (joined ts) + 2 \<le> unat sz"
proof -
  have s: "unat (sz - 1) = unat sz - 1" using assms by (intro unat_minus_one) auto
  have "unat (sz - 1) < 2 ^ 31" using s assms by simp
  then obtain ts where ts: "init_state_loop (sz - 1) p 0 0 seed [] m = Some (of_nat (length (joined ts)), put m p (joined ts))"
    "set ts \<subseteq> set patterns" "length (joined ts) \<le> unat (sz - 1) - 1"
    using init_loop_returns[of "sz - 1" "[]" 0 0 "[]" 1 p seed m] assms s by auto
  have u: "unat (of_nat (length (joined ts)) :: u32) = length (joined ts)"
    using ts(3) s assms by (simp add: unat_of_nat)
  have "fold (\<lambda>i m. m(p + i := 0)) [length (joined ts)..<unat sz] (put m p (joined ts))
    = put m p (joined ts @ replicate (unat sz - length (joined ts)) 0)"
    using ts(3) s assms unfolding fold_zero by (auto simp: put_def nth_append fun_eq_iff)
  thus ?thesis using ts s assms by (intro exI[of _ ts]) (simp add: core_init_state_def u)
qed


text \<open>
  C23: on a token without 0 and comma, followed by a comma or the terminating 0, the scanner
  returns; it ends in \<open>CORE_INT\<close> exactly on an optional sign and digits, in \<open>CORE_FLOAT\<close> exactly
  on an optional sign and digits with one point among or around them, and in
  \<open>CORE_SCIENTIFIC\<close> exactly on such a fraction, an \<open>E\<close> or \<open>e\<close>, a sign and digits. It takes at
  least one byte of a token that is not empty, and all of a valid one with the comma behind it.
\<close>
theorem scanner_classifies:
  assumes "bytes m p (length t) = t" and "plain t" and "m (p + length t) \<in> {0, 44}"
  shows "\<exists>q s n'. core_state_transition m p n = Some (q, s, n')
    \<and> (s = CORE_INT \<longleftrightarrow> is_int t) \<and> (s = CORE_FLOAT \<longleftrightarrow> is_float t) \<and> (s = CORE_SCIENTIFIC \<longleftrightarrow> is_sci t)
    \<and> (s = CORE_START \<longleftrightarrow> t = []) \<and> (t \<noteq> [] \<longrightarrow> p < q) \<and> q \<le> p + length t + 1
    \<and> (s \<noteq> CORE_INVALID \<longrightarrow> q = p + length t + of_bool (m (p + length t) = 44))"
proof -
  obtain q n' where r: "transition_loop m p CORE_START n = Some (q, foldl delta CORE_START t, n')"
    "q \<le> p + length t + 1" "t \<noteq> [] \<and> CORE_START \<noteq> CORE_INVALID \<longrightarrow> p < q"
    "foldl delta CORE_START t \<noteq> CORE_INVALID \<longrightarrow> q = p + length t + of_bool (m (p + length t) = 44)"
    using transition_token[OF assms, of CORE_START n] by blast
  have "foldl delta CORE_START t = CORE_START \<longleftrightarrow> t = []" using run_start by auto
  with r show ?thesis by (auto simp: core_state_transition_def run_class)
qed

theorem scanner_witness:
  "\<exists>q n'. core_state_transition (put (\<lambda>_. 0) 5 (ascii ''-110.700,'')) 5 (\<lambda>_. 0) = Some (q, CORE_FLOAT, n')"
proof -
  let ?t = "ascii ''-110.700''"
  have b: "bytes (put (\<lambda>_. 0) 5 (ascii ''-110.700,'')) 5 (length ?t) = ?t" by (simp add: bytes_put ascii_def)
  have p: "plain ?t" by (simp add: ascii_def plain_def)
  have e: "put (\<lambda>_. 0) 5 (ascii ''-110.700,'') (5 + length ?t) \<in> {0, 44}" by (simp add: ascii_def put_def)
  have "is_float ?t" unfolding is_float_def is_sign_def
    by (intro exI[of _ "[45]"] exI[of _ "[49, 49, 48]"] exI[of _ "[55, 48, 48]"]) (simp add: ascii_def ee_isdigit_def)
  thus ?thesis using scanner_classifies[OF b p e, of "\<lambda>_. 0"] by auto
qed

lemma corrupted_out: "e \<le> a \<Longrightarrow> corrupted e k s p m a = m a" "a < p \<Longrightarrow> corrupted e k s p m a = m a"
  by (simp_all add: corrupted_def)

lemma bench_state_eq:
  assumes "m a = 0" "m (a + 1) = 0" "p \<le> a" "1 < sint step"
  shows "\<exists>c. core_bench_state sz p seed1 seed2 step crc m
    = Some (c, corrupted (p + unat sz) (nat (sint step)) (ucast seed2) p (corrupted (p + unat sz) (nat (sint step)) (ucast seed1) p m))"
proof -
  let ?m = "corrupted (p + unat sz) (nat (sint step)) (ucast seed1) p m"
  obtain ft where 1: "state_run m p (\<lambda>_. 0, \<lambda>_. 0) = Some ft" using state_run_returns[of m a p] assms(1,3) by blast
  obtain b where "b \<in> {a, a + 1}" "?m b = 0"
    using corrupted_zero[OF assms(1,2) _ assms(3), of "nat (sint step)" "p + unat sz" "ucast seed1"] assms(4) by auto
  then obtain f t where 2: "state_run ?m p ft = Some (f, t)"
    using state_run_returns[of ?m b p ft] assms(3) by auto
  have c: "corrupt (p + unat sz) step s p m' = Some (corrupted (p + unat sz) (nat (sint step)) (ucast s) p m')" for s m'
    using assms(4) by (intro corrupt_eq) simp
  show ?thesis by (simp add: core_bench_state_def Let_def 1 2 c)
qed

text \<open>
  C33: the state benchmark returns on every block \<open>core_init_state\<close> has filled, for every seed
  and every step of at least 2: the two zeros at the end of the block are never both
  changed. It changes nothing outside the block, and with equal seeds it restores every byte
  that the first pass did not turn into a comma (the second pass leaves commas alone).
\<close>
theorem bench_state_returns:
  assumes "1 < unat sz" and "unat sz < 2 ^ 31" and "1 < sint step"
  shows "\<exists>m' c m''. core_init_state sz seed p m = Some m'
    \<and> core_bench_state sz p seed1 seed2 step crc m' = Some (c, m'')
    \<and> (\<forall>a. a < p \<or> p + unat sz \<le> a \<longrightarrow> m'' a = m a)
    \<and> (seed1 = seed2 \<longrightarrow> (\<forall>a. m' a XOR ucast seed1 \<noteq> 44 \<or> m' a = 44 \<longrightarrow> m'' a = m' a))"
proof -
  obtain ts where ts: "core_init_state sz seed p m = Some (put m p (joined ts @ replicate (unat sz - length (joined ts)) 0))"
    "length (joined ts) + 2 \<le> unat sz" using init_state_form[OF assms(1,2)] by blast
  define m' where "m' = put m p (joined ts @ replicate (unat sz - length (joined ts)) 0)"
  let ?a = "p + unat sz - 2" and ?e = "p + unat sz" and ?k = "nat (sint step)"
  have z: "m' ?a = 0" "m' (?a + 1) = 0"
    using ts(2) assms(1) by (auto simp: m'_def put_def nth_append)
  define m'' where "m'' = corrupted ?e ?k (ucast seed2) p (corrupted ?e ?k (ucast seed1) p m')"
  obtain c where c: "core_bench_state sz p seed1 seed2 step crc m' = Some (c, m'')"
    unfolding m''_def using bench_state_eq[OF z _ assms(3)] assms(1) by force
  have o: "m'' a = m a" if "a < p \<or> ?e \<le> a" for a
  proof -
    have "m'' a = m' a" using that by (auto simp: m''_def corrupted_out)
    also have "\<dots> = m a" unfolding m'_def using that ts(2) by (intro put_other) auto
    finally show ?thesis .
  qed
  have "m'' a = m' a" if "m' a XOR ucast seed1 \<noteq> 44 \<or> m' a = 44" "seed1 = seed2" for a
    using that by (auto simp: m''_def corrupted_def xor.assoc)
  thus ?thesis using ts(1) c o unfolding m'_def by blast
qed

theorem bench_state_witness:
  "\<exists>m' c m''. core_init_state 666 0 1000 (\<lambda>_. 7) = Some m' \<and> core_bench_state 666 1000 0 0 0x22 0 m' = Some (c, m'') \<and> m'' 999 = 7"
  using bench_state_returns[of 666 "0x22" 0 1000 "\<lambda>_. 7" 0 0 0] by auto

end
