(* ===== verification/Coremark_List.thy ===== *)
theory Coremark_List
  imports Coremark_Matrix Coremark_State "HOL-Library.Multiset"
begin

text \<open>
  CoreMark's list benchmark (\<open>core_list_join.c\<close>): a singly linked list in a memory block,
  searched, reversed, sorted in place, with the results of the other two benchmarks as sort
  keys. Pointers are byte addresses and 0 is \<open>NULL\<close>; a \<open>list_head\<close> has 8 bytes, a
  \<open>list_data\<close> 4. The fields of the nodes are maps from addresses, together with the
  benchmark's results in one record. A loop over a list is a partial function, since a
  cyclic list keeps it running.
\<close>

unbundle bit_operations_syntax

section \<open>State\<close>

record core_results =
  lnext :: "nat \<Rightarrow> nat"
  linfo :: "nat \<Rightarrow> nat"
  data16 :: "nat \<Rightarrow> u16"
  idx :: "nat \<Rightarrow> u16"
  seed1 :: u16
  seed2 :: u16
  seed3 :: u16
  memblock3 :: nat
  block3 :: mem
  res_size :: u32
  iterations :: u32
  execs :: u32
  res_list :: nat
  mat :: mat_params
  crc :: u16
  crclist :: u16
  crcmatrix :: u16
  crcstate :: u16
  err :: u16

text \<open>A comparison of two data items, which may compute and cache their values.\<close>

type_synonym list_cmp = "nat \<Rightarrow> nat \<Rightarrow> core_results \<Rightarrow> (int \<times> core_results) option"

definition set_next :: "nat \<Rightarrow> nat \<Rightarrow> core_results \<Rightarrow> core_results" where
  "set_next p q s = s\<lparr>lnext := (lnext s)(p := q)\<rparr>"

definition set_info :: "nat \<Rightarrow> nat \<Rightarrow> core_results \<Rightarrow> core_results" where
  "set_info p d s = s\<lparr>linfo := (linfo s)(p := d)\<rparr>"

definition set_data :: "nat \<Rightarrow> u16 \<Rightarrow> core_results \<Rightarrow> core_results" where
  "set_data d v s = s\<lparr>data16 := (data16 s)(d := v)\<rparr>"

section \<open>Data items\<close>

definition calc_func :: "nat \<Rightarrow> core_results \<Rightarrow> (u16 \<times> core_results) option" where
  "calc_func pdata s =
    (let data = data16 s pdata; optype = drop_bit 7 data AND 1 in
     if optype \<noteq> 0 then Some (data AND 0x007f, s)
     else
       let flag = data AND 0x7; dtype = drop_bit 3 data AND 0xf; dtype = dtype OR push_bit 4 dtype in
       case (if flag = 0 then
               (let dtype = (if dtype < 0x22 then 0x22 else dtype) in
                case core_bench_state (res_size s) (memblock3 s) (seed1 s) (seed2 s) dtype (crc s) (block3 s) of
                  None \<Rightarrow> None
                | Some (retval, m) \<Rightarrow>
                    Some (retval, s\<lparr>block3 := m, crcstate := (if crcstate s = 0 then retval else crcstate s)\<rparr>))
             else if flag = 1 then
               (let (retval, p) = core_bench_matrix (mat s) dtype (crc s)
                in Some (retval, s\<lparr>mat := p, crcmatrix := (if crcmatrix s = 0 then retval else crcmatrix s)\<rparr>))
             else Some (data, s)) of
         None \<Rightarrow> None
       | Some (retval, s) \<Rightarrow>
           let s = s\<lparr>crc := crcu16 retval (crc s)\<rparr>; retval = retval AND 0x007f
           in Some (retval, set_data pdata ((data AND 0xff00) OR 0x0080 OR retval) s))"

definition cmp_complex :: list_cmp where
  "cmp_complex a b s =
    (case calc_func a s of None \<Rightarrow> None | Some (val1, s) \<Rightarrow>
     (case calc_func b s of None \<Rightarrow> None | Some (val2, s) \<Rightarrow>
       Some (sint val1 - sint val2, s)))"

definition regen :: "nat \<Rightarrow> core_results \<Rightarrow> core_results" where
  "regen d s = set_data d ((data16 s d AND 0xff00) OR (0x00ff AND signed_drop_bit 8 (data16 s d))) s"

text \<open>The comparison by index; \<open>null\<close> says that the argument \<open>res\<close> is \<open>NULL\<close>.\<close>

definition cmp_idx :: "bool \<Rightarrow> list_cmp" where
  "cmp_idx null a b s =
    (let s = (if null then regen b (regen a s) else s) in Some (sint (idx s a) - sint (idx s b), s))"

definition copy_info :: "nat \<Rightarrow> u16 \<Rightarrow> u16 \<Rightarrow> core_results \<Rightarrow> core_results" where
  "copy_info dst d i s = s\<lparr>data16 := (data16 s)(dst := d), idx := (idx s)(dst := i)\<rparr>"

section \<open>Operations on the list\<close>

text \<open>
  \<open>core_list_insert_new\<close> returns the new item (0 if the block is full) and moves the two
  allocation pointers \<open>mb\<close> and \<open>db\<close>; the data of the cell are \<open>d\<close> and \<open>i\<close>.
\<close>

definition core_list_insert_new ::
    "nat \<Rightarrow> u16 \<Rightarrow> u16 \<Rightarrow> nat \<Rightarrow> nat \<Rightarrow> nat \<Rightarrow> nat \<Rightarrow> core_results \<Rightarrow> nat \<times> nat \<times> nat \<times> core_results" where
  "core_list_insert_new insert_point d i mb db mb_end db_end s =
    (if mb + 8 \<ge> mb_end then (0, mb, db, s)
     else if db + 4 \<ge> db_end then (0, mb, db, s)
     else
       let newitem = mb;
           s = set_next newitem (lnext s insert_point) s;
           s = set_next insert_point newitem s;
           s = set_info newitem db s;
           s = copy_info (linfo s newitem) d i s
       in (newitem, mb + 8, db + 4, s))"

definition core_list_remove :: "nat \<Rightarrow> core_results \<Rightarrow> nat \<times> core_results" where
  "core_list_remove item s =
    (let ret = lnext s item;
         tmp = linfo s item;
         s = set_info item (linfo s ret) s;
         s = set_info ret tmp s;
         s = set_next item (lnext s (lnext s item)) s;
         s = set_next ret 0 s
     in (ret, s))"

definition core_list_undo_remove :: "nat \<Rightarrow> nat \<Rightarrow> core_results \<Rightarrow> nat \<times> core_results" where
  "core_list_undo_remove item_removed item_modified s =
    (let tmp = linfo s item_removed;
         s = set_info item_removed (linfo s item_modified) s;
         s = set_info item_modified tmp s;
         s = set_next item_removed (lnext s item_modified) s;
         s = set_next item_modified item_removed s
     in (item_removed, s))"

definition find_stop :: "u16 \<Rightarrow> u16 \<Rightarrow> nat \<Rightarrow> core_results \<Rightarrow> bool" where
  "find_stop d i p s \<longleftrightarrow>
    (if 0 \<le> sint i then idx s (linfo s p) = i else sint (data16 s (linfo s p) AND 0xff) = sint d)"

partial_function (option) core_list_find :: "u16 \<Rightarrow> u16 \<Rightarrow> core_results \<Rightarrow> nat \<Rightarrow> nat option" where
  "core_list_find d i s list =
    (if list \<noteq> 0 \<and> \<not> find_stop d i list s then core_list_find d i s (lnext s list) else Some list)"

partial_function (option) reverse_loop :: "nat \<Rightarrow> nat \<Rightarrow> core_results \<Rightarrow> (nat \<times> core_results) option" where
  "reverse_loop list nxt s =
    (if list \<noteq> 0 then reverse_loop (lnext s list) list (set_next list nxt s) else Some (nxt, s))"

definition core_list_reverse :: "nat \<Rightarrow> core_results \<Rightarrow> (nat \<times> core_results) option" where
  "core_list_reverse list s = reverse_loop list 0 s"

section \<open>Merge sort\<close>

text \<open>Step at most \<open>n\<close> places along from \<open>q\<close>, counting them.\<close>

primrec step_along :: "core_results \<Rightarrow> nat \<Rightarrow> nat \<Rightarrow> nat \<Rightarrow> nat \<times> nat" where
  "step_along s 0 q psize = (q, psize)"
| "step_along s (Suc n) q psize =
    (let q = lnext s q in if q = 0 then (q, psize + 1) else step_along s n q (psize + 1))"

text \<open>Does the next element come from \<open>p\<close>?\<close>

definition take_p :: "list_cmp \<Rightarrow> nat \<Rightarrow> nat \<Rightarrow> nat \<Rightarrow> nat \<Rightarrow> core_results \<Rightarrow> (bool \<times> core_results) option" where
  "take_p cmp p q psize qsize s =
    (if psize = 0 then Some (False, s)
     else if qsize = 0 \<or> q = 0 then Some (True, s)
     else case cmp (linfo s p) (linfo s q) s of None \<Rightarrow> None | Some (r, s) \<Rightarrow> Some (r \<le> 0, s))"

function merge_loop :: "list_cmp \<Rightarrow> nat \<Rightarrow> nat \<Rightarrow> nat \<Rightarrow> nat \<Rightarrow> nat \<Rightarrow> nat \<Rightarrow> core_results \<Rightarrow>
    (nat \<times> nat \<times> nat \<times> core_results) option" where
  "merge_loop cmp p q psize qsize list tail s =
    (if psize > 0 \<or> (qsize > 0 \<and> q \<noteq> 0) then
       (case take_p cmp p q psize qsize s of
          None \<Rightarrow> None
        | Some (from_p, s) \<Rightarrow>
            if from_p then
              merge_loop cmp (lnext s p) q (psize - 1) qsize (if tail \<noteq> 0 then list else p) p
                (if tail \<noteq> 0 then set_next tail p s else s)
            else
              merge_loop cmp p (lnext s q) psize (qsize - 1) (if tail \<noteq> 0 then list else q) q
                (if tail \<noteq> 0 then set_next tail q s else s))
     else Some (q, list, tail, s))"
  by pat_completeness auto
termination
  by (relation "measure (\<lambda>(cmp, p, q, psize, qsize, _). psize + qsize)")
    (auto simp: take_p_def split: if_splits option.splits)

declare merge_loop.simps [simp del]

partial_function (option) merge_pass :: "list_cmp \<Rightarrow> nat \<Rightarrow> nat \<Rightarrow> nat \<Rightarrow> nat \<Rightarrow> nat \<Rightarrow> core_results \<Rightarrow>
    (nat \<times> nat \<times> nat \<times> core_results) option" where
  "merge_pass cmp insize p list tail nmerges s =
    (if p \<noteq> 0 then
       (case merge_loop cmp p (fst (step_along s insize p 0)) (snd (step_along s insize p 0)) insize list tail s of
          None \<Rightarrow> None
        | Some r \<Rightarrow> merge_pass cmp insize (fst r) (fst (snd r)) (fst (snd (snd r))) (nmerges + 1) (snd (snd (snd r))))
     else Some (list, tail, nmerges, s))"

text \<open>
  One iteration of the outer loop is a pass. \<open>insize\<close> is an \<open>ee_s32\<close>; it stays exact for a
  list of fewer than \<open>2 ^ 30\<close> nodes. An empty list makes the code write through \<open>NULL\<close>.
\<close>

partial_function (option) mergesort_loop :: "list_cmp \<Rightarrow> nat \<Rightarrow> nat \<Rightarrow> core_results \<Rightarrow> (nat \<times> core_results) option" where
  "mergesort_loop cmp insize list s =
    (case merge_pass cmp insize list 0 0 0 s of
       None \<Rightarrow> None
     | Some r \<Rightarrow>
         if fst (snd r) = 0 then None
         else if fst (snd (snd r)) \<le> 1 then Some (fst r, set_next (fst (snd r)) 0 (snd (snd (snd r))))
         else mergesort_loop cmp (insize * 2) (fst r) (set_next (fst (snd r)) 0 (snd (snd (snd r)))))"

definition core_list_mergesort :: "nat \<Rightarrow> list_cmp \<Rightarrow> core_results \<Rightarrow> (nat \<times> core_results) option" where
  "core_list_mergesort list cmp s = mergesort_loop cmp 1 list s"

section \<open>Initialisation and benchmark\<close>

definition insert_item :: "nat \<Rightarrow> nat \<Rightarrow> nat \<Rightarrow> u16 \<Rightarrow> u16 \<Rightarrow> nat \<times> nat \<times> core_results \<Rightarrow> nat \<times> nat \<times> core_results" where
  "insert_item list mb_end db_end d i = (\<lambda>(mb, db, s).
     snd (core_list_insert_new list d i mb db mb_end db_end s))"

definition item_data :: "u16 \<Rightarrow> nat \<Rightarrow> u16" where
  "item_data seed i =
    (let datpat = (seed XOR of_nat i) AND 0xf; dat = push_bit 3 datpat OR (of_nat i AND 0x7)
     in push_bit 8 dat OR dat)"

partial_function (option) index_loop :: "u32 \<Rightarrow> u16 \<Rightarrow> nat \<Rightarrow> u32 \<Rightarrow> core_results \<Rightarrow> core_results option" where
  "index_loop sz seed finder i s =
    (if lnext s finder \<noteq> 0 then
       index_loop sz seed (lnext s finder) (i + 1)
         (s\<lparr>idx := (idx s)(linfo s finder :=
            (if i < sz div 5 then ucast i
             else 0x3fff AND (push_bit 8 (ucast (i + 1) AND 0x07) OR (ucast i XOR seed))))\<rparr>)
     else Some s)"

definition core_list_init :: "u32 \<Rightarrow> nat \<Rightarrow> u16 \<Rightarrow> core_results \<Rightarrow> (nat \<times> core_results) option" where
  "core_list_init blksize memblock seed s =
    (let sz = blksize div 20 - 2;
         memblock_end = memblock + 8 * unat sz;
         datablock = memblock_end;
         datablock_end = datablock + 4 * unat sz;
         list = memblock;
         s = set_next list 0 s;
         s = set_info list datablock s;
         s = copy_info (linfo s list) 0x8080 0 s;
         t = insert_item list memblock_end datablock_end 0xffff 0x7fff (memblock + 8, datablock + 4, s);
         (mb, db, s) = fold (\<lambda>i. insert_item list memblock_end datablock_end (item_data seed i) 0x7fff) [0..<unat sz] t
     in case index_loop sz seed (lnext s list) 1 s of
          None \<Rightarrow> None
        | Some s \<Rightarrow> core_list_mergesort list (cmp_idx True) s)"

text \<open>
  The search phase of the benchmark: the index searched for, the counters, the head of the
  list and the state.
\<close>

record find_state =
  f_idx :: u16
  f_retval :: u16
  f_found :: u16
  f_missed :: u16
  f_list :: nat

definition find_round :: "nat \<Rightarrow> find_state \<times> core_results \<Rightarrow> (find_state \<times> core_results) option" where
  "find_round i = (\<lambda>(f, s).
     case core_list_find (of_nat i AND 0xff) (f_idx f) s (f_list f) of None \<Rightarrow> None
     | Some this_find \<Rightarrow>
       (case core_list_reverse (f_list f) s of None \<Rightarrow> None
        | Some (list, s) \<Rightarrow>
            let (f, s) =
              (if this_find = 0 then
                 (f\<lparr>f_missed := f_missed f + 1,
                    f_retval := f_retval f + (signed_drop_bit 8 (data16 s (linfo s (lnext s list))) AND 1)\<rparr>, s)
               else
                 (f\<lparr>f_found := f_found f + 1,
                    f_retval := (if data16 s (linfo s this_find) AND 1 \<noteq> 0
                      then f_retval f + (signed_drop_bit 9 (data16 s (linfo s this_find)) AND 1) else f_retval f)\<rparr>,
                  if lnext s this_find \<noteq> 0 then
                    let finder = lnext s this_find;
                        s = set_next this_find (lnext s finder) s;
                        s = set_next finder (lnext s list) s
                    in set_next list finder s
                  else s))
            in Some (f\<lparr>f_idx := (if 0 \<le> sint (f_idx f) then f_idx f + 1 else f_idx f), f_list := list\<rparr>, s)))"

primrec find_rounds :: "nat \<Rightarrow> find_state \<times> core_results \<Rightarrow> (find_state \<times> core_results) option" where
  "find_rounds 0 fs = Some fs"
| "find_rounds (Suc n) fs = (case find_rounds n fs of None \<Rightarrow> None | Some fs \<Rightarrow> find_round n fs)"

text \<open>The two check loops: one step for every node from \<open>finder\<close> on, always over the head's data.\<close>

partial_function (option) crc_loop :: "core_results \<Rightarrow> nat \<Rightarrow> nat \<Rightarrow> u16 \<Rightarrow> u16 option" where
  "crc_loop s list finder retval =
    (if finder \<noteq> 0 then crc_loop s list (lnext s finder) (crc16 (data16 s (linfo s list)) retval) else Some retval)"

definition core_bench_list :: "core_results \<Rightarrow> u16 \<Rightarrow> (u16 \<times> core_results) option" where
  "core_bench_list s finder_idx =
    (case find_rounds (nat (sint (seed3 s)))
       (\<lparr>f_idx = finder_idx, f_retval = 0, f_found = 0, f_missed = 0, f_list = res_list s\<rparr>, s) of None \<Rightarrow> None
     | Some (f, s) \<Rightarrow>
       let retval = f_retval f + (f_found f * 4 - f_missed f); rounds = nat (sint (seed3 s)) in
       (case (if 0 < sint finder_idx then core_list_mergesort (f_list f) cmp_complex s else Some (f_list f, s)) of None \<Rightarrow> None
        | Some (list, s) \<Rightarrow>
          let (remover, s) = core_list_remove (lnext s list) s in
          (case core_list_find (if rounds = 0 then 0 else of_nat (rounds - 1) AND 0xff) (f_idx f) s list of None \<Rightarrow> None
           | Some finder \<Rightarrow>
             (case crc_loop s list (if finder = 0 then lnext s list else finder) retval of None \<Rightarrow> None
              | Some retval \<Rightarrow>
                let (_, s) = core_list_undo_remove remover (lnext s list) s in
                (case core_list_mergesort list (cmp_idx True) s of None \<Rightarrow> None
                 | Some (list, s) \<Rightarrow>
                   (case crc_loop s list (lnext s list) retval of None \<Rightarrow> None
                    | Some retval \<Rightarrow> Some (retval, s)))))))"


section \<open>Paths in the heap\<close>

primrec path :: "(nat \<Rightarrow> nat) \<Rightarrow> nat \<Rightarrow> nat list \<Rightarrow> nat \<Rightarrow> bool" where
  "path f p [] z \<longleftrightarrow> p = z"
| "path f p (a # as) z \<longleftrightarrow> p = a \<and> a \<noteq> 0 \<and> path f (f a) as z"

lemma path_append [simp]: "path f p (xs @ ys) z \<longleftrightarrow> (\<exists>y. path f p xs y \<and> path f y ys z)"
  by (induction xs arbitrary: p) auto

lemma path_upd [simp]: "u \<notin> set xs \<Longrightarrow> path (f(u := v)) p xs z = path f p xs z"
  by (induction xs arbitrary: p) auto

lemma path_null [simp]: "path f 0 xs 0 \<longleftrightarrow> xs = []"
  by (cases xs) auto

lemma path_nonnull: "path f p xs z \<Longrightarrow> 0 \<notin> set xs"
  by (induction xs arbitrary: p) auto

lemma path_ne: "path f p xs 0 \<Longrightarrow> p \<noteq> 0 \<longleftrightarrow> xs \<noteq> []"
  by (cases xs) auto

lemma path_unique: "path f p xs 0 \<Longrightarrow> path f p ys 0 \<Longrightarrow> xs = ys"
proof (induction xs arbitrary: p ys)
  case Nil
  thus ?case by simp
next
  case (Cons x xs)
  thus ?case by (cases ys) auto
qed

lemma path_distinct: "path f p xs 0 \<Longrightarrow> distinct xs"
proof (induction xs arbitrary: p)
  case (Cons x xs)
  have "x \<notin> set xs"
  proof
    assume "x \<in> set xs"
    then obtain ys zs where "xs = ys @ x # zs" by (auto dest: split_list)
    with Cons.prems have "path f (f x) (ys @ x # zs) 0" "path f (f x) zs 0" by auto
    hence "ys @ x # zs = zs" by (rule path_unique)
    hence "length (ys @ x # zs) = length zs" by simp
    thus False by simp
  qed
  thus ?case using Cons by auto
qed simp

text \<open>What is emitted so far ends in \<open>tail\<close>, whose link is stale.\<close>

definition tailed :: "(nat \<Rightarrow> nat) \<Rightarrow> nat list \<Rightarrow> nat \<Rightarrow> nat \<Rightarrow> bool" where
  "tailed f E list tail \<longleftrightarrow> (if E = [] then tail = 0 else last E = tail \<and> tail \<noteq> 0 \<and> (\<exists>z. path f list E z))"

lemma tailed_upd:
  assumes "tailed f E list tail" "distinct E" "E \<noteq> []"
  shows "path (f(tail := e)) list E e"
proof -
  obtain E' where E: "E = E' @ [tail]" using assms(1,3) unfolding tailed_def by (metis append_butlast_last_id)
  thus ?thesis using assms by (auto simp: tailed_def)
qed

lemma tailed_snoc:
  assumes "tailed f E list tail" "distinct E" "e \<noteq> 0" "e \<notin> set E"
  shows "tailed (if tail \<noteq> 0 then f(tail := e) else f) (E @ [e]) (if tail \<noteq> 0 then list else e) e"
proof (cases "E = []")
  case False
  hence "tail \<noteq> 0" using assms(1) by (simp add: tailed_def)
  thus ?thesis using tailed_upd[OF assms(1,2) False, of e] assms(3) by (auto simp: tailed_def)
qed (use assms in \<open>auto simp: tailed_def\<close>)

lemma lnext_set_next [simp]:
  "lnext (set_next p q s) = (lnext s)(p := q)" "linfo (set_next p q s) = linfo s" "data16 (set_next p q s) = data16 s"
  "idx (set_next p q s) = idx s"
  by (simp_all add: set_next_def)

lemma step_along_path:
  assumes "path (lnext s) p xs 0" "xs \<noteq> []"
  shows "\<exists>q. step_along s n p k = (q, k + min n (length xs)) \<and> path (lnext s) p (take n xs) q \<and> path (lnext s) q (drop n xs) 0"
  using assms
proof (induction n arbitrary: p k xs)
  case (Suc n)
  obtain y ys where xs: "xs = y # ys" using Suc.prems by (cases xs) auto
  have p: "path (lnext s) (lnext s p) ys 0" "p = y" "y \<noteq> 0" using Suc.prems xs by auto
  show ?case
  proof (cases "ys = []")
    case True
    thus ?thesis using p xs by (simp add: Let_def)
  next
    case False
    hence "lnext s p \<noteq> 0" using path_ne[OF p(1)] by simp
    with Suc.IH[OF p(1) False, of "k + 1"] show ?thesis using p xs by (auto simp: Let_def)
  qed
qed simp

section \<open>Merge sort is correct for every comparison that keeps its keys\<close>

text \<open>
  A comparison gives both items a key, if they had none, and its sign is that of the keys; a
  key once given stays. It returns under a condition it keeps, and it moves no links. Sorting
  relinks nodes, which neither the keys nor the condition may depend on.
\<close>

locale comparator =
  fixes cmp :: list_cmp
    and key :: "core_results \<Rightarrow> nat \<Rightarrow> int option"
    and ok :: "core_results \<Rightarrow> bool"
  assumes cmp_ok: "ok s \<Longrightarrow> \<exists>r s'. cmp a b s = Some (r, s') \<and> ok s' \<and> lnext s' = lnext s \<and> linfo s' = linfo s
      \<and> (\<exists>x y. key s' a = Some x \<and> key s' b = Some y \<and> (r \<le> 0 \<longleftrightarrow> x \<le> y))
      \<and> (\<forall>d v. key s d = Some v \<longrightarrow> key s' d = Some v)"
    and ok_next: "ok (set_next p q s) = ok s"
    and key_next: "key (set_next p q s) = key s"
begin

definition le :: "core_results \<Rightarrow> nat \<Rightarrow> nat \<Rightarrow> bool" where
  "le s a b \<longleftrightarrow> (\<exists>x y. key s (linfo s a) = Some x \<and> key s (linfo s b) = Some y \<and> x \<le> y)"

definition ext :: "nat set \<Rightarrow> core_results \<Rightarrow> core_results \<Rightarrow> bool" where
  "ext A s s' \<longleftrightarrow> linfo s' = linfo s \<and> (\<forall>d v. key s d = Some v \<longrightarrow> key s' d = Some v)
    \<and> (\<forall>n. n \<notin> A \<longrightarrow> lnext s' n = lnext s n) \<and> ok s'"

lemma le_trans: "le s a b \<Longrightarrow> le s b c \<Longrightarrow> le s a c"
  by (auto simp: le_def)

lemma le_next [simp]: "le (set_next p q s) = le s"
  by (simp add: le_def fun_eq_iff key_next)

lemma le_mono: "ext A s s' \<Longrightarrow> le s a b \<Longrightarrow> le s' a b"
  unfolding ext_def le_def by metis

lemma sorted_mono: "ext A s s' \<Longrightarrow> sorted_wrt (le s) xs \<Longrightarrow> sorted_wrt (le s') xs"
  by (erule sorted_wrt_mono_rel[rotated]) (rule le_mono)

lemma ext_trans: "ext A s s' \<Longrightarrow> ext B s' s'' \<Longrightarrow> A \<subseteq> C \<Longrightarrow> B \<subseteq> C \<Longrightarrow> ext C s s''"
  unfolding ext_def by (metis subsetD)

lemma ext_next: "ext A s s' \<Longrightarrow> p \<in> A \<Longrightarrow> ext A s (set_next p q s')"
  unfolding ext_def by (auto simp: key_next ok_next)

lemma take_p_ok:
  assumes "ok s" and "psize > 0 \<or> qsize > 0 \<and> q \<noteq> 0"
  shows "\<exists>b s'. take_p cmp p q psize qsize s = Some (b, s') \<and> lnext s' = lnext s \<and> ext {} s s'
    \<and> (b \<longrightarrow> psize > 0 \<and> (qsize = 0 \<or> q = 0 \<or> le s' p q))
    \<and> (\<not> b \<longrightarrow> qsize > 0 \<and> q \<noteq> 0 \<and> (psize = 0 \<or> le s' q p))"
proof -
  obtain r s' x y where c: "cmp (linfo s p) (linfo s q) s = Some (r, s')" "ok s'" "lnext s' = lnext s" "linfo s' = linfo s"
    "key s' (linfo s p) = Some x" "key s' (linfo s q) = Some y" "r \<le> 0 \<longleftrightarrow> x \<le> y" "\<forall>d v. key s d = Some v \<longrightarrow> key s' d = Some v"
    using cmp_ok[OF assms(1), of "linfo s p" "linfo s q"] by blast
  show ?thesis
  proof (cases "psize = 0 \<or> qsize = 0 \<or> q = 0")
    case True
    thus ?thesis using assms by (auto simp: take_p_def ext_def)
  next
    case False
    thus ?thesis using c by (auto simp: take_p_def ext_def le_def)
  qed
qed

text \<open>One element \<open>e\<close> of the runs is emitted.\<close>

lemma emit:
  assumes "ext {} s s1" "lnext s1 = lnext s" "tailed (lnext s) E list tail" "distinct E" "e \<noteq> 0" "e \<notin> set E"
    and "s2 = (if tail \<noteq> 0 then set_next tail e s1 else s1)"
  shows "tailed (lnext s2) (E @ [e]) (if tail \<noteq> 0 then list else e) e" "ext (set E) s s2"
    and "set E \<inter> set xs = {} \<Longrightarrow> path (lnext s2) p xs z = path (lnext s) p xs z"
proof -
  show "tailed (lnext s2) (E @ [e]) (if tail \<noteq> 0 then list else e) e"
    using tailed_snoc[OF assms(3-6)] assms(2,7) by (simp split: if_splits)
  have t: "tail \<noteq> 0 \<Longrightarrow> tail \<in> set E" using assms(3) by (auto simp: tailed_def split: if_splits)
  show "ext (set E) s s2" using assms(1,2,7) t by (auto simp: ext_def key_next ok_next)
  show "path (lnext s2) p xs z = path (lnext s) p xs z" if "set E \<inter> set xs = {}"
  proof (cases "tail \<noteq> 0")
    case True
    hence "tail \<notin> set xs" using t that by auto
    thus ?thesis using assms(2,7) by simp
  qed (use assms(2,7) in simp)
qed

lemma merge_loop_ok:
  assumes "ok s" and "tailed (lnext s) E list tail" and "path (lnext s) p xs z" and "length xs = psize"
    and "path (lnext s) q (ys @ zs) 0" and "length ys \<le> qsize" and "length ys = qsize \<or> zs = []"
    and "distinct (E @ xs @ ys @ zs)" and "sorted_wrt (le s) (W @ xs)" and "sorted_wrt (le s) (W @ ys)"
  shows "\<exists>ws s' q' list' tail'. merge_loop cmp p q psize qsize list tail s = Some (q', list', tail', s')
    \<and> ext (set (E @ xs @ ys)) s s' \<and> tailed (lnext s') (E @ ws) list' tail' \<and> path (lnext s') q' zs 0
    \<and> mset ws = mset (xs @ ys) \<and> sorted_wrt (le s') (W @ ws)"
  using assms
proof (induction "length xs + length ys" arbitrary: s E list tail p xs z psize q ys qsize W rule: less_induct)
  case less
  note prems = less.prems
  show ?case
  proof (cases "psize > 0 \<or> qsize > 0 \<and> q \<noteq> 0")
    case False
    hence "xs = []" using prems(4) by simp
    moreover have "ys = []"
    proof (rule ccontr)
      assume "ys \<noteq> []"
      thus False using False prems(5,6) by (cases ys) auto
    qed
    moreover have "merge_loop cmp p q psize qsize list tail s = Some (q, list, tail, s)"
      using False by (subst merge_loop.simps) (simp only: if_False)
    ultimately show ?thesis using prems(1,2,5,9) by (auto simp: ext_def)
  next
    case True
    then obtain b s1 where t: "take_p cmp p q psize qsize s = Some (b, s1)" "lnext s1 = lnext s" "ext {} s s1"
      "b \<longrightarrow> psize > 0 \<and> (qsize = 0 \<or> q = 0 \<or> le s1 p q)" "\<not> b \<longrightarrow> qsize > 0 \<and> q \<noteq> 0 \<and> (psize = 0 \<or> le s1 q p)"
      using take_p_ok[OF prems(1) True, of p] by blast
    show ?thesis
    proof (cases b)
      case True
      then obtain xs' where xs: "xs = p # xs'" "p \<noteq> 0" "path (lnext s) (lnext s p) xs' z"
        using t(4) prems(3,4) by (cases xs) auto
      define s2 where "s2 = (if tail \<noteq> 0 then set_next tail p s1 else s1)"
      have e: "tailed (lnext s2) (E @ [p]) (if tail \<noteq> 0 then list else p) p" "ext (set E) s s2"
        "\<And>xs q z. set E \<inter> set xs = {} \<Longrightarrow> path (lnext s2) q xs z = path (lnext s) q xs z"
        using emit[OF t(3,2) prems(2) _ xs(2) _ s2_def] prems(8) xs(1) by auto
      have le12: "le s2 = le s1" by (simp add: s2_def)
      have py: "le s2 p y" if y: "y \<in> set ys" for y
      proof -
        obtain ys' where ys: "ys = q # ys'" using y prems(5) by (cases ys) auto
        have "le s1 p q" using t(4) True ys prems(5,6) by auto
        moreover have "y = q \<or> le s2 q y"
          using sorted_mono[OF e(2) prems(10)] y ys by (auto simp: sorted_wrt_append)
        ultimately show ?thesis using le_trans le12 by metis
      qed
      have "sorted_wrt (le s2) ((W @ [p]) @ xs')" "sorted_wrt (le s2) ((W @ [p]) @ ys)"
        using sorted_mono[OF e(2) prems(9)] sorted_mono[OF e(2) prems(10)] py xs(1)
        by (auto simp: sorted_wrt_append)
      moreover have "ok s2" using e(2) by (simp add: ext_def)
      moreover have D: "set E \<inter> set xs' = {}" "set E \<inter> set (ys @ zs) = {}" using prems(8) xs(1) by auto
      have "path (lnext s2) (lnext s1 p) xs' z" using xs(3) t(2) e(3)[OF D(1)] by (simp only:)
      moreover have "path (lnext s2) q (ys @ zs) 0" using prems(5) e(3)[OF D(2)] by (simp only:)
      ultimately have "\<exists>ws s' q' list' tail'.
        merge_loop cmp (lnext s1 p) q (psize - 1) qsize (if tail \<noteq> 0 then list else p) p s2 = Some (q', list', tail', s')
        \<and> ext (set ((E @ [p]) @ xs' @ ys)) s2 s' \<and> tailed (lnext s') ((E @ [p]) @ ws) list' tail' \<and> path (lnext s') q' zs 0
        \<and> mset ws = mset (xs' @ ys) \<and> sorted_wrt (le s') ((W @ [p]) @ ws)"
        using e(1) prems(4,6,7,8) xs(1) by (intro less.hyps[where z = z]) auto
      then obtain ws s' q' list' tail' where r:
        "merge_loop cmp (lnext s1 p) q (psize - 1) qsize (if tail \<noteq> 0 then list else p) p s2 = Some (q', list', tail', s')"
        "ext (set ((E @ [p]) @ xs' @ ys)) s2 s'" "tailed (lnext s') ((E @ [p]) @ ws) list' tail'" "path (lnext s') q' zs 0"
        "mset ws = mset (xs' @ ys)" "sorted_wrt (le s') ((W @ [p]) @ ws)" by blast
      have "merge_loop cmp p q psize qsize list tail s = Some (q', list', tail', s')"
        using \<open>psize > 0 \<or> qsize > 0 \<and> q \<noteq> 0\<close> t(1) True r(1) by (subst merge_loop.simps) (simp add: s2_def)
      moreover have "ext (set (E @ xs @ ys)) s s'"
        using ext_trans[OF e(2) r(2), of "set (E @ xs @ ys)"] xs(1) by auto
      ultimately show ?thesis using r(3-6) xs(1) by (intro exI[of _ "p # ws"]) auto
    next
      case False
      hence q: "qsize > 0" "q \<noteq> 0" "psize = 0 \<or> le s1 q p" using t(5) by auto
      then obtain ys' where ys: "ys = q # ys'" "path (lnext s) (lnext s q) (ys' @ zs) 0"
        using q(1,2) prems(5,7) by (cases ys) auto
      define s2 where "s2 = (if tail \<noteq> 0 then set_next tail q s1 else s1)"
      have e: "tailed (lnext s2) (E @ [q]) (if tail \<noteq> 0 then list else q) q" "ext (set E) s s2"
        "\<And>xs q z. set E \<inter> set xs = {} \<Longrightarrow> path (lnext s2) q xs z = path (lnext s) q xs z"
        using emit[OF t(3,2) prems(2) _ q(2) _ s2_def] prems(8) ys(1) by auto
      have le12: "le s2 = le s1" by (simp add: s2_def)
      have px: "le s2 q x" if x: "x \<in> set xs" for x
      proof -
        obtain xs' where xs: "xs = p # xs'" using x prems(3) by (cases xs) auto
        have "le s1 q p" using q(3) xs prems(4) by auto
        moreover have "x = p \<or> le s2 p x"
          using sorted_mono[OF e(2) prems(9)] x xs by (auto simp: sorted_wrt_append)
        ultimately show ?thesis using le_trans le12 by metis
      qed
      have "sorted_wrt (le s2) ((W @ [q]) @ xs)" "sorted_wrt (le s2) ((W @ [q]) @ ys')"
        using sorted_mono[OF e(2) prems(9)] sorted_mono[OF e(2) prems(10)] px ys(1)
        by (auto simp: sorted_wrt_append)
      moreover have "ok s2" using e(2) by (simp add: ext_def)
      moreover have D: "set E \<inter> set xs = {}" "set E \<inter> set (ys' @ zs) = {}" using prems(8) ys(1) by auto
      have "path (lnext s2) p xs z" using prems(3) e(3)[OF D(1)] by (simp only:)
      moreover have "path (lnext s2) (lnext s1 q) (ys' @ zs) 0" using ys(2) t(2) e(3)[OF D(2)] by (simp only:)
      ultimately have "\<exists>ws s' q' list' tail'.
        merge_loop cmp p (lnext s1 q) psize (qsize - 1) (if tail \<noteq> 0 then list else q) q s2 = Some (q', list', tail', s')
        \<and> ext (set ((E @ [q]) @ xs @ ys')) s2 s' \<and> tailed (lnext s') ((E @ [q]) @ ws) list' tail' \<and> path (lnext s') q' zs 0
        \<and> mset ws = mset (xs @ ys') \<and> sorted_wrt (le s') ((W @ [q]) @ ws)"
        using e(1) prems(4,6,7,8) ys(1) by (intro less.hyps[where z = z]) auto
      then obtain ws s' q' list' tail' where r:
        "merge_loop cmp p (lnext s1 q) psize (qsize - 1) (if tail \<noteq> 0 then list else q) q s2 = Some (q', list', tail', s')"
        "ext (set ((E @ [q]) @ xs @ ys')) s2 s'" "tailed (lnext s') ((E @ [q]) @ ws) list' tail'" "path (lnext s') q' zs 0"
        "mset ws = mset (xs @ ys')" "sorted_wrt (le s') ((W @ [q]) @ ws)" by blast
      have "merge_loop cmp p q psize qsize list tail s = Some (q', list', tail', s')"
        using \<open>psize > 0 \<or> qsize > 0 \<and> q \<noteq> 0\<close> t(1) False r(1) by (subst merge_loop.simps) (simp add: s2_def)
      moreover have "ext (set (E @ xs @ ys)) s s'"
        using ext_trans[OF e(2) r(2), of "set (E @ xs @ ys)"] ys(1) by auto
      ultimately show ?thesis using r(3-6) ys(1) by (intro exI[of _ "q # ws"]) auto
    qed
  qed
qed

end

text \<open>A list cut into blocks of \<open>n\<close> nodes, each of them sorted.\<close>

function blocks :: "nat \<Rightarrow> ('a \<Rightarrow> 'a \<Rightarrow> bool) \<Rightarrow> 'a list \<Rightarrow> bool" where
  "blocks n R xs = (if n = 0 \<or> xs = [] then True else sorted_wrt R (take n xs) \<and> blocks n R (drop n xs))"
  by pat_completeness auto
termination
  by (relation "measure (\<lambda>(n, R, xs). length xs)") auto

declare blocks.simps [simp del]

lemma blocks_Nil [simp]: "blocks n R []"
  by (simp add: blocks.simps)

lemma blocks_one: "blocks (Suc 0) R xs"
  by (induction xs) (simp_all add: blocks.simps[of _ _ "_ # _"])

lemma blocks_mono: "(\<And>a b. R a b \<Longrightarrow> S a b) \<Longrightarrow> blocks n R xs \<Longrightarrow> blocks n S xs"
proof (induction n R xs rule: blocks.induct)
  case (1 n R xs)
  show ?case
  proof (cases "n = 0 \<or> xs = []")
    case False
    hence "sorted_wrt R (take n xs)" "blocks n R (drop n xs)" using 1(3) by (subst (asm) blocks.simps, simp)+
    thus ?thesis using False 1(1,2) sorted_wrt_mono_rel[of "take n xs" R S] by (subst blocks.simps) auto
  qed (subst blocks.simps, auto)
qed

lemma blocks_sorted: "blocks n R xs \<Longrightarrow> 0 < n \<Longrightarrow> length xs \<le> n \<Longrightarrow> sorted_wrt R xs"
  by (cases "xs = []") (auto simp: blocks.simps[of n R xs])

lemma blocks_cut: "blocks n R xs \<Longrightarrow> 0 < n \<Longrightarrow> sorted_wrt R (take n xs) \<and> blocks n R (drop n xs)"
  by (cases "xs = []") (auto simp: blocks.simps[of n R xs])

text \<open>The number of merges of a pass.\<close>

definition merges :: "nat \<Rightarrow> nat \<Rightarrow> nat" where
  "merges l n = (l + 2 * n - 1) div (2 * n)"

lemma merges_step: "0 < n \<Longrightarrow> 0 < l \<Longrightarrow> merges l n = 1 + merges (l - 2 * n) n"
proof -
  assume n: "0 < n" "0 < l"
  show ?thesis
  proof (cases "2 * n \<le> l")
    case True
    hence "l + 2 * n - 1 = (l - 2 * n + 2 * n - 1) + 2 * n" using n by simp
    moreover have "((l - 2 * n + 2 * n - 1) + 2 * n) div (2 * n) = (l - 2 * n + 2 * n - 1) div (2 * n) + 1"
      by (rule div_add_self2) (use n in simp)
    ultimately show ?thesis unfolding merges_def by (simp only: add.commute)
  next
    case False
    hence "(l + 2 * n - 1) div (2 * n) = 1" "(2 * n - 1) div (2 * n) = 0"
      using n by (auto simp: div_nat_eqI)
    thus ?thesis using False unfolding merges_def by simp
  qed
qed

lemma merges_le_1: "0 < n \<Longrightarrow> merges l n \<le> 1 \<longleftrightarrow> l \<le> 2 * n"
  using merges_step[of n l] merges_step[of n "l - 2 * n"] by (cases "l = 0"; cases "l - 2 * n = 0") (auto simp: merges_def)

context comparator
begin

lemma merge_pass_ok:
  assumes "ok s" and "tailed (lnext s) E list tail" and "path (lnext s) p xs 0" and "distinct (E @ xs)"
    and "blocks n (le s) xs" and "0 < n"
  shows "\<exists>ys s' list' tail'. merge_pass cmp n p list tail k s = Some (list', tail', k + merges (length xs) n, s')
    \<and> ext (set (E @ xs)) s s' \<and> tailed (lnext s') (E @ ys) list' tail' \<and> mset ys = mset xs \<and> blocks (2 * n) (le s') ys"
  using assms(1-5)
proof (induction "length xs" arbitrary: s E list tail p xs k rule: less_induct)
  case less
  note prems = less.prems
  show ?case
  proof (cases "xs = []")
    case True
    thus ?thesis using prems assms(6) by (subst merge_pass.simps) (auto simp: merges_def ext_def intro!: exI[of _ "[]"])
  next
    case False
    have "p \<noteq> 0" using False path_ne[OF prems(3)] by simp
    define P Q Z where "P = take n xs" and "Q = take n (drop n xs)" and "Z = drop (2 * n) xs"
    have xs: "xs = P @ Q @ Z" unfolding P_def Q_def Z_def by (metis append_take_drop_id drop_drop mult_2)
    have qz: "drop n xs = Q @ Z" unfolding Q_def Z_def by (metis append_take_drop_id drop_drop mult_2)
    have lp: "length P = min n (length xs)" by (simp add: P_def)
    have lq: "length Q \<le> n" "length Q = n \<or> Z = []" by (auto simp: Q_def Z_def)
    obtain q where q: "step_along s n p 0 = (q, length P)" "path (lnext s) p P q" "path (lnext s) q (Q @ Z) 0"
      using step_along_path[OF prems(3) False, of n 0] unfolding qz by (auto simp: P_def min.commute)
    have b: "blocks n (le s) Z" "sorted_wrt (le s) P" "sorted_wrt (le s) Q"
    proof -
      have 1: "sorted_wrt (le s) P" "blocks n (le s) (Q @ Z)"
        using prems(5) False assms(6) qz unfolding P_def by (subst (asm) blocks.simps, simp)+
      have "take n (Q @ Z) = Q" "drop n (Q @ Z) = Z" using lq by auto
      hence "sorted_wrt (le s) Q \<and> blocks n (le s) Z" using blocks_cut[OF 1(2) assms(6)] by (simp only:)
      thus "blocks n (le s) Z" "sorted_wrt (le s) P" "sorted_wrt (le s) Q" using 1(1) by auto
    qed
    obtain ws s1 q' list1 tail1 where m: "merge_loop cmp p q (length P) n list tail s = Some (q', list1, tail1, s1)"
      "ext (set (E @ P @ Q)) s s1" "tailed (lnext s1) (E @ ws) list1 tail1" "path (lnext s1) q' Z 0"
      "mset ws = mset (P @ Q)" "sorted_wrt (le s1) ws"
      using merge_loop_ok[of s E list tail p P q "length P" q Q Z n "[]"] prems(1,2,4) q b lq xs by auto
    have ok1: "ok s1" using m(2) by (simp add: ext_def)
    have st: "set ws = set P \<union> set Q" using m(5) by (metis set_mset_mset set_append)
    have "distinct ws \<longleftrightarrow> distinct (P @ Q)" using m(5) by (metis mset_eq_imp_distinct_iff)
    hence "distinct ((E @ ws) @ Z)" using prems(4) st unfolding xs by auto
    moreover have "blocks n (le s1) Z" using blocks_mono[OF _ b(1)] le_mono[OF m(2)] by blast
    moreover have "length Z < length xs" using False assms(6) by (simp add: Z_def)
    ultimately obtain ys s' list' tail' where r: "merge_pass cmp n q' list1 tail1 (k + 1) s1 = Some (list', tail', k + 1 + merges (length Z) n, s')"
      "ext (set ((E @ ws) @ Z)) s1 s'" "tailed (lnext s') ((E @ ws) @ ys) list' tail'" "mset ys = mset Z" "blocks (2 * n) (le s') ys"
      using less.hyps[OF _ ok1 m(3,4)] by blast
    have "merges (length xs) n = 1 + merges (length Z) n"
      using merges_step[of n "length xs"] False assms(6) by (simp add: Z_def)
    moreover have "ext (set (E @ xs)) s s'"
      by (rule ext_trans[OF m(2) r(2)]) (use st in \<open>auto simp: xs\<close>)
    moreover have "blocks (2 * n) (le s') (ws @ ys)"
    proof (cases "ys = []")
      case True
      have "length ws \<le> 2 * n" using m(5) lp lq(1) by (metis (mono_tags, lifting) add_mono length_append min.cobounded1 mult_2 size_mset)
      thus ?thesis using True sorted_mono[OF r(2) m(6)] by (subst blocks.simps) simp
    next
      case False
      hence "Z \<noteq> []" using r(4) by auto
      hence "length Q = n" "length P = n" using lq lp by (auto simp: Z_def)
      hence "length ws = 2 * n" using m(5) by (metis length_append mult_2 size_mset)
      thus ?thesis using r(5) sorted_mono[OF r(2) m(6)] by (subst blocks.simps) simp
    qed
    ultimately show ?thesis using r \<open>p \<noteq> 0\<close> q(1) m(1) m(5)
      by (subst merge_pass.simps) (auto simp: xs intro!: exI[of _ "ws @ ys"])
  qed
qed

lemma mergesort_loop_ok:
  assumes "ok s" and "path (lnext s) list xs 0" and "xs \<noteq> []" and "blocks n (le s) xs" and "0 < n"
  shows "\<exists>list' ys s'. mergesort_loop cmp n list s = Some (list', s') \<and> ext (set xs) s s'
    \<and> path (lnext s') list' ys 0 \<and> mset ys = mset xs \<and> sorted_wrt (le s') ys"
  using assms
proof (induction "length xs - n" arbitrary: s list xs n rule: less_induct)
  case less
  note prems = less.prems
  have t0: "tailed (lnext s) [] 0 0" by (simp add: tailed_def)
  have d: "distinct ([] @ xs)" using path_distinct[OF prems(2)] by simp
  obtain ys s1 list' tail' where m: "merge_pass cmp n list 0 0 0 s = Some (list', tail', merges (length xs) n, s1)"
    "ext (set xs) s s1" "tailed (lnext s1) ys list' tail'" "mset ys = mset xs" "blocks (2 * n) (le s1) ys"
    using merge_pass_ok[OF prems(1) t0 prems(2) d prems(4,5), where k = 0] by auto
  have ne: "ys \<noteq> []" "length ys = length xs" using m(4) prems(3) by (auto dest: mset_eq_length)
  have dy: "distinct ys" using m(4) d by (metis append_Nil mset_eq_imp_distinct_iff)
  have t: "tail' \<noteq> 0" "tail' \<in> set xs" using m(3) ne(1) last_in_set[OF ne(1)] mset_eq_setD[OF m(4)] by (auto simp: tailed_def)
  define s2 where "s2 = set_next tail' 0 s1"
  have p2: "path (lnext s2) list' ys 0" using tailed_upd[OF m(3) dy ne(1), of 0] by (simp add: s2_def)
  have e2: "ext (set xs) s s2" unfolding s2_def by (rule ext_next[OF m(2) t(2)])
  have le2: "le s2 = le s1" by (simp add: s2_def)
  show ?case
  proof (cases "length xs \<le> 2 * n")
    case True
    hence "sorted_wrt (le s2) ys" using blocks_sorted[OF m(5)] prems(5) ne(2) by (simp add: le2)
    thus ?thesis using True prems(5) m(1,4) t(1) p2 e2
      by (subst mergesort_loop.simps) (auto simp: merges_le_1[unfolded One_nat_def] s2_def)
  next
    case False
    have "ok s2" using e2 by (simp add: ext_def)
    moreover have "blocks (n * 2) (le s2) ys" using m(5) by (simp add: le2 mult.commute)
    moreover have "length ys - n * 2 < length xs - n" using False prems(5) ne(2) by simp
    ultimately obtain l'' zs s3 where r: "mergesort_loop cmp (n * 2) list' s2 = Some (l'', s3)" "ext (set ys) s2 s3"
      "path (lnext s3) l'' zs 0" "mset zs = mset ys" "sorted_wrt (le s3) zs"
      using less.hyps[of ys "n * 2" s2 list'] p2 ne(1) prems(5) by auto
    have "ext (set xs) s s3" by (rule ext_trans[OF e2 r(2)]) (use m(4) in \<open>auto dest: mset_eq_setD\<close>)
    thus ?thesis using False prems(5) m(1,4) t(1) r
      by (subst mergesort_loop.simps) (auto simp: merges_le_1[unfolded One_nat_def] s2_def)
  qed
qed

lemma mergesort_sorts:
  assumes "ok s" and "path (lnext s) list xs 0" and "xs \<noteq> []"
  shows "\<exists>list' ys s'. core_list_mergesort list cmp s = Some (list', s') \<and> path (lnext s') list' ys 0 \<and> mset ys = mset xs
    \<and> sorted_wrt (\<lambda>a b. \<exists>x y. key s' (linfo s' a) = Some x \<and> key s' (linfo s' b) = Some y \<and> x \<le> y) ys
    \<and> linfo s' = linfo s \<and> ok s' \<and> (\<forall>n. n \<notin> set xs \<longrightarrow> lnext s' n = lnext s n)"
proof -
  have "blocks 1 (le s) xs" using blocks_one by simp
  from mergesort_loop_ok[OF assms this] show ?thesis
    unfolding core_list_mergesort_def le_def ext_def by auto
qed

end


end
