(* ===== verification/Coremark_Sort.thy ===== *)
theory Coremark_Sort
  imports Coremark_List
begin
unbundle bit_operations_syntax

section \<open>The two comparisons\<close>

lemma regen_facts [simp]:
  "lnext (regen d s) = lnext s" "linfo (regen d s) = linfo s" "idx (regen d s) = idx s"
  by (simp_all add: regen_def set_data_def)

text \<open>
  The cached value of an item. The state benchmark behind it returns as long as the state
  block holds two adjacent zeros, which its two passes leave alone when the seeds agree.
\<close>

definition cached :: "core_results \<Rightarrow> nat \<Rightarrow> int option" where
  "cached s d = (if bit (data16 s d) 7 then Some (sint (data16 s d AND 0x7f)) else None)"

definition bench_ok :: "core_results \<Rightarrow> bool" where
  "bench_ok s \<longleftrightarrow> (ucast (seed1 s) :: u8) = ucast (seed2 s) \<and> (ucast (seed1 s) :: u8) \<noteq> 44
    \<and> (\<exists>a \<ge> memblock3 s. block3 s a = 0 \<and> block3 s (a + 1) = 0)"

lemma optype_bit: "drop_bit 7 x AND 1 \<noteq> 0 \<longleftrightarrow> bit x 7" for x :: u16
proof -
  have "drop_bit 7 x AND 1 = of_bool (bit x 7)" by (rule bit_word_eqI) (auto simp: bit_simps)
  thus ?thesis by simp
qed

lemma sint_small: "unat x < 2 ^ 15 \<Longrightarrow> sint x = int (unat x)" for x :: u16
proof -
  assume a: "unat x < 2 ^ 15"
  have "sint x = (uint x + 2 ^ 15) mod 2 ^ 16 - 2 ^ 15"
    using int_word_sint [of "uint x", where 'a = 16] by simp
  moreover have u: "int (unat x) = uint x" by simp
  moreover from a have "unat x < 32768" by simp
  with u have "(uint x + 32768) mod 65536 = uint x + 32768"
    using uint_ge_0 [of x] by (intro mod_pos_pos_trivial) linarith+
  ultimately show ?thesis by simp
qed

lemma dtype_range:
  fixes d :: u16
  defines "x \<equiv> drop_bit 3 d AND 0xf" defines "t \<equiv> x OR push_bit 4 x"
  shows "1 < sint (if t < 0x22 then 0x22 else t)"
proof -
  have x: "unat x < 2 ^ 4" unfolding x_def by (rule unat_and_below) simp
  have "unat (push_bit 4 x) = unat x * 2 ^ 4" unfolding unat_push_bit using x by (intro mod_less) simp
  hence "unat (push_bit 4 x) < 2 ^ 8" using x by simp
  moreover have "unat x < 2 ^ 8" using x by simp
  ultimately have "unat t < 2 ^ 8" unfolding t_def by (intro unat_or_below)
  hence "unat (if t < 0x22 then 0x22 else t) < 2 ^ 15" by simp
  hence "sint (if t < 0x22 then 0x22 else t) = int (unat (if t < 0x22 then 0x22 else t))" by (rule sint_small)
  moreover have "1 < unat (if t < 0x22 then 0x22 else t)" by (simp add: word_less_nat_alt)
  ultimately show ?thesis by linarith
qed

lemma cache_low:
  fixes d r :: u16
  shows "bit ((d AND 0xff00) OR 0x0080 OR (r AND 0x007f)) 7" 
    "((d AND 0xff00) OR 0x0080 OR (r AND 0x007f)) AND 0x7f = r AND 0x7f"
proof -
  have k: "(0xff00 :: u16) = push_bit 8 (mask 8)" "(0x0080 :: u16) = push_bit 7 1" "(0x007f :: u16) = mask 7"
    by (simp_all add: mask_eq_exp_minus_1)
  show "bit ((d AND 0xff00) OR 0x0080 OR (r AND 0x007f)) 7"
    unfolding k bit_or_iff bit_and_iff bit_push_bit_iff bit_mask_iff possible_bit_def by (simp add: bit_1_iff)
  show "((d AND 0xff00) OR 0x0080 OR (r AND 0x007f)) AND 0x7f = r AND 0x7f"
  proof (rule bit_word_eqI)
    fix n assume "n < LENGTH(16)"
    show "bit (((d AND 0xff00) OR 0x0080 OR (r AND 0x007f)) AND 0x7f) n = bit (r AND 0x7f) n"
      unfolding k bit_or_iff bit_and_iff bit_push_bit_iff bit_mask_iff bit_1_iff by auto
  qed
qed

lemma bench_state_keeps:
  assumes "bench_ok s" and "1 < sint step"
  shows "\<exists>c m. core_bench_state (res_size s) (memblock3 s) (seed1 s) (seed2 s) step r (block3 s) = Some (c, m)
    \<and> (\<forall>a. block3 s a = 0 \<longrightarrow> m a = 0)"
proof -
  obtain a where a: "memblock3 s \<le> a" "block3 s a = 0" "block3 s (a + 1) = 0" using assms(1) by (auto simp: bench_ok_def)
  from bench_state_eq[of "block3 s" a "memblock3 s" step "res_size s" "seed1 s" "seed2 s" r] a assms
  show ?thesis by (auto simp: bench_ok_def corrupted_def)
qed

lemma bench_ok_cong:
  assumes "bench_ok s" and "seed1 t = seed1 s" "seed2 t = seed2 s" "memblock3 t = memblock3 s"
    and "\<And>a. block3 s a = 0 \<Longrightarrow> block3 t a = 0"
  shows "bench_ok t"
  using assms unfolding bench_ok_def by metis

text \<open>What the comparisons leave alone: the configuration, the indices and the upper bytes of the data.\<close>

definition fixed :: "core_results \<Rightarrow> (nat \<Rightarrow> u16) \<times> (nat \<Rightarrow> u16) \<times> u16 \<times> u32 \<times> u32 \<times> nat" where
  "fixed s = (idx s, \<lambda>d. data16 s d AND 0xff00, seed3 s, iterations s, execs s, res_list s)"

definition sort_ok :: "(nat \<Rightarrow> u16) \<times> (nat \<Rightarrow> u16) \<times> u16 \<times> u32 \<times> u32 \<times> nat \<Rightarrow> core_results \<Rightarrow> bool" where
  "sort_ok F s \<longleftrightarrow> bench_ok s \<and> fixed s = F"

lemma sort_ok_next: "sort_ok F (set_next p q s) = sort_ok F s"
  by (simp add: sort_ok_def bench_ok_def fixed_def set_next_def)

text \<open>The work of \<open>calc_func\<close> on an item that is not cached, before its value is stored.\<close>

lemma calc_work:
  fixes data :: u16
  assumes "bench_ok s"
  defines "flag \<equiv> data AND 0x7" and "x \<equiv> drop_bit 3 data AND 0xf"
  defines "t \<equiv> x OR push_bit 4 x"
  shows "\<exists>v s'. (if flag = 0 then
               (case core_bench_state (res_size s) (memblock3 s) (seed1 s) (seed2 s) (if t < 0x22 then 0x22 else t) (crc s) (block3 s) of
                  None \<Rightarrow> None
                | Some (retval, m) \<Rightarrow>
                    Some (retval, s\<lparr>block3 := m, crcstate := (if crcstate s = 0 then retval else crcstate s)\<rparr>))
             else if flag = 1 then
               (case core_bench_matrix (mat s) t (crc s) of (retval, p) \<Rightarrow>
                Some (retval, s\<lparr>mat := p, crcmatrix := (if crcmatrix s = 0 then retval else crcmatrix s)\<rparr>))
             else Some (data, s)) = Some (v, s')
     \<and> bench_ok s' \<and> lnext s' = lnext s \<and> linfo s' = linfo s \<and> data16 s' = data16 s \<and> fixed s' = fixed s"
proof -
  obtain c m where cm: "core_bench_state (res_size s) (memblock3 s) (seed1 s) (seed2 s) (if t < 0x22 then 0x22 else t) (crc s) (block3 s) = Some (c, m)"
    "\<forall>a. block3 s a = 0 \<longrightarrow> m a = 0"
    using bench_state_keeps[OF assms(1) dtype_range[of data]] unfolding t_def x_def by blast
  obtain r p where rp: "core_bench_matrix (mat s) t (crc s) = (r, p)" by fastforce
  have ok: "bench_ok (s\<lparr>block3 := m, crcstate := z\<rparr>)" "bench_ok (s\<lparr>mat := p, crcmatrix := z\<rparr>)" for z
    by (rule bench_ok_cong[OF assms(1)]; simp add: cm(2))+
  show ?thesis using assms(1) cm(1) rp ok by (simp add: fixed_def split: if_split)
qed

lemma high_byte:
  fixes d r :: u16
  shows "((d AND 0xff00) OR 0x0080 OR (r AND 0x007f)) AND 0xff00 = d AND 0xff00"
    "((d AND 0xff00) OR (0x00ff AND r)) AND 0xff00 = d AND 0xff00"
proof -
  have k: "(0xff00 :: u16) = push_bit 8 (mask 8)" "(0x0080 :: u16) = push_bit 7 1" "(0x007f :: u16) = mask 7" "(0x00ff :: u16) = mask 8"
    by (simp_all add: mask_eq_exp_minus_1)
  have "bit (((d AND 0xff00) OR 0x0080 OR (r AND 0x007f)) AND 0xff00) n = bit (d AND 0xff00) n" for n
    unfolding k bit_or_iff bit_and_iff bit_push_bit_iff bit_mask_iff bit_1_iff by auto
  thus "((d AND 0xff00) OR 0x0080 OR (r AND 0x007f)) AND 0xff00 = d AND 0xff00" by (intro bit_word_eqI)
  have "bit (((d AND 0xff00) OR (0x00ff AND r)) AND 0xff00) n = bit (d AND 0xff00) n" for n
    unfolding k bit_or_iff bit_and_iff bit_push_bit_iff bit_mask_iff bit_1_iff by auto
  thus "((d AND 0xff00) OR (0x00ff AND r)) AND 0xff00 = d AND 0xff00" by (intro bit_word_eqI)
qed

lemma calc_func_ok:
  assumes "bench_ok s"
  shows "\<exists>v s'. calc_func d s = Some (v, s') \<and> bench_ok s' \<and> lnext s' = lnext s \<and> linfo s' = linfo s
    \<and> cached s' d = Some (sint v) \<and> (\<forall>e. e \<noteq> d \<or> bit (data16 s e) 7 \<longrightarrow> data16 s' e = data16 s e) \<and> fixed s' = fixed s"
proof (cases "bit (data16 s d) 7")
  case True
  thus ?thesis using assms by (simp add: calc_func_def optype_bit cached_def Let_def)
next
  case False
  obtain v s' where w: "(let data = data16 s d; flag = data AND 0x7; dtype = drop_bit 3 data AND 0xf; dtype = dtype OR push_bit 4 dtype in
           (if flag = 0 then
               (let dtype = (if dtype < 0x22 then 0x22 else dtype) in
                case core_bench_state (res_size s) (memblock3 s) (seed1 s) (seed2 s) dtype (crc s) (block3 s) of
                  None \<Rightarrow> None
                | Some (retval, m) \<Rightarrow>
                    Some (retval, s\<lparr>block3 := m, crcstate := (if crcstate s = 0 then retval else crcstate s)\<rparr>))
             else if flag = 1 then
               (let (retval, p) = core_bench_matrix (mat s) dtype (crc s)
                in Some (retval, s\<lparr>mat := p, crcmatrix := (if crcmatrix s = 0 then retval else crcmatrix s)\<rparr>))
             else Some (data, s))) = Some (v, s')"
    "bench_ok s'" "lnext s' = lnext s" "linfo s' = linfo s" "data16 s' = data16 s" "fixed s' = fixed s"
    using calc_work[OF assms, of "data16 s d"] unfolding Let_def by blast
  have "calc_func d s = Some (v AND 0x7f, set_data d ((data16 s d AND 0xff00) OR 0x0080 OR (v AND 0x007f)) (s'\<lparr>crc := crcu16 v (crc s')\<rparr>))"
    using w(1) False unfolding calc_func_def Let_def optype_bit by simp
  moreover have "bench_ok (set_data d x (s'\<lparr>crc := y\<rparr>))" for x y
    by (rule bench_ok_cong[OF w(2)]) (simp_all add: set_data_def)
  moreover have "fixed (set_data d ((data16 s d AND 0xff00) OR 0x0080 OR (v AND 0x007f)) (s'\<lparr>crc := y\<rparr>)) = fixed s" for y
    using w(5,6) by (auto simp: fixed_def set_data_def fun_eq_iff high_byte)
  ultimately show ?thesis using w(3-5) False by (auto simp: set_data_def cached_def cache_low)
qed

interpretation by_data: comparator cmp_complex cached "sort_ok F" for F
proof
  fix s a b assume "sort_ok F s"
  hence s: "bench_ok s" "fixed s = F" by (simp_all add: sort_ok_def)
  obtain v s1 where 1: "calc_func a s = Some (v, s1)" "bench_ok s1" "lnext s1 = lnext s" "linfo s1 = linfo s"
    "cached s1 a = Some (sint v)" "\<forall>e. e \<noteq> a \<or> bit (data16 s e) 7 \<longrightarrow> data16 s1 e = data16 s e" "fixed s1 = fixed s"
    using calc_func_ok[OF s(1)] by blast
  obtain w s2 where 2: "calc_func b s1 = Some (w, s2)" "bench_ok s2" "lnext s2 = lnext s1" "linfo s2 = linfo s1"
    "cached s2 b = Some (sint w)" "\<forall>e. e \<noteq> b \<or> bit (data16 s1 e) 7 \<longrightarrow> data16 s2 e = data16 s1 e" "fixed s2 = fixed s1"
    using calc_func_ok[OF 1(2)] by blast
  have k1: "cached s d = Some z \<Longrightarrow> cached s1 d = Some z" for d z using 1(6) by (auto simp: cached_def split: if_splits)
  have k2: "cached s1 d = Some z \<Longrightarrow> cached s2 d = Some z" for d z using 2(6) by (auto simp: cached_def split: if_splits)
  have "sort_ok F s2" using 1(7) 2(2,7) s(2) by (simp add: sort_ok_def)
  thus "\<exists>r s'. cmp_complex a b s = Some (r, s') \<and> sort_ok F s' \<and> lnext s' = lnext s \<and> linfo s' = linfo s
      \<and> (\<exists>x y. cached s' a = Some x \<and> cached s' b = Some y \<and> (r \<le> 0 \<longleftrightarrow> x \<le> y))
      \<and> (\<forall>d v. cached s d = Some v \<longrightarrow> cached s' d = Some v)"
    using 1(1,3,4) 2(1,3-5) k2[OF 1(5)] k1 k2 by (auto simp: cmp_complex_def)
next
  show "sort_ok F (set_next p q s) = sort_ok F s" for p q s by (rule sort_ok_next)
  show "cached (set_next p q s) = cached s" for p q s by (simp add: cached_def set_next_def fun_eq_iff)
qed

text \<open>The index of an item whose data the comparison has regenerated.\<close>

definition fresh :: "core_results \<Rightarrow> nat \<Rightarrow> bool" where
  "fresh s d \<longleftrightarrow> (data16 s d AND 0xff00) OR (0x00ff AND signed_drop_bit 8 (data16 s d)) = data16 s d"

definition fresh_idx :: "core_results \<Rightarrow> nat \<Rightarrow> int option" where
  "fresh_idx s d = (if fresh s d then Some (sint (idx s d)) else None)"

lemma regen_word:
  fixes v :: u16
  defines "w \<equiv> (v AND 0xff00) OR (0x00ff AND signed_drop_bit 8 v)"
  shows "(w AND 0xff00) OR (0x00ff AND signed_drop_bit 8 w) = w"
proof -
  have k: "(0xff00 :: u16) = push_bit 8 (mask 8)" "(0x00ff :: u16) = mask 8" by (simp_all add: mask_eq_exp_minus_1)
  have "bit ((w AND 0xff00) OR (0x00ff AND signed_drop_bit 8 w)) n = bit w n" for n
    unfolding w_def k bit_or_iff bit_and_iff bit_push_bit_iff bit_mask_iff bit_signed_drop_bit_iff by auto
  thus ?thesis by (intro bit_word_eqI)
qed

lemma regen_keeps: "sort_ok F s \<Longrightarrow> sort_ok F (regen d s)" "fresh (regen d s) d" "fresh s e \<Longrightarrow> fresh (regen d s) e"
proof -
  show "sort_ok F s \<Longrightarrow> sort_ok F (regen d s)"
    unfolding sort_ok_def regen_def using bench_ok_cong[of s "set_data d x s" for x]
    by (auto simp: fixed_def set_data_def fun_eq_iff high_byte)
  show "fresh (regen d s) d" using regen_word[of "data16 s d"] by (simp add: fresh_def regen_def set_data_def)
  show "fresh s e \<Longrightarrow> fresh (regen d s) e" by (auto simp: fresh_def regen_def set_data_def)
qed

interpretation by_idx: comparator "cmp_idx True" fresh_idx "sort_ok F" for F
proof
  fix s a b assume s: "sort_ok F s"
  let ?s = "regen b (regen a s)"
  have "sort_ok F ?s" "fresh ?s a" "fresh ?s b" "\<And>d. fresh s d \<Longrightarrow> fresh ?s d"
    using s regen_keeps by blast+
  thus "\<exists>r s'. cmp_idx True a b s = Some (r, s') \<and> sort_ok F s' \<and> lnext s' = lnext s \<and> linfo s' = linfo s
      \<and> (\<exists>x y. fresh_idx s' a = Some x \<and> fresh_idx s' b = Some y \<and> (r \<le> 0 \<longleftrightarrow> x \<le> y))
      \<and> (\<forall>d v. fresh_idx s d = Some v \<longrightarrow> fresh_idx s' d = Some v)"
    by (auto simp: cmp_idx_def Let_def fresh_idx_def)
next
  show "sort_ok F (set_next p q s) = sort_ok F s" for p q s by (rule sort_ok_next)
  show "fresh_idx (set_next p q s) = fresh_idx s" for p q s by (simp add: fresh_idx_def fresh_def set_next_def fun_eq_iff)
qed

section \<open>Correctness of the list operations\<close>

lemma sort_by_idx:
  assumes "path (lnext s) list xs 0" and "xs \<noteq> []" and "bench_ok s"
  shows "\<exists>l ys s'. core_list_mergesort list (cmp_idx True) s = Some (l, s') \<and> path (lnext s') l ys 0
      \<and> mset ys = mset xs \<and> sorted (map (\<lambda>n. sint (idx s (linfo s n))) ys)
      \<and> (1 < length ys \<longrightarrow> (\<forall>n \<in> set ys. fresh s' (linfo s n)))
      \<and> linfo s' = linfo s \<and> (\<forall>n. n \<notin> set xs \<longrightarrow> lnext s' n = lnext s n) \<and> bench_ok s' \<and> fixed s' = fixed s"
proof -
  let ?R = "\<lambda>s' a b. \<exists>x y. fresh_idx s' (linfo s' a) = Some x \<and> fresh_idx s' (linfo s' b) = Some y \<and> x \<le> y"
  have "sort_ok (fixed s) s" using assms(3) by (simp add: sort_ok_def)
  then obtain l ys s' where r: "core_list_mergesort list (cmp_idx True) s = Some (l, s')" "path (lnext s') l ys 0" "mset ys = mset xs"
    "sorted_wrt (?R s') ys" "linfo s' = linfo s" "\<forall>n. n \<notin> set xs \<longrightarrow> lnext s' n = lnext s n" "sort_ok (fixed s) s'"
    using by_idx.mergesort_sorts[OF _ assms(1,2)] by blast
  have i: "idx s' = idx s" using r(7) by (simp add: sort_ok_def fixed_def)
  have c: "?R s' a b \<Longrightarrow> sint (idx s (linfo s a)) \<le> sint (idx s (linfo s b)) \<and> fresh s' (linfo s a) \<and> fresh s' (linfo s b)" for a b
    using r(5) i by (auto simp: fresh_idx_def split: if_splits)
  have "sorted (map (\<lambda>n. sint (idx s (linfo s n))) ys)"
    using sorted_wrt_mono_rel[OF _ r(4), of "\<lambda>a b. sint (idx s (linfo s a)) \<le> sint (idx s (linfo s b))"] c
    by (simp add: sorted_map)
  moreover have "\<forall>n \<in> set ys. fresh s' (linfo s n)" if "1 < length ys"
  proof -
    obtain a b zs where ys: "ys = a # b # zs" using \<open>1 < length ys\<close> by (cases ys; cases "tl ys") auto
    have "?R s' a n" if "n \<in> set (b # zs)" for n using r(4) that unfolding ys by auto
    thus ?thesis using c unfolding ys by fastforce
  qed
  ultimately show ?thesis using r(1-3,5-7) by (auto simp: sort_ok_def)
qed

lemma sort_by_data:
  assumes "path (lnext s) list xs 0" and "xs \<noteq> []" and "bench_ok s"
  shows "\<exists>l ys s'. core_list_mergesort list cmp_complex s = Some (l, s') \<and> path (lnext s') l ys 0
      \<and> mset ys = mset xs \<and> sorted (map (\<lambda>n. sint (data16 s' (linfo s n) AND 0x7f)) ys)
      \<and> (1 < length ys \<longrightarrow> (\<forall>n \<in> set ys. bit (data16 s' (linfo s n)) 7))
      \<and> linfo s' = linfo s \<and> (\<forall>n. n \<notin> set xs \<longrightarrow> lnext s' n = lnext s n) \<and> bench_ok s' \<and> fixed s' = fixed s"
proof -
  let ?R = "\<lambda>s' a b. \<exists>x y. cached s' (linfo s' a) = Some x \<and> cached s' (linfo s' b) = Some y \<and> x \<le> y"
  have "sort_ok (fixed s) s" using assms(3) by (simp add: sort_ok_def)
  then obtain l ys s' where r: "core_list_mergesort list cmp_complex s = Some (l, s')" "path (lnext s') l ys 0" "mset ys = mset xs"
    "sorted_wrt (?R s') ys" "linfo s' = linfo s" "\<forall>n. n \<notin> set xs \<longrightarrow> lnext s' n = lnext s n" "sort_ok (fixed s) s'"
    using by_data.mergesort_sorts[OF _ assms(1,2)] by blast
  have c: "?R s' a b \<Longrightarrow> sint (data16 s' (linfo s a) AND 0x7f) \<le> sint (data16 s' (linfo s b) AND 0x7f)
      \<and> bit (data16 s' (linfo s a)) 7 \<and> bit (data16 s' (linfo s b)) 7" for a b
    using r(5) by (auto simp: cached_def split: if_splits)
  have "sorted (map (\<lambda>n. sint (data16 s' (linfo s n) AND 0x7f)) ys)"
    using sorted_wrt_mono_rel[OF _ r(4), of "\<lambda>a b. sint (data16 s' (linfo s a) AND 0x7f) \<le> sint (data16 s' (linfo s b) AND 0x7f)"] c
    by (simp add: sorted_map)
  moreover have "\<forall>n \<in> set ys. bit (data16 s' (linfo s n)) 7" if "1 < length ys"
  proof -
    obtain a b zs where ys: "ys = a # b # zs" using \<open>1 < length ys\<close> by (cases ys; cases "tl ys") auto
    have "?R s' a n" if "n \<in> set (b # zs)" for n using r(4) that unfolding ys by auto
    thus ?thesis using c unfolding ys by fastforce
  qed
  ultimately show ?thesis using r(1-3,5-7) by (auto simp: sort_ok_def)
qed

text \<open>
  C7: on every list that is not empty the in-place merge sort returns. Sorting by index gives
  the same nodes in the order of their indices; sorting by data, with the other benchmarks run
  from inside the comparisons, gives them in the order of their cached values, every one of
  which is computed by then if there is more than one node. Neither moves a node's data or
  touches a link outside the list.
\<close>
theorem mergesort_correct:
  assumes "path (lnext s) list xs 0" and "xs \<noteq> []" and "bench_ok s"
  shows "(\<exists>l ys s'. core_list_mergesort list (cmp_idx True) s = Some (l, s') \<and> path (lnext s') l ys 0
      \<and> mset ys = mset xs \<and> sorted (map (\<lambda>n. sint (idx s' (linfo s' n))) ys)
      \<and> linfo s' = linfo s \<and> (\<forall>n. n \<notin> set xs \<longrightarrow> lnext s' n = lnext s n))
    \<and> (\<exists>l ys s'. core_list_mergesort list cmp_complex s = Some (l, s') \<and> path (lnext s') l ys 0
      \<and> mset ys = mset xs \<and> sorted (map (\<lambda>n. sint (data16 s' (linfo s' n) AND 0x7f)) ys)
      \<and> (1 < length ys \<longrightarrow> (\<forall>n \<in> set ys. bit (data16 s' (linfo s' n)) 7))
      \<and> linfo s' = linfo s \<and> (\<forall>n. n \<notin> set xs \<longrightarrow> lnext s' n = lnext s n))"
proof (intro conjI)
  obtain l ys s' where r: "core_list_mergesort list (cmp_idx True) s = Some (l, s')" "path (lnext s') l ys 0"
    "mset ys = mset xs" "sorted (map (\<lambda>n. sint (idx s (linfo s n))) ys)" "linfo s' = linfo s"
    "\<forall>n. n \<notin> set xs \<longrightarrow> lnext s' n = lnext s n" "fixed s' = fixed s" using sort_by_idx[OF assms] by blast
  have "idx s' = idx s" using r(7) by (simp add: fixed_def)
  with r show "\<exists>l ys s'. core_list_mergesort list (cmp_idx True) s = Some (l, s') \<and> path (lnext s') l ys 0
      \<and> mset ys = mset xs \<and> sorted (map (\<lambda>n. sint (idx s' (linfo s' n))) ys)
      \<and> linfo s' = linfo s \<and> (\<forall>n. n \<notin> set xs \<longrightarrow> lnext s' n = lnext s n)" by (intro exI conjI) simp_all
  obtain l ys s' where r: "core_list_mergesort list cmp_complex s = Some (l, s')" "path (lnext s') l ys 0"
    "mset ys = mset xs" "sorted (map (\<lambda>n. sint (data16 s' (linfo s n) AND 0x7f)) ys)"
    "1 < length ys \<longrightarrow> (\<forall>n \<in> set ys. bit (data16 s' (linfo s n)) 7)" "linfo s' = linfo s"
    "\<forall>n. n \<notin> set xs \<longrightarrow> lnext s' n = lnext s n" using sort_by_data[OF assms] by blast
  thus "\<exists>l ys s'. core_list_mergesort list cmp_complex s = Some (l, s') \<and> path (lnext s') l ys 0
      \<and> mset ys = mset xs \<and> sorted (map (\<lambda>n. sint (data16 s' (linfo s' n) AND 0x7f)) ys)
      \<and> (1 < length ys \<longrightarrow> (\<forall>n \<in> set ys. bit (data16 s' (linfo s' n)) 7))
      \<and> linfo s' = linfo s \<and> (\<forall>n. n \<notin> set xs \<longrightarrow> lnext s' n = lnext s n)" by (intro exI conjI) simp_all
qed

text \<open>A list of three nodes, for concrete instances.\<close>

definition three :: core_results where
  "three = \<lparr>lnext = (\<lambda>_. 0)(8 := 16, 16 := 24), linfo = (\<lambda>p. p + 100), data16 = (\<lambda>p. of_nat p), idx = (\<lambda>p. - of_nat p),
    seed1 = 0, seed2 = 0, seed3 = 0, memblock3 = 0, block3 = (\<lambda>_. 0), res_size = 600, iterations = 1, execs = 7, res_list = 8,
    mat = \<lparr>mN = 0, addr_A = 0, addr_B = 0, addr_C = 0, mA = \<lambda>_. 0, mB = \<lambda>_. 0, mC = \<lambda>_. 0\<rparr>,
    crc = 0, crclist = 0, crcmatrix = 0, crcstate = 0, err = 0\<rparr>"

lemma three_facts: "path (lnext three) 8 [8, 16, 24] 0" "bench_ok three" "linfo three = (\<lambda>p. p + 100)"
  by (auto simp: three_def bench_ok_def)

theorem mergesort_witness:
  "\<exists>l ys s'. core_list_mergesort 8 cmp_complex three = Some (l, s') \<and> mset ys = mset [8, 16, 24]
    \<and> (1 < length ys \<longrightarrow> (\<forall>n \<in> set ys. bit (data16 s' (n + 100)) 7))"
proof -
  have "[8, 16, 24 :: nat] \<noteq> []" by simp
  from conjunct2[OF mergesort_correct[OF three_facts(1) this three_facts(2)]]
  obtain l ys s' where r: "core_list_mergesort 8 cmp_complex three = Some (l, s')" "mset ys = mset [8, 16, 24]"
    "1 < length ys \<longrightarrow> (\<forall>n \<in> set ys. bit (data16 s' (linfo s' n)) 7)" "linfo s' = linfo three" by blast
  show ?thesis using r(1-3) unfolding r(4) three_facts(3) by blast
qed

lemma reverse_loop_path:
  "path (lnext s) p xs 0 \<Longrightarrow> path (lnext s) q ys 0 \<Longrightarrow> distinct (xs @ ys) \<Longrightarrow>
    \<exists>l f. reverse_loop p q s = Some (l, s\<lparr>lnext := f\<rparr>) \<and> path f l (rev xs @ ys) 0 \<and> (\<forall>n. n \<notin> set xs \<longrightarrow> f n = lnext s n)"
proof (induction xs arbitrary: p q ys s)
  case Nil
  thus ?case by (subst reverse_loop.simps) (auto intro: exI[of _ "lnext s"])
next
  case (Cons x xs)
  have p: "p = x" "x \<noteq> 0" "path (lnext s) (lnext s x) xs 0" using Cons.prems(1) by auto
  have "path (lnext (set_next x q s)) (lnext s x) xs 0" "path (lnext (set_next x q s)) x (x # ys) 0" "distinct (xs @ x # ys)"
    using Cons.prems p by auto
  from Cons.IH[OF this] obtain l f where "reverse_loop (lnext s x) x (set_next x q s) = Some (l, (set_next x q s)\<lparr>lnext := f\<rparr>)"
    "path f l (rev xs @ x # ys) 0" "\<forall>n. n \<notin> set xs \<longrightarrow> f n = lnext (set_next x q s) n" by blast
  thus ?case using p(1,2) by (subst reverse_loop.simps) (auto simp: set_next_def)
qed

text \<open>
  Reversing a list returns it with its nodes in the opposite order and nothing else
  changed, and reversing it again gives back the first order.
\<close>
lemma reverse_correct:
  assumes "path (lnext s) p xs 0"
  shows "\<exists>l f l' f'. core_list_reverse p s = Some (l, s\<lparr>lnext := f\<rparr>) \<and> path f l (rev xs) 0 \<and> (\<forall>n. n \<notin> set xs \<longrightarrow> f n = lnext s n)
    \<and> core_list_reverse l (s\<lparr>lnext := f\<rparr>) = Some (l', s\<lparr>lnext := f'\<rparr>) \<and> path f' l' xs 0"
proof -
  have d: "distinct (xs @ [])" using path_distinct[OF assms] by simp
  obtain l f where 1: "reverse_loop p 0 s = Some (l, s\<lparr>lnext := f\<rparr>)" "path f l (rev xs @ []) 0" "\<forall>n. n \<notin> set xs \<longrightarrow> f n = lnext s n"
    using reverse_loop_path[OF assms _ d, of 0] by auto
  have "path (lnext (s\<lparr>lnext := f\<rparr>)) l (rev xs) 0" "distinct (rev xs @ [])" using 1(2) d by auto
  from reverse_loop_path[OF this(1) _ this(2), of 0] obtain l' f' where
    "reverse_loop l 0 (s\<lparr>lnext := f\<rparr>) = Some (l', s\<lparr>lnext := f'\<rparr>)" "path f' l' xs 0" by auto
  thus ?thesis using 1 unfolding core_list_reverse_def by auto
qed

text \<open>
  Removing the item after which the list goes on takes its data out of the list: the
  rest of the list keeps its data in order, and undoing the removal restores the state exactly.
\<close>
lemma remove_undo:
  assumes "path (lnext s) item (item # nxt # xs) 0"
  shows "\<exists>s'. core_list_remove item s = (nxt, s') \<and> path (lnext s') item (item # xs) 0
    \<and> map (linfo s') (item # xs) = map (linfo s) (nxt # xs) \<and> linfo s' nxt = linfo s item
    \<and> core_list_undo_remove nxt item s' = (nxt, s)"
proof -
  have p: "lnext s item = nxt" "item \<noteq> 0" "nxt \<noteq> 0" "path (lnext s) (lnext s nxt) xs 0" using assms by auto
  have d: "item \<noteq> nxt" "item \<notin> set xs" "nxt \<notin> set xs" using path_distinct[OF assms] by auto
  define s' where "s' = s\<lparr>linfo := (linfo s)(item := linfo s nxt, nxt := linfo s item),
    lnext := (lnext s)(item := lnext s nxt, nxt := 0)\<rparr>"
  have r: "core_list_remove item s = (nxt, s')"
    using d(1) p(1) by (simp add: core_list_remove_def s'_def set_info_def set_next_def Let_def)
  have u: "core_list_undo_remove nxt item s' = (nxt, s)"
    using d(1) p(1) unfolding core_list_undo_remove_def Let_def set_info_def set_next_def s'_def
    by (cases s) (auto simp: fun_eq_iff)
  show ?thesis using r u p d by (auto simp: s'_def)
qed



end
