(* ===== verification/Bench_Lib.thy ===== *)
theory Bench_Lib
  imports Klib_Stdio
begin

text \<open>
  The services of MicroBench (\<open>am-kernels/benchmarks/microbench/src/bench.c\<close>, \<open>benchmark.h\<close>):
  the allocator of the benchmarks, their random numbers, the checksum of their results, the
  score and the printed time. The memory of the heap is a byte memory; a failing \<open>assert\<close>
  stops the program: \<open>None\<close>.
\<close>

unbundle bit_operations_syntax

section \<open>State\<close>

record setting =
  ssize :: u32
  mlim :: u32
  sref :: u32
  schecksum :: u32

text \<open>\<open>heap\<close> is the platform's; \<open>hbrk\<close> and \<open>seed\<close> are the variables of \<open>bench.c\<close>.\<close>

record area =
  heap_start :: u32
  heap_end :: u32

record bench =
  hbrk :: u32
  seed :: u32
  bmem :: mem

definition bench_init :: bench where
  "bench_init = \<lparr>hbrk = 0, seed = 1, bmem = (\<lambda>_. 0)\<rparr>"

section \<open>Allocation\<close>

definition bench_reset :: "area \<Rightarrow> bench \<Rightarrow> bench" where
  "bench_reset a b = b\<lparr>hbrk := ROUNDUP (heap_start a) 8\<rparr>"

partial_function (option) zero_words :: "mem \<Rightarrow> u32 \<Rightarrow> u32 \<Rightarrow> mem option" where
  "zero_words m p e =
    (if p = e then Some m else zero_words (put m (unat p) (replicate 8 0)) (p + 8) e)"

definition bench_alloc :: "area \<Rightarrow> setting \<Rightarrow> bench \<Rightarrow> u32 \<Rightarrow> (u32 \<times> bench) option" where
  "bench_alloc a st b n =
    (let n = ROUNDUP n 8;
         old = hbrk b;
         b = b\<lparr>hbrk := hbrk b + n\<rparr>
     in if heap_start a \<le> hbrk b \<and> hbrk b < heap_end a
        then (case zero_words (bmem b) old (hbrk b) of
            None \<Rightarrow> None
          | Some m \<Rightarrow>
              if hbrk b - heap_start a \<le> mlim st then Some (old, b\<lparr>bmem := m\<rparr>) else None)
        else None)"

definition bench_free :: "u32 \<Rightarrow> bench \<Rightarrow> bench" where
  "bench_free ptr b = b"

definition bench_check :: "area \<Rightarrow> setting \<Rightarrow> bool" where
  "bench_check a st = (let freesp = heap_end a - heap_start a in \<not> freesp < mlim st)"

section \<open>Random numbers, checksum, score\<close>

definition bench_srand :: "u32 \<Rightarrow> bench \<Rightarrow> bench" where
  "bench_srand s b = b\<lparr>seed := s AND 0x7fff\<rparr>"

definition bench_rand :: "bench \<Rightarrow> u32 \<times> bench" where
  "bench_rand b =
    (let s = seed b * 214013 + 2531011 in (drop_bit 16 s AND 0x7fff, b\<lparr>seed := s\<rparr>))"

definition fnv :: "u8 \<Rightarrow> u32 \<Rightarrow> u32" where
  "fnv c h = (h XOR ucast c) * 16777619"

text \<open>\<open>start\<close> and \<open>end\<close> point into one block, so that \<open>p + 4\<close> does not wrap.\<close>

function checksum_loop :: "mem \<Rightarrow> nat \<Rightarrow> nat \<Rightarrow> u32 \<Rightarrow> u32" where
  "checksum_loop m p e h1 =
    (if p + 4 < e
     then checksum_loop m (p + 4) e (fold (\<lambda>i. fnv (m (p + i))) [0..<4] h1)
     else h1)"
  by pat_completeness auto
termination by (relation "measure (\<lambda>(m, p, e, h). e - p)") auto

declare checksum_loop.simps [simp del]

text \<open>\<open>hash\<close> is signed: the right shifts keep the sign.\<close>

definition hash_finish :: "u32 \<Rightarrow> u32" where
  "hash_finish h =
    (let h = h + push_bit 13 h;
         h = h XOR signed_drop_bit 7 h;
         h = h + push_bit 3 h;
         h = h XOR signed_drop_bit 17 h
     in h + push_bit 5 h)"

definition checksum :: "mem \<Rightarrow> nat \<Rightarrow> nat \<Rightarrow> u32" where
  "checksum m s e = hash_finish (checksum_loop m s e 2166136261)"

definition REF_SCORE :: u64 where
  "REF_SCORE = 100000"

definition score :: "setting \<Rightarrow> u64 \<Rightarrow> u32" where
  "score st usec = (if usec = 0 then 0 else ucast (REF_SCORE * ucast (sref st) div usec))"

section \<open>The printed time\<close>

text \<open>
  The quotient has 64 bits, of which \<open>%d\<close> reads the low 32. The loop writes the digits of
  the rest from the last character back; \<open>None\<close> would be a write in front of \<open>buf\<close>.
\<close>

function time_digits :: "u8 list \<Rightarrow> int \<Rightarrow> u64 \<Rightarrow> u8 list option" where
  "time_digits buf p us =
    (if us > 0 then
       if 0 \<le> p \<and> p < int (length buf)
       then time_digits (buf[nat p := 48 + ucast (us mod 10)]) (p - 1) (us div 10)
       else None
     else Some buf)"
  by pat_completeness auto
termination
  by (relation "measure (\<lambda>(b, p, us). unat us)") (auto simp: word_less_nat_alt unat_div_distrib)

declare time_digits.simps [simp del]

definition format_time :: "u64 \<Rightarrow> u8 list option" where
  "format_time us =
    (let ms = us div 1000;
         us = us - ms * 1000
     in if us < 1000
        then (case sprintf [37, 100, 46, 48, 48, 48] [VInt (ucast ms)] of
            None \<Rightarrow> None
          | Some (buf, len) \<Rightarrow> time_digits buf (int len - 1) us)
        else None)"

section \<open>Allocation: lemmas\<close>

lemma zero_words_eq:
  "unat p + 8 * k < 2 ^ 32 \<Longrightarrow> zero_words m p (p + of_nat (8 * k)) = Some (put m (unat p) (replicate (8 * k) 0))"
proof (induction k arbitrary: m p)
  case 0
  then show ?case by (simp add: zero_words.simps)
next
  case (Suc k)
  have "unat (p + 8) = unat p + 8" using Suc.prems by (simp add: unat_word_ariths)
  moreover have "p + of_nat (8 * Suc k) = (p + 8) + of_nat (8 * k)" by (simp add: algebra_simps)
  moreover have "p \<noteq> p + of_nat (8 * Suc k)"
  proof -
    have "unat (of_nat (8 * Suc k) :: u32) = 8 * Suc k"
      unfolding unat_of_nat by (rule mod_less) (use Suc.prems in simp)
    then show ?thesis by (metis add_cancel_left_right mult_is_0 nat.distinct(1) unat_0 zero_neq_numeral)
  qed
  moreover have "replicate (8 * Suc k) (0::u8) = replicate 8 0 @ replicate (8 * k) 0"
    by (simp only: replicate_add [symmetric]) simp
  moreover have "unat (p + 8) + 8 * k < 2 ^ 32" using calculation(1) Suc.prems by simp
  from Suc.IH [OF this, of "put m (unat p) (replicate 8 0)"]
  have "zero_words (put m (unat p) (replicate 8 0)) (p + 8) (p + 8 + of_nat (8 * k))
      = Some (put (put m (unat p) (replicate 8 0)) (unat p + 8) (replicate (8 * k) 0))"
    by (simp only: calculation(1))
  ultimately show ?case
    by (subst zero_words.simps) (simp only: put_append if_False length_replicate)
qed

text \<open>What the assertions test, and what an allocation that passes them returns.\<close>

lemma bench_alloc_eq:
  assumes "unat (hbrk b) + unat n + 7 < 2 ^ 32" and "heap_start a \<le> hbrk b"
  defines "k \<equiv> round8 (unat n)"
  shows "bench_alloc a st b n =
    (if unat (hbrk b) + k < unat (heap_end a) \<and> unat (hbrk b) + k \<le> unat (heap_start a) + unat (mlim st)
     then Some (hbrk b, b\<lparr>hbrk := hbrk b + of_nat k, bmem := put (bmem b) (unat (hbrk b)) (replicate k 0)\<rparr>)
     else None)"
proof -
  have k: "k = 8 * ((unat n + 7) div 8)" by (simp add: k_def round8_def)
  have kb: "unat (hbrk b) + k < 2 ^ 32" using assms(1) round8_le [of "unat n"] by (simp add: k_def)
  have r: "ROUNDUP n 8 = of_nat k"
  proof -
    have "unat (ROUNDUP n 8) = k" unfolding k_def by (rule unat_ROUNDUP8) (use assms(1) in simp)
    then have "of_nat (unat (ROUNDUP n 8)) = (of_nat k :: u32)" by simp
    then show ?thesis by (simp only: of_nat_unat ucast_id)
  qed
  have u: "unat (hbrk b + of_nat k) = unat (hbrk b) + k"
    using kb by (simp add: unat_word_ariths unat_of_nat)
  have z: "zero_words (bmem b) (hbrk b) (hbrk b + of_nat k) = Some (put (bmem b) (unat (hbrk b)) (replicate k 0))"
    using kb unfolding k by (rule zero_words_eq)
  have s: "heap_start a \<le> hbrk b + of_nat k" using assms(2) u by (simp add: word_le_nat_alt)
  have "unat (hbrk b + of_nat k - heap_start a) = unat (hbrk b) + k - unat (heap_start a)"
    using s u by (simp add: unat_sub)
  moreover have "unat (heap_start a) \<le> unat (hbrk b) + k" using s u by (simp add: word_le_nat_alt)
  ultimately have "hbrk b + of_nat k - heap_start a \<le> mlim st \<longleftrightarrow> unat (hbrk b) + k \<le> unat (heap_start a) + unat (mlim st)"
    by (auto simp: word_le_nat_alt)
  then show ?thesis using s u z r by (simp add: bench_alloc_def Let_def word_less_nat_alt)
qed

interpretation bench_heap: bump_allocator "bench_alloc a st" "\<lambda>b. if heap_start a \<le> hbrk b then unat (hbrk b) else 0"
  for a st
proof
  fix s n p s'
  assume "bench_alloc a st s n = Some (p, s')" and "8 dvd (if heap_start a \<le> hbrk s then unat (hbrk s) else 0)"
    and "0 < (if heap_start a \<le> hbrk s then unat (hbrk s) else 0)"
    and "(if heap_start a \<le> hbrk s then unat (hbrk s) else 0) + unat n + 7 < 2 ^ 32"
  then show "unat p = (if heap_start a \<le> hbrk s then unat (hbrk s) else 0) \<and>
      (if heap_start a \<le> hbrk s' then unat (hbrk s') else 0)
        = (if heap_start a \<le> hbrk s then unat (hbrk s) else 0) + round8 (unat n)"
    using bench_alloc_eq [of s n a st] round8_le [of "unat n"]
    by (auto split: if_splits simp: word_le_nat_alt unat_word_ariths unat_of_nat)
qed

text \<open>
  The benchmarks allocate one array after the other and then only use these: the laws
  they rely on, for a sequence of allocations from a fresh heap.
\<close>

lemma bench_reset_brk:
  assumes "unat (heap_start a) + 7 < 2 ^ 32"
  shows "unat (hbrk (bench_reset a b)) = round8 (unat (heap_start a))"
    and "heap_start a \<le> hbrk (bench_reset a b)"
  using assms round8_ge [of "unat (heap_start a)"]
  by (simp_all add: bench_reset_def unat_ROUNDUP8 word_le_nat_alt)

lemma alloc_seq_zero:
  assumes "alloc_seq (bench_alloc a st) ns b = Some (ps, t)"
    and "unat (hbrk b) + (\<Sum>n\<leftarrow>ns. unat n + 7) < 2 ^ 32" and "heap_start a \<le> hbrk b"
  shows "\<forall>q. unat (hbrk b) \<le> q \<and> q < unat (hbrk t) \<longrightarrow> bmem t q = 0"
    and "\<forall>q < unat (hbrk b). bmem t q = bmem b q"
    and "unat (hbrk b) \<le> unat (hbrk t)" and "seed t = seed b"
    and "ns \<noteq> [] \<longrightarrow> unat (hbrk t) < unat (heap_end a) \<and> unat (hbrk t) \<le> unat (heap_start a) + unat (mlim st)"
  using assms
proof (atomize (full), induction ns arbitrary: b ps)
  case Nil
  then show ?case by auto
next
  case (Cons n ns)
  define k where "k = round8 (unat n)"
  obtain p b' ps' where b': "bench_alloc a st b n = Some (p, b')" "alloc_seq (bench_alloc a st) ns b' = Some (ps', t)"
    using Cons.prems by (auto split: option.splits)
  have k: "k \<le> unat n + 7" by (simp add: k_def round8_le)
  have le: "unat (hbrk b) + unat n + 7 < 2 ^ 32" using Cons.prems(2) by simp
  have e: "b' = b\<lparr>hbrk := hbrk b + of_nat k, bmem := put (bmem b) (unat (hbrk b)) (replicate k 0)\<rparr>"
    "unat (hbrk b) + k < unat (heap_end a)" "unat (hbrk b) + k \<le> unat (heap_start a) + unat (mlim st)"
    using b'(1) unfolding bench_alloc_eq [OF le Cons.prems(3)] by (auto simp: k_def split: if_splits)
  have u: "unat (hbrk b') = unat (hbrk b) + k"
    using le k e(1) by (simp add: unat_word_ariths unat_of_nat)
  have h: "heap_start a \<le> hbrk b'" using Cons.prems(3) u by (simp add: word_le_nat_alt)
  have m: "bmem b' q = (if unat (hbrk b) \<le> q \<and> q < unat (hbrk b) + k then 0 else bmem b q)" for q
    using put_same [of "q - unat (hbrk b)" "replicate k 0" "bmem b" "unat (hbrk b)"] e(1)
    by (auto simp: put_other)
  have "unat (hbrk b') + (\<Sum>n\<leftarrow>ns. unat n + 7) < 2 ^ 32" using Cons.prems(2) u k by simp
  note ih = Cons.IH [OF b'(2) this h]
  have "bmem t q = 0" if "unat (hbrk b) \<le> q" "q < unat (hbrk t)" for q
    using ih u m [of q] that by (cases "q < unat (hbrk b) + k") auto
  then show ?case
    using ih u m e b'(2) by (cases "ns = []") auto
qed

section \<open>Checksum: lemmas\<close>

lemma checksum_loop_eq:
  "checksum_loop m p e h = fold fnv (bytes m p ((e - p - 1) div 4 * 4)) h"
proof (induction m p e h rule: checksum_loop.induct)
  case (1 m p e h)
  show ?case
  proof (cases "p + 4 < e")
    case True
    then have d: "(e - p - 1) div 4 = Suc ((e - (p + 4) - 1) div 4)"
      using div_add_self1 [of 4 "e - (p + 4) - 1"] by (simp add: Suc_leI)
    have four: "bytes m p (Suc (Suc (Suc (Suc n)))) = [m p, m (p + 1), m (p + 2), m (p + 3)] @ bytes m (p + 4) n" for n
      by (simp add: bytes_Suc eval_nat_numeral)
    have "bytes m p (Suc n * 4) = [m p, m (p + 1), m (p + 2), m (p + 3)] @ bytes m (p + 4) (n * 4)" for n
    proof -
      have "Suc n * 4 = Suc (Suc (Suc (Suc (n * 4))))" by simp
      then show ?thesis by (simp only: four)
    qed
    moreover note d
    moreover have "[0..<4] = [0, 1, 2, 3::nat]" by (simp add: upt_rec)
    ultimately show ?thesis using True 1 [OF True] by (subst checksum_loop.simps) simp
  next
    case False
    then show ?thesis by (subst checksum_loop.simps) simp
  qed
qed


section \<open>Time: lemmas\<close>

lemma sint_word_of_int_small: "n < 2 ^ 31 \<Longrightarrow> sint (word_of_int (int n) :: u32) = int n"
  unfolding int_word_sint by (simp add: mod_pos_pos_trivial)

primrec fixed_digits :: "nat \<Rightarrow> nat \<Rightarrow> u8 list" where
  "fixed_digits 0 n = []"
| "fixed_digits (Suc k) n = fixed_digits k (n div 10) @ [of_nat (48 + n mod 10)]"

lemma length_fixed_digits [simp]: "length (fixed_digits k n) = k"
  by (induction k arbitrary: n) auto

lemma fixed_digits_0: "fixed_digits k 0 = replicate k 48"
  by (induction k) (simp_all add: replicate_append_same)

lemma fixed_digits_value:
  "digits_value x (fixed_digits k n) = x * 10 ^ k + n mod 10 ^ k \<and> list_all is_digit (fixed_digits k n)"
proof (induction k arbitrary: n)
  case (Suc k)
  have "unat (of_nat (48 + n mod 10) :: u8) = 48 + n mod 10"
    unfolding unat_of_nat by (rule mod_less) simp
  moreover have "(x * 10 ^ k + n div 10 mod 10 ^ k) * 10 + n mod 10 = x * 10 ^ Suc k + n mod 10 ^ Suc k"
    using mod_mult2_eq [of n 10 "10 ^ k"] by (simp add: algebra_simps)
  ultimately show ?case using Suc [of "n div 10"]
    by (simp add: digits_value_append is_digit_def word_le_nat_alt del: of_nat_add)
qed simp

lemma time_digits_fixed:
  assumes "unat us < 10 ^ k"
  shows "time_digits (xs @ replicate k 48 @ ys) (int (length xs) + int k - 1) us
    = Some (xs @ fixed_digits k (unat us) @ ys)"
  using assms
proof (induction k arbitrary: us ys)
  case 0
  then have "us = 0" by (simp add: unat_eq_zero)
  then show ?case by (subst time_digits.simps) simp
next
  case (Suc k)
  show ?case
  proof (cases "us = 0")
    case True
    then show ?thesis by (subst time_digits.simps) (simp add: fixed_digits_0 replicate_append_same)
  next
    case False
    have d: "48 + ucast (us mod 10) = (of_nat (48 + unat us mod 10) :: u8)"
    proof -
      have "(of_nat (unat (us mod 10)) :: u8) = ucast (us mod 10)" by (simp only: of_nat_unat)
      then show ?thesis by (simp add: unat_mod_distrib)
    qed
    have upd: "(xs @ replicate (Suc k) 48 @ ys)[length xs + k := c] = xs @ replicate k 48 @ c # ys" for c :: u8
      by (simp add: list_update_append flip: replicate_append_same)
    have "unat (us div 10) < 10 ^ k" using Suc.prems by (simp add: unat_div_distrib less_mult_imp_div_less mult.commute)
    from Suc.IH [OF this, of "of_nat (48 + unat us mod 10) # ys"] show ?thesis
      using False d upd
      by (subst time_digits.simps) (simp add: word_neq_0_conv unat_div_distrib nat_add_distrib nat_int_add)
  qed
qed

lemma format_time_digits:
  assumes "unat us div 1000 < 2 ^ 31"
  shows "\<exists>ds. format_time us = Some (ds @ [46] @ fixed_digits 3 (unat us mod 1000) @ [0])
    \<and> list_all is_digit ds \<and> length ds \<le> 10
    \<and> digits_value 0 (ds @ fixed_digits 3 (unat us mod 1000)) = unat us"
proof -
  define w :: u32 where "w = ucast (us div 1000)"
  have uw: "unat w = unat us div 1000"
    using assms by (simp add: w_def unat_ucast_mod unat_div_distrib)
  then have "w = word_of_int (int (unat us div 1000))" by (simp flip: uw)
  then have sw: "sint w = int (unat us div 1000)" using sint_word_of_int_small [OF assms] by simp
  obtain ds where ds: "print_dec 128 w = ds" "list_all is_digit ds" "length ds \<le> 10" "digits_value 0 ds = unat us div 1000"
    using print_dec_digits [of w 128] by (auto simp: sw)
  have rest: "us - us div 1000 * 1000 = us mod 1000" by (simp add: minus_div_mult_eq_mod)
  have u: "unat (us mod 1000) = unat us mod 1000" by (simp add: unat_mod_distrib)
  have sp: "sprintf [37, 100, 46, 48, 48, 48] [VInt w] = Some ((ds @ [46]) @ replicate 3 48 @ [0], length ds + 4)"
    by (simp add: sprintf_def sprintf_conv_def ds(1) numeral_3_eq_3)
  have lt: "us mod 1000 < 1000" by (simp add: word_less_nat_alt u)
  have "time_digits ((ds @ [46]) @ replicate 3 48 @ [0]) (int (length (ds @ [46])) + int 3 - 1) (us mod 1000)
      = Some ((ds @ [46]) @ fixed_digits 3 (unat (us mod 1000)) @ [0])"
    by (rule time_digits_fixed) (simp add: u)
  then have "format_time us = Some (ds @ [46] @ fixed_digits 3 (unat us mod 1000) @ [0])"
    using sp lt by (simp add: format_time_def Let_def rest w_def u)
  moreover have "digits_value 0 (ds @ fixed_digits 3 (unat us mod 1000)) = unat us"
    by (simp add: digits_value_append fixed_digits_value ds(4))
  ultimately show ?thesis using ds by blast
qed

section \<open>Properties\<close>

text \<open>
  \<open>checksum\<close> is the FNV hash of the bytes of all four-byte groups that end before the
  last byte: of a block of \<open>4 k\<close> bytes the last word does not count. It reads only those.
\<close>

lemma checksum_correct:
  "checksum m s (s + n) = hash_finish (fold fnv (bytes m s ((n - 1) div 4 * 4)) 2166136261)
    \<and> checksum (put m (s + 4 * k) ws) s (s + 4 * (k + 1)) = checksum m s (s + 4 * (k + 1))"
proof -
  have "(4 * (k + 1) - 1) div 4 = k" by simp
  moreover have "bytes (put m (s + 4 * k) ws) s (k * 4) = bytes m s (k * 4)"
    by (rule nth_equalityI) (simp_all add: put_other)
  ultimately show ?thesis by (simp add: checksum_def checksum_loop_eq)
qed

text \<open>
  \<open>bench_alloc\<close> on a reset heap: the sequence of allocations of a benchmark either stops at
  an assertion or returns aligned, disjoint blocks above \<open>heap.start\<close>; each is zero when
  it is returned, and nothing outside it has changed.
\<close>

lemma bench_alloc_correct:
  assumes "unat (heap_start a) + 7 + (\<Sum>n\<leftarrow>ns. unat n + 7) < 2 ^ 32" and "0 < heap_start a"
    and "alloc_seq (bench_alloc a st) ns (bench_reset a b) = Some (ps, t)" and "ns \<noteq> []"
  shows "laid_out (unat (heap_start a)) ps ns (unat (hbrk t))
    \<and> unat (hbrk t) < unat (heap_end a) \<and> unat (hbrk t) \<le> unat (heap_start a) + unat (mlim st)
    \<and> (\<forall>i < length ps. bytes (bmem t) (unat (ps ! i)) (unat (ns ! i)) = replicate (unat (ns ! i)) 0)
    \<and> (\<forall>q < unat (heap_start a). bmem t q = bmem b q)"
proof -
  let ?s = "bench_reset a b"
  have h: "unat (heap_start a) + 7 < 2 ^ 32" using assms(1) by simp
  note r = bench_reset_brk [OF h, of b] round8_ge [of "unat (heap_start a)"] round8_le [of "unat (heap_start a)"]
  have s: "unat (hbrk ?s) + (\<Sum>n\<leftarrow>ns. unat n + 7) < 2 ^ 32" using assms(1) r by linarith
  note z = alloc_seq_zero [OF assms(3) s r(2)]
  have l: "laid_out (unat (hbrk ?s)) ps ns (unat (hbrk t))"
    using bench_heap.alloc_seq_laid_out [OF assms(3)] s r assms(2) round8_dvd z(3)
    by (auto simp: word_less_nat_alt word_le_nat_alt split: if_splits)
  have lo: "laid_out (unat (heap_start a)) ps ns (unat (hbrk t))"
    by (rule laid_out_mono [OF l]) (use r in simp)
  have "bytes (bmem t) (unat (ps ! i)) (unat (ns ! i)) = replicate (unat (ns ! i)) 0" if "i < length ps" for i
    using laid_out_above [OF l that] z(1) by (intro nth_equalityI) auto
  then show ?thesis
    using lo z r assms(4)
    by (auto simp: bench_reset_def)
qed

text \<open>
  \<open>format_time\<close> prints a time in microseconds as its milliseconds, a point and the three
  digits of the rest, while the milliseconds fit into an \<open>int\<close>.
\<close>

lemma format_time_correct:
  assumes "unat us div 1000 < 2 ^ 31"
  shows "\<exists>ds. format_time us = Some (ds @ [46] @ fixed_digits 3 (unat us mod 1000) @ [0])
    \<and> list_all is_digit ds \<and> length ds \<le> 10
    \<and> digits_value 0 (ds @ fixed_digits 3 (unat us mod 1000)) = unat us"
  by (rule format_time_digits [OF assms])

end
