(* ===== verification/Bench_Qsort.thy ===== *)
theory Bench_Qsort
  imports Bench_Lib "HOL-Library.Multiset"
begin

text \<open>
  The quicksort benchmark (\<open>qsort/qsort.c\<close>). \<open>data\<close> is an array of \<open>int\<close>: a function
  from indices to words that are compared as signed numbers.
\<close>

unbundle bit_operations_syntax

record qsort =
  qN :: nat
  qat :: u32
  qdata :: "nat \<Rightarrow> u32"

text \<open>The bytes of an array of words, as the checksum reads them (little endian).\<close>

definition word_bytes :: "(nat \<Rightarrow> u32) \<Rightarrow> mem" where
  "word_bytes a q = ucast (drop_bit (8 * (q mod 4)) (a (q div 4)))"

definition fill_random :: "nat \<Rightarrow> (nat \<Rightarrow> u32) \<times> bench \<Rightarrow> (nat \<Rightarrow> u32) \<times> bench" where
  "fill_random i = (\<lambda>(d, b).
     let (x, b) = bench_rand b; (y, b) = bench_rand b in (d(i := push_bit 16 x OR y), b))"

definition bench_qsort_prepare :: "area \<Rightarrow> setting \<Rightarrow> bench \<Rightarrow> (qsort \<times> bench) option" where
  "bench_qsort_prepare ar st b =
    (let b = bench_srand 1 b
     in case bench_alloc ar st b (ssize st * 4) of
          None \<Rightarrow> None
        | Some (p, b) \<Rightarrow>
            (let (d, b) = fold fill_random [0..<unat (ssize st)] (\<lambda>_. 0, b)
             in Some (\<lparr>qN = unat (ssize st), qat = p, qdata = d\<rparr>, b)))"

definition swap :: "(nat \<Rightarrow> 'a) \<Rightarrow> nat \<Rightarrow> nat \<Rightarrow> nat \<Rightarrow> 'a" where
  "swap a i j = (let t = a i; a = a(i := a j) in a(j := t))"

definition qsort_step :: "u32 \<Rightarrow> nat \<Rightarrow> (nat \<Rightarrow> u32) \<times> nat \<Rightarrow> (nat \<Rightarrow> u32) \<times> nat" where
  "qsort_step p j = (\<lambda>(a, pivot).
     if sint (a j) < sint p then (swap a (pivot + 1) j, pivot + 1) else (a, pivot))"

definition qsort_partition :: "(nat \<Rightarrow> u32) \<Rightarrow> nat \<Rightarrow> nat \<Rightarrow> (nat \<Rightarrow> u32) \<times> nat" where
  "qsort_partition a l r =
    (let p = a l;
         (a, pivot) = fold (qsort_step p) [l + 1..<r] (a, l)
     in (swap a pivot l, pivot))"

text \<open>What the loop maintains, and what the last swap makes of it.\<close>

definition elems :: "(nat \<Rightarrow> 'a) \<Rightarrow> nat \<Rightarrow> nat \<Rightarrow> 'a multiset" where
  "elems a l r = image_mset a (mset_set {l..<r})"

lemma swap_apply: "swap a i j k = (if k = j then a i else if k = i then a j else a k)"
  by (simp add: swap_def)

lemma elems_swap:
  assumes "l \<le> i" "i < r" "l \<le> j" "j < r"
  shows "elems (swap a i j) l r = elems a l r"
proof (cases "i = j")
  case True
  then have "swap a i j = a" by (auto simp: swap_apply)
  then show ?thesis by simp
next
  case False
  let ?S = "{l..<r} - {i} - {j}"
  have s: "mset_set {l..<r} = add_mset i (add_mset j (mset_set ?S))"
    using assms False by (subst mset_set.remove [of _ i]; simp) (subst mset_set.remove [of _ j]; simp)
  have "image_mset (swap a i j) (mset_set ?S) = image_mset a (mset_set ?S)"
    by (rule image_mset_cong) (auto simp: swap_apply)
  then show ?thesis using False by (simp add: elems_def s swap_apply)
qed

lemma set_elems: "set_mset (elems a l r) = a ` {l..<r}"
  by (simp add: elems_def)

lemma elems_split: "l \<le> m \<Longrightarrow> m \<le> r \<Longrightarrow> elems a l r = elems a l m + elems a m r"
proof -
  assume "l \<le> m" "m \<le> r"
  then have "{l..<r} = {l..<m} \<union> {m..<r}" "{l..<m} \<inter> {m..<r} = {}" by auto
  then show ?thesis by (simp add: elems_def mset_set_Union)
qed

lemma elems_cong: "(\<And>i. l \<le> i \<Longrightarrow> i < r \<Longrightarrow> a i = b i) \<Longrightarrow> elems a l r = elems b l r"
  unfolding elems_def by (rule image_mset_cong) auto

definition split_at :: "(nat \<Rightarrow> u32) \<Rightarrow> nat \<Rightarrow> nat \<Rightarrow> u32 \<Rightarrow> nat \<Rightarrow> (nat \<Rightarrow> u32) \<times> nat \<Rightarrow> bool" where
  "split_at a0 l r p j = (\<lambda>(a, k). l \<le> k \<and> k < j \<and> a l = p
     \<and> (\<forall>i. l < i \<and> i \<le> k \<longrightarrow> sint (a i) < sint p) \<and> (\<forall>i. k < i \<and> i < j \<longrightarrow> sint p \<le> sint (a i))
     \<and> elems a l r = elems a0 l r \<and> (\<forall>i. i < l \<or> r \<le> i \<longrightarrow> a i = a0 i))"

lemma split_at_step:
  assumes "split_at a0 l r p j s" and "l < j" and "j < r"
  shows "split_at a0 l r p (j + 1) (qsort_step p j s)"
proof (cases s)
  case (Pair a k)
  note h = assms(1)[unfolded Pair split_at_def, simplified]
  show ?thesis
  proof (cases "sint (a j) < sint p")
    case True
    have "elems (swap a (k + 1) j) l r = elems a0 l r"
      using h assms elems_swap [of l "k + 1" r j a] by simp
    then show ?thesis
      using True h assms by (auto simp: Pair qsort_step_def split_at_def swap_apply le_Suc_eq less_Suc_eq)
  next
    case False
    then show ?thesis
      using h by (auto simp: Pair qsort_step_def split_at_def less_Suc_eq)
  qed
qed

lemma split_at_fold:
  "split_at a0 l r p j s \<Longrightarrow> l < j \<Longrightarrow> j \<le> r \<Longrightarrow> split_at a0 l r p r (fold (qsort_step p) [j..<r] s)"
proof (induction "r - j" arbitrary: j s)
  case (Suc d)
  have "[j..<r] = j # [j + 1..<r]" using Suc.hyps(2) by (simp add: upt_rec)
  then show ?case using Suc.hyps Suc.prems split_at_step [of a0 l r p j s] by simp
qed simp

lemma qsort_partition_correct:
  assumes "l < r" and "qsort_partition a l r = (b, k)"
  shows "l \<le> k" "k < r" "\<forall>i. l \<le> i \<and> i < k \<longrightarrow> sint (b i) < sint (b k)"
    "\<forall>i. k < i \<and> i < r \<longrightarrow> sint (b k) \<le> sint (b i)"
    "elems b l r = elems a l r" "\<forall>i. i < l \<or> r \<le> i \<longrightarrow> b i = a i"
proof -
  obtain c k' where c: "fold (qsort_step (a l)) [l + 1..<r] (a, l) = (c, k')" by fastforce
  have "split_at a l r (a l) (l + 1) (a, l)" by (simp add: split_at_def)
  from split_at_fold [OF this] have h: "split_at a l r (a l) r (c, k')" using assms(1) c by simp
  have b: "b = swap c k l" "k' = k" using assms(2) c by (auto simp: qsort_partition_def)
  show "l \<le> k" "k < r" "\<forall>i. l \<le> i \<and> i < k \<longrightarrow> sint (b i) < sint (b k)"
    "\<forall>i. k < i \<and> i < r \<longrightarrow> sint (b k) \<le> sint (b i)" "\<forall>i. i < l \<or> r \<le> i \<longrightarrow> b i = a i"
    using h assms(1) by (auto simp: b split_at_def swap_apply)
  show "elems b l r = elems a l r"
    using h assms(1) elems_swap [of l k r l c] by (auto simp: b split_at_def)
qed

function myqsort :: "(nat \<Rightarrow> u32) \<Rightarrow> nat \<Rightarrow> nat \<Rightarrow> nat \<Rightarrow> u32" where
  "myqsort a l r =
    (if l < r
     then case qsort_partition a l r of (a, pivot) \<Rightarrow> myqsort (myqsort a l pivot) (pivot + 1) r
     else a)"
  by pat_completeness auto
termination
proof (relation "measure (\<lambda>(a, l, r). r - l)", goal_cases)
  case (2 a l r b k)
  then show ?case using qsort_partition_correct(1,2) [of l r a b k] by auto
next
  case (3 a l r b k)
  then show ?case using qsort_partition_correct(1,2) [of l r a b k] by auto
qed simp

declare myqsort.simps [simp del]

definition bench_qsort_run :: "qsort \<Rightarrow> qsort" where
  "bench_qsort_run q = q\<lparr>qdata := myqsort (qdata q) 0 (qN q)\<rparr>"

definition bench_qsort_validate :: "setting \<Rightarrow> qsort \<Rightarrow> bool" where
  "bench_qsort_validate st q \<longleftrightarrow> checksum (word_bytes (qdata q)) 0 (4 * qN q) = schecksum st"

section \<open>The sort\<close>

lemma myqsort_sorts:
  "elems (myqsort a l r) l r = elems a l r \<and> (\<forall>i. i < l \<or> r \<le> i \<longrightarrow> myqsort a l r i = a i)
    \<and> (\<forall>i j. l \<le> i \<and> i \<le> j \<and> j < r \<longrightarrow> sint (myqsort a l r i) \<le> sint (myqsort a l r j))"
proof (induction a l r rule: myqsort.induct)
  case (1 a l r)
  show ?case
  proof (cases "l < r")
    case False
    then show ?thesis by (subst (1 2 3 4) myqsort.simps) auto
  next
    case True
    obtain b k where bk: "qsort_partition a l r = (b, k)" by fastforce
    note p = qsort_partition_correct [OF True bk]
    define c where "c = myqsort b l k"
    define d where "d = myqsort c (k + 1) r"
    have e: "myqsort a l r = d" using True bk by (subst myqsort.simps) (simp add: c_def d_def)
    note c = 1(1) [OF True bk [symmetric], folded c_def]
    note d = 1(2) [OF True bk [symmetric], folded c_def, folded d_def]
    have lo: "\<exists>j. l \<le> j \<and> j < k \<and> d i = b j" if "l \<le> i" "i < k" for i
    proof -
      have "c i \<in> b ` {l..<k}" using c that set_elems [of c l k] by (auto simp: set_elems)
      then show ?thesis using d that by auto
    qed
    have hi: "\<exists>j. k < j \<and> j < r \<and> d i = b j" if "k < i" "i < r" for i
    proof -
      have "d i \<in> c ` {k + 1..<r}" using d that set_elems [of d "k + 1" r] by (auto simp: set_elems)
      then obtain j where "k + 1 \<le> j" "j < r" "d i = c j" by auto
      then show ?thesis using c by (intro exI [of _ j]) auto
    qed
    have mid: "d k = b k" using c d by simp
    have ord: "sint (d i) \<le> sint (d j)" if "l \<le> i" "i \<le> j" "j < r" for i j
    proof -
      consider "j < k" | "i < k" "j = k" | "i < k" "k < j" | "i = k" "j = k" | "i = k" "k < j" | "k < i"
        using that(2) by (metis le_neq_implies_less linorder_neqE_nat)
      then show ?thesis
      proof cases
        case 1
        then show ?thesis using c d that by auto
      next
        case 2
        then show ?thesis using lo [of i] that mid p(3) by fastforce
      next
        case 3
        then show ?thesis using lo [of i] hi [of j] that p(3,4) by (metis order.strict_implies_order order.trans)
      next
        case 5
        then show ?thesis using hi [of j] that mid p(4) by metis
      next
        case 6
        then show ?thesis using d that by auto
      qed simp
    qed
    have "elems d l r = elems d l k + elems d k (k + 1) + elems d (k + 1) r"
      using p(1,2) by (simp add: elems_split [of l k r] elems_split [of k "k + 1" r])
    also have "\<dots> = elems b l k + elems b k (k + 1) + elems b (k + 1) r"
    proof -
      have "elems d l k = elems c l k" by (rule elems_cong) (use d in auto)
      moreover have "elems d k (k + 1) = elems b k (k + 1)" by (rule elems_cong) (use mid in \<open>auto simp: le_less_Suc_eq\<close>)
      moreover have "elems c (k + 1) r = elems b (k + 1) r" by (rule elems_cong) (use c in auto)
      ultimately show ?thesis using c d by simp
    qed
    also have "\<dots> = elems a l r"
      using p(1,2,5) by (simp add: elems_split [of l k r] elems_split [of k "k + 1" r] add.assoc)
    finally show ?thesis using ord c d p e by auto
  qed
qed

section \<open>Properties\<close>

text \<open>
  C16: the quicksort leaves the same numbers in the array, in ascending order of their signed
  values, and writes nothing outside it.
\<close>

theorem qsort_correct:
  "mset (map (qdata (bench_qsort_run q)) [0..<qN q]) = mset (map (qdata q) [0..<qN q])
    \<and> sorted (map (\<lambda>i. sint (qdata (bench_qsort_run q) i)) [0..<qN q])
    \<and> (\<forall>i \<ge> qN q. qdata (bench_qsort_run q) i = qdata q i)"
proof -
  have m: "mset (map a [0..<n]) = elems a 0 n" for a :: "nat \<Rightarrow> u32" and n
    by (simp add: elems_def flip: mset_upt)
  note s = myqsort_sorts [of "qdata q" 0 "qN q"]
  then have "sorted (map (\<lambda>i. sint (myqsort (qdata q) 0 (qN q) i)) [0..<qN q])"
    by (simp add: sorted_iff_nth_mono)
  then show ?thesis using s by (simp only: bench_qsort_run_def m) simp
qed

lemma qsort_witness:
  "let q = \<lparr>qN = 2, qat = 0, qdata = (\<lambda>i. if i = 0 then 5 else 3)\<rparr>
   in sorted (map (\<lambda>i. sint (qdata (bench_qsort_run q) i)) [0..<2])
      \<and> qdata (bench_qsort_run q) 2 = 3"
  using qsort_correct [of "\<lparr>qN = 2, qat = 0, qdata = (\<lambda>i. if i = 0 then 5 else 3)\<rparr>"]
  unfolding Let_def by simp

end
