(* ===== verification/Bench_Bits.thy ===== *)
theory Bench_Bits
  imports Bench_Lib
begin

text \<open>
  The sieve benchmark (\<open>sieve/sieve.c\<close>): a bit set over an array of 32-bit words, and the
  n-queens benchmark (\<open>queen/queen.c\<close>), whose rows are bit sets in \<open>unsigned\<close> words.
\<close>

unbundle bit_operations_syntax

section \<open>The sieve\<close>

text \<open>\<open>N\<close> and the loop variables are positive \<open>int\<close>s and stay below \<open>2 ^ 31\<close> in the settings.\<close>

record sieve =
  vN :: nat
  vans :: u32
  vat :: u32
  primes :: "nat \<Rightarrow> u32"

definition get_bit :: "(nat \<Rightarrow> u32) \<Rightarrow> nat \<Rightarrow> bool" where
  "get_bit p n \<longleftrightarrow> drop_bit (n mod 32) (p (n div 32)) AND 1 \<noteq> 0"

definition clear_bit :: "nat \<Rightarrow> (nat \<Rightarrow> u32) \<Rightarrow> nat \<Rightarrow> u32" where
  "clear_bit n p = p(n div 32 := p (n div 32) AND NOT (push_bit (n mod 32) 1))"

definition bench_sieve_prepare :: "area \<Rightarrow> setting \<Rightarrow> u32 \<Rightarrow> bench \<Rightarrow> (sieve \<times> bench) option" where
  "bench_sieve_prepare ar st ans b =
    (case bench_alloc ar st b (ssize st div 8 + 128) of
       None \<Rightarrow> None
     | Some (p, b) \<Rightarrow>
         Some (\<lparr>vN = unat (ssize st), vans = ans, vat = p,
                primes = fold (\<lambda>i m. m(i := 0xffffffff)) [0..<unat (ssize st) div 32 + 1] (\<lambda>_. 0)\<rparr>, b))"

function clear_multiples :: "nat \<Rightarrow> nat \<Rightarrow> nat \<Rightarrow> (nat \<Rightarrow> u32) \<Rightarrow> nat \<Rightarrow> u32" where
  "clear_multiples n i j p =
    (if 0 < i \<and> j \<le> n then clear_multiples n i (j + i) (clear_bit j p) else p)"
  by pat_completeness auto
termination by (relation "measure (\<lambda>(n, i, j, p). Suc n - j)") auto

function sieve_loop :: "nat \<Rightarrow> nat \<Rightarrow> (nat \<Rightarrow> u32) \<Rightarrow> nat \<Rightarrow> u32" where
  "sieve_loop n i p =
    (if i * i \<le> n
     then sieve_loop n (i + 1) (if get_bit p i then clear_multiples n i (i + i) p else p)
     else p)"
  by pat_completeness auto
termination
proof (relation "measure (\<lambda>(n, i, p). Suc n - i)", goal_cases)
  case (2 n i p)
  then have "i \<le> n" by (metis le_square order_trans)
  then show ?case by simp
qed simp

declare clear_multiples.simps [simp del] sieve_loop.simps [simp del]

definition bench_sieve_run :: "sieve \<Rightarrow> sieve" where
  "bench_sieve_run v =
    (if list_all (get_bit (primes v)) [1..<vN v + 1]
     then (let p = sieve_loop (vN v) 2 (primes v);
               ans = fold (\<lambda>i c. if get_bit p i then c + 1 else c) [2..<vN v + 1] 0
           in v\<lparr>primes := p, vans := ans\<rparr>)
     else v)"

definition bench_sieve_validate :: "setting \<Rightarrow> sieve \<Rightarrow> bool" where
  "bench_sieve_validate st v \<longleftrightarrow> vans v = schecksum st"

section \<open>The queens\<close>

record queen =
  FULL :: u32
  qans :: u32

definition low_bit :: "u32 \<Rightarrow> u32" where
  "low_bit pos = pos AND (NOT pos + 1)"

lemma bit_low_bit: "bit (low_bit x) n \<longleftrightarrow> bit x n \<and> (\<forall>k < n. \<not> bit x k)"
proof (cases "x = 0")
  case True
  then show ?thesis by (simp add: low_bit_def)
next
  case False
  then obtain i where "bit x i" by (metis bit_eq_iff bit_0_eq bot_apply bot_bool_def)
  define c where "c = (LEAST i. bit x i)"
  have c: "bit x c" "\<And>k. k < c \<Longrightarrow> \<not> bit x k"
    unfolding c_def using \<open>bit x i\<close> by (auto intro: LeastI dest: not_less_Least)
  have c32: "c < 32" using c(1) bit_imp_le_length [of x c] by simp
  define y where "y = x AND NOT (push_bit c 1)"
  have "y AND push_bit c 1 = 0" by (rule bit_word_eqI) (auto simp: y_def bit_simps)
  then have "y + push_bit c 1 = y OR push_bit c 1" by (rule word_or_add)
  also have "\<dots> = x"
    by (rule bit_word_eqI) (use c(1) in \<open>auto simp: y_def bit_simps bit_1_iff\<close>)
  finally have "x - 1 = y + (push_bit c 1 - 1)" by (simp add: algebra_simps)
  also have "push_bit c 1 - 1 = (mask c :: u32)" by (simp add: mask_eq_exp_minus_1 push_bit_eq_mult)
  also have "y + mask c = y OR mask c"
    by (rule word_or_add, rule bit_word_eqI) (use c(2) in \<open>auto simp: y_def bit_simps\<close>)
  finally have "x - 1 = y OR mask c" .
  moreover have "low_bit x = x AND NOT (x - 1)"
    unfolding low_bit_def minus_eq_not_plus_1 [symmetric] minus_eq_not_minus_1 ..
  ultimately have "low_bit x = x AND NOT (y OR mask c)" by simp
  then have "bit (low_bit x) n \<longleftrightarrow> n = c"
    using c c32 by (auto simp: y_def bit_simps bit_1_iff)
  then show ?thesis using c by (metis linorder_neqE_nat)
qed

lemma bit_minus_low_bit: "bit (x - low_bit x) n \<longleftrightarrow> bit x n \<and> (\<exists>k < n. bit x k)"
proof -
  let ?y = "x AND NOT (low_bit x)"
  have "?y AND low_bit x = 0" by (rule bit_word_eqI) (auto simp: bit_simps)
  then have "?y + low_bit x = ?y OR low_bit x" by (rule word_or_add)
  also have "\<dots> = x" by (rule bit_word_eqI) (auto simp: bit_simps bit_low_bit)
  finally have "x - low_bit x = ?y" by (simp add: algebra_simps)
  then show ?thesis using bit_imp_le_length [of x n] by (auto simp: bit_simps bit_low_bit)
qed

lemma low_bit_least:
  assumes "x \<noteq> 0"
  obtains c where "bit x c" "\<And>k. k < c \<Longrightarrow> \<not> bit x k" "low_bit x = push_bit c 1"
proof -
  obtain i where "bit x i" using assms by (metis bit_eq_iff bit_0_eq bot_apply bot_bool_def)
  define c where "c = (LEAST i. bit x i)"
  have c: "bit x c" "\<And>k. k < c \<Longrightarrow> \<not> bit x k"
    unfolding c_def using \<open>bit x i\<close> by (auto intro: LeastI dest: not_less_Least)
  have "low_bit x = push_bit c 1"
    by (rule bit_word_eqI) (use c in \<open>auto simp: bit_low_bit bit_simps bit_1_iff intro: linorder_neqE_nat\<close>)
  then show ?thesis using c that by blast
qed

lemma low_bit_le: "low_bit x \<le> x"
  unfolding low_bit_def by (rule word_and_le2)

text \<open>The loop goes through the bits of \<open>pos\<close> from the lowest up.\<close>

function low_bits :: "u32 \<Rightarrow> u32 list" where
  "low_bits pos = (if pos \<noteq> 0 then let p = low_bit pos in p # low_bits (pos - p) else [])"
  by pat_completeness auto
termination
proof (relation "measure unat", goal_cases)
  case (2 pos p)
  then obtain c where "bit pos c" "p = push_bit c 1" "bit p c"
    by (metis low_bit_least bit_low_bit)
  then have "p \<noteq> 0" by (metis bit_0_eq bot_apply bot_bool_def)
  moreover have "p \<le> pos" using 2 low_bit_le by simp
  ultimately have "0 < unat p" "unat p \<le> unat pos" "unat (pos - p) = unat pos - unat p"
    by (simp_all add: word_le_nat_alt unat_sub unat_gt_0)
  then show ?case by simp
qed simp


declare low_bits.simps [simp del]

lemma low_bits_correct:
  "set (low_bits pos) = {push_bit c 1 |c. bit pos c} \<and> distinct (low_bits pos)"
proof (induction pos rule: low_bits.induct)
  case (1 pos)
  show ?case
  proof (cases "pos = 0")
    case True
    then show ?thesis by (subst (1 2) low_bits.simps) simp
  next
    case False
    then obtain c where c: "bit pos c" "\<And>k. k < c \<Longrightarrow> \<not> bit pos k" "low_bit pos = push_bit c 1"
      using low_bit_least [OF False] by blast
    let ?r = "pos - low_bit pos"
    have ih: "set (low_bits ?r) = {push_bit c 1 |c. bit ?r c}" "distinct (low_bits ?r)"
      using 1 [OF False refl] by auto
    have r: "bit ?r n \<longleftrightarrow> bit pos n \<and> n \<noteq> c" for n
      unfolding bit_minus_low_bit using c(1,2) by (metis linorder_neqE_nat)
    have "bit (push_bit c 1 :: u32) c" using c(1) bit_imp_le_length [of pos c] by (simp add: bit_simps)
    moreover have "\<not> bit (push_bit n 1 :: u32) c" if "n \<noteq> c" for n
      using that unfolding bit_push_bit_iff bit_1_iff by auto
    ultimately have "push_bit c 1 \<noteq> (push_bit n 1 :: u32)" if "n \<noteq> c" for n
      using that by metis
    then have "push_bit c 1 \<notin> set (low_bits ?r)" using ih r by auto
    then show ?thesis
      using False ih c r by (subst (1 2) low_bits.simps) (auto simp: Let_def)
  qed
qed

text \<open>Every call fills a free bit of \<open>row\<close>.\<close>

function dfs :: "u32 \<Rightarrow> u32 \<Rightarrow> u32 \<Rightarrow> u32 \<Rightarrow> u32" where
  "dfs full row ld rd =
    (if row = full then 1
     else fold (\<lambda>p ans. ans + dfs full (row OR p) (push_bit 1 (ld OR p)) (drop_bit 1 (rd OR p)))
       (low_bits (full AND NOT (row OR ld OR rd))) 0)"
  by pat_completeness auto
termination
proof (relation "measure (\<lambda>(full, row, ld, rd). unat (NOT row))", goal_cases)
  case (2 full row ld rd p ans)
  then obtain c where c: "bit (full AND NOT (row OR ld OR rd)) c" "p = push_bit c 1"
    by (auto simp: low_bits_correct)
  have c32: "c < 32" using bit_imp_le_length [OF c(1)] by simp
  have "NOT (row OR p) AND p = 0" by (rule bit_word_eqI) (auto simp: bit_simps)
  then have "unat (NOT (row OR p) OR p) = unat (NOT (row OR p)) + unat p" by (rule unat_or_disjoint)
  moreover have "NOT (row OR p) OR p = NOT row"
    by (rule bit_word_eqI) (use c in \<open>auto simp: bit_simps bit_1_iff\<close>)
  moreover have "bit p c" using c(2) c32 by (simp add: bit_simps)
  then have "p \<noteq> 0" by (metis bit_0_eq bot_apply bot_bool_def)
  then have "0 < unat p" by (simp add: unat_gt_0)
  ultimately show ?case by simp
qed simp


declare dfs.simps [simp del]

text \<open>\<open>1 << setting->size\<close> is a shift of an \<open>int\<close>: it overflows for a size above 30, which is
  undefined in C.\<close>

definition bench_queen_prepare :: "setting \<Rightarrow> queen option" where
  "bench_queen_prepare st =
    (if 30 < ssize st then None else Some \<lparr>FULL = push_bit (unat (ssize st)) 1 - 1, qans = 0\<rparr>)"

definition bench_queen_run :: "queen \<Rightarrow> queen" where
  "bench_queen_run q = q\<lparr>qans := dfs (FULL q) 0 0 0\<rparr>"

definition bench_queen_validate :: "setting \<Rightarrow> queen \<Rightarrow> bool" where
  "bench_queen_validate st q \<longleftrightarrow> qans q = schecksum st"

section \<open>The sieve finds the primes\<close>

definition is_prime :: "nat \<Rightarrow> bool" where
  "is_prime n \<longleftrightarrow> 1 < n \<and> (\<forall>d. d dvd n \<longrightarrow> d = 1 \<or> d = n)"

lemma get_bit_iff: "get_bit p n \<longleftrightarrow> bit (p (n div 32)) (n mod 32)"
  by (simp add: get_bit_def and_one_eq bit_iff_odd_drop_bit odd_iff_mod_2_eq_one)

lemma get_clear: "get_bit (clear_bit m p) n \<longleftrightarrow> get_bit p n \<and> n \<noteq> m"
proof -
  have "n = m \<longleftrightarrow> n div 32 = m div 32 \<and> n mod 32 = m mod 32" by (metis div_mult_mod_eq)
  then show ?thesis
    by (auto simp: get_bit_iff clear_bit_def bit_simps bit_1_iff)
qed

lemma get_clear_multiples:
  assumes "0 < i"
  shows "get_bit (clear_multiples n i j p) m \<longleftrightarrow> get_bit p m \<and> \<not> (j \<le> m \<and> m \<le> n \<and> i dvd (m - j))"
  using assms
proof (induction n i j p rule: clear_multiples.induct)
  case (1 n i j p)
  show ?case
  proof (cases "j \<le> n")
    case True
    have "j \<le> m \<and> i dvd (m - j) \<longleftrightarrow> m = j \<or> (j + i \<le> m \<and> i dvd (m - (j + i)))"
    proof (cases "j + i \<le> m")
      case True
      then have "m - j = (m - (j + i)) + i" by simp
      then have "i dvd m - j \<longleftrightarrow> i dvd m - (j + i)" by simp
      then show ?thesis using True \<open>0 < i\<close> by auto
    next
      case False
      then show ?thesis using \<open>0 < i\<close> by (auto dest: dvd_imp_le simp: not_le)
    qed
    then show ?thesis using 1 True by (subst clear_multiples.simps) (auto simp: get_clear)
  next
    case False
    then show ?thesis by (subst clear_multiples.simps) auto
  qed
qed

lemma clear_multiples_frame: "n div 32 < q \<Longrightarrow> clear_multiples n i j p q = p q"
proof (induction n i j p rule: clear_multiples.induct)
  case (1 n i j p)
  have "j \<le> n \<Longrightarrow> j div 32 < q" using 1(2) div_le_mono [of j n 32] by simp
  then have "j \<le> n \<Longrightarrow> clear_bit j p q = p q" by (simp add: clear_bit_def)
  then show ?case using 1 by (subst clear_multiples.simps) auto
qed

lemma sieve_loop_frame: "n div 32 < q \<Longrightarrow> sieve_loop n i p q = p q"
proof (induction n i p rule: sieve_loop.induct)
  case (1 n i p)
  then show ?case by (subst sieve_loop.simps) (auto simp: clear_multiples_frame)
qed

lemma sieve_loop_bits:
  assumes "2 \<le> i" and "\<forall>m. 2 \<le> m \<and> m \<le> n \<longrightarrow> get_bit p m = (\<forall>d. 2 \<le> d \<and> d < i \<and> d < m \<longrightarrow> \<not> d dvd m)"
    and "2 \<le> m" "m \<le> n"
  shows "get_bit (sieve_loop n i p) m \<longleftrightarrow> is_prime m"
  using assms
proof (induction n i p rule: sieve_loop.induct)
  case (1 n i p)
  show ?case
  proof (cases "i * i \<le> n")
    case True
    let ?q = "if get_bit p i then clear_multiples n i (i + i) p else p"
    have "get_bit ?q k = (\<forall>d. 2 \<le> d \<and> d < i + 1 \<and> d < k \<longrightarrow> \<not> d dvd k)" if k: "2 \<le> k" "k \<le> n" for k
    proof (cases "get_bit p i")
      case True
      have "i + i \<le> k \<and> i dvd (k - (i + i)) \<longleftrightarrow> i < k \<and> i dvd k"
      proof (cases "i + i \<le> k")
        case True
        then have "k = (k - (i + i)) + 2 * i" by simp
        then have "i dvd k - (i + i) \<longleftrightarrow> i dvd k" by (metis dvd_add_times_triv_right_iff)
        then show ?thesis using True 1(2) by auto
      next
        case False
        then have "\<not> (i < k \<and> i dvd k)" using 1(2) by (auto elim!: dvdE) (metis mult_2_right mult_le_mono2 Suc_leI One_nat_def less_one linorder_neqE_nat mult_0_right mult_1_right not_less_zero numeral_2_eq_2)
        then show ?thesis using False by simp
      qed
      then show ?thesis using True 1(3) k 1(2) by (auto simp: get_clear_multiples less_Suc_eq)
    next
      case False
      have "i \<le> n" using \<open>i * i \<le> n\<close> by (metis le_square order_trans)
      then obtain d where d: "2 \<le> d" "d < i" "d dvd i" using False 1(2,3) by blast
      then have "\<not> (i dvd k \<and> i < k) \<or> (2 \<le> d \<and> d < i \<and> d < k \<and> d dvd k)" by (auto intro: dvd_trans)
      then show ?thesis using False 1(3) k by (auto simp: less_Suc_eq)
    qed
    then show ?thesis using 1 True by (subst sieve_loop.simps) simp
  next
    case False
    have "\<exists>d. 2 \<le> d \<and> d < i \<and> d < m \<and> d dvd m" if comp: "d dvd m" "d \<noteq> 1" "d \<noteq> m" for d
    proof -
      obtain e where e: "m = d * e" using comp(1) by (rule dvdE)
      have nz: "0 < d" "0 < e" "e \<noteq> 1" using e comp 1(4) by (auto intro: gr0I)
      then have "2 \<le> d" "2 \<le> e" using comp(2) by auto
      then have de: "2 \<le> d" "2 \<le> e" "d < m" "e < m" using nz e by simp_all
      have "d < i \<or> e < i"
        using e False 1(5) mult_le_mono [of i d i e] by (meson leI le_trans)
      then show ?thesis using e de by auto
    qed
    then have "is_prime m \<longleftrightarrow> (\<forall>d. 2 \<le> d \<and> d < i \<and> d < m \<longrightarrow> \<not> d dvd m)"
      using 1(4) by (fastforce simp: is_prime_def)
    then show ?thesis using False 1(3-5) by (subst sieve_loop.simps) simp
  qed
qed


lemma sieve_all_set:
  assumes "\<forall>q \<le> n div 32. p q = 0xffffffff" and "m \<le> n"
  shows "get_bit p m"
proof -
  have "p (m div 32) = mask 32" using assms div_le_mono [of m n 32] by (simp add: mask_eq_exp_minus_1)
  then show ?thesis by (simp add: get_bit_iff bit_mask_iff)
qed

lemma count_fold: "fold (\<lambda>i c. if P i then c + 1 else c) xs c = c + (of_nat (length (filter P xs)) :: 'a::len word)"
  by (induction xs arbitrary: c) (simp_all add: algebra_simps)

lemma prime_count: "length (filter is_prime [2..<Suc n]) = card {p. is_prime p \<and> p \<le> n}"
proof -
  have "{p. is_prime p \<and> p \<le> n} = set (filter is_prime [2..<Suc n])"
    by (auto simp: is_prime_def)
  then show ?thesis by (metis distinct_card distinct_filter distinct_upt)
qed

lemma sieve_run_primes:
  assumes "\<forall>q \<le> vN v div 32. primes v q = 0xffffffff"
  shows "vans (bench_sieve_run v) = of_nat (card {p. is_prime p \<and> p \<le> vN v})
    \<and> (\<forall>m. 2 \<le> m \<and> m \<le> vN v \<longrightarrow> get_bit (primes (bench_sieve_run v)) m = is_prime m)
    \<and> (\<forall>q > vN v div 32. primes (bench_sieve_run v) q = primes v q)"
proof -
  let ?p = "sieve_loop (vN v) 2 (primes v)"
  note full = sieve_all_set [OF assms]
  have "get_bit ?p m = is_prime m" if "2 \<le> m" "m \<le> vN v" for m
    by (rule sieve_loop_bits) (use full that in auto)
  moreover from this have "filter (get_bit ?p) [2..<Suc (vN v)] = filter is_prime [2..<Suc (vN v)]"
    by (intro filter_cong) auto
  moreover have "list_all (get_bit (primes v)) [1..<vN v + 1]" unfolding list_all_iff using full by auto
  then have "bench_sieve_run v = v\<lparr>primes := ?p, vans := of_nat (length (filter (get_bit ?p) [2..<Suc (vN v)]))\<rparr>"
    unfolding bench_sieve_run_def count_fold by (simp only: if_True Let_def Suc_eq_plus1 add_0)
  ultimately show ?thesis
    using prime_count [of "vN v"] by (simp add: sieve_loop_frame del: upt_Suc)
qed

lemma fold_fill: "fold (\<lambda>i m. m(i := c)) [0..<n] a q = (if q < n then c else a q)"
  by (induction n) auto

section \<open>The search counts the placements\<close>

text \<open>Safe placements of queens: entry \<open>i\<close> is the column of the queen of row \<open>i\<close>.\<close>

definition safe :: "nat list \<Rightarrow> bool" where
  "safe qs \<longleftrightarrow> (\<forall>j < length qs. \<forall>i < j.
     qs ! i \<noteq> qs ! j \<and> qs ! i + (j - i) \<noteq> qs ! j \<and> qs ! i \<noteq> qs ! j + (j - i))"

definition placements :: "nat \<Rightarrow> nat list set" where
  "placements n = {qs. length qs = n \<and> (\<forall>c \<in> set qs. c < n) \<and> safe qs}"

definition extending :: "nat \<Rightarrow> nat list \<Rightarrow> nat list set" where
  "extending n qs = {rs \<in> placements n. take (length qs) rs = qs}"

text \<open>The three words of a call describe the columns that the queens on the board attack.\<close>

definition describes :: "nat \<Rightarrow> nat list \<Rightarrow> u32 \<Rightarrow> u32 \<Rightarrow> u32 \<Rightarrow> bool" where
  "describes n qs row ld rd \<longleftrightarrow>
    (\<forall>c. bit row c \<longleftrightarrow> c \<in> set qs)
    \<and> (\<forall>c < n. bit ld c \<longleftrightarrow> (\<exists>i < length qs. qs ! i + (length qs - i) = c))
    \<and> (\<forall>c. bit rd c \<longleftrightarrow> (\<exists>i < length qs. qs ! i = c + (length qs - i)))"

definition free_columns :: "nat \<Rightarrow> nat list \<Rightarrow> nat set" where
  "free_columns n qs = {c. c < n \<and> safe (qs @ [c])}"

lemma safe_snoc:
  "safe (qs @ [c]) \<longleftrightarrow> safe qs \<and> (\<forall>i < length qs. qs ! i \<noteq> c \<and> qs ! i + (length qs - i) \<noteq> c \<and> qs ! i \<noteq> c + (length qs - i))"
  by (auto simp: safe_def nth_append less_Suc_eq)

lemma finite_placements: "finite (placements n)"
proof (rule finite_subset)
  show "placements n \<subseteq> {qs. set qs \<subseteq> {..<n} \<and> length qs = n}" by (auto simp: placements_def)
  show "finite {qs. set qs \<subseteq> {..<n} \<and> length qs = n}" by (rule finite_lists_length_eq) simp
qed

lemma ex_snoc:
  "(\<exists>i < length (qs @ [c]). P ((qs @ [c]) ! i) i) \<longleftrightarrow> (\<exists>i < length qs. P (qs ! i) i) \<or> P c (length qs)"
proof -
  have "(\<exists>i < length qs. P ((qs @ [c]) ! i) i) \<longleftrightarrow> (\<exists>i < length qs. P (qs ! i) i)"
    by (rule ex_cong1, rule conj_cong) (simp_all add: nth_append)
  then show ?thesis by (simp add: Ex_less_Suc disj_commute)
qed

lemma describes_step:
  fixes p :: u32
  assumes "describes n qs row ld rd" and p: "\<And>k. bit p k \<longleftrightarrow> k = c" and "n \<le> 31"
  shows "describes n (qs @ [c]) (row OR p) (push_bit 1 (ld OR p)) (drop_bit 1 (rd OR p))"
proof -
  have r: "\<And>c. bit row c \<longleftrightarrow> c \<in> set qs"
    and l: "\<And>c. c < n \<Longrightarrow> bit ld c \<longleftrightarrow> (\<exists>i < length qs. qs ! i + (length qs - i) = c)"
    and d: "\<And>c. bit rd c \<longleftrightarrow> (\<exists>i < length qs. qs ! i = c + (length qs - i))"
    using assms(1) unfolding describes_def by auto
  have "bit (row OR p) k \<longleftrightarrow> k \<in> set (qs @ [c])" for k
    by (auto simp: bit_or_iff p r)
  moreover have "bit (push_bit 1 (ld OR p)) k \<longleftrightarrow>
      (\<exists>i < length (qs @ [c]). (qs @ [c]) ! i + (length (qs @ [c]) - i) = k)" if k: "k < n" for k
  proof (cases k)
    case 0
    then show ?thesis unfolding bit_push_bit_iff by auto
  next
    case (Suc k')
    have "bit (push_bit 1 (ld OR p)) k \<longleftrightarrow> bit ld k' \<or> k' = c"
      using k assms(3) Suc unfolding bit_push_bit_iff bit_or_iff p by simp
    also have "\<dots> \<longleftrightarrow> (\<exists>i < length qs. qs ! i + (length qs - i) = k') \<or> k' = c"
      using k Suc l [of k'] by simp
    also have "\<dots> \<longleftrightarrow> (\<exists>i < length (qs @ [c]). (qs @ [c]) ! i + (length (qs @ [c]) - i) = k)"
      unfolding ex_snoc [of qs c "\<lambda>q i. q + (length (qs @ [c]) - i) = Suc k'"] Suc
      by (intro disj_cong ex_cong1 conj_cong) auto
    finally show ?thesis .
  qed
  moreover have "bit (drop_bit 1 (rd OR p)) k \<longleftrightarrow>
      (\<exists>i < length (qs @ [c]). (qs @ [c]) ! i = k + (length (qs @ [c]) - i))" for k
  proof -
    have "bit (drop_bit 1 (rd OR p)) k \<longleftrightarrow> (\<exists>i < length qs. qs ! i = Suc k + (length qs - i)) \<or> Suc k = c"
      unfolding bit_drop_bit_eq comp_apply bit_or_iff p d by simp
    also have "\<dots> \<longleftrightarrow> (\<exists>i < length (qs @ [c]). (qs @ [c]) ! i = k + (length (qs @ [c]) - i))"
      unfolding ex_snoc [of qs c "\<lambda>q i. q = k + (length (qs @ [c]) - i)"]
      by (intro disj_cong ex_cong1 conj_cong) auto
    finally show ?thesis .
  qed
  ultimately show ?thesis unfolding describes_def by blast
qed

lemma bit_push_one: "c < 32 \<Longrightarrow> bit (push_bit c 1 :: u32) k \<longleftrightarrow> k = c"
  unfolding bit_push_bit_iff bit_1_iff by auto

lemma free_bits:
  assumes "describes n qs row ld rd" and "safe qs" and "n \<le> 31"
  shows "bit (mask n AND NOT (row OR ld OR rd)) c \<longleftrightarrow> c \<in> free_columns n qs"
proof (cases "c < n")
  case True
  then have "bit (mask n AND NOT (row OR ld OR rd)) c \<longleftrightarrow> \<not> bit row c \<and> \<not> bit ld c \<and> \<not> bit rd c"
    using assms(3) unfolding bit_and_iff bit_mask_iff bit_not_iff_eq bit_or_iff by simp
  also have "\<dots> \<longleftrightarrow> c \<in> free_columns n qs"
    using assms(1,2) True unfolding describes_def free_columns_def safe_snoc mem_Collect_eq
    by (auto simp: in_set_conv_nth)
  finally show ?thesis .
qed (simp add: bit_and_iff bit_mask_iff free_columns_def)

lemma full_board:
  assumes "describes n qs row ld rd" and "safe qs" and "\<forall>c \<in> set qs. c < n" and "n \<le> 31"
  shows "row = mask n \<longleftrightarrow> length qs = n"
proof -
  have "distinct qs" unfolding distinct_conv_nth
    using assms(2) by (metis linorder_neqE_nat safe_def)
  have "bit (mask n :: u32) c \<longleftrightarrow> c < n" for c using assms(4) by (auto simp: bit_mask_iff)
  then have "row = mask n \<longleftrightarrow> (\<forall>c. bit row c \<longleftrightarrow> c < n)"
    by (auto intro: bit_word_eqI)
  also have "\<dots> \<longleftrightarrow> (\<forall>c. c \<in> set qs \<longleftrightarrow> c < n)"
    using assms(1) by (simp add: describes_def)
  also have "\<dots> \<longleftrightarrow> set qs = {..<n}" by auto
  also have "\<dots> \<longleftrightarrow> length qs = n"
    using assms(3) \<open>distinct qs\<close> by (metis card_lessThan card_subset_eq distinct_card finite_lessThan lessThan_iff subsetI)
  finally show ?thesis .
qed

lemma extending_split:
  assumes "length qs < n"
  shows "extending n qs = (\<Union>c \<in> free_columns n qs. extending n (qs @ [c]))"
proof -
  have "\<exists>c. c \<in> free_columns n qs \<and> rs \<in> extending n (qs @ [c])" if rs: "rs \<in> extending n qs" for rs
  proof (intro exI conjI)
    have t: "take (Suc (length qs)) rs = qs @ [rs ! length qs]" "length rs = n"
      using rs assms by (auto simp: extending_def placements_def take_Suc_conv_app_nth)
    have "safe (take k rs)" for k using rs by (auto simp: extending_def placements_def safe_def)
    from this [of "Suc (length qs)"] show "rs ! length qs \<in> free_columns n qs"
      using t rs assms by (auto simp: free_columns_def extending_def placements_def)
    show "rs \<in> extending n (qs @ [rs ! length qs])" using t rs by (simp add: extending_def)
  qed
  moreover have "rs \<in> extending n qs" if "rs \<in> extending n (qs @ [c])" for rs c
  proof -
    have "take (Suc (length qs)) rs = qs @ [c]" "rs \<in> placements n" using that by (auto simp: extending_def)
    moreover have "take (length qs) rs = take (length qs) (take (Suc (length qs)) rs)" by (simp add: min_def)
    ultimately show ?thesis by (simp add: extending_def)
  qed
  ultimately show ?thesis by blast
qed

lemma dfs_counts:
  assumes "describes n qs row ld rd" and "safe qs" and "\<forall>c \<in> set qs. c < n" and "length qs \<le> n" and "n \<le> 31"
  shows "dfs (mask n) row ld rd = of_nat (card (extending n qs))"
  using assms
proof (induction "n - length qs" arbitrary: qs row ld rd)
  case 0
  then have "row = mask n" "length qs = n" using full_board by auto
  moreover have "extending n qs = {qs}"
    using 0 calculation(2) by (auto simp: extending_def placements_def)
  ultimately show ?case by (subst dfs.simps) simp
next
  case (Suc d)
  let ?pos = "mask n AND NOT (row OR ld OR rd)"
  let ?f = "\<lambda>p. dfs (mask n) (row OR p) (push_bit 1 (ld OR p)) (drop_bit 1 (rd OR p))"
  have k: "length qs < n" using Suc.hyps(2) by simp
  then have row: "row \<noteq> mask n" using full_board [OF Suc.prems(1-3,5)] by simp
  have fin: "finite (free_columns n qs)" by (simp add: free_columns_def)
  have fold: "fold (\<lambda>p ans. ans + ?f p) ps a = a + (\<Sum>p \<in> set ps. ?f p)" if "distinct ps" for ps a
    using that by (induction ps arbitrary: a) (simp_all add: add.assoc)
  have ps: "set (low_bits ?pos) = (\<lambda>c. push_bit c 1) ` free_columns n qs"
    using free_bits [OF Suc.prems(1,2,5)] by (auto simp: low_bits_correct)
  have f: "?f (push_bit c 1) = of_nat (card (extending n (qs @ [c])))" if c: "c \<in> free_columns n qs" for c
  proof (rule Suc.hyps(1))
    have "c < n" "safe (qs @ [c])" using c by (auto simp: free_columns_def)
    then show "safe (qs @ [c])" "\<forall>c \<in> set (qs @ [c]). c < n" using Suc.prems(3) by auto
    show "describes n (qs @ [c]) (row OR push_bit c 1) (push_bit 1 (ld OR push_bit c 1)) (drop_bit 1 (rd OR push_bit c 1))"
      by (rule describes_step [OF Suc.prems(1) bit_push_one Suc.prems(5)]) (use \<open>c < n\<close> Suc.prems(5) in simp)
  qed (use Suc.hyps(2) Suc.prems k in auto)
  have inj: "inj_on (\<lambda>c. push_bit c 1 :: u32) (free_columns n qs)"
  proof (rule inj_onI)
    fix c e assume "c \<in> free_columns n qs" "e \<in> free_columns n qs" "push_bit c 1 = (push_bit e 1 :: u32)"
    then show "c = e" using bit_push_one [of c c] bit_push_one [of e c] Suc.prems(5)
      by (auto simp: free_columns_def)
  qed
  have "dfs (mask n) row ld rd = (\<Sum>p \<in> set (low_bits ?pos). ?f p)"
    using row fold [of "low_bits ?pos" 0] low_bits_correct [of ?pos]
    by (subst dfs.simps) (simp only: if_False add_0 simp_thms)
  also have "\<dots> = (\<Sum>c \<in> free_columns n qs. of_nat (card (extending n (qs @ [c]))))"
    unfolding ps sum.reindex [OF inj] comp_def by (rule sum.cong [OF refl]) (rule f)
  also have "\<dots> = of_nat (\<Sum>c \<in> free_columns n qs. card (extending n (qs @ [c])))" by simp
  also have "(\<Sum>c \<in> free_columns n qs. card (extending n (qs @ [c]))) = card (extending n qs)"
  proof -
    have "finite (extending n (qs @ [c]))" for c
      by (rule finite_subset [OF _ finite_placements [of n]]) (auto simp: extending_def)
    moreover have "extending n (qs @ [c]) \<inter> extending n (qs @ [e]) = {}" if "c \<noteq> e" for c e
      using that by (auto simp: extending_def)
    ultimately show ?thesis
      unfolding extending_split [OF k] using fin by (subst card_UN_disjoint) auto
  qed
  finally show ?case .
qed

section \<open>Properties\<close>

text \<open>
  C35: after its preparation the sieve counts the primes up to \<open>N\<close>; its bits from 2 to \<open>N\<close> are
  then exactly the primes, and it has written no word behind that of \<open>N\<close>.
\<close>

theorem sieve_correct:
  assumes "bench_sieve_prepare ar st ans b = Some (v, b')"
  shows "vans (bench_sieve_run v) = of_nat (card {p. is_prime p \<and> p \<le> unat (ssize st)})
    \<and> (\<forall>m. 2 \<le> m \<and> m \<le> unat (ssize st) \<longrightarrow> get_bit (primes (bench_sieve_run v)) m = is_prime m)
    \<and> (\<forall>q > unat (ssize st) div 32. primes (bench_sieve_run v) q = 0)"
proof -
  have v: "vN v = unat (ssize st)"
    "primes v = fold (\<lambda>i m. m(i := 0xffffffff)) [0..<unat (ssize st) div 32 + 1] (\<lambda>_. 0)"
    using assms by (auto simp: bench_sieve_prepare_def split: option.splits)
  then have "\<forall>q \<le> vN v div 32. primes v q = 0xffffffff" unfolding v fold_fill by auto
  from sieve_run_primes [OF this] show ?thesis unfolding v fold_fill by auto
qed

theorem sieve_witness:
  "\<exists>v b'. bench_sieve_prepare \<lparr>heap_start = 256, heap_end = 4096\<rparr> \<lparr>ssize = 100, mlim = 1024, sref = 0, schecksum = 25\<rparr>
      0 (bench_init\<lparr>hbrk := 256\<rparr>) = Some (v, b')
    \<and> vans (bench_sieve_run v) = of_nat (card {p. is_prime p \<and> p \<le> 100})"
proof -
  let ?a = "\<lparr>heap_start = 256, heap_end = 4096\<rparr>" and ?st = "\<lparr>ssize = 100, mlim = 1024, sref = 0, schecksum = 25\<rparr>"
  obtain v b' where v: "bench_sieve_prepare ?a ?st 0 (bench_init\<lparr>hbrk := 256\<rparr>) = Some (v, b')"
    using bench_alloc_eq [of "bench_init\<lparr>hbrk := 256\<rparr>" 140 ?a ?st]
    by (simp add: bench_sieve_prepare_def round8_def)
  then show ?thesis using sieve_correct [OF v] by auto
qed

lemma placements_bound: "card (placements n) \<le> fact n"
proof -
  let ?D = "{qs. length qs = n \<and> distinct qs \<and> set qs \<subseteq> {..<n}}"
  have "placements n \<subseteq> ?D"
    by (auto simp: placements_def safe_def distinct_conv_nth) (metis nat_neq_iff)
  moreover have "finite ?D" by (rule finite_subset [OF _ finite_lists_length_eq [of "{..<n}" n]]) auto
  moreover have "card ?D = \<Prod>{card {..<n} - n + 1..card {..<n}}" by (rule card_lists_distinct_length_eq) simp_all
  ultimately show ?thesis using card_mono [of ?D "placements n"] by (simp add: fact_prod)
qed

lemma fact_12: "n \<le> 12 \<Longrightarrow> (fact n :: nat) < 4294967296"
  using fact_mono_nat [of n 12] by (simp add: fact_numeral)

text \<open>
  C15: for every size up to 30, the largest for which the preparation is defined, the search
  returns the number of ways to place \<open>n\<close> queens on a board of side \<open>n\<close> such that none attacks
  another, modulo \<open>2 ^ 32\<close>, the range of its \<open>unsigned\<close> counter; up to size 12 that is the number
  itself.
\<close>

theorem queen_correct:
  assumes "ssize st \<le> 30"
  shows "\<exists>q. bench_queen_prepare st = Some q
    \<and> unat (qans (bench_queen_run q)) = card (placements (unat (ssize st))) mod 2 ^ 32
    \<and> (unat (ssize st) \<le> 12 \<longrightarrow> unat (qans (bench_queen_run q)) = card (placements (unat (ssize st))))"
proof -
  let ?n = "unat (ssize st)" and ?q = "\<lparr>FULL = mask (unat (ssize st)), qans = 0\<rparr>"
  have "?n \<le> 31" using assms by (simp add: word_le_nat_alt)
  moreover have "describes ?n [] 0 0 0" "safe []" by (simp_all add: describes_def safe_def)
  moreover have "extending ?n [] = placements ?n" by (simp add: extending_def)
  ultimately have "dfs (mask ?n) 0 0 0 = of_nat (card (placements ?n))"
    using dfs_counts [of ?n "[]" 0 0 0] by simp
  then have u: "unat (qans (bench_queen_run ?q)) = card (placements ?n) mod 2 ^ 32"
    by (simp add: bench_queen_run_def unat_of_nat)
  have "?n \<le> 12 \<Longrightarrow> card (placements ?n) mod 2 ^ 32 = card (placements ?n)"
    using placements_bound [of ?n] fact_12 [of ?n] by simp
  moreover have "bench_queen_prepare st = Some ?q"
    using assms by (simp add: bench_queen_prepare_def mask_eq_exp_minus_1 push_bit_eq_mult not_less)
  ultimately show ?thesis using u by auto
qed

theorem queen_witness:
  "\<exists>q. bench_queen_prepare \<lparr>ssize = 8, mlim = 0, sref = 0, schecksum = 0x5c\<rparr> = Some q
    \<and> unat (qans (bench_queen_run q)) = card (placements 8)"
  using queen_correct [of "\<lparr>ssize = 8, mlim = 0, sref = 0, schecksum = 0x5c\<rparr>"] by auto

end
