(* ===== verification/Bench_Fib.thy ===== *)
theory Bench_Fib
  imports Bench_Lib Arrays
begin

text \<open>
  The Fibonacci benchmark (\<open>fib/fib.c\<close>): the power of a companion matrix by repeated
  squaring, over 32-bit words with wrap-around.
\<close>

record fib =
  fM :: nat
  at_A :: u32
  at_T :: u32
  at_ans :: u32
  at_tmp :: u32
  fA :: "nat \<Rightarrow> u32"
  fT :: "nat \<Rightarrow> u32"
  fans :: "nat \<Rightarrow> u32"
  ftmp :: "nat \<Rightarrow> u32"

definition fib_N :: nat where
  "fib_N = 2147483603"

definition put_at :: "nat \<Rightarrow> nat \<Rightarrow> nat \<Rightarrow> u32 \<Rightarrow> (nat \<Rightarrow> u32) \<Rightarrow> nat \<Rightarrow> u32" where
  "put_at M i j data m = m(i * M + j := data)"

definition get_at :: "nat \<Rightarrow> (nat \<Rightarrow> u32) \<Rightarrow> nat \<Rightarrow> nat \<Rightarrow> u32" where
  "get_at M m i j = m (i * M + j)"

definition mult :: "nat \<Rightarrow> (nat \<Rightarrow> u32) \<Rightarrow> (nat \<Rightarrow> u32) \<Rightarrow> (nat \<Rightarrow> u32) \<Rightarrow> nat \<Rightarrow> u32" where
  "mult M c a b = fold (\<lambda>(i, j) c.
     fold (\<lambda>k c. put_at M i j (get_at M c i j + get_at M a i k * get_at M b k j) c) [0..<M]
       (put_at M i j 0 c)) (cells M) c"

definition assign :: "nat \<Rightarrow> (nat \<Rightarrow> u32) \<Rightarrow> (nat \<Rightarrow> u32) \<Rightarrow> nat \<Rightarrow> u32" where
  "assign M a b = fold (\<lambda>(i, j) a. put_at M i j (get_at M b i j) a) (cells M) a"

definition bench_fib_prepare :: "area \<Rightarrow> setting \<Rightarrow> bench \<Rightarrow> (fib \<times> bench) option" where
  "bench_fib_prepare ar st b =
    (let sz = 4 * ssize st * ssize st
     in map_option (\<lambda>(ps, b).
          (\<lparr>fM = unat (ssize st), at_A = ps ! 0, at_T = ps ! 1, at_ans = ps ! 2, at_tmp = ps ! 3,
            fA = (\<lambda>_. 0), fT = (\<lambda>_. 0), fans = (\<lambda>_. 0), ftmp = (\<lambda>_. 0)\<rparr>, b))
        (alloc_seq (bench_alloc ar st) [sz, sz, sz, sz] b))"

definition fib_init_step :: "nat \<Rightarrow> nat \<Rightarrow> fib \<Rightarrow> fib" where
  "fib_init_step i j f =
    (let x = (if i = fM f - 1 \<or> j = i + 1 then 1 else 0)
     in f\<lparr>fA := put_at (fM f) i j x (fA f), fT := put_at (fM f) i j x (fT f),
          fans := put_at (fM f) i j (if i = j then 1 else 0) (fans f)\<rparr>)"

definition fib_init :: "fib \<Rightarrow> fib" where
  "fib_init f = fold (\<lambda>(i, j). fib_init_step i j) (cells (fM f)) f"

definition fib_mul_ans :: "fib \<Rightarrow> fib" where
  "fib_mul_ans f =
    (let f = f\<lparr>ftmp := mult (fM f) (ftmp f) (fans f) (fT f)\<rparr>
     in f\<lparr>fans := assign (fM f) (fans f) (ftmp f)\<rparr>)"

definition fib_square :: "fib \<Rightarrow> fib" where
  "fib_square f =
    (let f = f\<lparr>ftmp := mult (fM f) (ftmp f) (fT f) (fT f)\<rparr>
     in f\<lparr>fT := assign (fM f) (fT f) (ftmp f)\<rparr>)"

fun fib_loop :: "nat \<Rightarrow> fib \<Rightarrow> fib" where
  "fib_loop n f =
    (if n > 0 then fib_loop (n div 2) (fib_square (if odd n then fib_mul_ans f else f)) else f)"

declare fib_loop.simps [simp del]

definition bench_fib_run :: "fib \<Rightarrow> fib" where
  "bench_fib_run f = fib_loop fib_N (fib_init f)"

definition bench_fib_validate :: "setting \<Rightarrow> fib \<Rightarrow> bool" where
  "bench_fib_validate st f \<longleftrightarrow> get_at (fM f) (fans f) (fM f - 1) (fM f - 1) = schecksum st"

section \<open>The specification\<close>

text \<open>\<open>f(n) = f(n-1) + ... + f(n-m) mod 2^32\<close>, after \<open>m - 1\<close> zeros and a one.\<close>

function fibm :: "nat \<Rightarrow> nat \<Rightarrow> u32" where
  "fibm m n =
    (if n + 1 < m then 0 else if n + 1 = m then 1 else \<Sum>k \<leftarrow> [0..<m]. fibm m (n - 1 - k))"
  by pat_completeness auto
termination by (relation "measure snd") auto

declare fibm.simps [simp del]

text \<open>Matrices as functions of row and column, 0 outside.\<close>

definition entry :: "nat \<Rightarrow> (nat \<Rightarrow> u32) \<Rightarrow> nat \<Rightarrow> nat \<Rightarrow> u32" where
  "entry M a i j = (if i < M \<and> j < M then a (i * M + j) else 0)"

definition mprod :: "nat \<Rightarrow> (nat \<Rightarrow> nat \<Rightarrow> u32) \<Rightarrow> (nat \<Rightarrow> nat \<Rightarrow> u32) \<Rightarrow> nat \<Rightarrow> nat \<Rightarrow> u32" where
  "mprod M f g i j = (\<Sum>k<M. f i k * g k j)"

definition unit_matrix :: "nat \<Rightarrow> nat \<Rightarrow> nat \<Rightarrow> u32" where
  "unit_matrix M i j = (if i = j \<and> i < M then 1 else 0)"

primrec mpow :: "nat \<Rightarrow> (nat \<Rightarrow> nat \<Rightarrow> u32) \<Rightarrow> nat \<Rightarrow> nat \<Rightarrow> nat \<Rightarrow> u32" where
  "mpow M f 0 = unit_matrix M"
| "mpow M f (Suc n) = mprod M (mpow M f n) f"

definition inside :: "nat \<Rightarrow> (nat \<Rightarrow> nat \<Rightarrow> u32) \<Rightarrow> bool" where
  "inside M f \<longleftrightarrow> (\<forall>i j. \<not> (i < M \<and> j < M) \<longrightarrow> f i j = 0)"

lemma mprod_assoc: "mprod M (mprod M f g) h = mprod M f (mprod M g h)"
proof (intro ext)
  fix i j
  have "mprod M (mprod M f g) h i j = (\<Sum>k<M. \<Sum>l<M. f i l * g l k * h k j)"
    by (simp add: mprod_def sum_distrib_right)
  also have "\<dots> = (\<Sum>l<M. \<Sum>k<M. f i l * g l k * h k j)" by (rule sum.swap)
  also have "\<dots> = mprod M f (mprod M g h) i j"
    by (simp add: mprod_def sum_distrib_left mult.assoc)
  finally show "mprod M (mprod M f g) h i j = mprod M f (mprod M g h) i j" .
qed

lemma mprod_unit: "inside M f \<Longrightarrow> mprod M (unit_matrix M) f = f" "inside M f \<Longrightarrow> mprod M f (unit_matrix M) = f"
proof -
  assume f: "inside M f"
  have "mprod M (unit_matrix M) f i j = (\<Sum>k<M. if k = i then f i j else 0)" for i j
    unfolding mprod_def by (rule sum.cong) (auto simp: unit_matrix_def)
  then show "mprod M (unit_matrix M) f = f" using f by (auto simp: fun_eq_iff inside_def)
  have "mprod M f (unit_matrix M) i j = (\<Sum>k<M. if k = j then f i j else 0)" for i j
    unfolding mprod_def by (rule sum.cong) (auto simp: unit_matrix_def)
  then show "mprod M f (unit_matrix M) = f" using f by (auto simp: fun_eq_iff inside_def)
qed

lemma inside_mprod: "inside M f \<Longrightarrow> inside M g \<Longrightarrow> inside M (mprod M f g)"
  by (auto simp: inside_def mprod_def)

lemma inside_mpow: "inside M f \<Longrightarrow> inside M (mpow M f n)"
proof (induction n)
  case 0
  then show ?case by (simp add: inside_def unit_matrix_def)
qed (simp add: inside_mprod)

lemma inside_entry: "inside M (entry M a)"
  by (simp add: inside_def entry_def)

lemma mpow_add: "inside M f \<Longrightarrow> mpow M f (m + n) = mprod M (mpow M f m) (mpow M f n)"
  by (induction n) (simp_all add: mprod_unit inside_mpow mprod_assoc)

lemma mpow_square: "inside M f \<Longrightarrow> mpow M (mprod M f f) n = mpow M f (2 * n)"
proof (induction n)
  case (Suc n)
  have "mpow M f (2 * Suc n) = mprod M (mpow M f (2 * n)) (mpow M f 2)"
    using mpow_add [OF Suc.prems, of "2 * n" 2] by simp
  also have "mpow M f 2 = mprod M f f" using Suc.prems by (simp add: numeral_2_eq_2 mprod_unit)
  finally show ?case using Suc by simp
qed simp

section \<open>The routines\<close>

lemma entry_mult: "entry M (mult M c a b) = mprod M (entry M a) (entry M b)"
proof (intro ext)
  fix i j
  have "mult M c a b (i * M + j) = (\<Sum>k<M. a (i * M + k) * b (k * M + j))" if "i < M" "j < M"
    unfolding mult_def
    by (rule fold_cells(1) [where g = "\<lambda>i j x. \<Sum>k<M. a (i * M + k) * b (k * M + j)", OF _ that])
      (simp add: put_at_def get_at_def cells_nest sum_upto)
  then show "entry M (mult M c a b) i j = mprod M (entry M a) (entry M b) i j"
    by (auto simp: entry_def mprod_def)
qed

lemma entry_assign: "entry M (assign M a b) = entry M b"
proof (intro ext)
  fix i j
  have "assign M a b (i * M + j) = b (i * M + j)" if "i < M" "j < M"
    unfolding assign_def
    by (rule fold_cells(1) [where g = "\<lambda>i j x. b (i * M + j)", OF _ that]) (simp add: put_at_def get_at_def)
  then show "entry M (assign M a b) i j = entry M b i j" by (simp add: entry_def)
qed

lemma fib_loop_power:
  assumes "inside (fM f) (entry (fM f) (fans f))"
  shows "entry (fM f) (fans (fib_loop n f)) = mprod (fM f) (entry (fM f) (fans f)) (mpow (fM f) (entry (fM f) (fT f)) n)
    \<and> fM (fib_loop n f) = fM f"
  using assms
proof (induction n f rule: fib_loop.induct)
  case (1 n f)
  let ?M = "fM f" and ?e = "entry (fM f)"
  show ?case
  proof (cases "n > 0")
    case False
    then show ?thesis by (subst (1 2) fib_loop.simps) (simp add: mprod_unit inside_entry)
  next
    case True
    define g where "g = fib_square (if odd n then fib_mul_ans f else f)"
    have g: "fM g = ?M" "?e (fT g) = mprod ?M (?e (fT f)) (?e (fT f))"
      "?e (fans g) = (if odd n then mprod ?M (?e (fans f)) (?e (fT f)) else ?e (fans f))"
      by (simp_all add: g_def fib_square_def fib_mul_ans_def Let_def entry_mult entry_assign)
    have "?e (fans (fib_loop (n div 2) g)) = mprod ?M (?e (fans g)) (mpow ?M (?e (fT g)) (n div 2)) \<and> fM (fib_loop (n div 2) g) = ?M"
      using 1(1) [OF True] by (simp add: g_def [symmetric] g(1) inside_entry)
    moreover have "mprod ?M (?e (fans g)) (mpow ?M (?e (fT g)) (n div 2)) = mprod ?M (?e (fans f)) (mpow ?M (?e (fT f)) n)"
    proof (cases "odd n")
      case True
      then have "n = 1 + 2 * (n div 2)" by simp
      then have "mpow ?M (?e (fT f)) n = mprod ?M (?e (fT f)) (mpow ?M (?e (fT f)) (2 * (n div 2)))"
        using mpow_add [OF inside_entry, of ?M "fT f" 1 "2 * (n div 2)"] by (simp add: mprod_unit inside_entry)
      then show ?thesis using True by (simp add: g mpow_square inside_entry mprod_assoc)
    next
      case False
      then show ?thesis by (simp add: g mpow_square inside_entry)
    qed
    ultimately show ?thesis using True by (subst (1 2) fib_loop.simps) (simp add: g_def)
  qed
qed

text \<open>The powers of the companion matrix.\<close>

definition companion :: "nat \<Rightarrow> nat \<Rightarrow> nat \<Rightarrow> u32" where
  "companion M i j = (if i < M \<and> j < M \<and> (i = M - 1 \<or> j = i + 1) then 1 else 0)"

lemma companion_power:
  assumes "0 < M" and "i < M"
  shows "mpow M (companion M) n i (M - 1) = fibm M (n + i)"
  using assms(2)
proof (induction n arbitrary: i)
  case 0
  then show ?case by (subst fibm.simps) (auto simp: unit_matrix_def)
next
  case (Suc n)
  have c: "inside M (companion M)" by (auto simp: inside_def companion_def)
  have "mpow M (companion M) (Suc n) = mprod M (companion M) (mpow M (companion M) n)"
    using mpow_add [OF c, of 1 n] by (simp add: mprod_unit c)
  then have e: "mpow M (companion M) (Suc n) i (M - 1) = (\<Sum>k<M. companion M i k * fibm M (n + k))"
    unfolding mprod_def by (auto intro!: sum.cong simp: Suc.IH [unfolded One_nat_def])
  show ?case
  proof (cases "i = M - 1")
    case True
    have "(\<Sum>k<M. companion M i k * fibm M (n + k)) = (\<Sum>k<M. fibm M (n + k))"
      using True assms(1) by (intro sum.cong) (auto simp: companion_def)
    also have "\<dots> = (\<Sum>k<M. fibm M (n + (M - 1 - k)))"
      using sum.nat_diff_reindex [of "\<lambda>k. fibm M (n + k)" M] by simp
    also have "\<dots> = fibm M (Suc n + i)"
      using True assms(1) by (subst (2) fibm.simps) (auto simp: sum_upto intro!: sum.cong arg_cong [of _ _ "fibm M"])
    finally show ?thesis using e by simp
  next
    case False
    then have "(\<Sum>k<M. companion M i k * fibm M (n + k)) = (\<Sum>k<M. if k = i + 1 then fibm M (n + k) else 0)"
      using Suc.prems by (intro sum.cong) (auto simp: companion_def)
    moreover have "i + 1 < M" using False Suc.prems by simp
    ultimately show ?thesis using e by simp
  qed
qed

lemma fib_init_fold:
  "fM (fold (\<lambda>(i, j). fib_init_step i j) cs f) = fM f"
  "fT (fold (\<lambda>(i, j). fib_init_step i j) cs f)
    = fold (\<lambda>(i, j) a. a(i * fM f + j := if i = fM f - 1 \<or> j = i + 1 then 1 else 0)) cs (fT f)"
  "fans (fold (\<lambda>(i, j). fib_init_step i j) cs f)
    = fold (\<lambda>(i, j) a. a(i * fM f + j := if i = j then 1 else 0)) cs (fans f)"
  by (induction cs arbitrary: f) (auto simp: fib_init_step_def put_at_def Let_def)

lemma fib_init_entries:
  "fM (fib_init f) = fM f"
  "entry (fM f) (fT (fib_init f)) = companion (fM f)"
  "entry (fM f) (fans (fib_init f)) = unit_matrix (fM f)"
proof -
  show "fM (fib_init f) = fM f" by (simp add: fib_init_def fib_init_fold)
  have "fT (fib_init f) (i * fM f + j) = (if i = fM f - 1 \<or> j = i + 1 then 1 else 0)" if "i < fM f" "j < fM f" for i j
    unfolding fib_init_def fib_init_fold
    by (rule fold_cells(1) [where g = "\<lambda>i j x. if i = fM f - 1 \<or> j = i + 1 then 1 else 0", OF _ that]) simp
  then show "entry (fM f) (fT (fib_init f)) = companion (fM f)"
    by (auto simp: fun_eq_iff entry_def companion_def)
  have "fans (fib_init f) (i * fM f + j) = (if i = j then 1 else 0)" if "i < fM f" "j < fM f" for i j
    unfolding fib_init_def fib_init_fold
    by (rule fold_cells(1) [where g = "\<lambda>i j x. if i = j then 1 else 0", OF _ that]) simp
  then show "entry (fM f) (fans (fib_init f)) = unit_matrix (fM f)"
    by (auto simp: fun_eq_iff entry_def unit_matrix_def)
qed

section \<open>Properties\<close>

text \<open>
  The benchmark computes the number \<open>f(N + m - 1)\<close> of the sequence that its comment
  defines, modulo \<open>2 ^ 32\<close>, for every \<open>m > 0\<close>; its result is what the validation looks at.
\<close>

lemma fib_correct:
  assumes "0 < fM f"
  shows "get_at (fM f) (fans (bench_fib_run f)) (fM f - 1) (fM f - 1) = fibm (fM f) (fib_N + fM f - 1)
    \<and> (bench_fib_validate st (bench_fib_run f) \<longleftrightarrow> fibm (fM f) (fib_N + fM f - 1) = schecksum st)"
proof -
  let ?M = "fM f"
  note l = fib_loop_power [of "fib_init f" fib_N, unfolded fib_init_entries]
  have "inside ?M (unit_matrix ?M)" by (simp add: inside_def unit_matrix_def)
  moreover have "inside ?M (companion ?M)" by (auto simp: inside_def companion_def)
  ultimately have "entry ?M (fans (bench_fib_run f)) = mpow ?M (companion ?M) fib_N" "fM (bench_fib_run f) = ?M"
    using l by (auto simp: bench_fib_run_def mprod_unit inside_mpow)
  moreover have "get_at ?M a (?M - 1) (?M - 1) = entry ?M a (?M - 1) (?M - 1)" for a
    using assms by (simp add: get_at_def entry_def)
  ultimately show ?thesis
    using companion_power [of ?M "?M - 1" fib_N] assms by (simp add: bench_fib_validate_def)
qed

end
