(* ===== verification/Bench_Bf.thy ===== *)
theory Bench_Bf
  imports Bench_Lib
begin

text \<open>
  The interpreter benchmark (\<open>bf/bf.c\<close>): a compiler from Brainf**k text to instructions with
  resolved jumps, and the loop that executes them. A return of \<open>FAILURE\<close> from the middle of
  the compiler is \<open>Inl\<close> of the state it leaves.
\<close>

unbundle bit_operations_syntax

record instruction_t =
  operator :: u16
  operand :: u16

record bf =
  PROGRAM :: "nat \<Rightarrow> instruction_t"
  STACK :: "nat \<Rightarrow> u16"
  SP :: nat
  data :: "nat \<Rightarrow> u16"
  input :: "nat \<Rightarrow> u8"
  ipos :: nat
  outp :: "nat \<Rightarrow> u8"
  noutput :: nat
  insize :: nat
  io_fault :: bool

abbreviation OP_END :: u16 where "OP_END \<equiv> 0"
abbreviation OP_INC_DP :: u16 where "OP_INC_DP \<equiv> 1"
abbreviation OP_DEC_DP :: u16 where "OP_DEC_DP \<equiv> 2"
abbreviation OP_INC_VAL :: u16 where "OP_INC_VAL \<equiv> 3"
abbreviation OP_DEC_VAL :: u16 where "OP_DEC_VAL \<equiv> 4"
abbreviation OP_OUT :: u16 where "OP_OUT \<equiv> 5"
abbreviation OP_IN :: u16 where "OP_IN \<equiv> 6"
abbreviation OP_JMP_FWD :: u16 where "OP_JMP_FWD \<equiv> 7"
abbreviation OP_JMP_BCK :: u16 where "OP_JMP_BCK \<equiv> 8"

definition PROGRAM_SIZE :: u16 where "PROGRAM_SIZE = 4096"
definition STACK_SIZE :: nat where "STACK_SIZE = 512"
definition DATA_SIZE :: u32 where "DATA_SIZE = 4096"

definition bf_code :: "u8 list" where
  "bf_code = map of_char
    (''>>+>>>>>,[>+>>,]>+[--[+<<<-]<[<+>-]<[<[->[<<<+>>>>+<-]<<[>>+>[->]<<[<]''
     @ ''<-]>]>>>+<['' @ ''[-]<[>+<-]<]>['' @ ''[>>>]+<<<-<[<<[<<<]>>+>[>>>]<-]<<[<<<]>[>>[>>''
     @ ''>]<+<<[<<<]>-]]+<<<]+[->>>]>>]>>[.>>>]'')"

section \<open>The compiler\<close>

definition set_op :: "u16 \<Rightarrow> u16 \<Rightarrow> bf \<Rightarrow> bf" where
  "set_op pc opr b = b\<lparr>PROGRAM := (PROGRAM b)(unat pc := (PROGRAM b (unat pc))\<lparr>operator := opr\<rparr>)\<rparr>"

definition set_operand :: "u16 \<Rightarrow> u16 \<Rightarrow> bf \<Rightarrow> bf" where
  "set_operand pc v b = b\<lparr>PROGRAM := (PROGRAM b)(unat pc := (PROGRAM b (unat pc))\<lparr>operand := v\<rparr>)\<rparr>"

text \<open>The \<open>switch\<close>; the increment of \<open>pc\<close> follows in the loop.\<close>

definition compile_char :: "u8 \<Rightarrow> u16 \<Rightarrow> bf \<Rightarrow> bf + (u16 \<times> bf)" where
  "compile_char c pc b =
    (if c = 62 then Inr (pc, set_op pc OP_INC_DP b)
     else if c = 60 then Inr (pc, set_op pc OP_DEC_DP b)
     else if c = 43 then Inr (pc, set_op pc OP_INC_VAL b)
     else if c = 45 then Inr (pc, set_op pc OP_DEC_VAL b)
     else if c = 46 then Inr (pc, set_op pc OP_OUT b)
     else if c = 44 then Inr (pc, set_op pc OP_IN b)
     else if c = 91 then
       (let b = set_op pc OP_JMP_FWD b
        in if SP b = STACK_SIZE then Inl b
           else Inr (pc, b\<lparr>STACK := (STACK b)(SP b := pc), SP := SP b + 1\<rparr>))
     else if c = 93 then
       (if SP b = 0 then Inl b
        else let b = b\<lparr>SP := SP b - 1\<rparr>;
                 jmp_pc = STACK b (SP b);
                 b = set_op pc OP_JMP_BCK b;
                 b = set_operand pc jmp_pc b
             in Inr (pc, set_operand jmp_pc pc b))
     else Inr (pc - 1, b))"

primrec compile_loop :: "u8 list \<Rightarrow> u16 \<Rightarrow> bf \<Rightarrow> bf + (u16 \<times> bf)" where
  "compile_loop [] pc b = Inr (pc, b)"
| "compile_loop (c # code) pc b =
    (if PROGRAM_SIZE \<le> pc then Inr (pc, b)
     else case compile_char c pc b of
       Inl b \<Rightarrow> Inl b
     | Inr (pc, b) \<Rightarrow> compile_loop code (pc + 1) b)"

text \<open>\<open>True\<close> is \<open>SUCCESS\<close>.\<close>

definition compile_bf :: "u8 list \<Rightarrow> bf \<Rightarrow> bool \<times> bf" where
  "compile_bf code b =
    (case compile_loop code 0 b of
       Inl b \<Rightarrow> (False, b)
     | Inr (pc, b) \<Rightarrow>
         if SP b \<noteq> 0 \<or> pc = PROGRAM_SIZE then (False, b) else (True, set_op pc OP_END b))"

section \<open>The executor\<close>

record bf_run =
  xpc :: u32
  xptr :: u32
  bf :: bf

definition bf_running :: "bf_run \<Rightarrow> bool" where
  "bf_running r \<longleftrightarrow> operator (PROGRAM (bf r) (unat (xpc r))) \<noteq> OP_END \<and> xptr r < DATA_SIZE"

text \<open>One iteration; \<open>None\<close> is the \<open>return\<close> of the default case. Nothing in the code bounds the
  input and the output: an access behind the \<open>insize\<close> bytes of the one or the \<open>DATA_SIZE\<close> bytes of the
  other is undefined in C and raises the sticky flag \<open>io_fault\<close>.\<close>

definition bf_step :: "bf_run \<Rightarrow> bf_run option" where
  "bf_step r =
    (let i = PROGRAM (bf r) (unat (xpc r)); opr = operator i; b = bf r; p = unat (xptr r);
         next = (\<lambda>r. Some (r\<lparr>xpc := xpc r + 1\<rparr>))
     in if opr = OP_INC_DP then next (r\<lparr>xptr := xptr r + 1\<rparr>)
        else if opr = OP_DEC_DP then next (r\<lparr>xptr := xptr r - 1\<rparr>)
        else if opr = OP_INC_VAL then next (r\<lparr>bf := b\<lparr>data := (data b)(p := data b p + 1)\<rparr>\<rparr>)
        else if opr = OP_DEC_VAL then next (r\<lparr>bf := b\<lparr>data := (data b)(p := data b p - 1)\<rparr>\<rparr>)
        else if opr = OP_OUT then
          next (r\<lparr>bf := b\<lparr>outp := (outp b)(noutput b := ucast (data b p)), noutput := noutput b + 1,
            io_fault := io_fault b \<or> unat DATA_SIZE \<le> noutput b\<rparr>\<rparr>)
        else if opr = OP_IN then
          next (r\<lparr>bf := b\<lparr>data := (data b)(p := ucast (input b (ipos b))), ipos := ipos b + 1,
            io_fault := io_fault b \<or> insize b \<le> ipos b\<rparr>\<rparr>)
        else if opr = OP_JMP_FWD then next (if data b p = 0 then r\<lparr>xpc := ucast (operand i)\<rparr> else r)
        else if opr = OP_JMP_BCK then next (if data b p \<noteq> 0 then r\<lparr>xpc := ucast (operand i)\<rparr> else r)
        else None)"

partial_function (option) bf_loop :: "bf_run \<Rightarrow> bf_run option" where
  "bf_loop r =
    (if bf_running r then (case bf_step r of None \<Rightarrow> Some r | Some r \<Rightarrow> bf_loop r) else Some r)"

definition execute_bf :: "bf \<Rightarrow> bf option" where
  "execute_bf b = map_option bf (bf_loop \<lparr>xpc = 0, xptr = 0, bf = b\<rparr>)"

section \<open>The benchmark\<close>

definition bf_alphabet :: "u8 list" where
  "bf_alphabet = map of_char ''0123456789abcdefghijklmnopqrstuvwxyzABCDEFGHIJKLMNOPQRSTUVWXYZ''"

definition bf_input :: "nat \<Rightarrow> (nat \<Rightarrow> u8) \<times> bench \<Rightarrow> (nat \<Rightarrow> u8) \<times> bench" where
  "bf_input i = (\<lambda>(inp, b). let (x, b) = bench_rand b in (inp(i := bf_alphabet ! unat (x mod 62)), b))"

text \<open>Every allocation is zeroed.\<close>

definition bf_empty :: "nat \<Rightarrow> (nat \<Rightarrow> u8) \<Rightarrow> bf" where
  "bf_empty n inp = \<lparr>PROGRAM = (\<lambda>_. \<lparr>operator = 0, operand = 0\<rparr>), STACK = (\<lambda>_. 0), SP = 0,
     data = (\<lambda>_. 0), input = inp, ipos = 0, outp = (\<lambda>_. 0), noutput = 0, insize = n, io_fault = False\<rparr>"

definition bench_bf_prepare :: "area \<Rightarrow> setting \<Rightarrow> bench \<Rightarrow> (bf \<times> bench) option" where
  "bench_bf_prepare ar st b =
    (case alloc_seq (bench_alloc ar st) [4 * 4096, 2 * 512, 2 * 4096, ssize st + 1, 4096] b of
       None \<Rightarrow> None
     | Some (ps, b) \<Rightarrow>
         (let b = bench_srand 1 b;
              (inp, b) = fold bf_input [0..<unat (ssize st)] (\<lambda>_. 0, b)
          in Some (bf_empty (unat (ssize st + 1)) inp, b)))"

definition bench_bf_run :: "bf \<Rightarrow> bf option" where
  "bench_bf_run b = execute_bf (snd (compile_bf bf_code b))"

definition bench_bf_validate :: "setting \<Rightarrow> bf \<Rightarrow> bool" where
  "bench_bf_validate st b \<longleftrightarrow>
    of_nat (noutput b) = ssize st \<and> checksum (outp b) 0 (noutput b) = schecksum st"

section \<open>Brackets\<close>

text \<open>
  The commands of a text; the nesting depth behind it, if it never falls below 0; the same
  if it never passes the limit \<open>l\<close> either.
\<close>

definition is_command :: "u8 \<Rightarrow> bool" where
  "is_command c \<longleftrightarrow> c \<in> {62, 60, 43, 45, 46, 44, 91, 93}"

definition commands :: "u8 list \<Rightarrow> u8 list" where
  "commands = filter is_command"

primrec level :: "nat \<Rightarrow> u8 list \<Rightarrow> nat option" where
  "level d [] = Some d"
| "level d (c # cs) =
    (if c = 91 then level (d + 1) cs
     else if c = 93 then if d = 0 then None else level (d - 1) cs
     else level d cs)"

definition balanced :: "u8 list \<Rightarrow> bool" where
  "balanced cs \<longleftrightarrow> level 0 cs = Some 0"

primrec depth :: "nat \<Rightarrow> nat \<Rightarrow> u8 list \<Rightarrow> nat option" where
  "depth l d [] = Some d"
| "depth l d (c # cs) =
    (if c = 91 then if d = l then None else depth l (d + 1) cs
     else if c = 93 then if d = 0 then None else depth l (d - 1) cs
     else depth l d cs)"

definition opcode :: "u8 \<Rightarrow> u16" where
  "opcode c = (if c = 62 then OP_INC_DP else if c = 60 then OP_DEC_DP else if c = 43 then OP_INC_VAL
     else if c = 45 then OP_DEC_VAL else if c = 46 then OP_OUT else if c = 44 then OP_IN
     else if c = 91 then OP_JMP_FWD else OP_JMP_BCK)"

lemma level_append: "level d (xs @ ys) = Option.bind (level d xs) (\<lambda>e. level e ys)"
  by (induction xs arbitrary: d) auto

lemma depth_append: "depth l d (xs @ ys) = Option.bind (depth l d xs) (\<lambda>e. depth l e ys)"
  by (induction xs arbitrary: d) auto

lemma level_shift: "level d xs = Some e \<Longrightarrow> level (d + k) xs = Some (e + k)"
proof (induction xs arbitrary: d)
  case (Cons c xs)
  then show ?case
    using Cons.IH [of "d + 1"] Cons.IH [of "d - 1"] Cons.IH [of d] by (cases d) (auto split: if_splits)
qed simp

lemma depth_level: "depth l d xs = Some e \<Longrightarrow> level d xs = Some e"
  by (induction xs arbitrary: d) (auto split: if_splits)

lemma depth_le: "depth l d xs = Some e \<Longrightarrow> d \<le> l \<Longrightarrow> e \<le> l"
  by (induction xs arbitrary: d) (auto split: if_splits)

lemma balanced_append: "balanced xs \<Longrightarrow> balanced ys \<Longrightarrow> balanced (xs @ ys)"
  by (simp add: balanced_def level_append)

lemma balanced_enclose: "balanced xs \<Longrightarrow> balanced (91 # xs @ [93])"
  using level_shift [of 0 xs 0 1] by (simp add: balanced_def level_append)

lemma balanced_single: "c \<noteq> 91 \<Longrightarrow> c \<noteq> 93 \<Longrightarrow> balanced [c]"
  by (simp add: balanced_def)

text \<open>The positions of the open brackets, innermost first.\<close>

primrec nested :: "nat list \<Rightarrow> u8 list \<Rightarrow> bool" where
  "nested [] ops \<longleftrightarrow> balanced ops"
| "nested (p # st) ops \<longleftrightarrow>
    p < length ops \<and> ops ! p = 91 \<and> balanced (drop (p + 1) ops) \<and> nested st (take p ops)"

lemma nested_bound: "nested st ops \<Longrightarrow> q \<in> set st \<Longrightarrow> q < length ops"
  by (induction st arbitrary: ops) fastforce+

lemma nested_append: "nested st xs \<Longrightarrow> balanced ys \<Longrightarrow> nested st (xs @ ys)"
  by (cases st) (auto simp: balanced_append nth_append)

lemma nested_open: "nested st ops \<Longrightarrow> nested (length ops # st) (ops @ [91])"
  by (simp add: balanced_def)

lemma nested_close: "nested (p # st) ops \<Longrightarrow> nested st (ops @ [93])"
proof -
  assume n: "nested (p # st) ops"
  have e: "ops @ [93] = take p ops @ 91 # drop (p + 1) ops @ [93]"
    using id_take_nth_drop [of p ops] n by simp
  have "balanced (91 # drop (p + 1) ops @ [93])" using n by (intro balanced_enclose) simp
  then show ?thesis unfolding e by (intro nested_append) (use n in simp_all)
qed

text \<open>\<open>links ops b i j\<close>: the brackets at \<open>i\<close> and \<open>j\<close> match and their instructions point to each other.\<close>

definition links :: "u8 list \<Rightarrow> (nat \<Rightarrow> instruction_t) \<Rightarrow> nat \<Rightarrow> nat \<Rightarrow> bool" where
  "links ops P i j \<longleftrightarrow> i < j \<and> j < length ops \<and> ops ! i = 91 \<and> ops ! j = 93
     \<and> balanced (take (j - i - 1) (drop (i + 1) ops))
     \<and> unat (operand (P i)) = j \<and> unat (operand (P j)) = i"

lemma links_snoc:
  assumes "links ops P i j" and "operand (Q i) = operand (P i)" and "operand (Q j) = operand (P j)"
  shows "links (ops @ [c]) Q i j"
  using assms by (auto simp: links_def nth_append)

section \<open>What the compiler maintains\<close>

lemma set_op_simps [simp]:
  "operand (PROGRAM (set_op pc v b) i) = operand (PROGRAM b i)"
  "operator (PROGRAM (set_op pc v b) i) = (if i = unat pc then v else operator (PROGRAM b i))"
  "SP (set_op pc v b) = SP b" "STACK (set_op pc v b) = STACK b"
  by (simp_all add: set_op_def)

lemma set_operand_simps [simp]:
  "operator (PROGRAM (set_operand pc v b) i) = operator (PROGRAM b i)"
  "operand (PROGRAM (set_operand pc v b) i) = (if i = unat pc then v else operand (PROGRAM b i))"
  "SP (set_operand pc v b) = SP b" "STACK (set_operand pc v b) = STACK b"
  by (simp_all add: set_operand_def)

text \<open>The positions of the brackets that are open.\<close>

definition open_at :: "bf \<Rightarrow> nat list" where
  "open_at b = rev (map (\<lambda>k. unat (STACK b k)) [0..<SP b])"

definition compiled :: "u8 list \<Rightarrow> u16 \<Rightarrow> bf \<Rightarrow> bool" where
  "compiled ops pc b \<longleftrightarrow>
     unat pc = length ops \<and> length ops \<le> 4096 \<and> depth 512 0 ops = Some (SP b)
     \<and> (\<forall>i < length ops. operator (PROGRAM b i) = opcode (ops ! i))
     \<and> nested (open_at b) ops
     \<and> (\<forall>j < length ops. ops ! j = 93 \<longrightarrow> (\<exists>i. i \<notin> set (open_at b) \<and> links ops (PROGRAM b) i j))
     \<and> (\<forall>i < length ops. ops ! i = 91 \<and> i \<notin> set (open_at b) \<longrightarrow> (\<exists>j. links ops (PROGRAM b) i j))"

text \<open>
  A command appended to the text: what its links become, given that only the operands of its
  own position and of the bracket it closes change.
\<close>

lemma compiled_snoc:
  assumes h: "compiled ops pc b" and "length ops < 4096"
    and "depth 512 0 (ops @ [c]) = Some (SP b')"
    and "\<And>i. i < length ops \<Longrightarrow> operator (PROGRAM b' i) = operator (PROGRAM b i)"
    and "operator (PROGRAM b' (length ops)) = opcode c"
    and "\<And>i. i < length ops \<Longrightarrow> i \<notin> X \<Longrightarrow> operand (PROGRAM b' i) = operand (PROGRAM b i)"
    and X: "X \<subseteq> set (open_at b)" "\<And>i. i \<in> X \<Longrightarrow> ops ! i = 91"
    and st: "nested (open_at b') (ops @ [c])" "set (open_at b') \<subseteq> insert (length ops) (set (open_at b) - X)"
      "set (open_at b) - X \<subseteq> set (open_at b')"
    and new: "c = 93 \<Longrightarrow> \<exists>i. i \<notin> set (open_at b') \<and> links (ops @ [c]) (PROGRAM b') i (length ops)"
      "c = 91 \<Longrightarrow> length ops \<in> set (open_at b')"
      "\<And>i. i \<in> X \<Longrightarrow> \<exists>j. links (ops @ [c]) (PROGRAM b') i j"
  shows "compiled (ops @ [c]) (pc + 1) b'"
proof -
  have keep: "links (ops @ [c]) (PROGRAM b') i j" if "links ops (PROGRAM b) i j" "i \<notin> X" for i j
    using that(1)
  proof (rule links_snoc)
    have "i < length ops" "j < length ops" "ops ! j = 93" using that by (auto simp: links_def)
    moreover from this have "j \<notin> X" using X(2) by auto
    ultimately show "operand (PROGRAM b' i) = operand (PROGRAM b i)" "operand (PROGRAM b' j) = operand (PROGRAM b j)"
      using assms(6) that(2) by auto
  qed
  note h = h[unfolded compiled_def]
  have "unat (pc + 1) = length (ops @ [c])" using h assms(2) by (simp add: unat_word_ariths)
  moreover have "operator (PROGRAM b' i) = opcode ((ops @ [c]) ! i)" if "i < length (ops @ [c])" for i
    using that assms(4,5) h by (auto simp: nth_append less_Suc_eq)
  moreover have "\<exists>i. i \<notin> set (open_at b') \<and> links (ops @ [c]) (PROGRAM b') i j"
    if j: "j < length (ops @ [c])" "(ops @ [c]) ! j = 93" for j
  proof (cases "j = length ops")
    case True
    then show ?thesis using new(1) j by simp
  next
    case False
    then have "j < length ops" "ops ! j = 93" using j by (auto simp: nth_append split: if_splits)
    then obtain i where i: "i \<notin> set (open_at b)" "links ops (PROGRAM b) i j" using h by blast
    then have "i < length ops" by (simp add: links_def)
    then show ?thesis using i keep [of i j] X(1) st(2) by blast
  qed
  moreover have "\<exists>j. links (ops @ [c]) (PROGRAM b') i j"
    if i: "i < length (ops @ [c])" "(ops @ [c]) ! i = 91" "i \<notin> set (open_at b')" for i
  proof -
    have "i < length ops" "ops ! i = 91" using i new(2) by (auto simp: nth_append less_Suc_eq split: if_splits)
    then show ?thesis using i(3) st(3) h keep [of i] new(3) [of i] by blast
  qed
  ultimately show ?thesis using assms(2,3) st(1) by (simp add: compiled_def)
qed

lemma compiled_step:
  assumes "compiled ops pc b" and "length ops < 4096" and "is_command c"
  shows "case compile_char c pc b of
      Inl b' \<Rightarrow> depth 512 0 (ops @ [c]) = None
    | Inr (pc', b') \<Rightarrow> pc' = pc \<and> compiled (ops @ [c]) (pc + 1) b'"
proof -
  note h = assms(1)[unfolded compiled_def]
  have pc: "unat pc = length ops" using h by simp
  have d: "depth 512 0 ops = Some (SP b)" using h by simp
  have nest: "nested (open_at b) ops" using h by simp
  note snoc = compiled_snoc [OF assms(1,2)]
  consider (simple) "c \<noteq> 91" "c \<noteq> 93" | (fwd) "c = 91" | (bck) "c = 93" by blast
  then show ?thesis
  proof cases
    case simple
    let ?b = "set_op pc (opcode c) b"
    have "compile_char c pc b = Inr (pc, ?b)"
      using simple assms(3) by (auto simp: compile_char_def opcode_def is_command_def)
    moreover have "compiled (ops @ [c]) (pc + 1) ?b"
    proof (rule snoc [where X = "{}"])
      show "depth 512 0 (ops @ [c]) = Some (SP ?b)" using d simple by (simp add: depth_append)
      show "nested (open_at ?b) (ops @ [c])"
        using nest simple by (auto simp: open_at_def intro!: nested_append balanced_single)
    qed (use pc simple in \<open>auto simp: open_at_def\<close>)
    ultimately show ?thesis by simp
  next
    case fwd
    let ?b = "(set_op pc OP_JMP_FWD b)\<lparr>STACK := (STACK b)(SP b := pc), SP := Suc (SP b)\<rparr>"
    have o: "open_at ?b = length ops # open_at b" by (simp add: open_at_def pc)
    show ?thesis
    proof (cases "SP b = 512")
      case True
      then show ?thesis using fwd d by (simp add: compile_char_def STACK_SIZE_def depth_append)
    next
      case False
      have "compiled (ops @ [c]) (pc + 1) ?b"
      proof (rule snoc [where X = "{}"])
        show "depth 512 0 (ops @ [c]) = Some (SP ?b)" using d fwd False by (simp add: depth_append)
        show "nested (open_at ?b) (ops @ [c])" unfolding o fwd by (rule nested_open [OF nest])
      qed (use pc fwd in \<open>auto simp: o opcode_def\<close>)
      then show ?thesis using fwd False by (simp add: compile_char_def STACK_SIZE_def Let_def)
    qed
  next
    case bck
    show ?thesis
    proof (cases "SP b = 0")
      case True
      then show ?thesis using bck d by (simp add: compile_char_def depth_append)
    next
      case False
      let ?b = "set_operand (STACK b (SP b - 1)) pc (set_operand pc (STACK b (SP b - 1)) (set_op pc OP_JMP_BCK (b\<lparr>SP := SP b - 1\<rparr>)))"
      let ?p = "unat (STACK b (SP b - 1))"
      have o: "open_at b = ?p # open_at ?b"
        using False by (cases "SP b") (simp_all add: open_at_def)
      have n: "nested (?p # open_at ?b) ops" using nest by (simp add: o)
      have p: "?p < length ops" "ops ! ?p = 91" "balanced (drop (?p + 1) ops)" "nested (open_at ?b) (take ?p ops)"
        using n by simp_all
      have fresh: "?p \<notin> set (open_at ?b)" using nested_bound [OF p(4)] by fastforce
      have link: "links (ops @ [c]) (PROGRAM ?b) ?p (length ops)"
        using p bck by (simp add: links_def nth_append pc)
      have "compiled (ops @ [c]) (pc + 1) ?b"
      proof (rule snoc [where X = "{?p}"])
        show "depth 512 0 (ops @ [c]) = Some (SP ?b)" using d bck False by (simp add: depth_append)
        show "nested (open_at ?b) (ops @ [c])" unfolding bck by (rule nested_close [OF n])
        show "\<exists>i. i \<notin> set (open_at ?b) \<and> links (ops @ [c]) (PROGRAM ?b) i (length ops)"
          using link fresh by blast
        show "\<exists>j. links (ops @ [c]) (PROGRAM ?b) i j" if "i \<in> {?p}" for i using that link by blast
      qed (use pc bck p fresh o in \<open>auto simp: opcode_def\<close>)
      then show ?thesis using bck False by (simp add: compile_char_def Let_def)
    qed
  qed
qed

lemma compile_loop_correct:
  assumes "compiled ops pc b"
  shows "case compile_loop code pc b of
      Inl b' \<Rightarrow> depth 512 0 (ops @ commands code) = None
    | Inr (pc', b') \<Rightarrow> (\<exists>ops'. compiled ops' pc' b' \<and>
        (ops' = ops @ commands code \<or> length ops' = 4096 \<and> 4096 \<le> length (ops @ commands code)))"
  using assms
proof (induction code arbitrary: ops pc b)
  case Nil
  then show ?case by (auto simp: commands_def)
next
  case (Cons c code)
  have pc: "unat pc = length ops" "length ops \<le> 4096" using Cons.prems by (simp_all add: compiled_def)
  show ?case
  proof (cases "PROGRAM_SIZE \<le> pc")
    case True
    then have "length ops = 4096" using pc by (simp add: PROGRAM_SIZE_def word_le_nat_alt)
    then show ?thesis using True Cons.prems by (auto intro!: exI [of _ ops])
  next
    case False
    then have lt: "length ops < 4096" using pc by (simp add: PROGRAM_SIZE_def word_le_nat_alt)
    show ?thesis
    proof (cases "is_command c")
      case True
      note s = compiled_step [OF Cons.prems lt True]
      show ?thesis
      proof (cases "compile_char c pc b")
        case (Inl b')
        have "depth 512 0 ((ops @ [c]) @ commands code) = None"
          using s Inl unfolding depth_append [of 512 0 "ops @ [c]"] by simp
        then show ?thesis using Inl True False by (simp add: commands_def)
      next
        case (Inr pb)
        obtain pc' b' where pb: "pb = (pc', b')" by fastforce
        then have "compiled (ops @ [c]) (pc + 1) b'" "pc' = pc" using s Inr by simp_all
        then have r: "compile_loop (c # code) pc b = compile_loop code (pc + 1) b'" using False Inr pb by simp
        have e: "ops @ commands (c # code) = (ops @ [c]) @ commands code" using True by (simp add: commands_def)
        show ?thesis unfolding r e by (rule Cons.IH) fact
      qed
    next
      case other: False
      then have "compile_char c pc b = Inr (pc - 1, b)" by (simp add: compile_char_def is_command_def)
      then have r: "compile_loop (c # code) pc b = compile_loop code pc b" using False by simp
      have e: "commands (c # code) = commands code" using other by (simp add: commands_def)
      show ?thesis unfolding r e by (rule Cons.IH [OF Cons.prems])
    qed
  qed
qed

lemma compile_bf_cases:
  assumes "SP b = 0" and "compile_bf code b = (ok, b')"
  shows "ok \<longleftrightarrow> depth 512 0 (commands code) = Some 0 \<and> length (commands code) < 4096"
    and "ok \<Longrightarrow> compiled (commands code) (of_nat (length (commands code))) b'
      \<and> operator (PROGRAM b' (length (commands code))) = OP_END \<and> SP b' = 0"
proof -
  let ?n = "length (commands code)"
  have "compiled [] 0 b" using assms(1) by (simp add: compiled_def open_at_def balanced_def)
  note l = compile_loop_correct [OF this, of code]
  have "(ok \<longleftrightarrow> depth 512 0 (commands code) = Some 0 \<and> ?n < 4096) \<and>
    (ok \<longrightarrow> compiled (commands code) (of_nat ?n) b' \<and> operator (PROGRAM b' ?n) = OP_END \<and> SP b' = 0)"
  proof (cases "compile_loop code 0 b")
    case (Inl b1)
    then show ?thesis using l assms(2) by (auto simp: compile_bf_def)
  next
    case (Inr r)
    obtain pc1 b1 where r: "r = (pc1, b1)" by fastforce
    then obtain ops where ops: "compiled ops pc1 b1"
      "ops = commands code \<or> length ops = 4096 \<and> 4096 \<le> ?n"
      using l Inr by auto
    note c = ops(1)[unfolded compiled_def]
    have pc1: "pc1 = PROGRAM_SIZE \<longleftrightarrow> length ops = 4096"
      using c by (auto simp: PROGRAM_SIZE_def word_unat_eq_iff)
    show ?thesis
    proof (cases "ops = commands code \<and> ?n < 4096 \<and> SP b1 = 0")
      case True
      then have ok: "ok" "b' = set_op pc1 OP_END b1"
        using assms(2) Inr r pc1 by (auto simp: compile_bf_def)
      have pc: "pc1 = of_nat ?n" using c True by (metis of_nat_unat ucast_id)
      have "open_at b' = open_at b1" "operator (PROGRAM b' i) = operator (PROGRAM b1 i)" if "i < ?n" for i
        using ok(2) c True that by (auto simp: open_at_def)
      moreover have "links x (PROGRAM b') = links x (PROGRAM b1)" for x
        using ok(2) by (simp add: links_def fun_eq_iff)
      moreover have "open_at b' = open_at b1" "SP b' = SP b1" using ok(2) by (simp_all add: open_at_def)
      ultimately have "compiled (commands code) (of_nat ?n) b'"
        using c True pc by (auto simp: compiled_def)
      then show ?thesis using ok c True pc by (simp add: compiled_def)
    next
      case False
      then have "\<not> ok" using assms(2) Inr r ops c pc1 by (auto simp: compile_bf_def)
      moreover have "\<not> (depth 512 0 (commands code) = Some 0 \<and> ?n < 4096)"
        using False ops c by auto
      ultimately show ?thesis by simp
    qed
  qed
  then show "ok \<longleftrightarrow> depth 512 0 (commands code) = Some 0 \<and> ?n < 4096"
    and "ok \<Longrightarrow> compiled (commands code) (of_nat ?n) b' \<and> operator (PROGRAM b' ?n) = OP_END \<and> SP b' = 0"
    by auto
qed

section \<open>What the executor maintains\<close>

text \<open>
  A program of \<open>n\<close> instructions whose jumps stay inside it; the machine that executes it
  never leaves it, and never meets an instruction it does not know.
\<close>

definition program_ok :: "(nat \<Rightarrow> instruction_t) \<Rightarrow> nat \<Rightarrow> bool" where
  "program_ok P n \<longleftrightarrow> n < 4096 \<and> operator (P n) = OP_END
     \<and> (\<forall>i < n. operator (P i) \<in> {1..8} \<and> (operator (P i) \<in> {OP_JMP_FWD, OP_JMP_BCK} \<longrightarrow> unat (operand (P i)) < n))"

definition run_ok :: "(nat \<Rightarrow> instruction_t) \<Rightarrow> nat \<Rightarrow> bf_run \<Rightarrow> bool" where
  "run_ok P n r \<longleftrightarrow> program_ok P n \<and> PROGRAM (bf r) = P \<and> unat (xpc r) \<le> n"

definition bf_next :: "bf_run \<Rightarrow> unit \<Rightarrow> bf_run" where
  "bf_next r u = (if bf_running r then case bf_step r of None \<Rightarrow> r | Some r' \<Rightarrow> r' else r)"

lemma one_to_eight:
  "(x :: u16) \<in> {1..8} \<Longrightarrow> x = 1 \<or> x = 2 \<or> x = 3 \<or> x = 4 \<or> x = 5 \<or> x = 6 \<or> x = 7 \<or> x = 8"
  unfolding atLeastAtMost_iff word_le_nat_alt word_unat_eq_iff by simp linarith

lemma run_ok_step:
  assumes "run_ok P n r" and "bf_running r"
  shows "\<exists>r'. bf_step r = Some r' \<and> run_ok P n r'"
proof -
  let ?i = "unat (xpc r)"
  note h = assms(1)[unfolded run_ok_def program_ok_def]
  have "operator (P ?i) \<noteq> OP_END" using assms h by (simp add: bf_running_def)
  then have i: "?i < n" using h by (metis le_neq_implies_less)
  then have pc: "unat (xpc r + 1) \<le> n" using h by (simp add: unat_word_ariths)
  have jump: "unat (ucast (operand (P ?i)) + 1 :: u32) \<le> n" if "operator (P ?i) \<in> {OP_JMP_FWD, OP_JMP_BCK}"
  proof -
    have "unat (operand (P ?i)) < n" using h i that by auto
    moreover have "unat (ucast (operand (P ?i)) :: u32) = unat (operand (P ?i))" by (rule unat_ucast_up) simp
    ultimately show ?thesis using h by (simp add: unat_word_ariths)
  qed
  have opr: "operator (P ?i) \<in> {1..8}" using h i by auto
  then have "operator (P ?i) = 1 \<or> operator (P ?i) = 2 \<or> operator (P ?i) = 3 \<or> operator (P ?i) = 4
      \<or> operator (P ?i) = 5 \<or> operator (P ?i) = 6 \<or> operator (P ?i) = 7 \<or> operator (P ?i) = 8"
    by (rule one_to_eight)
  then show ?thesis
    using h pc jump unfolding bf_step_def Let_def run_ok_def program_ok_def
    by (elim disjE) auto
qed

lemma bf_next_ok: "run_ok P n r \<Longrightarrow> run_ok P n (bf_next r u)"
  using run_ok_step [of P n r] by (auto simp: bf_next_def)

text \<open>The flag is up exactly when the program has written or read more than there is room for.\<close>

definition io_ok :: "nat \<Rightarrow> bf \<Rightarrow> bool" where
  "io_ok n b \<longleftrightarrow> insize b = n \<and> (io_fault b \<longleftrightarrow> 4096 < noutput b \<or> n < ipos b)"

lemma io_ok_next: "io_ok n (bf r) \<Longrightarrow> io_ok n (bf (bf_next r u))"
  by (auto simp: io_ok_def bf_next_def bf_step_def Let_def DATA_SIZE_def split: if_splits)

lemma io_ok_compile: "io_ok n (snd (compile_bf code b)) = io_ok n b"
proof -
  have c: "io_ok n (case compile_char c pc b of Inl b \<Rightarrow> b | Inr r \<Rightarrow> snd r) = io_ok n b" for c pc b
    by (simp add: compile_char_def Let_def set_op_def set_operand_def io_ok_def)
  have "io_ok n (case compile_loop code pc b of Inl b \<Rightarrow> b | Inr r \<Rightarrow> snd r) = io_ok n b" for pc
  proof (induction code arbitrary: pc b)
    case (Cons x code)
    then show ?case using c [of x pc b] by (cases "compile_char x pc b") auto
  qed simp
  from this [of 0] show ?thesis
    by (auto simp: compile_bf_def set_op_def io_ok_def split: sum.splits)
qed

interpretation bf_machine: machine bf_next "run_ok P n" for P n
  by unfold_locales (rule bf_next_ok)

interpretation bf_io: machine bf_next "\<lambda>r. io_ok n (bf r)" for n
  by unfold_locales (rule io_ok_next)

lemma opcode_range: "opcode c \<in> {1..8}"
  by (simp add: opcode_def)

lemma opcode_jump: "is_command c \<Longrightarrow> opcode c \<in> {OP_JMP_FWD, OP_JMP_BCK} \<Longrightarrow> c = 91 \<or> c = 93"
  by (auto simp: opcode_def is_command_def split: if_splits)

lemma compiled_links:
  assumes "compiled ops pc b" and "SP b = 0" and "i < length ops"
  shows "ops ! i = 91 \<Longrightarrow> \<exists>j. links ops (PROGRAM b) i j" and "ops ! i = 93 \<Longrightarrow> \<exists>j. links ops (PROGRAM b) j i"
  using assms by (auto simp: compiled_def open_at_def)

lemma compiled_program_ok:
  assumes "compiled ops pc b" and "SP b = 0" and "operator (PROGRAM b (length ops)) = OP_END" and "length ops < 4096"
    and "list_all is_command ops"
  shows "program_ok (PROGRAM b) (length ops)"
proof -
  have "operator (PROGRAM b i) \<in> {1..8}" if "i < length ops" for i
    using assms(1) that opcode_range by (simp add: compiled_def)
  moreover have "unat (operand (PROGRAM b i)) < length ops"
    if i: "i < length ops" "operator (PROGRAM b i) \<in> {OP_JMP_FWD, OP_JMP_BCK}" for i
  proof -
    have "opcode (ops ! i) \<in> {OP_JMP_FWD, OP_JMP_BCK}" using assms(1) i by (simp add: compiled_def)
    moreover have "is_command (ops ! i)" using assms(5) i(1) by (simp add: list_all_length)
    ultimately have "ops ! i = 91 \<or> ops ! i = 93" by (rule opcode_jump [rotated])
    then show ?thesis using compiled_links [OF assms(1,2) i(1)] by (auto simp: links_def)
  qed
  ultimately show ?thesis using assms(3,4) by (auto simp: program_ok_def)
qed

section \<open>Properties\<close>

text \<open>
  C24: the compiler succeeds exactly on the texts with fewer than 4096 commands whose brackets
  are balanced and nested at most 512 deep. Its program is then the commands in their order
  with an end behind them, and the two instructions of every pair of brackets are each the
  operand of the other, with balanced text between them.
\<close>

theorem compile_correct:
  assumes "compile_bf code b = (ok, b')" and "SP b = 0"
  defines "ops \<equiv> commands code"
  shows "(ok \<longleftrightarrow> depth 512 0 ops = Some 0 \<and> length ops < 4096)
    \<and> (ok \<longrightarrow> operator (PROGRAM b' (length ops)) = OP_END
      \<and> (\<forall>i < length ops. operator (PROGRAM b' i) = opcode (ops ! i)
        \<and> (ops ! i = 91 \<longrightarrow> (\<exists>j. links ops (PROGRAM b') i j))
        \<and> (ops ! i = 93 \<longrightarrow> (\<exists>j. links ops (PROGRAM b') j i))))"
proof -
  note c = compile_bf_cases [OF assms(2,1), folded ops_def]
  show ?thesis using c compiled_links [of ops _ b'] by (auto simp: compiled_def)
qed

text \<open>The program of the benchmark is such a text.\<close>

lemma bf_code_commands: "depth 512 0 (commands bf_code) = Some 0 \<and> length (commands bf_code) = 178"
  by (simp add: bf_code_def commands_def is_command_def)

theorem compile_witness:
  "\<exists>b'. compile_bf bf_code (bf_empty 1 (\<lambda>_. 0)) = (True, b') \<and> operator (PROGRAM b' 178) = OP_END"
proof -
  obtain ok b' where c: "compile_bf bf_code (bf_empty 1 (\<lambda>_. 0)) = (ok, b')" by fastforce
  have "SP (bf_empty 1 (\<lambda>_. 0)) = 0" by (simp add: bf_empty_def)
  from compile_correct [OF c this] show ?thesis using c bf_code_commands by auto
qed

text \<open>
  C36: a compiled program stays inside the program and the data array: in every state that it
  reaches the program is as it was compiled and the counter is in it, and while it runs, the data
  pointer is below 4096 and the instruction is a known one. The input and the output are not
  bounded by the code; an access outside them has happened exactly when the program has written
  more than 4096 characters or read more than the input buffer holds.
\<close>

theorem execute_safe:
  fixes k :: nat
  assumes "compile_bf code b = (True, b')" and "SP b = 0"
    and "noutput b = 0" and "ipos b = 0" and "\<not> io_fault b"
  defines "r \<equiv> ((\<lambda>r. bf_next r ()) ^^ k) \<lparr>xpc = 0, xptr = 0, bf = b'\<rparr>"
  shows "PROGRAM (bf r) = PROGRAM b' \<and> unat (xpc r) \<le> length (commands code) \<and> length (commands code) < 4096
    \<and> (bf_running r \<longrightarrow> unat (xptr r) < 4096 \<and> bf_step r \<noteq> None)
    \<and> (io_fault (bf r) \<longleftrightarrow> 4096 < noutput (bf r) \<or> insize b < ipos (bf r))"
proof -
  let ?n = "length (commands code)" and ?r0 = "\<lparr>xpc = 0, xptr = 0, bf = b'\<rparr>"
  note c = compile_bf_cases [OF assms(2,1)]
  have "program_ok (PROGRAM b') ?n"
    by (rule compiled_program_ok [where pc = "of_nat ?n"]) (use c in \<open>auto simp: commands_def list_all_iff\<close>)
  then have "run_ok (PROGRAM b') ?n ?r0" by (simp add: run_ok_def)
  then have p: "run_ok (PROGRAM b') ?n r" unfolding r_def by (rule bf_machine.iterate_inv)
  have "io_ok (insize b) b" using assms(3-5) by (simp add: io_ok_def)
  then have "io_ok (insize b) (bf ?r0)" using io_ok_compile [of "insize b" code b] assms(1) by simp
  then have "io_ok (insize b) (bf r)" unfolding r_def by (rule bf_io.iterate_inv)
  with p show ?thesis
    using run_ok_step [of "PROGRAM b'" ?n r] c
    by (auto simp: run_ok_def bf_running_def io_ok_def DATA_SIZE_def word_less_nat_alt)
qed

theorem execute_witness:
  "\<exists>b'. compile_bf bf_code (bf_empty 1 (\<lambda>_. 0)) = (True, b')
    \<and> unat (xpc (((\<lambda>r. bf_next r ()) ^^ 1000000) \<lparr>xpc = 0, xptr = 0, bf = b'\<rparr>)) \<le> 178"
proof -
  obtain ok b' where c: "compile_bf bf_code (bf_empty 1 (\<lambda>_. 0)) = (ok, b')" by fastforce
  have z: "SP (bf_empty 1 (\<lambda>_. 0)) = 0" "noutput (bf_empty 1 (\<lambda>_. 0)) = 0" "ipos (bf_empty 1 (\<lambda>_. 0)) = 0"
    "\<not> io_fault (bf_empty 1 (\<lambda>_. 0))" by (simp_all add: bf_empty_def)
  have ok: "ok" using compile_bf_cases(1) [OF z(1) c] bf_code_commands by simp
  then have "compile_bf bf_code (bf_empty 1 (\<lambda>_. 0)) = (True, b')" using c by simp
  from this execute_safe [OF this z, of 1000000] show ?thesis by (metis bf_code_commands)
qed

text \<open>The program \<open>+[.]\<close> writes without end, so it leaves the output array.\<close>

lemma output_overrun:
  "\<exists>b'. compile_bf [43, 91, 46, 93] (bf_empty 1 (\<lambda>_. 0)) = (True, b')
    \<and> (\<exists>k. io_fault (bf (((\<lambda>r. bf_next r ()) ^^ k) \<lparr>xpc = 0, xptr = 0, bf = b'\<rparr>)))"
proof -
  obtain b' where c: "compile_bf [43, 91, 46, 93] (bf_empty 1 (\<lambda>_. 0)) = (True, b')"
    and p: "PROGRAM b' 0 = \<lparr>operator = 3, operand = 0\<rparr>" "PROGRAM b' 1 = \<lparr>operator = 7, operand = 3\<rparr>"
      "PROGRAM b' 2 = \<lparr>operator = 5, operand = 0\<rparr>" "PROGRAM b' 3 = \<lparr>operator = 8, operand = 1\<rparr>" "data b' 0 = 0"
    by (simp add: compile_bf_def compile_char_def set_op_def set_operand_def bf_empty_def Let_def PROGRAM_SIZE_def STACK_SIZE_def word_le_nat_alt)
  let ?r = "\<lambda>k. ((\<lambda>r. bf_next r ()) ^^ k) \<lparr>xpc = 0, xptr = 0, bf = b'\<rparr>"
  define f where "f = (\<lambda>r. bf_next r ())"
  have two: "(f ^^ 2) r = f (f r)" and shift: "(f ^^ (2 + 2 * Suc m)) r = f (f ((f ^^ (2 + 2 * m)) r))" for m r
    by (simp_all add: numeral_2_eq_2)
  have "xpc (?r (2 + 2 * m)) = 2 \<and> xptr (?r (2 + 2 * m)) = 0 \<and> data (bf (?r (2 + 2 * m))) 0 = 1
      \<and> PROGRAM (bf (?r (2 + 2 * m))) = PROGRAM b' \<and> m \<le> noutput (bf (?r (2 + 2 * m)))" for m
    unfolding f_def [symmetric]
  proof (induction m)
    case 0
    show ?case using p two [of "\<lparr>xpc = 0, xptr = 0, bf = b'\<rparr>"]
      by (simp add: f_def bf_next_def bf_running_def bf_step_def Let_def DATA_SIZE_def)
  next
    case (Suc m)
    then show ?case unfolding shift
      using p by (simp add: f_def bf_next_def bf_running_def bf_step_def Let_def DATA_SIZE_def)
  qed
  then have n: "4097 \<le> noutput (bf (?r (2 + 2 * 4097)))" by blast
  have "io_ok 1 (bf_empty 1 (\<lambda>_. 0))" by (simp add: io_ok_def bf_empty_def)
  then have "io_ok 1 (bf (?r 0))" using io_ok_compile [of 1 "[43, 91, 46, 93]" "bf_empty 1 (\<lambda>_. 0)"] c by simp
  then have "io_ok 1 (bf (?r (2 + 2 * 4097)))" by (intro bf_io.iterate_inv) simp
  then have "io_fault (bf (?r (2 + 2 * 4097)))" using n by (simp add: io_ok_def)
  then show ?thesis using c by blast
qed

end
