(* ===== verification/Bench_Md5.thy ===== *)
theory Bench_Md5
  imports Bench_Lib
begin

text \<open>
  The MD5 benchmark (\<open>md5/md5.c\<close>). The message, its padding and the digest lie in the byte
  memory; lengths and addresses are exact while the padded message fits below \<open>2 ^ 32\<close>.
\<close>

unbundle bit_operations_syntax

record md5_state =
  mN5 :: nat
  str_at :: nat
  digest_at :: nat

definition k_table :: "u32 list" where
  "k_table =
    [0xd76aa478, 0xe8c7b756, 0x242070db, 0xc1bdceee, 0xf57c0faf, 0x4787c62a, 0xa8304613, 0xfd469501,
     0x698098d8, 0x8b44f7af, 0xffff5bb1, 0x895cd7be, 0x6b901122, 0xfd987193, 0xa679438e, 0x49b40821,
     0xf61e2562, 0xc040b340, 0x265e5a51, 0xe9b6c7aa, 0xd62f105d, 0x02441453, 0xd8a1e681, 0xe7d3fbc8,
     0x21e1cde6, 0xc33707d6, 0xf4d50d87, 0x455a14ed, 0xa9e3e905, 0xfcefa3f8, 0x676f02d9, 0x8d2a4c8a,
     0xfffa3942, 0x8771f681, 0x6d9d6122, 0xfde5380c, 0xa4beea44, 0x4bdecfa9, 0xf6bb4b60, 0xbebfbc70,
     0x289b7ec6, 0xeaa127fa, 0xd4ef3085, 0x04881d05, 0xd9d4d039, 0xe6db99e5, 0x1fa27cf8, 0xc4ac5665,
     0xf4292244, 0x432aff97, 0xab9423a7, 0xfc93a039, 0x655b59c3, 0x8f0ccc92, 0xffeff47d, 0x85845dd1,
     0x6fa87e4f, 0xfe2ce6e0, 0xa3014314, 0x4e0811a1, 0xf7537e82, 0xbd3af235, 0x2ad7d2bb, 0xeb86d391]"

definition r_table :: "nat list" where
  "r_table =
    [7, 12, 17, 22, 7, 12, 17, 22, 7, 12, 17, 22, 7, 12, 17, 22,
     5, 9, 14, 20, 5, 9, 14, 20, 5, 9, 14, 20, 5, 9, 14, 20,
     4, 11, 16, 23, 4, 11, 16, 23, 4, 11, 16, 23, 4, 11, 16, 23,
     6, 10, 15, 21, 6, 10, 15, 21, 6, 10, 15, 21, 6, 10, 15, 21]"

definition LEFTROTATE :: "u32 \<Rightarrow> nat \<Rightarrow> u32" where
  "LEFTROTATE x c = push_bit c x OR drop_bit (32 - c) x"

definition to_bytes :: "u32 \<Rightarrow> nat \<Rightarrow> mem \<Rightarrow> mem" where
  "to_bytes val p m =
    m(p := ucast val, p + 1 := ucast (drop_bit 8 val), p + 2 := ucast (drop_bit 16 val), p + 3 := ucast (drop_bit 24 val))"

definition to_int32 :: "mem \<Rightarrow> nat \<Rightarrow> u32" where
  "to_int32 m p =
    ucast (m p) OR push_bit 8 (ucast (m (p + 1))) OR push_bit 16 (ucast (m (p + 2))) OR push_bit 24 (ucast (m (p + 3)))"

text \<open>The distance to the next length that is 56 modulo 64.\<close>

definition pad_gap :: "nat \<Rightarrow> nat" where
  "pad_gap n = (if n mod 64 \<le> 56 then 56 - n mod 64 else 120 - n mod 64)"

lemma pad_gap_Suc: "n mod 64 \<noteq> 56 \<Longrightarrow> pad_gap n = Suc (pad_gap (Suc n))"
proof -
  assume "n mod 64 \<noteq> 56"
  moreover have "n mod 64 < 64" by simp
  ultimately show ?thesis unfolding pad_gap_def mod_Suc by auto
qed

function pad_len :: "nat \<Rightarrow> nat" where
  "pad_len n = (if n mod 64 \<noteq> 56 then pad_len (n + 1) else n)"
  by pat_completeness auto
termination by (relation "measure pad_gap") (auto simp: pad_gap_Suc)

declare pad_len.simps [simp del]

type_synonym md5_hash = "u32 \<times> u32 \<times> u32 \<times> u32"

definition md5_round :: "(nat \<Rightarrow> u32) \<Rightarrow> nat \<Rightarrow> md5_hash \<Rightarrow> md5_hash" where
  "md5_round w i = (\<lambda>(a, b, c, d).
     let (f, g) =
       (if i < 16 then ((b AND c) OR (NOT b AND d), i)
        else if i < 32 then ((d AND b) OR (NOT d AND c), (5 * i + 1) mod 16)
        else if i < 48 then (b XOR c XOR d, (3 * i + 5) mod 16)
        else (c XOR (b OR NOT d), (7 * i) mod 16));
         temp = d; d = c; c = b;
         b = b + LEFTROTATE (a + f + k_table ! i + w g) (r_table ! i)
     in (temp, b, c, d))"

definition md5_chunk :: "mem \<Rightarrow> nat \<Rightarrow> nat \<Rightarrow> md5_hash \<Rightarrow> md5_hash" where
  "md5_chunk m msg offset = (\<lambda>(h0, h1, h2, h3).
     let w = (\<lambda>i. to_int32 m (msg + offset + i * 4));
         (a, b, c, d) = fold (md5_round w) [0..<64] (h0, h1, h2, h3)
     in (h0 + a, h1 + b, h2 + c, h3 + d))"

function md5_chunks :: "mem \<Rightarrow> nat \<Rightarrow> nat \<Rightarrow> nat \<Rightarrow> md5_hash \<Rightarrow> md5_hash" where
  "md5_chunks m msg offset new_len h =
    (if offset < new_len then md5_chunks m msg (offset + 64) new_len (md5_chunk m msg offset h) else h)"
  by pat_completeness auto
termination by (relation "measure (\<lambda>(m, msg, offset, new_len, h). new_len - offset)") auto

declare md5_chunks.simps [simp del]

definition md5 :: "nat \<Rightarrow> nat \<Rightarrow> nat \<Rightarrow> mem \<Rightarrow> mem" where
  "md5 msg initial_len digest m =
    (let new_len = pad_len (initial_len + 1);
         m = m(msg + initial_len := 0x80);
         m = fold (\<lambda>offset m. m(msg + offset := 0)) [initial_len + 1..<new_len] m;
         m = to_bytes (of_nat (initial_len * 8)) (msg + new_len) m;
         m = to_bytes (drop_bit 29 (of_nat initial_len)) (msg + new_len + 4) m;
         (h0, h1, h2, h3) = md5_chunks m msg 0 new_len (0x67452301, 0xefcdab89, 0x98badcfe, 0x10325476);
         m = to_bytes h0 digest m;
         m = to_bytes h1 (digest + 4) m;
         m = to_bytes h2 (digest + 8) m
     in to_bytes h3 (digest + 12) m)"

definition bench_md5_prepare :: "area \<Rightarrow> setting \<Rightarrow> bench \<Rightarrow> (md5_state \<times> bench) option" where
  "bench_md5_prepare ar st b =
    (case bench_alloc ar st (bench_srand 1 b) (ssize st) of
       None \<Rightarrow> None
     | Some (p, b) \<Rightarrow>
         (let b = fold (\<lambda>i b. let (x, b) = bench_rand b in b\<lparr>bmem := (bmem b)(unat p + i := ucast x)\<rparr>)
                [0..<unat (ssize st)] b
          in map_option (\<lambda>(q, b). (\<lparr>mN5 = unat (ssize st), str_at = unat p, digest_at = unat q\<rparr>, b))
               (bench_alloc ar st b 16)))"

definition bench_md5_run :: "md5_state \<Rightarrow> bench \<Rightarrow> bench" where
  "bench_md5_run s b = b\<lparr>bmem := md5 (str_at s) (mN5 s) (digest_at s) (bmem b)\<rparr>"

definition bench_md5_validate :: "setting \<Rightarrow> md5_state \<Rightarrow> bench \<Rightarrow> bool" where
  "bench_md5_validate st s b \<longleftrightarrow> checksum (bmem b) (digest_at s) (digest_at s + 16) = schecksum st"

section \<open>MD5 of a list of bytes\<close>

text \<open>Numbers as bytes, least significant first, and back.\<close>

definition le_bytes :: "nat \<Rightarrow> nat \<Rightarrow> u8 list" where
  "le_bytes k n = map (\<lambda>i. of_nat (n div 256 ^ i)) [0..<k]"

definition le_word :: "u8 list \<Rightarrow> u32" where
  "le_word bs = (\<Sum>i<4. of_nat (unat (bs ! i) * 256 ^ i))"

definition md5_zeros :: "nat \<Rightarrow> nat" where
  "md5_zeros n = (119 - n mod 64) mod 64"

definition md5_padded :: "u8 list \<Rightarrow> u8 list" where
  "md5_padded xs = xs @ 0x80 # replicate (md5_zeros (length xs)) 0 @ le_bytes 8 (8 * length xs)"

text \<open>The four round functions, message orders and shifts of RFC 1321.\<close>

definition md5_func :: "nat \<Rightarrow> u32 \<Rightarrow> u32 \<Rightarrow> u32 \<Rightarrow> u32" where
  "md5_func r x y z =
    [(x AND y) OR (NOT x AND z), (x AND z) OR (y AND NOT z), x XOR y XOR z, y XOR (x OR NOT z)] ! r"

definition md5_index :: "nat \<Rightarrow> nat \<Rightarrow> nat" where
  "md5_index r i = ([1, 5, 3, 7] ! r * i + [0, 1, 5, 0] ! r) mod 16"

definition md5_shift :: "nat \<Rightarrow> nat \<Rightarrow> nat" where
  "md5_shift r i = [ [7, 12, 17, 22], [5, 9, 14, 20], [4, 11, 16, 23], [6, 10, 15, 21] ] ! r ! (i mod 4)"

definition md5_operation :: "u8 list \<Rightarrow> nat \<Rightarrow> md5_hash \<Rightarrow> md5_hash" where
  "md5_operation block i = (\<lambda>(a, b, c, d).
     (d, b + word_rotl (md5_shift (i div 16) i)
        (a + md5_func (i div 16) b c d + le_word (drop (4 * md5_index (i div 16) i) block) + k_table ! i), b, c))"

definition md5_compress :: "md5_hash \<Rightarrow> u8 list \<Rightarrow> md5_hash" where
  "md5_compress = (\<lambda>(h0, h1, h2, h3) block.
     case fold (md5_operation block) [0..<64] (h0, h1, h2, h3) of
       (a, b, c, d) \<Rightarrow> (h0 + a, h1 + b, h2 + c, h3 + d))"

definition md5_of :: "u8 list \<Rightarrow> u8 list" where
  "md5_of xs =
    (let p = md5_padded xs;
         (h0, h1, h2, h3) = fold (\<lambda>j h. md5_compress h (take 64 (drop (64 * j) p))) [0..<length p div 64]
           (0x67452301, 0xefcdab89, 0x98badcfe, 0x10325476)
     in concat (map (\<lambda>h. le_bytes 4 (unat h)) [h0, h1, h2, h3]))"

section \<open>Lemmas\<close>

lemma md5_zeros_gap: "md5_zeros n = pad_gap (Suc n)"
proof (cases "n mod 64 \<le> 55")
  case True
  then have "119 - n mod 64 = 64 + (55 - n mod 64)" by simp
  then have "(119 - n mod 64) mod 64 = (55 - n mod 64) mod 64" by (metis mod_add_self1)
  also have "\<dots> = 55 - n mod 64" by (rule mod_less) simp
  finally have "(119 - n mod 64) mod 64 = 55 - n mod 64" .
  then show ?thesis using True by (auto simp: md5_zeros_def pad_gap_def mod_Suc)
next
  case False
  moreover have "n mod 64 < 64" by simp
  ultimately show ?thesis by (auto simp: md5_zeros_def pad_gap_def mod_Suc)
qed

lemma pad_len_eq: "pad_len (n + 1) = n + 1 + md5_zeros n"
proof -
  have "pad_len m = m + pad_gap m" for m
  proof (induction m rule: pad_len.induct)
    case (1 n)
    then show ?case using pad_gap_Suc [of n]
      by (cases "n mod 64 = 56"; subst pad_len.simps) (simp_all add: pad_gap_def [of n])
  qed
  then show ?thesis by (simp add: md5_zeros_gap)
qed

lemma length_le_bytes [simp]: "length (le_bytes k n) = k"
  by (simp add: le_bytes_def)

lemma padded_length: "64 dvd length (md5_padded xs)"
proof -
  let ?n = "length xs"
  have "length (md5_padded xs) = ?n + md5_zeros ?n + 9" by (simp add: md5_padded_def)
  also have "\<dots> = ?n div 64 * 64 + (?n mod 64 + md5_zeros ?n + 9)" by simp
  also have "64 dvd \<dots>"
  proof -
    have "?n mod 64 < 64" by simp
    then have "?n mod 64 + md5_zeros ?n + 9 = 64 \<or> ?n mod 64 + md5_zeros ?n + 9 = 128"
      by (auto simp: md5_zeros_gap pad_gap_def mod_Suc)
    then have "64 dvd ?n mod 64 + md5_zeros ?n + 9" by (elim disjE) simp_all
    then show ?thesis by (rule dvd_add [OF dvd_triv_right])
  qed
  finally show ?thesis .
qed

lemma le_bytes_4: "le_bytes 4 (unat v) = [ucast v, ucast (drop_bit 8 v), ucast (drop_bit 16 v), ucast (drop_bit 24 v)]" for v :: u32
proof -
  have u: "of_nat (unat v div 2 ^ n) = (ucast (drop_bit n v) :: u8)" for n
    by (simp flip: unat_drop_bit)
  have "[0..<4] = [0, 1, 2, 3::nat]" by (simp add: upt_rec)
  then show ?thesis using u [of 0] u [of 8] u [of 16] u [of 24] by (simp add: le_bytes_def)
qed

lemma to_bytes_put: "to_bytes v p m = put m p (le_bytes 4 (unat v))"
  unfolding le_bytes_4 by (simp add: to_bytes_def put_Cons numeral_3_eq_3)

lemma to_int32_le: "to_int32 m p = le_word (bytes m p 4)"
proof -
  let ?x = "\<lambda>i. ucast (m (p + i)) :: u32"
  have b: "bit (ucast y :: u32) n \<Longrightarrow> n < 8" for n and y :: u8 by (auto simp: bit_simps dest: bit_imp_le_length)
  have "to_int32 m p = ?x 0 OR push_bit 8 (?x 1) OR push_bit 16 (?x 2) OR push_bit 24 (?x 3)"
    by (simp add: to_int32_def or.assoc)
  also have "\<dots> = ?x 0 + (push_bit 8 (?x 1) + (push_bit 16 (?x 2) + push_bit 24 (?x 3)))"
  proof -
    have a: "push_bit 16 (?x 2) + push_bit 24 (?x 3) = push_bit 16 (?x 2) OR push_bit 24 (?x 3)"
      by (rule word_or_add, rule bit_word_eqI) (auto simp: bit_and_iff bit_push_bit_iff dest!: b)
    have c: "push_bit 8 (?x 1) + (push_bit 16 (?x 2) OR push_bit 24 (?x 3))
        = push_bit 8 (?x 1) OR (push_bit 16 (?x 2) OR push_bit 24 (?x 3))"
      by (rule word_or_add, rule bit_word_eqI) (auto simp: bit_and_iff bit_or_iff bit_push_bit_iff dest!: b)
    have d: "?x 0 + (push_bit 8 (?x 1) OR (push_bit 16 (?x 2) OR push_bit 24 (?x 3)))
        = ?x 0 OR (push_bit 8 (?x 1) OR (push_bit 16 (?x 2) OR push_bit 24 (?x 3)))"
      by (rule word_or_add, rule bit_word_eqI) (auto simp: bit_and_iff bit_or_iff bit_push_bit_iff dest!: b)
    show ?thesis unfolding a c d by (simp add: or.assoc)
  qed
  also have "\<dots> = le_word (bytes m p 4)"
    by (simp add: le_word_def eval_nat_numeral push_bit_eq_mult)
  finally show ?thesis .
qed

lemma LEFTROTATE_rotl: "0 < c \<Longrightarrow> c < 32 \<Longrightarrow> LEFTROTATE x c = word_rotl c x"
proof (rule bit_word_eqI)
  fix n assume c: "0 < c" "c < 32" and "n < LENGTH(32)"
  then have n: "n < 32" by simp
  show "bit (LEFTROTATE x c) n \<longleftrightarrow> bit (word_rotl c x) n"
  proof (cases "c \<le> n")
    case True
    then have "(n + 32 - c) mod 32 = n - c" using n c by (simp add: mod_if)
    then show ?thesis using True n c bit_imp_le_length [of x "32 + n - c"]
      by (auto simp: LEFTROTATE_def bit_or_iff bit_push_bit_iff bit_drop_bit_eq bit_word_rotl_iff)
  next
    case False
    then have "(n + 32 - c) mod 32 = 32 - c + n" using n c by simp
    then show ?thesis using False n c
      by (auto simp: LEFTROTATE_def bit_or_iff bit_push_bit_iff bit_drop_bit_eq bit_word_rotl_iff)
  qed
qed

lemma shifts: "i < 64 \<Longrightarrow> r_table ! i = md5_shift (i div 16) i \<and> 0 < r_table ! i \<and> r_table ! i < 32"
proof -
  have "\<forall>i \<in> set [0..<64]. r_table ! i = md5_shift (i div 16) i \<and> 0 < r_table ! i \<and> r_table ! i < 32"
    by code_simp
  then show "i < 64 \<Longrightarrow> ?thesis" by (metis atLeastLessThan_iff set_upt zero_le)
qed

lemma md5_round_operation:
  assumes "i < 64" and "\<And>g. g < 16 \<Longrightarrow> w g = le_word (drop (4 * g) block)"
  shows "md5_round w i h = md5_operation block i h"
proof -
  obtain a b c d where h: "h = (a, b, c, d)" by (cases h) auto
  have s: "LEFTROTATE x (r_table ! i) = word_rotl (md5_shift (i div 16) i) x" for x
    using shifts [OF assms(1)] LEFTROTATE_rotl by metis
  have g: "md5_index r i < 16" for r by (simp add: md5_index_def)
  consider "i < 16" "i div 16 = 0" | "16 \<le> i" "i < 32" "i div 16 = 1" | "32 \<le> i" "i < 48" "i div 16 = 2"
    | "48 \<le> i" "i div 16 = 3"
    using assms(1) by fastforce
  then show ?thesis
  proof cases
    case 1
    then show ?thesis using assms(2) [OF g [of 0]]
      by (simp add: h md5_round_def md5_operation_def s md5_func_def md5_index_def algebra_simps)
  next
    case 2
    then show ?thesis using assms(2) [OF g [of 1]]
      by (simp add: h md5_round_def md5_operation_def s md5_func_def md5_index_def algebra_simps and.commute)
  next
    case 3
    then show ?thesis using assms(2) [OF g [of 2]]
      by (simp add: h md5_round_def md5_operation_def s md5_func_def md5_index_def algebra_simps xor.assoc)
  next
    case 4
    then show ?thesis using assms(2) [OF g [of 3]]
      by (simp add: h md5_round_def md5_operation_def s md5_func_def md5_index_def algebra_simps)
  qed
qed

lemma md5_chunk_compress: "md5_chunk m msg offset h = md5_compress h (bytes m (msg + offset) 64)"
proof -
  let ?block = "bytes m (msg + offset) 64" and ?w = "\<lambda>i. to_int32 m (msg + offset + i * 4)"
  have "?w g = le_word (drop (4 * g) ?block)" if "g < 16" for g
  proof -
    have "bytes m (msg + offset + g * 4) 4 ! k = drop (4 * g) ?block ! k" if "k < 4" for k
      using that \<open>g < 16\<close> by (simp add: ac_simps)
    then show ?thesis unfolding to_int32_le le_word_def by (intro sum.cong) auto
  qed
  then have "fold (md5_round ?w) [0..<64] = fold (md5_operation ?block) [0..<64]"
    by (intro ext fold_cong) (auto intro!: md5_round_operation)
  then show ?thesis by (cases h) (simp add: md5_chunk_def md5_compress_def Let_def)
qed

lemma md5_chunks_fold:
  assumes "bytes m msg (64 * k) = p" and "j \<le> k" and "0 < k"
  shows "md5_chunks m msg (64 * j) (64 * k - 8) h = fold (\<lambda>j h. md5_compress h (take 64 (drop (64 * j) p))) [j..<k] h"
  using assms(2)
proof (induction "k - j" arbitrary: j h)
  case 0
  then have "j = k" "\<not> 64 * k < 64 * k - 8" by auto
  then show ?case by (subst md5_chunks.simps) simp
next
  case (Suc d)
  then have j: "j < k" by simp
  have "bytes m (msg + 64 * j) 64 = take 64 (drop (64 * j) p)"
    unfolding assms(1) [symmetric] using j by (intro nth_equalityI) (auto simp: add.assoc)
  moreover have "[j..<k] = j # [j + 1..<k]" using j by (simp add: upt_rec)
  moreover have "64 * j < 64 * k - 8" using j by simp
  moreover have "md5_chunks m msg (64 * j + 64) (64 * k - 8) h'
      = fold (\<lambda>j h. md5_compress h (take 64 (drop (64 * j) p))) [j + 1..<k] h'" for h'
    using Suc.hyps(1) [of "j + 1" h'] Suc.hyps(2) j by (simp add: add.commute)
  ultimately show ?case by (subst md5_chunks.simps) (simp add: md5_chunk_compress)
qed

lemma le_bytes_bit: "i < k \<Longrightarrow> bit (le_bytes k n ! i) j \<longleftrightarrow> j < 8 \<and> bit n (8 * i + j)"
proof -
  have "n div 256 ^ i = drop_bit (8 * i) n" by (simp add: drop_bit_eq_div power_mult)
  then show "i < k \<Longrightarrow> ?thesis" by (simp add: le_bytes_def bit_of_nat_iff possible_bit_def bit_drop_bit_eq)
qed

lemma le_bytes_length:
  assumes "n < 2 ^ 32"
  shows "le_bytes 4 (unat (of_nat (n * 8) :: u32)) @ le_bytes 4 (unat (drop_bit 29 (of_nat n) :: u32)) = le_bytes 8 (8 * n)"
    (is "?lo @ ?hi = _")
proof (rule nth_equalityI)
  fix i assume "i < length (?lo @ ?hi)"
  then have i: "i < 8" by simp
  have lo: "unat (of_nat (n * 8) :: u32) = take_bit 32 (push_bit 3 n)"
    by (simp add: unat_of_nat take_bit_eq_mod push_bit_eq_mult del: of_nat_mult)
  have hi: "unat (drop_bit 29 (of_nat n) :: u32) = drop_bit 29 n"
    unfolding unat_drop_bit using assms by (simp add: unat_of_nat drop_bit_eq_div)
  have n: "8 * n = push_bit 3 n" by (simp add: push_bit_eq_mult)
  show "(?lo @ ?hi) ! i = le_bytes 8 (8 * n) ! i"
  proof (rule bit_word_eqI)
    fix j
    show "bit ((?lo @ ?hi) ! i) j = bit (le_bytes 8 (8 * n) ! i) j"
    proof (cases "i < 4")
      case True
      then show ?thesis
        unfolding nth_append length_le_bytes if_P [OF True] le_bytes_bit [OF True] le_bytes_bit [OF i] lo n
        by (auto simp: bit_take_bit_iff)
    next
      case False
      then obtain i' where i': "i = 4 + i'" "i' < 4" using i le_Suc_ex [of 4 i] by auto
      have "bit (drop_bit 29 n) (8 * i' + j) = bit (push_bit 3 n) (8 * i + j)"
        by (simp add: i' bit_drop_bit_eq bit_push_bit_iff ac_simps)
      moreover have "(?lo @ ?hi) ! i = ?hi ! i'" using i' by (simp add: nth_append)
      ultimately show ?thesis by (simp only: le_bytes_bit [OF i'(2)] le_bytes_bit [OF i] hi n)
    qed
  qed
qed simp

lemma fold_zeros: "fold (\<lambda>offset m. m(msg + offset := 0)) [a..<a + z] m = put m (msg + a) (replicate z 0)"
proof (induction z)
  case (Suc z)
  have "replicate (Suc z) (0 :: u8) = replicate z 0 @ [0]" by (simp add: replicate_append_same)
  moreover have "[a..<a + Suc z] = [a..<a + z] @ [a + z]" by simp
  ultimately show ?case using Suc
    by (simp only: put_append put_Cons put_Nil fold_append fold_simps o_apply length_replicate add.assoc)
qed simp

lemma bytes_append_put: "bytes (put m (msg + n) ys) msg (n + length ys) = bytes m msg n @ ys"
proof (rule nth_equalityI)
  fix i assume "i < length (bytes (put m (msg + n) ys) msg (n + length ys))"
  then have i: "i < n + length ys" by simp
  show "bytes (put m (msg + n) ys) msg (n + length ys) ! i = (bytes m msg n @ ys) ! i"
  proof (cases "i < n")
    case True
    then show ?thesis using i by (simp add: nth_append put_other)
  next
    case False
    then show ?thesis using i put_same [of "i - n" ys m "msg + n"] by (simp add: nth_append)
  qed
qed simp

lemma md5_memory:
  assumes "n < 2 ^ 32"
  shows "to_bytes (drop_bit 29 (of_nat n)) (msg + pad_len (n + 1) + 4)
      (to_bytes (of_nat (n * 8)) (msg + pad_len (n + 1))
        (fold (\<lambda>offset m. m(msg + offset := 0)) [n + 1..<pad_len (n + 1)] (m(msg + n := 0x80))))
    = put m (msg + n) (drop n (md5_padded (bytes m msg n)))"
proof -
  have "drop n (md5_padded (bytes m msg n)) = 0x80 # replicate (md5_zeros n) 0 @
      le_bytes 4 (unat (of_nat (n * 8) :: u32)) @ le_bytes 4 (unat (drop_bit 29 (of_nat n) :: u32))"
    by (simp add: md5_padded_def le_bytes_length [OF assms] del: of_nat_mult)
  then show ?thesis
    unfolding pad_len_eq fold_zeros to_bytes_put
    by (simp only: put_Cons put_append length_replicate length_le_bytes add.assoc)
qed

section \<open>Properties\<close>

text \<open>
  C28: the routine writes the MD5 digest of the \<open>n\<close> bytes at \<open>msg\<close> to \<open>digest\<close>, also where the
  digest overlaps the padding, and otherwise changes exactly the padding: the 9 to 72 bytes
  behind the message, which are not part of the buffer that the benchmark allocates.
\<close>

theorem md5_correct:
  assumes "n < 2 ^ 32"
  shows "md5 msg n dg m = put (put m (msg + n) (drop n (md5_padded (bytes m msg n)))) dg (md5_of (bytes m msg n))
    \<and> bytes (md5 msg n dg m) dg 16 = md5_of (bytes m msg n)
    \<and> 9 \<le> length (md5_padded (bytes m msg n)) - n \<and> length (md5_padded (bytes m msg n)) - n \<le> 72"
proof -
  let ?p = "md5_padded (bytes m msg n)" and ?H = "(0x67452301, 0xefcdab89, 0x98badcfe, 0x10325476)"
  let ?m = "put m (msg + n) (drop n ?p)"
  have z: "md5_zeros n < 64" by (simp add: md5_zeros_def)
  have len: "length ?p = n + md5_zeros n + 9" by (simp add: md5_padded_def)
  obtain k where k: "length ?p = 64 * k" using padded_length by (rule dvdE)
  have k0: "0 < k" using k len by (cases k) auto
  have new: "pad_len (n + 1) = 64 * k - 8" using k len pad_len_eq [of n] by linarith
  have "take n ?p = bytes m msg n" by (simp add: md5_padded_def)
  then have "bytes m msg n @ drop n ?p = ?p" by (metis append_take_drop_id)
  then have b: "bytes ?m msg (64 * k) = ?p"
    using bytes_append_put [of m msg n "drop n ?p"] k len by simp
  obtain h0 h1 h2 h3 where h: "fold (\<lambda>j h. md5_compress h (take 64 (drop (64 * j) ?p))) [0..<k] ?H = (h0, h1, h2, h3)"
    by (metis prod.exhaust)
  have c: "md5_chunks ?m msg 0 (64 * k - 8) ?H = (h0, h1, h2, h3)"
    using md5_chunks_fold [OF b, of 0 ?H] k0 h by simp
  have d: "md5_of (bytes m msg n) = le_bytes 4 (unat h0) @ le_bytes 4 (unat h1) @ le_bytes 4 (unat h2) @ le_bytes 4 (unat h3)"
    using h k by (simp add: md5_of_def Let_def)
  have "md5 msg n dg m = put ?m dg (md5_of (bytes m msg n))"
    unfolding md5_def Let_def md5_memory [OF assms]
    unfolding d new c case_prod_conv to_bytes_put
    by (simp add: put_append add.assoc)
  moreover have "bytes (put ?m dg (md5_of (bytes m msg n))) dg 16 = md5_of (bytes m msg n)"
    by (subst bytes_put) (simp_all add: d)
  ultimately show ?thesis using len z by simp
qed

theorem md5_witness: "bytes (md5 0 2 200 (\<lambda>_. 97)) 200 16 = md5_of [97, 97]"
proof -
  have "bytes (\<lambda>_. 97) 0 2 = [97, 97]" by (simp add: bytes_def upt_rec)
  then show ?thesis using md5_correct [of 2 0 200 "\<lambda>_. 97"] by (simp only: power2_eq_square) auto
qed

end
