(* ===== verification/Bench_Main.thy ===== *)
theory Bench_Main
  imports Bench_Qsort Bench_Bits Bench_Fib Bench_Bf Bench_Md5
begin

text \<open>
  The table of MicroBench and its main program (\<open>bench.c\<close>, \<open>benchmark.h\<close>). The four benchmarks
  that are not C code of their own (\<open>15pz\<close>, \<open>dinic\<close>, \<open>ssort\<close> in C++, \<open>lzip\<close> with the QuickLZ
  library) are arguments. So are the clock, the readings of the timer in their order, and
  the heap area. Each \<open>printf\<close> is the value of type \<open>said\<close> with its arguments.
\<close>

unbundle bit_operations_syntax

section \<open>The table\<close>

definition KB :: "u32 \<Rightarrow> u32" where "KB n = n * 1024"
definition MB :: "u32 \<Rightarrow> u32" where "MB n = n * 1024 * 1024"

definition mk_setting :: "u32 \<Rightarrow> u32 \<Rightarrow> u32 \<Rightarrow> u32 \<Rightarrow> setting" where
  "mk_setting sz lim rf chk = \<lparr>ssize = sz, mlim = lim, sref = rf, schecksum = chk\<rparr>"

definition qsort_settings :: "setting list" where
  "qsort_settings =
    [mk_setting 100 (KB 1) 0 0x08467105, mk_setting 30000 (KB 128) 0 0xa3e99fe4,
     mk_setting 100000 (KB 640) 4404 0xed8cff89, mk_setting 4000000 (MB 16) 227620 0xe6178735]"

definition queen_settings :: "setting list" where
  "queen_settings =
    [mk_setting 8 (KB 0) 0 0x0000005c, mk_setting 11 (KB 0) 0 0x00000a78,
     mk_setting 12 (KB 0) 4069 0x00003778, mk_setting 15 (KB 0) 819996 0x0022c710]"

definition bf_settings :: "setting list" where
  "bf_settings =
    [mk_setting 2 (KB 32) 0 0xa6f0079e, mk_setting 25 (KB 32) 0 0xa88f8a65,
     mk_setting 180 (KB 32) 16815 0x9221e2b3, mk_setting 1360 (KB 32) 771535 0xdb49fbde]"

definition fib_settings :: "setting list" where
  "fib_settings =
    [mk_setting 2 (KB 1) 0 0x7cfeddf0, mk_setting 23 (KB 16) 0 0x94ad8800,
     mk_setting 91 (KB 256) 20168 0xebdc5f80, mk_setting 300 (MB 2) 775012 0xe30a6f00]"

definition sieve_settings :: "setting list" where
  "sieve_settings =
    [mk_setting 100 (KB 1) 0 0x00000019, mk_setting 200000 (KB 32) 0 0x00004640,
     mk_setting 10000000 (MB 2) 34823 0x000a2403, mk_setting 80000000 (MB 10) 301058 0x00473fc6]"

definition md5_settings :: "setting list" where
  "md5_settings =
    [mk_setting 100 (KB 1) 0 0xf902f28f, mk_setting 200000 (KB 256) 0 0xd4f9bc6d,
     mk_setting 10000000 (MB 10) 15199 0x27286a42, mk_setting 64000000 (MB 64) 97148 0x41ab4d60]"

text \<open>The variables of all benchmarks; \<open>ext\<close> are those of the four that are arguments.\<close>

record 'x world =
  wb :: bench
  wqsort :: qsort
  wqueen :: queen
  wbf :: bf
  wfib :: fib
  wsieve :: sieve
  wmd5 :: md5_state
  ext :: 'x

text \<open>
  An operation that does not return is \<open>None\<close>: a preparation whose assertion fails, a run that
  does not end.
\<close>

record 'x benchmark =
  prepare :: "area \<Rightarrow> setting \<Rightarrow> 'x world \<Rightarrow> 'x world option"
  run :: "'x world \<Rightarrow> 'x world option"
  validate :: "setting \<Rightarrow> 'x world \<Rightarrow> bool"
  bname :: string
  bdesc :: string
  settings :: "setting list"

definition qsort_bench :: "'x benchmark" where
  "qsort_bench =
    \<lparr>prepare = (\<lambda>a st w. map_option (\<lambda>(q, b). w\<lparr>wqsort := q, wb := b\<rparr>) (bench_qsort_prepare a st (wb w))),
     run = (\<lambda>w. Some (w\<lparr>wqsort := bench_qsort_run (wqsort w)\<rparr>)),
     validate = (\<lambda>st w. bench_qsort_validate st (wqsort w)),
     bname = ''qsort'', bdesc = ''Quick sort'', settings = qsort_settings\<rparr>"

definition queen_bench :: "'x benchmark" where
  "queen_bench =
    \<lparr>prepare = (\<lambda>a st w. map_option (\<lambda>q. w\<lparr>wqueen := q\<rparr>) (bench_queen_prepare st)),
     run = (\<lambda>w. Some (w\<lparr>wqueen := bench_queen_run (wqueen w)\<rparr>)),
     validate = (\<lambda>st w. bench_queen_validate st (wqueen w)),
     bname = ''queen'', bdesc = ''Queen placement'', settings = queen_settings\<rparr>"

definition bf_bench :: "'x benchmark" where
  "bf_bench =
    \<lparr>prepare = (\<lambda>a st w. map_option (\<lambda>(q, b). w\<lparr>wbf := q, wb := b\<rparr>) (bench_bf_prepare a st (wb w))),
     run = (\<lambda>w. map_option (\<lambda>q. w\<lparr>wbf := q\<rparr>) (bench_bf_run (wbf w))),
     validate = (\<lambda>st w. bench_bf_validate st (wbf w)),
     bname = ''bf'', bdesc = ''Brainf**k interpreter'', settings = bf_settings\<rparr>"

definition fib_bench :: "'x benchmark" where
  "fib_bench =
    \<lparr>prepare = (\<lambda>a st w. map_option (\<lambda>(q, b). w\<lparr>wfib := q, wb := b\<rparr>) (bench_fib_prepare a st (wb w))),
     run = (\<lambda>w. Some (w\<lparr>wfib := bench_fib_run (wfib w)\<rparr>)),
     validate = (\<lambda>st w. bench_fib_validate st (wfib w)),
     bname = ''fib'', bdesc = ''Fibonacci number'', settings = fib_settings\<rparr>"

definition sieve_bench :: "'x benchmark" where
  "sieve_bench =
    \<lparr>prepare = (\<lambda>a st w. map_option (\<lambda>(q, b). w\<lparr>wsieve := q, wb := b\<rparr>)
       (bench_sieve_prepare a st (vans (wsieve w)) (wb w))),
     run = (\<lambda>w. Some (w\<lparr>wsieve := bench_sieve_run (wsieve w)\<rparr>)),
     validate = (\<lambda>st w. bench_sieve_validate st (wsieve w)),
     bname = ''sieve'', bdesc = ''Eratosthenes sieve'', settings = sieve_settings\<rparr>"

definition md5_bench :: "'x benchmark" where
  "md5_bench =
    \<lparr>prepare = (\<lambda>a st w. map_option (\<lambda>(q, b). w\<lparr>wmd5 := q, wb := b\<rparr>) (bench_md5_prepare a st (wb w))),
     run = (\<lambda>w. Some (w\<lparr>wb := bench_md5_run (wmd5 w) (wb w)\<rparr>)),
     validate = (\<lambda>st w. bench_md5_validate st (wmd5 w) (wb w)),
     bname = ''md5'', bdesc = ''MD5 digest'', settings = md5_settings\<rparr>"

definition benchmarks :: "'x benchmark \<Rightarrow> 'x benchmark \<Rightarrow> 'x benchmark \<Rightarrow> 'x benchmark \<Rightarrow> 'x benchmark list" where
  "benchmarks pz dinic lzip ssort =
    [qsort_bench, queen_bench, bf_bench, fib_bench, sieve_bench, pz, dinic, lzip, ssort, md5_bench]"

section \<open>One run\<close>

text \<open>The state of the main program: the world and the number of timer readings so far.\<close>

definition run_once :: "area \<Rightarrow> (nat \<Rightarrow> u64) \<Rightarrow> 'x benchmark \<Rightarrow> setting \<Rightarrow> nat \<times> 'x world \<Rightarrow>
    (bool \<times> u64 \<times> nat \<times> 'x world) option" where
  "run_once a clock b st = (\<lambda>(t, w).
     case prepare b a st (w\<lparr>wb := bench_reset a (wb w)\<rparr>) of
       None \<Rightarrow> None
     | Some w \<Rightarrow>
         (let usec = clock t
          in case run b w of
               None \<Rightarrow> None
             | Some w \<Rightarrow> Some (validate b st w, clock (t + 1) - usec, t + 2, w)))"

section \<open>The main program\<close>

datatype said =
    Empty_mainargs
  | Invalid_mainargs string
  | Running string
  | Heading string string
  | Ignored
  | Star
  | Cross
  | Passed
  | Failed
  | Min_time "u8 list" u32
  | Verdict bool
  | Marks u32
  | Scored_time "u8 list"
  | Total_time "u8 list"

record 'x progress =
  ticks :: nat
  world :: "'x world"
  bench_score :: u32
  all_pass :: bool
  score_time :: u64
  console :: "said list"

definition say :: "said \<Rightarrow> 'x progress \<Rightarrow> 'x progress" where
  "say l p = p\<lparr>console := console p @ [l]\<rparr>"

definition REPEAT :: nat where "REPEAT = 1"

text \<open>The inner loop: \<open>REPEAT\<close> runs with the least time and the conjunction of the results.\<close>

primrec repeat_runs :: "nat \<Rightarrow> area \<Rightarrow> (nat \<Rightarrow> u64) \<Rightarrow> 'x benchmark \<Rightarrow> setting \<Rightarrow> bool \<Rightarrow> u64 \<Rightarrow> 'x progress \<Rightarrow>
    (bool \<times> u64 \<times> 'x progress) option" where
  "repeat_runs 0 a clock b st succ usec p = Some (succ, usec, p)"
| "repeat_runs (Suc n) a clock b st succ usec p =
    (case run_once a clock b st (ticks p, world p) of
       None \<Rightarrow> None
     | Some (ok, us, t, w) \<Rightarrow>
         repeat_runs n a clock b st (succ \<and> ok) (if us < usec then us else usec)
           (say (if ok then Star else Cross) (p\<lparr>ticks := t, world := w, score_time := score_time p + us\<rparr>)))"

definition bench_one :: "area \<Rightarrow> (nat \<Rightarrow> u64) \<Rightarrow> nat \<Rightarrow> 'x benchmark \<Rightarrow> 'x progress \<Rightarrow> 'x progress option" where
  "bench_one a clock setting_id b p =
    (let st = settings b ! setting_id;
         msg = \<not> bench_check a st;
         p = say (Heading (bname b) (bdesc b)) p
     in if msg then Some (say Ignored p)
        else case repeat_runs REPEAT a clock b st True (- 1) p of
          None \<Rightarrow> None
        | Some (succ, usec, p) \<Rightarrow>
            (let p = say (if succ then Passed else Failed) p;
                 p = p\<lparr>all_pass := all_pass p \<and> succ\<rparr>;
                 cur = (if succ then score st usec else 0)
             in Option.bind
                  (if setting_id \<noteq> 0 then map_option (\<lambda>s. say (Min_time s cur) p) (format_time usec) else Some p)
                  (\<lambda>p. Some (p\<lparr>bench_score := bench_score p + cur\<rparr>))))"

primrec bench_all :: "area \<Rightarrow> (nat \<Rightarrow> u64) \<Rightarrow> nat \<Rightarrow> 'x benchmark list \<Rightarrow> 'x progress \<Rightarrow> 'x progress option" where
  "bench_all a clock sid [] p = Some p"
| "bench_all a clock sid (b # bs) p = Option.bind (bench_one a clock sid b p) (bench_all a clock sid bs)"

definition setting_of :: "string \<Rightarrow> nat option" where
  "setting_of s =
    (if s = ''test'' then Some 0 else if s = ''train'' then Some 1
     else if s = ''ref'' then Some 2 else if s = ''huge'' then Some 3 else None)"

text \<open>The exit code with what has been printed; \<open>halt(1)\<close> ends the program at once.\<close>

definition bench_main :: "area \<Rightarrow> (nat \<Rightarrow> u64) \<Rightarrow> 'x benchmark list \<Rightarrow> string option \<Rightarrow> 'x world \<Rightarrow> (nat \<times> said list) option" where
  "bench_main a clock bs args w =
    (let (name, out) = (if args = None \<or> args = Some '''' then (''ref'', [Empty_mainargs]) else (the args, []))
     in case setting_of name of
          None \<Rightarrow> Some (1, out @ [Invalid_mainargs name])
        | Some sid \<Rightarrow>
            (let t0 = clock 0;
                 p = \<lparr>ticks = 1, world = w, bench_score = 0, all_pass = True, score_time = 0,
                      console = out @ [Running name]\<rparr>
             in case bench_all a clock sid bs p of
                  None \<Rightarrow> None
                | Some p \<Rightarrow>
                    (let total = clock (ticks p) - t0;
                         sc = bench_score p div of_nat (length bs);
                         p = say (Verdict (all_pass p)) p;
                         p = (if sid \<ge> 2 then say (Marks sc) p else p)
                     in case (format_time (score_time p), format_time total) of
                          (Some s, Some t) \<Rightarrow> Some (if all_pass p then 0 else 1, console (say (Total_time t) (say (Scored_time s) p)))
                        | _ \<Rightarrow> None)))"

section \<open>Lemmas\<close>

text \<open>A result is recorded with its star or cross.\<close>

definition verdict_ok :: "'x progress \<Rightarrow> bool" where
  "verdict_ok p \<longleftrightarrow> (all_pass p \<longleftrightarrow> Cross \<notin> set (console p))"

lemma repeat_runs_verdict:
  "repeat_runs n a clock b st succ usec p = Some (succ', usec', p') \<Longrightarrow>
    all_pass p' = all_pass p \<and> (\<exists>ls. console p' = console p @ ls \<and> (succ' \<longleftrightarrow> succ \<and> Cross \<notin> set ls))"
proof (induction n arbitrary: succ usec p)
  case (Suc n)
  obtain ok us t w where r: "run_once a clock b st (ticks p, world p) = Some (ok, us, t, w)"
    using Suc.prems by (auto split: option.splits)
  let ?q = "say (if ok then Star else Cross) (p\<lparr>ticks := t, world := w, score_time := score_time p + us\<rparr>)"
  have "repeat_runs n a clock b st (succ \<and> ok) (if us < usec then us else usec) ?q = Some (succ', usec', p')"
    using Suc.prems r by simp
  from Suc.IH [OF this] obtain ls where "all_pass p' = all_pass p" "console p' = (console p @ [if ok then Star else Cross]) @ ls"
    "succ' \<longleftrightarrow> (succ \<and> ok) \<and> Cross \<notin> set ls"
    by (auto simp: say_def)
  then show ?case by (cases ok) auto
qed simp

lemma bench_one_verdict:
  assumes "bench_one a clock sid b p = Some p'" and "verdict_ok p"
  shows "verdict_ok p' \<and> (\<exists>ls. console p' = console p @ ls)"
proof (cases "bench_check a (settings b ! sid)")
  case False
  then show ?thesis using assms by (auto simp: bench_one_def say_def verdict_ok_def)
next
  case True
  let ?st = "settings b ! sid" and ?p = "say (Heading (bname b) (bdesc b)) p"
  obtain succ usec q where r: "repeat_runs REPEAT a clock b ?st True (- 1) ?p = Some (succ, usec, q)"
    using assms(1) True by (auto simp: bench_one_def Let_def split: option.splits)
  from repeat_runs_verdict [OF r] obtain ls where q: "all_pass q = all_pass p"
    "console q = console p @ Heading (bname b) (bdesc b) # ls" "succ \<longleftrightarrow> Cross \<notin> set ls"
    by (auto simp: say_def)
  have "all_pass p' = (all_pass p \<and> succ) \<and> (\<exists>xs. console p' = console q @ xs \<and> Cross \<notin> set xs)"
    using assms(1) True r q(1) by (auto simp: bench_one_def Let_def say_def bind_eq_Some_conv split: if_splits)
  then show ?thesis using q assms(2) by (auto simp: verdict_ok_def)
qed

lemma bench_all_verdict:
  "bench_all a clock sid bs p = Some p' \<Longrightarrow> verdict_ok p \<Longrightarrow> verdict_ok p'"
  by (induction bs arbitrary: p) (auto simp: bind_eq_Some_conv dest: bench_one_verdict)

section \<open>Every setting fits into its limit\<close>

lemma bench_alloc_some:
  assumes "heap_start a \<le> hbrk b" and "unat (heap_end a) + 7 < 2 ^ 32"
    and "unat (hbrk b) + round8 (unat n) < unat (heap_end a)"
    and "unat (hbrk b) + round8 (unat n) \<le> unat (heap_start a) + unat (mlim st)"
  shows "\<exists>b'. bench_alloc a st b n = Some (hbrk b, b') \<and> unat (hbrk b') = unat (hbrk b) + round8 (unat n)
    \<and> heap_start a \<le> hbrk b'"
proof -
  have le: "unat (hbrk b) + unat n + 7 < 2 ^ 32" using assms(2,3) round8_ge [of "unat n"] by simp
  have "unat (hbrk b + of_nat (round8 (unat n))) = unat (hbrk b) + round8 (unat n)"
    using assms(2,3) by (simp add: unat_word_ariths unat_of_nat)
  then show ?thesis using assms by (auto simp: bench_alloc_eq [OF le assms(1)] word_le_nat_alt)
qed

lemma alloc_seq_some:
  assumes "heap_start a \<le> hbrk b" and "unat (heap_end a) + 7 < 2 ^ 32"
    and "unat (hbrk b) + (\<Sum>n\<leftarrow>ns. round8 (unat n)) < unat (heap_end a)"
    and "unat (hbrk b) + (\<Sum>n\<leftarrow>ns. round8 (unat n)) \<le> unat (heap_start a) + unat (mlim st)"
  shows "\<exists>ps b'. alloc_seq (bench_alloc a st) ns b = Some (ps, b')"
  using assms(1,3,4)
proof (induction ns arbitrary: b)
  case (Cons n ns)
  have "unat (hbrk b) + round8 (unat n) < unat (heap_end a)"
    "unat (hbrk b) + round8 (unat n) \<le> unat (heap_start a) + unat (mlim st)"
    using Cons.prems by simp_all
  then obtain b' where b': "bench_alloc a st b n = Some (hbrk b, b')"
    "unat (hbrk b') = unat (hbrk b) + round8 (unat n)" "heap_start a \<le> hbrk b'"
    using bench_alloc_some [OF Cons.prems(1) assms(2)] by blast
  then show ?case using Cons.IH [OF b'(3)] Cons.prems by auto
qed simp

text \<open>A heap that passes the check of the main program has room for the limit.\<close>

definition roomy :: "area \<Rightarrow> setting \<Rightarrow> bool" where
  "roomy a st \<longleftrightarrow> bench_check a st \<and> heap_start a \<le> heap_end a \<and> unat (heap_end a) + 7 < 2 ^ 32"

lemma roomy_room:
  assumes "roomy a st" and "k + 7 < unat (mlim st)"
  shows "heap_start a \<le> hbrk (bench_reset a b)" "unat (heap_end a) + 7 < 2 ^ 32"
    "unat (hbrk (bench_reset a b)) + k < unat (heap_end a)"
    "unat (hbrk (bench_reset a b)) + k \<le> unat (heap_start a) + unat (mlim st)"
proof -
  note h = assms(1)[unfolded roomy_def bench_check_def Let_def]
  have "unat (heap_end a - heap_start a) = unat (heap_end a) - unat (heap_start a)"
    using h by (simp add: unat_sub)
  then have fit: "unat (mlim st) \<le> unat (heap_end a) - unat (heap_start a)" "unat (heap_start a) \<le> unat (heap_end a)"
    using h by (auto simp: word_le_nat_alt not_less)
  have s: "unat (heap_start a) + 7 < 2 ^ 32" using h fit by linarith
  note r = bench_reset_brk [OF s, of b] round8_le [of "unat (heap_start a)"]
  show "heap_start a \<le> hbrk (bench_reset a b)" "unat (heap_end a) + 7 < 2 ^ 32" using r h by simp_all
  show "unat (hbrk (bench_reset a b)) + k < unat (heap_end a)"
    "unat (hbrk (bench_reset a b)) + k \<le> unat (heap_start a) + unat (mlim st)"
    using r fit assms(2) by linarith+
qed

lemma roomy_alloc:
  assumes "roomy a st" and "(\<Sum>n\<leftarrow>ns. round8 (unat n)) + 7 < unat (mlim st)"
  shows "\<exists>ps b'. alloc_seq (bench_alloc a st) ns (bench_reset a b) = Some (ps, b')"
  by (rule alloc_seq_some; rule roomy_room [OF assms])

lemma hbrk_srand [simp]: "bench_srand s (bench_reset a b) = bench_reset a (bench_srand s b)"
  by (simp add: bench_srand_def bench_reset_def)

lemma hbrk_fill: "hbrk (fold (\<lambda>i b. let (x, b) = bench_rand b in b\<lparr>bmem := (bmem b)(p + i := ucast x)\<rparr>) is b) = hbrk b"
  by (induction "is" arbitrary: b) (simp_all add: bench_rand_def Let_def)

lemma four: "sid < 4 \<Longrightarrow> sid = 0 \<or> sid = 1 \<or> sid = 2 \<or> sid = (3::nat)"
  by auto

lemma qsort_fits:
  assumes "sid < 4" and "roomy a (qsort_settings ! sid)"
  shows "bench_qsort_prepare a (qsort_settings ! sid) (bench_reset a b) \<noteq> None"
proof -
  let ?st = "qsort_settings ! sid"
  have "round8 (unat (ssize ?st * 4)) + 7 < unat (mlim ?st)"
    using four [OF assms(1)] by (elim disjE) (simp_all add: qsort_settings_def mk_setting_def KB_def MB_def round8_def)
  then have "(\<Sum>n\<leftarrow>[ssize ?st * 4]. round8 (unat n)) + 7 < unat (mlim ?st)" by simp
  from roomy_alloc [OF assms(2) this, of "bench_srand 1 b"] show ?thesis
    by (auto simp: bench_qsort_prepare_def Let_def split: option.splits prod.splits)
qed

lemma sieve_fits:
  assumes "sid < 4" and "roomy a (sieve_settings ! sid)"
  shows "bench_sieve_prepare a (sieve_settings ! sid) ans (bench_reset a b) \<noteq> None"
proof -
  let ?st = "sieve_settings ! sid"
  have "round8 (unat (ssize ?st div 8 + 128)) + 7 < unat (mlim ?st)"
    using four [OF assms(1)] by (elim disjE) (simp_all add: sieve_settings_def mk_setting_def KB_def MB_def round8_def)
  then have "(\<Sum>n\<leftarrow>[ssize ?st div 8 + 128]. round8 (unat n)) + 7 < unat (mlim ?st)" by simp
  from roomy_alloc [OF assms(2) this, of b] show ?thesis
    by (auto simp: bench_sieve_prepare_def Let_def split: option.splits prod.splits)
qed

lemma fib_fits:
  assumes "sid < 4" and "roomy a (fib_settings ! sid)"
  shows "bench_fib_prepare a (fib_settings ! sid) (bench_reset a b) \<noteq> None"
proof -
  let ?st = "fib_settings ! sid" and ?sz = "4 * ssize (fib_settings ! sid) * ssize (fib_settings ! sid)"
  have "4 * round8 (unat ?sz) + 7 < unat (mlim ?st)"
    using four [OF assms(1)] by (elim disjE) (simp_all add: fib_settings_def mk_setting_def KB_def MB_def round8_def)
  then have "(\<Sum>n\<leftarrow>[?sz, ?sz, ?sz, ?sz]. round8 (unat n)) + 7 < unat (mlim ?st)" by simp
  from roomy_alloc [OF assms(2) this, of b] show ?thesis
    by (auto simp: bench_fib_prepare_def Let_def)
qed

lemma bf_fits:
  assumes "sid < 4" and "roomy a (bf_settings ! sid)"
  shows "bench_bf_prepare a (bf_settings ! sid) (bench_reset a b) \<noteq> None"
proof -
  let ?st = "bf_settings ! sid"
  have "(\<Sum>n\<leftarrow>[4 * 4096, 2 * 512, 2 * 4096, ssize ?st + 1, 4096]. round8 (unat n)) + 7 < unat (mlim ?st)"
    using four [OF assms(1)] by (elim disjE) (simp_all add: bf_settings_def mk_setting_def KB_def MB_def round8_def)
  from roomy_alloc [OF assms(2) this, of b] show ?thesis
    by (auto simp: bench_bf_prepare_def Let_def split: option.splits prod.splits)
qed

lemma md5_fits:
  assumes "sid < 4" and "roomy a (md5_settings ! sid)"
  shows "bench_md5_prepare a (md5_settings ! sid) (bench_reset a b) \<noteq> None"
proof -
  let ?st = "md5_settings ! sid" and ?b = "bench_reset a (bench_srand 1 b)"
  have n: "round8 (unat (ssize ?st)) + 16 + 7 < unat (mlim ?st)"
    using four [OF assms(1)] by (elim disjE) (simp_all add: md5_settings_def mk_setting_def KB_def MB_def round8_def)
  note room = roomy_room(1) [OF assms(2) n, of "bench_srand 1 b"] roomy_room(2) [OF assms(2) n]
    roomy_room(3,4) [OF assms(2) n, of "bench_srand 1 b"]
  obtain b' where b': "bench_alloc a ?st ?b (ssize ?st) = Some (hbrk ?b, b')"
    "unat (hbrk b') = unat (hbrk ?b) + round8 (unat (ssize ?st))" "heap_start a \<le> hbrk b'"
    using bench_alloc_some [OF room(1,2), of "ssize ?st" ?st] room(3,4) by auto
  define c where "c = fold (\<lambda>i b. let (x, b) = bench_rand b in b\<lparr>bmem := (bmem b)(unat (hbrk ?b) + i := ucast x)\<rparr>)
    [0..<unat (ssize ?st)] b'"
  have c: "hbrk c = hbrk b'" unfolding c_def by (rule hbrk_fill)
  have "round8 (unat (16 :: u32)) = 16" by (simp add: round8_def)
  then have "bench_alloc a ?st c 16 \<noteq> None"
    using bench_alloc_some [of a c 16 ?st] b'(2,3) room c by auto
  then show ?thesis using b'(1) by (auto simp: bench_md5_prepare_def Let_def c_def)
qed

section \<open>Properties\<close>

text \<open>
  For every setting of the table, a heap that passes the check of the main program is
  large enough: no assertion of the allocator fails in the preparation of \<open>qsort\<close>, \<open>queen\<close>,
  \<open>bf\<close>, \<open>fib\<close>, \<open>sieve\<close> and \<open>md5\<close>, in whatever state the benchmarks before them have left.
\<close>

lemma prepare_succeeds:
  assumes "b \<in> {qsort_bench, queen_bench, bf_bench, fib_bench, sieve_bench, md5_bench}" and "sid < 4"
    and "bench_check a (settings b ! sid)" and "heap_start a \<le> heap_end a" and "unat (heap_end a) + 7 < 2 ^ 32"
  shows "prepare b a (settings b ! sid) (w\<lparr>wb := bench_reset a (wb w)\<rparr>) \<noteq> None"
proof -
  have r: "roomy a (settings b ! sid)" using assms(3-5) by (simp add: roomy_def)
  have q: "bench_queen_prepare (queen_settings ! sid) \<noteq> None"
    using four [OF assms(2)] by (auto simp: bench_queen_prepare_def queen_settings_def mk_setting_def)
  from assms(1) show ?thesis
    using r q qsort_fits [OF assms(2), of a] bf_fits [OF assms(2), of a] fib_fits [OF assms(2), of a]
      sieve_fits [OF assms(2), of a] md5_fits [OF assms(2), of a]
    by (auto simp: qsort_bench_def queen_bench_def bf_bench_def fib_bench_def sieve_bench_def md5_bench_def)
qed

text \<open>
  The exit code of the program is 0 exactly if its argument is missing, empty or one of
  the four names and no run has failed its validation; a run that failed has printed a cross.
\<close>

lemma bench_verdict:
  assumes "bench_main a clock bs args w = Some (ret, out)"
  shows "ret \<in> {0, 1} \<and> (ret = 0 \<longleftrightarrow>
      (args = None \<or> the args \<in> {'''', ''test'', ''train'', ''ref'', ''huge''}) \<and> Cross \<notin> set out)"
proof -
  define nm where "nm = (if args = None \<or> args = Some '''' then ''ref'' else the args)"
  define out0 where "out0 = (if args = None \<or> args = Some '''' then [Empty_mainargs] else [])"
  have e: "(if args = None \<or> args = Some '''' then (''ref'', [Empty_mainargs]) else (the args, [])) = (nm, out0)"
    by (simp add: nm_def out0_def)
  have known: "(args = None \<or> the args \<in> {'''', ''test'', ''train'', ''ref'', ''huge''}) \<longleftrightarrow> setting_of nm \<noteq> None"
    by (cases args) (auto simp: nm_def setting_of_def)
  have c0: "Cross \<notin> set out0" by (simp add: out0_def)
  show ?thesis
  proof (cases "setting_of nm")
    case None
    then have "ret = 1" using assms unfolding bench_main_def Let_def e by simp
    then show ?thesis using known None by simp
  next
    case (Some sid)
    let ?p = "\<lparr>ticks = 1, world = w, bench_score = 0, all_pass = True, score_time = 0, console = out0 @ [Running nm]\<rparr>"
    obtain p where p: "bench_all a clock sid bs ?p = Some p"
      using assms Some unfolding bench_main_def Let_def e by (auto split: option.splits)
    have "verdict_ok ?p" using c0 by (simp add: verdict_ok_def)
    with bench_all_verdict [OF p] have v: "verdict_ok p" .
    have "ret = (if all_pass p then 0 else 1) \<and> (\<exists>xs. out = console p @ xs \<and> Cross \<notin> set xs)"
      using assms Some p unfolding bench_main_def Let_def e by (auto simp: say_def split: option.splits if_splits)
    then show ?thesis using v known Some by (auto simp: verdict_ok_def)
  qed
qed

end
