(* ===== verification/Npc_Mem.thy ===== *)
theory Npc_Mem
  imports Prelude

begin

text \<open>
  The simulator's view of the machine (\<open>src/npc/csrc/include/platform_contract.h\<close> and the
  first half of \<open>memory_models.h\<close>): the address map, the state of \<open>UnifiedMem\<close>, the byte
  accesses the devices use, the UART, the timer and the interrupt controller. A vector of
  fixed size (\<open>pmem_words\<close>, \<open>bootrom_words\<close>) is a function on word indices, read and written
  below its size only; the disk image, whose size comes from a file, is a list. An access to
  the image past its end is undefined in C++: it sets the ghost field \<open>image_fault\<close>. The
  characters the UART prints are collected in the ghost field \<open>uart_out\<close>.
\<close>

section \<open>Address map\<close>

abbreviation kPmemBase :: u32 where "kPmemBase \<equiv> 0x80000000"
abbreviation kPmemSize :: u32 where "kPmemSize \<equiv> 0x08000000"
abbreviation kBootRomBase :: u32 where "kBootRomBase \<equiv> 0x00001000"
abbreviation kBootRomSize :: u32 where "kBootRomSize \<equiv> 0x00001000"
abbreviation kDtbBase :: u32 where "kDtbBase \<equiv> 0x83F00000"
abbreviation kClintMtimecmpLow :: u32 where "kClintMtimecmpLow \<equiv> 0x02004000"
abbreviation kClintMtimecmpHigh :: u32 where "kClintMtimecmpHigh \<equiv> 0x02004004"
abbreviation kClintMtimeLow :: u32 where "kClintMtimeLow \<equiv> 0x0200BFF8"
abbreviation kClintMtimeHigh :: u32 where "kClintMtimeHigh \<equiv> 0x0200BFFC"
abbreviation kPlicPriority1 :: u32 where "kPlicPriority1 \<equiv> 0x0C000004"
abbreviation kPlicPending :: u32 where "kPlicPending \<equiv> 0x0C001000"
abbreviation kPlicEnableM :: u32 where "kPlicEnableM \<equiv> 0x0C002000"
abbreviation kPlicThresholdM :: u32 where "kPlicThresholdM \<equiv> 0x0C200000"
abbreviation kPlicClaimCompleteM :: u32 where "kPlicClaimCompleteM \<equiv> 0x0C200004"
abbreviation kVirtioBlkBase :: u32 where "kVirtioBlkBase \<equiv> 0x10001000"
abbreviation kVirtioBlkSize :: u32 where "kVirtioBlkSize \<equiv> 0x00001000"
abbreviation kVirtioBlkIrqId :: u32 where "kVirtioBlkIrqId \<equiv> 1"
abbreviation kUartTx :: u32 where "kUartTx \<equiv> 0xA00003F8"
abbreviation kRtcPortLow :: u32 where "kRtcPortLow \<equiv> 0xA0000048"
abbreviation kRtcPortHigh :: u32 where "kRtcPortHigh \<equiv> 0xA000004C"

section \<open>State\<close>

record unified_mem =
  pmem_words :: "nat \<Rightarrow> u32"
  bootrom_words :: "nat \<Rightarrow> u32"
  rtc_time_us :: u64
  clint_mtime :: u64
  clint_mtimecmp :: u64
  plic_priority1 :: u32
  plic_enable_m :: u32
  plic_threshold_m :: u32
  plic_source_pending1 :: bool
  plic_pending1 :: bool
  plic_claimed1 :: bool
  virtio_blk_enabled_flag :: bool
  virtio_blk_image :: "u8 list"
  virtio_device_features_sel :: u32
  virtio_driver_features_sel :: u32
  virtio_driver_features_lo :: u32
  virtio_driver_features_hi :: u32
  virtio_queue_sel :: u32
  virtio_queue_num :: u32
  virtio_queue_ready :: u32
  virtio_queue_desc :: u64
  virtio_queue_avail :: u64
  virtio_queue_used :: u64
  virtio_last_avail_idx :: u16
  virtio_status :: u8
  virtio_interrupt_status :: u32
  virtio_config_generation :: u32
  uart_stdout_enabled :: bool
  uart_ier :: u8
  uart_fcr :: u8
  uart_lcr :: u8
  uart_mcr :: u8
  uart_lsr :: u8
  uart_msr :: u8
  uart_scr :: u8
  uart_dll :: u8
  uart_dlm :: u8
  uart_tx_bytes :: u64
  uart_last_tx :: u8
  fw_text_watch_enabled :: bool
  fw_text_watch_base :: u32
  fw_text_watch_limit :: u32
  fw_text_write_count :: u64
  fw_text_last_write_addr :: u32
  fw_text_last_write_data :: u32
  uart_out :: "u8 list"
  image_fault :: bool

definition UnifiedMem_init :: unified_mem where
  "UnifiedMem_init = \<lparr>
     pmem_words = (\<lambda>_. 0), bootrom_words = (\<lambda>_. 0),
     rtc_time_us = 0, clint_mtime = 0, clint_mtimecmp = NOT 0,
     plic_priority1 = 0, plic_enable_m = 0, plic_threshold_m = 0,
     plic_source_pending1 = False, plic_pending1 = False, plic_claimed1 = False,
     virtio_blk_enabled_flag = False, virtio_blk_image = [],
     virtio_device_features_sel = 0, virtio_driver_features_sel = 0,
     virtio_driver_features_lo = 0, virtio_driver_features_hi = 0,
     virtio_queue_sel = 0, virtio_queue_num = 0, virtio_queue_ready = 0,
     virtio_queue_desc = 0, virtio_queue_avail = 0, virtio_queue_used = 0,
     virtio_last_avail_idx = 0, virtio_status = 0,
     virtio_interrupt_status = 0, virtio_config_generation = 0,
     uart_stdout_enabled = True, uart_ier = 0, uart_fcr = 0, uart_lcr = 0, uart_mcr = 0,
     uart_lsr = 0x60, uart_msr = 0, uart_scr = 0, uart_dll = 0, uart_dlm = 0,
     uart_tx_bytes = 0, uart_last_tx = 0,
     fw_text_watch_enabled = False, fw_text_watch_base = 0x80400000,
     fw_text_watch_limit = 0x80440000, fw_text_write_count = 0,
     fw_text_last_write_addr = 0, fw_text_last_write_data = 0,
     uart_out = [], image_fault = False\<rparr>"

section \<open>Address predicates\<close>

definition in_pmem :: "u32 \<Rightarrow> bool" where
  "in_pmem a \<longleftrightarrow> kPmemBase \<le> a \<and> a < kPmemBase + kPmemSize"

definition in_bootrom :: "u32 \<Rightarrow> bool" where
  "in_bootrom a \<longleftrightarrow> kBootRomBase \<le> a \<and> a < kBootRomBase + kBootRomSize"

definition in_uart :: "u32 \<Rightarrow> bool" where
  "in_uart a \<longleftrightarrow> kUartTx \<le> a \<and> a < kUartTx + 8"

definition in_virtio_blk :: "u32 \<Rightarrow> bool" where
  "in_virtio_blk a \<longleftrightarrow> kVirtioBlkBase \<le> a \<and> a < kVirtioBlkBase + kVirtioBlkSize"

definition in_fw_text_watch :: "unified_mem \<Rightarrow> u32 \<Rightarrow> bool" where
  "in_fw_text_watch m a \<longleftrightarrow> fw_text_watch_base m \<le> a \<and> a < fw_text_watch_limit m"

definition access_touches_bootrom :: "u32 \<Rightarrow> nat \<Rightarrow> bool" where
  "access_touches_bootrom a n \<longleftrightarrow> list_ex (\<lambda>i. in_bootrom (a + of_nat i)) [0..<n]"

definition is_clint_word :: "u32 \<Rightarrow> bool" where
  "is_clint_word aligned \<longleftrightarrow> aligned = kClintMtimecmpLow \<or> aligned = kClintMtimecmpHigh
     \<or> aligned = kClintMtimeLow \<or> aligned = kClintMtimeHigh"

definition is_plic_word :: "u32 \<Rightarrow> bool" where
  "is_plic_word aligned \<longleftrightarrow> aligned = kPlicPriority1 \<or> aligned = kPlicPending
     \<or> aligned = kPlicEnableM \<or> aligned = kPlicThresholdM \<or> aligned = kPlicClaimCompleteM"

text \<open>Alignment, the bit position of a byte in its word, and the index of a word in its vector.\<close>

definition align4 :: "u32 \<Rightarrow> u32" where
  "align4 a = a AND NOT 0x3"

definition byte_shift :: "u32 \<Rightarrow> nat" where
  "byte_shift a = unat ((a AND 0x3) * 8)"

definition pmem_index :: "u32 \<Rightarrow> nat" where
  "pmem_index aligned = unat (drop_bit 2 (aligned - kPmemBase))"

definition bootrom_index :: "u32 \<Rightarrow> nat" where
  "bootrom_index aligned = unat (drop_bit 2 (aligned - kBootRomBase))"

abbreviation pmem_nwords :: nat where "pmem_nwords \<equiv> 0x2000000"
abbreviation bootrom_nwords :: nat where "bootrom_nwords \<equiv> 0x400"

text \<open>A word with one of its fields replaced, as every partial write computes it.\<close>

definition merge_field :: "u32 \<Rightarrow> u32 \<Rightarrow> nat \<Rightarrow> u32 \<Rightarrow> u32" where
  "merge_field ones cur sh data = (cur AND NOT (push_bit sh ones)) OR push_bit sh data"

section \<open>The UART\<close>

definition uart_dlab :: "unified_mem \<Rightarrow> bool" where
  "uart_dlab m \<longleftrightarrow> uart_lcr m AND 0x80 \<noteq> 0"

definition uart_peek8 :: "u32 \<Rightarrow> unified_mem \<Rightarrow> u8" where
  "uart_peek8 a m =
    (let off = a - kUartTx in
     if off = 0 then (if uart_dlab m then uart_dll m else 0)
     else if off = 1 then (if uart_dlab m then uart_dlm m else uart_ier m)
     else if off = 2 then (if uart_fcr m AND 0x01 \<noteq> 0 then 0x01 OR 0xC0 else 0x01)
     else if off = 3 then uart_lcr m
     else if off = 4 then uart_mcr m
     else if off = 5 then uart_lsr m OR 0x60
     else if off = 6 then uart_msr m
     else if off = 7 then uart_scr m
     else 0xff)"

definition uart_write8 :: "u32 \<Rightarrow> u8 \<Rightarrow> unified_mem \<Rightarrow> unified_mem" where
  "uart_write8 a d m =
    (let off = a - kUartTx in
     if off = 0 then
       (if uart_dlab m then m\<lparr>uart_dll := d\<rparr>
        else (let m = m\<lparr>uart_tx_bytes := uart_tx_bytes m + 1, uart_last_tx := d\<rparr>
              in if uart_stdout_enabled m then m\<lparr>uart_out := uart_out m @ [d]\<rparr> else m))
     else if off = 1 then (if uart_dlab m then m\<lparr>uart_dlm := d\<rparr> else m\<lparr>uart_ier := d\<rparr>)
     else if off = 2 then m\<lparr>uart_fcr := d\<rparr>
     else if off = 3 then m\<lparr>uart_lcr := d\<rparr>
     else if off = 4 then m\<lparr>uart_mcr := d\<rparr>
     else if off = 7 then m\<lparr>uart_scr := d\<rparr>
     else m)"

section \<open>The timer\<close>

definition set_time_us :: "u64 \<Rightarrow> unified_mem \<Rightarrow> unified_mem" where
  "set_time_us t m = m\<lparr>rtc_time_us := t, clint_mtime := t\<rparr>"

definition timer_irq_pending :: "unified_mem \<Rightarrow> bool" where
  "timer_irq_pending m \<longleftrightarrow> clint_mtimecmp m \<le> clint_mtime m"

text \<open>The halves of a 64-bit register that is written 32 bits at a time.\<close>

definition set_low :: "u64 \<Rightarrow> u32 \<Rightarrow> u64" where
  "set_low x d = (x AND 0xFFFFFFFF00000000) OR ucast d"

definition set_high :: "u64 \<Rightarrow> u32 \<Rightarrow> u64" where
  "set_high x d = (x AND 0x00000000FFFFFFFF) OR push_bit 32 (ucast d)"

definition get_low :: "u64 \<Rightarrow> u32" where
  "get_low x = ucast (x AND 0xFFFFFFFF)"

definition get_high :: "u64 \<Rightarrow> u32" where
  "get_high x = ucast (drop_bit 32 x AND 0xFFFFFFFF)"

section \<open>The interrupt controller\<close>

definition plic_source1_enabled :: "unified_mem \<Rightarrow> bool" where
  "plic_source1_enabled m \<longleftrightarrow>
     drop_bit 1 (plic_enable_m m) AND 0x1 \<noteq> 0 \<and> plic_threshold_m m < plic_priority1 m"

definition plic_source1_eligible :: "unified_mem \<Rightarrow> bool" where
  "plic_source1_eligible m \<longleftrightarrow> plic_pending1 m \<and> plic_source1_enabled m \<and> \<not> plic_claimed1 m"

definition refresh_plic_pending :: "unified_mem \<Rightarrow> unified_mem" where
  "refresh_plic_pending m =
    (if plic_source_pending1 m \<and> \<not> plic_claimed1 m then m\<lparr>plic_pending1 := True\<rparr> else m)"

definition plic_pending_bits :: "unified_mem \<Rightarrow> u32" where
  "plic_pending_bits m = (if plic_pending1 m then push_bit 1 1 else 0)"

definition set_plic_source_pending :: "u32 \<Rightarrow> bool \<Rightarrow> unified_mem \<Rightarrow> unified_mem" where
  "set_plic_source_pending source_id pending m =
    (if source_id \<noteq> 1 then m
     else (let m = m\<lparr>plic_source_pending1 := pending\<rparr> in
           if \<not> pending then
             (let m = m\<lparr>plic_pending1 := False\<rparr>
              in if \<not> plic_claimed1 m then m\<lparr>plic_claimed1 := False\<rparr> else m)
           else refresh_plic_pending m))"

definition plic_irq_pending :: "unified_mem \<Rightarrow> bool" where
  "plic_irq_pending m \<longleftrightarrow> plic_source1_eligible m"

definition plic_claim_peek :: "unified_mem \<Rightarrow> u32" where
  "plic_claim_peek m = (if plic_source1_eligible m then 1 else 0)"

definition plic_claim_read :: "unified_mem \<Rightarrow> u32 \<times> unified_mem" where
  "plic_claim_read m =
    (if \<not> plic_source1_eligible m then (0, m)
     else (1, m\<lparr>plic_pending1 := False, plic_claimed1 := True\<rparr>))"

definition plic_complete_write :: "u32 \<Rightarrow> unified_mem \<Rightarrow> unified_mem" where
  "plic_complete_write d m =
    (if d \<noteq> 1 then m else refresh_plic_pending (m\<lparr>plic_claimed1 := False\<rparr>))"

section \<open>Physical accesses of the devices\<close>

definition read_phys_byte :: "u64 \<Rightarrow> unified_mem \<Rightarrow> u8 option" where
  "read_phys_byte a m =
    (if 0xFFFFFFFF < a then None
     else (let a32 = ucast a; aligned = align4 a32; shift = byte_shift a32 in
       if in_pmem a32 then
         (let idx = pmem_index aligned in
          if pmem_nwords \<le> idx then None
          else Some (ucast (drop_bit shift (pmem_words m idx) AND 0xff)))
       else if in_bootrom a32 then
         (let idx = bootrom_index aligned in
          if bootrom_nwords \<le> idx then None
          else Some (ucast (drop_bit shift (bootrom_words m idx) AND 0xff)))
       else None))"

definition write_phys_byte :: "u64 \<Rightarrow> u8 \<Rightarrow> unified_mem \<Rightarrow> bool \<times> unified_mem" where
  "write_phys_byte a d m =
    (if 0xFFFFFFFF < a then (False, m)
     else (let a32 = ucast a in
       if \<not> in_pmem a32 then (False, m)
       else (let aligned = align4 a32; shift = byte_shift a32; idx = pmem_index aligned in
         if pmem_nwords \<le> idx then (False, m)
         else (True, m\<lparr>pmem_words :=
                 (pmem_words m)(idx := merge_field 0xff (pmem_words m idx) shift (ucast d))\<rparr>))))"

definition read_phys_u16 :: "u64 \<Rightarrow> unified_mem \<Rightarrow> u16 option" where
  "read_phys_u16 a m =
    (case read_phys_byte a m of None \<Rightarrow> None | Some b0 \<Rightarrow>
     case read_phys_byte (a + 1) m of None \<Rightarrow> None | Some b1 \<Rightarrow>
     Some (ucast b0 OR push_bit 8 (ucast b1)))"

definition read_phys_u32 :: "u64 \<Rightarrow> unified_mem \<Rightarrow> u32 option" where
  "read_phys_u32 a m =
    (case those (List.map (\<lambda>i. read_phys_byte (a + of_nat i) m) [0..<4]) of
       None \<Rightarrow> None
     | Some b \<Rightarrow> Some (ucast (b ! 0) OR push_bit 8 (ucast (b ! 1))
                       OR push_bit 16 (ucast (b ! 2)) OR push_bit 24 (ucast (b ! 3))))"

definition read_phys_u64 :: "u64 \<Rightarrow> unified_mem \<Rightarrow> u64 option" where
  "read_phys_u64 a m =
    (case read_phys_u32 a m of None \<Rightarrow> None | Some lo \<Rightarrow>
     case read_phys_u32 (a + 4) m of None \<Rightarrow> None | Some hi \<Rightarrow>
     Some (ucast lo OR push_bit 32 (ucast hi)))"

text \<open>Consecutive byte writes that stop at the first one that is refused.\<close>

primrec write_phys_bytes :: "u64 \<Rightarrow> u8 list \<Rightarrow> unified_mem \<Rightarrow> bool \<times> unified_mem" where
  "write_phys_bytes a [] m = (True, m)"
| "write_phys_bytes a (d # ds) m =
    (let (ok, m) = write_phys_byte a d m
     in if ok then write_phys_bytes (a + 1) ds m else (False, m))"

definition write_phys_u16 :: "u64 \<Rightarrow> u16 \<Rightarrow> unified_mem \<Rightarrow> bool \<times> unified_mem" where
  "write_phys_u16 a v =
     write_phys_bytes a [ucast (v AND 0xff), ucast (drop_bit 8 v AND 0xff)]"

definition write_phys_u32 :: "u64 \<Rightarrow> u32 \<Rightarrow> unified_mem \<Rightarrow> bool \<times> unified_mem" where
  "write_phys_u32 a v =
     write_phys_bytes a (List.map (\<lambda>i. ucast (drop_bit (i * 8) v AND 0xff)) [0..<4])"

section \<open>Addresses and bytes\<close>


lemma align4_def2: "align4 a = push_bit 2 (drop_bit 2 a)"
proof -
  have 3: "(0x3 :: u32) = mask 2" by (simp add: mask_eq_exp_minus_1)
  have "Suc (Suc (n - 2)) = n" if "2 \<le> n" for n using that by linarith
  then show ?thesis unfolding align4_def 3
    by (intro bit_word_eqI)
      (auto simp: bit_and_iff bit_not_iff bit_mask_iff bit_push_bit_iff bit_drop_bit_eq not_less)
qed

lemma unat_align4: "unat (align4 a) = 4 * (unat a div 4)"
proof -
  have "unat a div 4 * 4 < 4294967296" using unat_lt_u32 [of a] by linarith
  then show ?thesis unfolding align4_def2 unat_push_bit unat_drop_bit by simp
qed

lemma div4_diff: "(x - 4 * k) div 4 = x div 4 - (k :: nat)"
  by presburger

lemma align4_idem: "align4 (align4 a) = align4 a"
  by (simp add: word_unat_eq_iff unat_align4)

lemma addr_and_3: "unat (a AND 0x3 :: u32) = unat a mod 4"
proof -
  have 3: "(0x3 :: u32) = mask 2" by (simp add: mask_eq_exp_minus_1)
  show ?thesis unfolding 3 by (simp add: unat_take_bit flip: take_bit_eq_mask)
qed

lemma byte_shift_eq: "byte_shift a = 8 * (unat a mod 4)"
  unfolding byte_shift_def by (simp add: unat_word_ariths addr_and_3)

lemma in_pmem_unat: "in_pmem a \<longleftrightarrow> 0x80000000 \<le> unat a \<and> unat a < 0x88000000"
  by (simp add: in_pmem_def word_le_nat_alt word_less_nat_alt)

lemma in_bootrom_unat: "in_bootrom a \<longleftrightarrow> 0x1000 \<le> unat a \<and> unat a < 0x2000"
  by (simp add: in_bootrom_def word_le_nat_alt word_less_nat_alt)

lemma in_uart_unat: "in_uart a \<longleftrightarrow> 0xA00003F8 \<le> unat a \<and> unat a < 0xA0000400"
  by (simp add: in_uart_def word_le_nat_alt word_less_nat_alt)

lemma in_virtio_unat: "in_virtio_blk a \<longleftrightarrow> 0x10001000 \<le> unat a \<and> unat a < 0x10002000"
  by (simp add: in_virtio_blk_def word_le_nat_alt word_less_nat_alt)

lemma pmem_index_eq: "in_pmem a \<Longrightarrow> pmem_index (align4 a) = (unat a - 0x80000000) div 4"
  using div4_diff [of "unat a" "0x20000000"] div4_diff [of "4 * (unat a div 4)" "0x20000000"]
  unfolding in_pmem_unat pmem_index_def unat_drop_bit
  by (subst unat_sub) (simp_all add: word_le_nat_alt unat_align4 less_eq_div_iff_mult_less_eq)

lemma bootrom_index_eq: "in_bootrom a \<Longrightarrow> bootrom_index (align4 a) = (unat a - 0x1000) div 4"
  using div4_diff [of "unat a" "0x400"] div4_diff [of "4 * (unat a div 4)" "0x400"]
  unfolding in_bootrom_unat bootrom_index_def unat_drop_bit
  by (subst unat_sub) (simp_all add: word_le_nat_alt unat_align4 less_eq_div_iff_mult_less_eq)

lemma pmem_index_below: "in_pmem a \<Longrightarrow> pmem_index (align4 a) < pmem_nwords"
  by (auto simp: pmem_index_eq in_pmem_unat intro!: less_mult_imp_div_less)

lemma bootrom_index_below: "in_bootrom a \<Longrightarrow> bootrom_index (align4 a) < bootrom_nwords"
  by (auto simp: bootrom_index_eq in_bootrom_unat intro!: less_mult_imp_div_less)

lemma in_pmem_align4: "in_pmem (align4 a) \<longleftrightarrow> in_pmem a"
  unfolding in_pmem_unat unat_align4 by auto

lemma in_bootrom_align4: "in_bootrom (align4 a) \<longleftrightarrow> in_bootrom a"
  unfolding in_bootrom_unat unat_align4 by auto

lemma pmem_place: "in_pmem a \<Longrightarrow> in_pmem b \<Longrightarrow>
    pmem_index (align4 a) = pmem_index (align4 b) \<Longrightarrow> byte_shift a = byte_shift b \<Longrightarrow> a = b"
proof -
  assume a: "in_pmem a" "in_pmem b" "pmem_index (align4 a) = pmem_index (align4 b)" "byte_shift a = byte_shift b"
  have "(unat a - 0x80000000) div 4 = (unat b - 0x80000000) div 4"
    using a(3) by (simp only: pmem_index_eq a(1,2))
  then have "unat a div 4 - 0x20000000 = unat b div 4 - 0x20000000"
    using div4_diff [of "unat a" "0x20000000"] div4_diff [of "unat b" "0x20000000"] by simp
  moreover have "0x20000000 \<le> unat a div 4" "0x20000000 \<le> unat b div 4"
    using a(1,2) by (simp_all add: in_pmem_unat less_eq_div_iff_mult_less_eq)
  ultimately have "unat a div 4 = unat b div 4" by linarith
  moreover have "unat a mod 4 = unat b mod 4" using a(4) by (simp add: byte_shift_eq)
  ultimately show ?thesis unfolding word_unat_eq_iff by (metis div_mult_mod_eq)
qed

lemma byte_shift_cases: "byte_shift a \<in> {0, 8, 16, 24}"
  unfolding byte_shift_eq using mod_less_divisor [of 4 "unat a"] by force

text \<open>The byte of a word at a bit position.\<close>

definition word_byte :: "nat \<Rightarrow> u32 \<Rightarrow> u8" where
  "word_byte sh w = ucast (drop_bit sh w AND 0xff)"

lemma bit_word_byte: "bit (word_byte sh w) n \<longleftrightarrow> n < 8 \<and> bit w (sh + n)"
proof -
  have f: "(0xff :: u32) = mask 8" by (simp add: mask_eq_exp_minus_1)
  show ?thesis unfolding word_byte_def f
    by (auto simp: bit_ucast_iff bit_and_iff bit_mask_iff bit_drop_bit_eq dest: bit_imp_le_length)
qed

lemma bit_merge_field: "bit (merge_field (mask k) w s d) n \<longleftrightarrow>
    n < 32 \<and> (bit w n \<and> \<not> (s \<le> n \<and> n - s < k) \<or> s \<le> n \<and> bit d (n - s))"
  unfolding merge_field_def
  by (auto simp: bit_or_iff bit_and_iff bit_not_iff bit_push_bit_iff bit_mask_iff dest: bit_imp_le_length)

lemma word_byte_merge8: "s \<in> {0, 8, 16, 24} \<Longrightarrow> t \<in> {0, 8, 16, 24} \<Longrightarrow>
    word_byte t (merge_field 0xff w s (ucast (d :: u8))) = (if t = s then d else word_byte t w)"
proof -
  assume a: "s \<in> {0, 8, 16, 24}" "t \<in> {0, 8, 16, 24}"
  have f: "(0xff :: u32) = mask 8" by (simp add: mask_eq_exp_minus_1)
  show ?thesis unfolding f using a
    by (intro bit_word_eqI)
      (auto simp: bit_word_byte bit_merge_field bit_ucast_iff dest: bit_imp_le_length)
qed

lemma read_phys_byte_eq: "read_phys_byte a m =
   (if 0xFFFFFFFF < a then None
    else if in_pmem (ucast a) then Some (word_byte (byte_shift (ucast a)) (pmem_words m (pmem_index (align4 (ucast a)))))
    else if in_bootrom (ucast a) then Some (word_byte (byte_shift (ucast a)) (bootrom_words m (bootrom_index (align4 (ucast a)))))
    else None)"
  using pmem_index_below [of "ucast a"] bootrom_index_below [of "ucast a"]
  by (auto simp: read_phys_byte_def Let_def word_byte_def not_le)

definition phys_writable :: "u64 \<Rightarrow> bool" where
  "phys_writable a \<longleftrightarrow> a \<le> 0xFFFFFFFF \<and> in_pmem (ucast a)"

lemma write_phys_byte_eq: "write_phys_byte a d m =
   (if phys_writable a
    then (True, m\<lparr>pmem_words := (pmem_words m)(pmem_index (align4 (ucast a)) :=
            merge_field 0xff (pmem_words m (pmem_index (align4 (ucast a)))) (byte_shift (ucast a)) (ucast d))\<rparr>)
    else (False, m))"
  using pmem_index_below [of "ucast a"]
  by (auto simp: write_phys_byte_def phys_writable_def Let_def not_less)

lemma ucast_inj_low: "a \<le> 0xFFFFFFFF \<Longrightarrow> b \<le> 0xFFFFFFFF \<Longrightarrow> (ucast a :: u32) = ucast b \<Longrightarrow> a = (b :: u64)"
  by (simp add: word_unat_eq_iff unat_ucast_mod word_le_nat_alt)

lemma read_write_phys_byte: "write_phys_byte a d m = (ok, m') \<Longrightarrow>
    read_phys_byte b m' = (if ok \<and> b = a then Some d else read_phys_byte b m)"
proof -
  assume w: "write_phys_byte a d m = (ok, m')"
  show ?thesis
  proof (cases ok)
    case True
    with w have a: "a \<le> 0xFFFFFFFF" "in_pmem (ucast a)"
      and m': "m' = m\<lparr>pmem_words := (pmem_words m)(pmem_index (align4 (ucast a)) :=
            merge_field 0xff (pmem_words m (pmem_index (align4 (ucast a)))) (byte_shift (ucast a)) (ucast d))\<rparr>"
      by (auto simp: write_phys_byte_eq phys_writable_def split: if_splits)
    show ?thesis
    proof (cases "b \<le> 0xFFFFFFFF \<and> in_pmem (ucast b)")
      case b: True
      have "b = a" if "pmem_index (align4 (ucast b)) = pmem_index (align4 (ucast a))"
          "byte_shift (ucast b) = byte_shift (ucast a)"
        using pmem_place [of "ucast b" "ucast a"] that a b ucast_inj_low by blast
      then show ?thesis using True a b
        by (auto simp: read_phys_byte_eq m' word_byte_merge8 [OF byte_shift_cases byte_shift_cases])
    next
      case False
      then show ?thesis using True a by (auto simp: read_phys_byte_eq m' not_less)
    qed
  next
    case False
    then show ?thesis using w by (auto simp: write_phys_byte_eq split: if_splits)
  qed
qed

lemma write_phys_byte_fails: "write_phys_byte a d m = (False, m') \<Longrightarrow> m' = m"
  by (auto simp: write_phys_byte_eq split: if_splits)

lemma write_phys_byte_ok: "fst (write_phys_byte a d m) \<longleftrightarrow> phys_writable a"
  by (simp add: write_phys_byte_eq)

lemma read_phys_byte_writable: "phys_writable a \<Longrightarrow> \<exists>d. read_phys_byte a m = Some d"
  by (auto simp: read_phys_byte_eq phys_writable_def not_less)

text \<open>
  The interface between the device and the memory it reads and writes: bytes at addresses,
  some of which accept a write. What the device does with several bytes is proved from these
  laws alone.
\<close>

locale byte_memory =
  fixes rd :: "'a \<Rightarrow> 'm \<Rightarrow> 'b option"
    and wr :: "'a \<Rightarrow> 'b \<Rightarrow> 'm \<Rightarrow> bool \<times> 'm"
    and ok :: "'a \<Rightarrow> bool"
  assumes wr_ok: "fst (wr a d m) \<longleftrightarrow> ok a"
    and wr_fails: "wr a d m = (False, m') \<Longrightarrow> m' = m"
    and rd_wr: "wr a d m = (True, m') \<Longrightarrow> rd b m' = (if b = a then Some d else rd b m)"
begin

fun wr_all :: "('a \<times> 'b) list \<Rightarrow> 'm \<Rightarrow> bool \<times> 'm" where
  "wr_all [] m = (True, m)"
| "wr_all ((a, d) # xs) m = (let (k, m) = wr a d m in if k then wr_all xs m else (False, m))"

lemma wr_all_ok: "fst (wr_all xs m) \<longleftrightarrow> list_all (\<lambda>(a, d). ok a) xs"
proof (induction xs arbitrary: m)
  case (Cons x xs)
  obtain a d where x: "x = (a, d)" by (cases x)
  show ?case using Cons.IH wr_ok [of a d m] by (cases "wr a d m") (simp add: x Let_def)
qed simp

lemma wr_all_frame: "b \<notin> fst ` List.set xs \<Longrightarrow> rd b (snd (wr_all xs m)) = rd b m"
proof (induction xs arbitrary: m)
  case (Cons x xs)
  obtain a d where x: "x = (a, d)" by (cases x)
  obtain k m' where w: "wr a d m = (k, m')" by (cases "wr a d m")
  show ?case
  proof (cases k)
    case True
    then show ?thesis using Cons w rd_wr [of a d m m' b] by (simp add: x)
  next
    case False
    then show ?thesis using w wr_fails [of a d m m'] by (simp add: x)
  qed
qed simp

lemma wr_all_reads:
  "fst (wr_all xs m) \<Longrightarrow> rd b (snd (wr_all xs m)) = (case map_of (rev xs) b of Some d \<Rightarrow> Some d | None \<Rightarrow> rd b m)"
proof (induction xs arbitrary: m)
  case (Cons x xs)
  obtain a d where x: "x = (a, d)" by (cases x)
  obtain k m' where w: "wr a d m = (k, m')" by (cases "wr a d m")
  have k: k using Cons.prems w by (simp add: x split: if_splits)
  then have "fst (wr_all xs m')" using Cons.prems w by (simp add: x)
  from Cons.IH [OF this] show ?case using k w rd_wr [of a d m m' b]
    by (auto simp: x map_add_def split: option.splits)
qed simp

end

interpretation phys: byte_memory read_phys_byte write_phys_byte phys_writable
proof unfold_locales
  show "write_phys_byte a d m = (True, m') \<Longrightarrow>
      read_phys_byte b m' = (if b = a then Some d else read_phys_byte b m)" for a d m m' b
    using read_write_phys_byte [of a d m True m' b] by simp
qed (simp_all add: write_phys_byte_ok write_phys_byte_fails)

lemma write_phys_bytes_eq:
  "write_phys_bytes a ds = phys.wr_all (List.map (\<lambda>i. (a + of_nat i, ds ! i)) [0..<length ds])"
proof (induction ds arbitrary: a)
  case (Cons d ds)
  have e: "List.map (\<lambda>i. (a + of_nat i, (d # ds) ! i)) [0..<length (d # ds)]
      = (a, d) # List.map (\<lambda>i. (a + 1 + of_nat i, ds ! i)) [0..<length ds]"
    by (simp only: length_Cons upt_conv_Cons List.list.map) (simp add: map_Suc_upt [symmetric] algebra_simps del: upt_Suc)
  show ?case
  proof (rule ext)
    show "write_phys_bytes a (d # ds) m =
        phys.wr_all (List.map (\<lambda>i. (a + of_nat i, (d # ds) ! i)) [0..<length (d # ds)]) m" for m
      unfolding e by (cases "write_phys_byte a d m") (simp add: Cons)
  qed
qed auto

section \<open>The interrupt controller as a level-triggered gateway\<close>

text \<open>
  The pending bit is not independent state: it is set exactly while the source asks for
  service and has not been claimed. With the device attached, the source is the used-buffer
  bit of its interrupt status.
\<close>

definition plic_ok :: "unified_mem \<Rightarrow> bool" where
  "plic_ok m \<longleftrightarrow> plic_pending1 m = (plic_source_pending1 m \<and> \<not> plic_claimed1 m)"

lemma plic_ok_init: "plic_ok UnifiedMem_init"
  by (simp add: plic_ok_def UnifiedMem_init_def)

lemma plic_ok_source: "plic_ok m \<Longrightarrow> plic_ok (set_plic_source_pending s p m)"
  by (simp add: plic_ok_def set_plic_source_pending_def refresh_plic_pending_def Let_def)

lemma plic_ok_claim: "plic_ok m \<Longrightarrow> plic_ok (snd (plic_claim_read m))"
  by (simp add: plic_ok_def plic_claim_read_def)

lemma plic_ok_complete: "plic_ok m \<Longrightarrow> plic_ok (plic_complete_write d m)"
  by (simp add: plic_ok_def plic_complete_write_def refresh_plic_pending_def)

lemma source_pending_set: "plic_source_pending1 (set_plic_source_pending 1 p m) = p"
  by (simp add: set_plic_source_pending_def refresh_plic_pending_def Let_def)

end
