(* ===== verification/Npc_Virtio.thy ===== *)
theory Npc_Virtio
  imports Npc_Mem
begin

text \<open>
  The virtio block device of \<open>UnifiedMem\<close> (\<open>src/npc/csrc/include/memory_models.h\<close>): the
  descriptor chain, the processing of a request, the loop over the available ring and the
  register window.
\<close>

section \<open>Constants and data\<close>

abbreviation kVirtioMagicValue :: u32 where "kVirtioMagicValue \<equiv> 0x74726976"
abbreviation kVirtioVersion :: u32 where "kVirtioVersion \<equiv> 2"
abbreviation kVirtioDeviceIdBlk :: u32 where "kVirtioDeviceIdBlk \<equiv> 2"
abbreviation kVirtioVendorId :: u32 where "kVirtioVendorId \<equiv> 0x554d4551"
abbreviation kVirtioQueueNumMax :: u32 where "kVirtioQueueNumMax \<equiv> 128"
abbreviation kVirtioInterruptUsedBuffer :: u32 where "kVirtioInterruptUsedBuffer \<equiv> 1"
abbreviation kVirtioFeatureVersion1Sel :: u32 where "kVirtioFeatureVersion1Sel \<equiv> 1"
abbreviation kVirtioBlkTIn :: u32 where "kVirtioBlkTIn \<equiv> 0"
abbreviation kVirtioBlkTOut :: u32 where "kVirtioBlkTOut \<equiv> 1"
abbreviation kVirtioBlkStatusOk :: u8 where "kVirtioBlkStatusOk \<equiv> 0"
abbreviation kVirtioBlkStatusIoErr :: u8 where "kVirtioBlkStatusIoErr \<equiv> 1"
abbreviation kVirtioBlkStatusUnsupp :: u8 where "kVirtioBlkStatusUnsupp \<equiv> 2"
abbreviation kVirtqDescFNext :: u16 where "kVirtqDescFNext \<equiv> 1"
abbreviation kVirtqDescFWrite :: u16 where "kVirtqDescFWrite \<equiv> 2"
abbreviation kVirtioBlkSectorSize :: u64 where "kVirtioBlkSectorSize \<equiv> 512"

record virtq_desc =
  vaddr :: u64
  vlen :: u32
  vflags :: u16
  vnext :: u16

definition virtio_blk_capacity_sectors :: "unified_mem \<Rightarrow> u64" where
  "virtio_blk_capacity_sectors m = of_nat (length (virtio_blk_image m) div 512)"

definition virtio_blk_reset_transport_state :: "unified_mem \<Rightarrow> unified_mem" where
  "virtio_blk_reset_transport_state m =
    set_plic_source_pending kVirtioBlkIrqId False
     (m\<lparr>virtio_device_features_sel := 0, virtio_driver_features_sel := 0,
        virtio_driver_features_lo := 0, virtio_driver_features_hi := 0,
        virtio_queue_sel := 0, virtio_queue_num := 0, virtio_queue_ready := 0,
        virtio_queue_desc := 0, virtio_queue_avail := 0, virtio_queue_used := 0,
        virtio_last_avail_idx := 0, virtio_status := 0, virtio_interrupt_status := 0\<rparr>)"

text \<open>The file is a parameter: its bytes, or None when it cannot be opened.\<close>

definition load_virtio_blk_image :: "u8 list option \<Rightarrow> unified_mem \<Rightarrow> bool \<times> unified_mem" where
  "load_virtio_blk_image file m =
    (case file of
       None \<Rightarrow> (False, m)
     | Some bytes \<Rightarrow> (True, virtio_blk_reset_transport_state
         (m\<lparr>virtio_blk_image := bytes, virtio_blk_enabled_flag := True\<rparr>)))"

section \<open>Descriptors\<close>

definition virtio_read_desc :: "u16 \<Rightarrow> unified_mem \<Rightarrow> virtq_desc option" where
  "virtio_read_desc index m =
    (if virtio_queue_num m = 0 \<or> virtio_queue_num m \<le> ucast index then None
     else (let base = virtio_queue_desc m + ucast index * 16 in
       case read_phys_u64 base m of None \<Rightarrow> None | Some a \<Rightarrow>
       case read_phys_u32 (base + 8) m of None \<Rightarrow> None | Some l \<Rightarrow>
       case read_phys_u16 (base + 12) m of None \<Rightarrow> None | Some f \<Rightarrow>
       case read_phys_u16 (base + 14) m of None \<Rightarrow> None | Some n \<Rightarrow>
       Some \<lparr>vaddr = a, vlen = l, vflags = f, vnext = n\<rparr>))"

definition has_next :: "virtq_desc \<Rightarrow> bool" where
  "has_next d \<longleftrightarrow> vflags d AND kVirtqDescFNext \<noteq> 0"

definition dev_write :: "virtq_desc \<Rightarrow> bool" where
  "dev_write d \<longleftrightarrow> vflags d AND kVirtqDescFWrite \<noteq> 0"

text \<open>
  The loop that follows a chain, with the number of descriptors it may still read and those
  read so far; None is the early return. The array \<open>visited\<close> has 128 entries, and the device
  keeps the queue size at most 128, so every index is inside it (lemma \<open>queue_num_max\<close>).
\<close>

primrec chain_loop :: "nat \<Rightarrow> unified_mem \<Rightarrow> u16 \<Rightarrow> (u16 \<Rightarrow> bool) \<Rightarrow> virtq_desc list \<Rightarrow> virtq_desc list option" where
  "chain_loop 0 m cur visited chain = Some chain"
| "chain_loop (Suc n) m cur visited chain =
    (if virtio_queue_num m \<le> ucast cur then None
     else if visited cur then None
     else (case virtio_read_desc cur m of
             None \<Rightarrow> None
           | Some d \<Rightarrow>
               if \<not> has_next d then Some (chain @ [d])
               else chain_loop n m (vnext d) (visited(cur := True)) (chain @ [d])))"

definition virtio_chain :: "u16 \<Rightarrow> unified_mem \<Rightarrow> virtq_desc list option" where
  "virtio_chain head_idx m = chain_loop (unat kVirtioQueueNumMax) m head_idx (\<lambda>_. False) []"

section \<open>Moving the data\<close>

definition image_get :: "u64 \<Rightarrow> unified_mem \<Rightarrow> u8 \<times> unified_mem" where
  "image_get i m =
    (if unat i < length (virtio_blk_image m) then (virtio_blk_image m ! unat i, m)
     else (0, m\<lparr>image_fault := True\<rparr>))"

definition image_set :: "u64 \<Rightarrow> u8 \<Rightarrow> unified_mem \<Rightarrow> unified_mem" where
  "image_set i v m =
    (if unat i < length (virtio_blk_image m)
     then m\<lparr>virtio_blk_image := (virtio_blk_image m)[unat i := v]\<rparr>
     else m\<lparr>image_fault := True\<rparr>)"

primrec copy_bytes :: "u32 \<Rightarrow> u64 \<Rightarrow> u64 \<Rightarrow> nat list \<Rightarrow> unified_mem \<Rightarrow> bool \<times> unified_mem" where
  "copy_bytes req_type a off [] m = (True, m)"
| "copy_bytes req_type a off (b # bs) m =
    (if req_type = kVirtioBlkTIn then
       (let (v, m) = image_get (off + of_nat b) m;
            (ok, m) = write_phys_byte (a + of_nat b) v m
        in if ok then copy_bytes req_type a off bs m else (False, m))
     else
       (case read_phys_byte (a + of_nat b) m of
          None \<Rightarrow> (False, m)
        | Some v \<Rightarrow> copy_bytes req_type a off bs (image_set (off + of_nat b) v m)))"

primrec process_descs :: "u32 \<Rightarrow> virtq_desc list \<Rightarrow> u64 \<Rightarrow> u32 \<Rightarrow> unified_mem \<Rightarrow> bool \<times> u32 \<times> unified_mem" where
  "process_descs req_type [] disk_off used_len m = (True, used_len, m)"
| "process_descs req_type (d # ds) disk_off used_len m =
    (if req_type = kVirtioBlkTIn \<and> \<not> dev_write d then (False, used_len, m)
     else if req_type = kVirtioBlkTOut \<and> dev_write d then (False, used_len, m)
     else if length (virtio_blk_image m) < unat (disk_off + ucast (vlen d)) then (False, used_len, m)
     else (let (ok, m) = copy_bytes req_type (vaddr d) disk_off [0..<unat (vlen d)] m in
       if \<not> ok then (False, used_len, m)
       else process_descs req_type ds (disk_off + ucast (vlen d)) (used_len + vlen d) m))"

section \<open>Requests\<close>

text \<open>The results are the return value, \<open>used_len\<close>, \<open>status\<close> and the new state.\<close>

definition virtio_process_chain :: "virtq_desc list \<Rightarrow> unified_mem \<Rightarrow> bool \<times> u32 \<times> u8 \<times> unified_mem" where
  "virtio_process_chain chain m =
    (if length chain < 3 then (False, 0, kVirtioBlkStatusIoErr, m)
     else (let hdr_desc = hd chain; status_desc = last chain in
       if vlen hdr_desc < 16 then (False, 0, kVirtioBlkStatusIoErr, m)
       else if \<not> dev_write status_desc \<or> vlen status_desc < 1 then (False, 0, kVirtioBlkStatusIoErr, m)
       else
       (case read_phys_u32 (vaddr hdr_desc) m of
          None \<Rightarrow> (False, 0, kVirtioBlkStatusIoErr, m)
        | Some req_type \<Rightarrow>
        case read_phys_u64 (vaddr hdr_desc + 8) m of
          None \<Rightarrow> (False, 0, kVirtioBlkStatusIoErr, m)
        | Some sector \<Rightarrow>
          if req_type \<noteq> kVirtioBlkTIn \<and> req_type \<noteq> kVirtioBlkTOut then
            (False, 0, kVirtioBlkStatusUnsupp,
             snd (write_phys_byte (vaddr status_desc) kVirtioBlkStatusUnsupp m))
          else
            (let (ok, used_len, m) =
                   process_descs req_type (butlast (tl chain)) (sector * kVirtioBlkSectorSize) 0 m;
                 status = (if ok then kVirtioBlkStatusOk else kVirtioBlkStatusIoErr)
             in (ok, used_len, status, snd (write_phys_byte (vaddr status_desc) status m))))))"

definition virtio_process_blk_request :: "u16 \<Rightarrow> unified_mem \<Rightarrow> bool \<times> u32 \<times> u8 \<times> unified_mem" where
  "virtio_process_blk_request head_idx m =
    (if \<not> virtio_blk_enabled_flag m then (False, 0, kVirtioBlkStatusIoErr, m)
     else if virtio_queue_num m = 0 then (False, 0, kVirtioBlkStatusIoErr, m)
     else (case virtio_chain head_idx m of
             None \<Rightarrow> (False, 0, kVirtioBlkStatusIoErr, m)
           | Some chain \<Rightarrow> virtio_process_chain chain m))"

definition virtio_push_used :: "u16 \<Rightarrow> u32 \<Rightarrow> unified_mem \<Rightarrow> unified_mem" where
  "virtio_push_used head_idx used_len m =
    (if virtio_queue_num m = 0 then m
     else (case read_phys_u16 (virtio_queue_used m + 2) m of
       None \<Rightarrow> m
     | Some used_idx \<Rightarrow>
       (let slot = ucast used_idx mod virtio_queue_num m;
            elem = virtio_queue_used m + 4 + ucast slot * 8;
            (ok, m) = write_phys_u32 elem (ucast head_idx) m in
        if \<not> ok then m
        else (let (ok, m) = write_phys_u32 (elem + 4) used_len m in
          if \<not> ok then m
          else snd (write_phys_u16 (virtio_queue_used m + 2) (used_idx + 1) m)))))"

text \<open>What is left of the state when main memory and the disk image are forgotten.\<close>

definition devices :: "unified_mem \<Rightarrow> unified_mem" where
  "devices m = m\<lparr>pmem_words := (\<lambda>_. 0), virtio_blk_image := [], image_fault := False\<rparr>"

lemma devices_write_byte [frame]: "devices (snd (write_phys_byte a d m)) = devices m"
  by (simp add: devices_def write_phys_byte_eq)

lemma devices_write_bytes [frame]: "devices (snd (write_phys_bytes a ds m)) = devices m"
proof (induction ds arbitrary: a m)
  case (Cons d ds)
  show ?case using devices_write_byte [of a d m] Cons.IH
    by (cases "write_phys_byte a d m") simp
qed simp

lemma devices_copy [frame]: "devices (snd (copy_bytes t a off bs m)) = devices m"
proof (induction bs arbitrary: m)
  case (Cons b bs)
  have g: "devices (snd (image_get i m)) = devices m" for i
    by (simp add: image_get_def devices_def)
  have s: "devices (image_set i v m) = devices m" for i v
    by (simp add: image_set_def devices_def)
  show ?case
  proof (cases "t = kVirtioBlkTIn")
    case True
    obtain v m1 where i: "image_get (off + of_nat b) m = (v, m1)" by (cases "image_get (off + of_nat b) m")
    obtain ok m2 where w: "write_phys_byte (a + of_nat b) v m1 = (ok, m2)"
      by (cases "write_phys_byte (a + of_nat b) v m1")
    have "devices m2 = devices m"
      using devices_write_byte [of "a + of_nat b" v m1] g [of "off + of_nat b"] by (simp add: i w)
    then show ?thesis using True Cons.IH by (simp add: i w)
  next
    case False
    then show ?thesis using Cons.IH s by (simp split: option.split)
  qed
qed simp

lemma devices_descs [frame]: "devices (snd (snd (process_descs t ds off u m))) = devices m"
proof (induction ds arbitrary: off u m)
  case (Cons d ds)
  obtain ok m1 where c: "copy_bytes t (vaddr d) off [0..<unat (vlen d)] m = (ok, m1)"
    by (cases "copy_bytes t (vaddr d) off [0..<unat (vlen d)] m")
  then have "devices m1 = devices m"
    using devices_copy [of t "vaddr d" off "[0..<unat (vlen d)]" m] by simp
  then show ?case using Cons.IH by (simp add: c)
qed simp

lemma devices_chain [frame]: "devices (snd (snd (snd (virtio_process_chain c m)))) = devices m"
proof -
  have "devices (snd (write_phys_byte a v (snd (snd (process_descs t ds off u m))))) = devices m" for a v t ds off u
    by (simp only: frame)
  then show ?thesis
    by (auto simp: virtio_process_chain_def Let_def devices_write_byte split: option.split prod.split) (metis snd_conv)+
qed

lemma devices_request [frame]: "devices (snd (snd (snd (virtio_process_blk_request h m)))) = devices m"
  by (simp add: virtio_process_blk_request_def devices_chain split: option.split)

lemma devices_push_used [frame]: "devices (virtio_push_used h l m) = devices m"
proof -
  have "devices (snd (write_phys_u16 c w (snd (write_phys_u32 b v (snd (write_phys_u32 a u m)))))) = devices m"
    "devices (snd (write_phys_u32 b v (snd (write_phys_u32 a u m)))) = devices m"
    "devices (snd (write_phys_u32 a u m)) = devices m" for a b c u v w
    by (simp_all only: write_phys_u32_def write_phys_u16_def frame)
  then show ?thesis
    by (auto simp: virtio_push_used_def Let_def split: option.split prod.split) (metis snd_conv)+
qed

lemma devices_sel:
  assumes "devices m' = devices m"
  shows "virtio_last_avail_idx m' = virtio_last_avail_idx m"
    "virtio_queue_num m' = virtio_queue_num m"
    "virtio_queue_avail m' = virtio_queue_avail m"
    "virtio_queue_used m' = virtio_queue_used m"
    "virtio_queue_desc m' = virtio_queue_desc m"
    "virtio_interrupt_status m' = virtio_interrupt_status m"
    "virtio_blk_enabled_flag m' = virtio_blk_enabled_flag m"
    "bootrom_words m' = bootrom_words m"
    "plic_source_pending1 m' = plic_source_pending1 m"
    "plic_pending1 m' = plic_pending1 m"
    "plic_claimed1 m' = plic_claimed1 m"
  using arg_cong [OF assms, of virtio_last_avail_idx]
    arg_cong [OF assms, of virtio_queue_num]
    arg_cong [OF assms, of virtio_queue_avail]
    arg_cong [OF assms, of virtio_queue_used]
    arg_cong [OF assms, of virtio_queue_desc]
    arg_cong [OF assms, of virtio_interrupt_status]
    arg_cong [OF assms, of virtio_blk_enabled_flag]
    arg_cong [OF assms, of bootrom_words]
    arg_cong [OF assms, of plic_source_pending1]
    arg_cong [OF assms, of plic_pending1]
    arg_cong [OF assms, of plic_claimed1]
  by (simp_all add: devices_def)

section \<open>Notification\<close>

function notify_loop :: "u16 \<Rightarrow> bool \<Rightarrow> unified_mem \<Rightarrow> bool \<times> unified_mem" where
  "notify_loop avail_idx processed m =
    (if virtio_last_avail_idx m = avail_idx then (processed, m)
     else (let ring_slot = ucast (ucast (virtio_last_avail_idx m) mod virtio_queue_num m) :: u16 in
       case read_phys_u16 (virtio_queue_avail m + 4 + ucast ring_slot * 2) m of
         None \<Rightarrow> (processed, m)
       | Some head_idx \<Rightarrow>
           (let r = virtio_process_blk_request head_idx m;
                used_len = fst (snd r);
                m = virtio_push_used head_idx used_len (snd (snd (snd r)))
            in notify_loop avail_idx True
                 (m\<lparr>virtio_last_avail_idx := virtio_last_avail_idx m + 1\<rparr>))))"
  by pat_completeness auto

termination
proof (relation "measure (\<lambda>(a, p, m). unat (a - virtio_last_avail_idx m))", goal_cases)
  case (2 a p m slot head r used_len m')
  have m': "virtio_last_avail_idx m' = virtio_last_avail_idx m"
    using 2(6) by (simp add: devices_sel(1) [OF devices_push_used] devices_sel(1) [OF devices_request] 2(4))
  have "unat (x - 1) < unat x" if "x \<noteq> 0" for x :: u16
    using that unat_gt_0 [of x] by (simp add: unat_minus_one)
  from this [of "a - virtio_last_avail_idx m"] show ?case
    using 2(1) by (simp add: m' algebra_simps)
qed simp

declare notify_loop.simps [simp del]

definition virtio_handle_notify :: "u32 \<Rightarrow> unified_mem \<Rightarrow> unified_mem" where
  "virtio_handle_notify queue_idx m =
    (if \<not> virtio_blk_enabled_flag m then m
     else if queue_idx \<noteq> 0 then m
     else if virtio_queue_num m = 0 \<or> kVirtioQueueNumMax < virtio_queue_num m then m
     else if virtio_queue_ready m = 0 then m
     else (case read_phys_u16 (virtio_queue_avail m + 2) m of
       None \<Rightarrow> m
     | Some avail_idx \<Rightarrow>
         (let (processed, m) = notify_loop avail_idx False m in
          if processed then
            set_plic_source_pending kVirtioBlkIrqId True
              (m\<lparr>virtio_interrupt_status := virtio_interrupt_status m OR kVirtioInterruptUsedBuffer\<rparr>)
          else m)))"

section \<open>The register window\<close>

definition virtio_mmio_read :: "u32 \<Rightarrow> unified_mem \<Rightarrow> u32" where
  "virtio_mmio_read aligned m =
    (let off = aligned - kVirtioBlkBase in
     if off = 0x000 then kVirtioMagicValue
     else if off = 0x004 then kVirtioVersion
     else if off = 0x008 then (if virtio_blk_enabled_flag m then kVirtioDeviceIdBlk else 0)
     else if off = 0x00c then kVirtioVendorId
     else if off = 0x010 then
       (if virtio_device_features_sel m = kVirtioFeatureVersion1Sel
        then push_bit 0 1 else 0)
     else if off = 0x014 then virtio_device_features_sel m
     else if off = 0x020 then
       (if virtio_driver_features_sel m = 0 then virtio_driver_features_lo m
        else virtio_driver_features_hi m)
     else if off = 0x024 then virtio_driver_features_sel m
     else if off = 0x030 then virtio_queue_sel m
     else if off = 0x034 then
       (if virtio_queue_sel m = 0 \<and> virtio_blk_enabled_flag m then kVirtioQueueNumMax else 0)
     else if off = 0x038 then virtio_queue_num m
     else if off = 0x044 then virtio_queue_ready m
     else if off = 0x060 then virtio_interrupt_status m
     else if off = 0x070 then ucast (virtio_status m)
     else if off = 0x080 then get_low (virtio_queue_desc m)
     else if off = 0x084 then get_high (virtio_queue_desc m)
     else if off = 0x090 then get_low (virtio_queue_avail m)
     else if off = 0x094 then get_high (virtio_queue_avail m)
     else if off = 0x0a0 then get_low (virtio_queue_used m)
     else if off = 0x0a4 then get_high (virtio_queue_used m)
     else if off = 0x0fc then virtio_config_generation m
     else if off = 0x100 then get_low (virtio_blk_capacity_sectors m)
     else if off = 0x104 then get_high (virtio_blk_capacity_sectors m)
     else 0)"

definition virtio_interrupt_ack :: "u32 \<Rightarrow> unified_mem \<Rightarrow> unified_mem" where
  "virtio_interrupt_ack d m =
    (let m = m\<lparr>virtio_interrupt_status := virtio_interrupt_status m AND NOT d\<rparr> in
     if virtio_interrupt_status m AND kVirtioInterruptUsedBuffer = 0
     then set_plic_source_pending kVirtioBlkIrqId False m else m)"

definition virtio_mmio_write :: "u32 \<Rightarrow> u32 \<Rightarrow> unified_mem \<Rightarrow> unified_mem" where
  "virtio_mmio_write aligned d m =
    (let off = aligned - kVirtioBlkBase in
     if off = 0x014 then m\<lparr>virtio_device_features_sel := d\<rparr>
     else if off = 0x020 then
       (if virtio_driver_features_sel m = 0 then m\<lparr>virtio_driver_features_lo := d\<rparr>
        else if virtio_driver_features_sel m = 1 then m\<lparr>virtio_driver_features_hi := d\<rparr>
        else m)
     else if off = 0x024 then m\<lparr>virtio_driver_features_sel := d\<rparr>
     else if off = 0x030 then m\<lparr>virtio_queue_sel := d\<rparr>
     else if off = 0x038 then
       (if virtio_queue_sel m = 0 \<and> d \<le> kVirtioQueueNumMax then m\<lparr>virtio_queue_num := d\<rparr> else m)
     else if off = 0x044 then
       (if virtio_queue_sel m = 0 then
          (let m = m\<lparr>virtio_queue_ready := d AND 0x1\<rparr>
           in if virtio_queue_ready m = 0 then m\<lparr>virtio_last_avail_idx := 0\<rparr> else m)
        else m)
     else if off = 0x050 then virtio_handle_notify d m
     else if off = 0x064 then virtio_interrupt_ack d m
     else if off = 0x070 then
       (if d = 0 then virtio_blk_reset_transport_state m
        else m\<lparr>virtio_status := ucast (d AND 0xff)\<rparr>)
     else if off = 0x080 then m\<lparr>virtio_queue_desc := set_low (virtio_queue_desc m) d\<rparr>
     else if off = 0x084 then m\<lparr>virtio_queue_desc := set_high (virtio_queue_desc m) d\<rparr>
     else if off = 0x090 then m\<lparr>virtio_queue_avail := set_low (virtio_queue_avail m) d\<rparr>
     else if off = 0x094 then m\<lparr>virtio_queue_avail := set_high (virtio_queue_avail m) d\<rparr>
     else if off = 0x0a0 then m\<lparr>virtio_queue_used := set_low (virtio_queue_used m) d\<rparr>
     else if off = 0x0a4 then m\<lparr>virtio_queue_used := set_high (virtio_queue_used m) d\<rparr>
     else m)"


section \<open>What a chain is\<close>

fun linked :: "unified_mem \<Rightarrow> u16 \<Rightarrow> u16 list \<Rightarrow> virtq_desc list \<Rightarrow> bool" where
  "linked m cur [] [] \<longleftrightarrow> True"
| "linked m cur (i # is) (d # ds) \<longleftrightarrow> i = cur \<and> ucast i < virtio_queue_num m
     \<and> virtio_read_desc i m = Some d \<and> (ds \<noteq> [] \<longrightarrow> has_next d) \<and> linked m (vnext d) is ds"
| "linked m cur is ds \<longleftrightarrow> False"

fun_cases linked_ConsE: "linked m cur is (d # ds)"
fun_cases linked_NilE: "linked m cur is []"

definition ends_within :: "nat \<Rightarrow> virtq_desc list \<Rightarrow> bool" where
  "ends_within n ds \<longleftrightarrow> (if n = 0 then ds = [] else ds \<noteq> [] \<and> length ds \<le> n
     \<and> (has_next (last ds) \<longrightarrow> length ds = n))"

lemma ends_within_Suc: "ends_within (Suc n) (d # ds) \<longleftrightarrow>
    (if has_next d then ends_within n ds \<or> (ds = [] \<and> n = 0) else ds = [] \<or> ends_within n ds \<and> ds \<noteq> [])"
  by (cases ds; cases n) (auto simp: ends_within_def)

lemma chain_loop_iff:
  "chain_loop n m cur visited chain = Some c \<longleftrightarrow>
    (\<exists>is ds. c = chain @ ds \<and> linked m cur is ds \<and> distinct is \<and> list_all (\<lambda>i. \<not> visited i) is
       \<and> ends_within n ds)"
proof (induction n arbitrary: cur visited chain)
  case 0
  show ?case by (auto simp: ends_within_def intro!: exI [of _ "[]"] elim: linked_NilE)
next
  case (Suc n)
  let ?rhs = "\<exists>is ds. c = chain @ ds \<and> linked m cur is ds \<and> distinct is
       \<and> list_all (\<lambda>i. \<not> visited i) is \<and> ends_within (Suc n) ds"
  show ?case
  proof (cases "ucast cur < virtio_queue_num m \<and> \<not> visited cur")
    case out: False
    have "\<not> ?rhs"
    proof clarify
      fix "is" ds assume l: "linked m cur is ds" "list_all (\<lambda>i. \<not> visited i) is" "ends_within (Suc n) ds"
      then obtain d ds' where "ds = d # ds'" by (cases ds) (auto simp: ends_within_def)
      then show False using l out by (auto elim!: linked_ConsE)
    qed
    then show ?thesis using out by (auto simp: not_less)
  next
    case cur: True
    show ?thesis
    proof (cases "virtio_read_desc cur m")
      case None
      have "\<not> ?rhs"
      proof clarify
        fix "is" ds assume l: "linked m cur is ds" "ends_within (Suc n) ds"
        then obtain d ds' where "ds = d # ds'" by (cases ds) (auto simp: ends_within_def)
        then show False using l None by (auto elim!: linked_ConsE)
      qed
      then show ?thesis using cur None by auto
    next
      case (Some d)
      have split: "?rhs \<longleftrightarrow> (\<exists>is ds. c = chain @ d # ds \<and> linked m (vnext d) is ds \<and> (ds \<noteq> [] \<longrightarrow> has_next d)
          \<and> distinct is \<and> cur \<notin> List.set is \<and> list_all (\<lambda>i. \<not> visited i) is \<and> ends_within (Suc n) (d # ds))"
        (is "_ \<longleftrightarrow> ?split")
      proof
        assume ?rhs
        then obtain "is" ds where l: "c = chain @ ds" "linked m cur is ds" "distinct is"
          "list_all (\<lambda>i. \<not> visited i) is" "ends_within (Suc n) ds" by blast
        then obtain e ds' where "ds = e # ds'" by (cases ds) (auto simp: ends_within_def)
        with l Some show ?split by (auto elim!: linked_ConsE)
      next
        assume ?split
        then obtain "is" ds where "c = chain @ d # ds" "linked m (vnext d) is ds" "ds \<noteq> [] \<longrightarrow> has_next d"
          "distinct is" "cur \<notin> List.set is" "list_all (\<lambda>i. \<not> visited i) is" "ends_within (Suc n) (d # ds)" by blast
        with cur Some show ?rhs by (intro exI [of _ "cur # is"] exI [of _ "d # ds"]) simp
      qed
      show ?thesis
      proof (cases "has_next d")
        case False
        then have "?split \<longleftrightarrow> c = chain @ [d]"
          by (auto simp: ends_within_def intro!: exI [of _ "[]"] elim: linked_NilE)
        then show ?thesis using split cur Some False by (auto simp: not_le)
      next
        case True
        have "chain_loop (Suc n) m cur visited chain = chain_loop n m (vnext d) (visited(cur := True)) (chain @ [d])"
          using cur Some True by (auto dest: leD)
        also have "\<dots> = Some c \<longleftrightarrow> (\<exists>is ds. c = (chain @ [d]) @ ds \<and> linked m (vnext d) is ds \<and> distinct is
            \<and> list_all (\<lambda>i. \<not> (visited(cur := True)) i) is \<and> ends_within n ds)"
          by (rule Suc.IH)
        also have "\<dots> \<longleftrightarrow> ?split"
          using True by (intro ex_cong1) (auto simp: ends_within_Suc list_all_iff ends_within_def)
        finally show ?thesis using split by simp
      qed
    qed
  qed
qed

text \<open>C11: A head index has a chain exactly when following the next pointers from it meets
  distinct descriptors of the queue, all readable, up to one without a next flag, or 128 of
  them: a chain that returns to an earlier descriptor is rejected, and the walk ends after at
  most 128 steps.\<close>

theorem virtio_chain_correct:
  "virtio_chain h m = Some c \<longleftrightarrow> (\<exists>xs. linked m h xs c \<and> distinct xs \<and> ends_within 128 c)"
  by (simp add: virtio_chain_def chain_loop_iff list_all_iff)

section \<open>What a request moves\<close>

definition data_addrs :: "virtq_desc list \<Rightarrow> u64 list" where
  "data_addrs ds = concat (List.map (\<lambda>d. List.map (\<lambda>b. vaddr d + of_nat b) [0..<unat (vlen d)]) ds)"

definition data_len :: "virtq_desc list \<Rightarrow> nat" where
  "data_len ds = sum_list (List.map (\<lambda>d. unat (vlen d)) ds)"

lemma data_simps [simp]:
  "data_addrs [] = []" "data_len [] = 0"
  "data_addrs (d # ds) = List.map (\<lambda>b. vaddr d + of_nat b) [0..<unat (vlen d)] @ data_addrs ds"
  "data_len (d # ds) = unat (vlen d) + data_len ds"
  by (simp_all add: data_addrs_def data_len_def)

lemma length_data_addrs [simp]: "length (data_addrs ds) = data_len ds"
  by (induction ds) simp_all

lemma image_write_byte [simp]:
  "virtio_blk_image (snd (write_phys_byte a d m)) = virtio_blk_image m"
  "image_fault (snd (write_phys_byte a d m)) = image_fault m"
  by (simp_all add: write_phys_byte_eq)

lemma wr_all_append:
  "fst (phys.wr_all xs m) \<Longrightarrow> phys.wr_all (xs @ ys) m = phys.wr_all ys (snd (phys.wr_all xs m))"
proof (induction xs arbitrary: m)
  case (Cons x xs)
  obtain a d where x: "x = (a, d)" by (cases x)
  show ?case using Cons by (cases "write_phys_byte a d m") (auto simp: x split: if_splits)
qed simp

lemma wr_all_image_eq:
  "virtio_blk_image (snd (phys.wr_all xs m)) = virtio_blk_image m
    \<and> image_fault (snd (phys.wr_all xs m)) = image_fault m"
proof (induction xs arbitrary: m)
  case (Cons x xs)
  obtain a d where x: "x = (a, d)" by (cases x)
  show ?case using Cons.IH image_write_byte [of a d m] by (cases "write_phys_byte a d m") (simp add: x)
qed simp

lemmas wr_all_image [simp] = conjunct1 [OF wr_all_image_eq] conjunct2 [OF wr_all_image_eq]

text \<open>An offset and a count that stay inside an image of less than \<open>2 ^ 63\<close> bytes do not wrap.\<close>

lemma unat_off: "unat off + b < 2 ^ 64 \<Longrightarrow> unat (off + of_nat b :: u64) = unat off + b"
  by (simp add: unat_word_ariths unat_of_nat)

lemma copy_bytes_in:
  "\<forall>b \<in> List.set bs. unat off + b < length (virtio_blk_image m) \<Longrightarrow> length (virtio_blk_image m) < 2 ^ 63 \<Longrightarrow>
   copy_bytes kVirtioBlkTIn a off bs m =
     phys.wr_all (List.map (\<lambda>b. (a + of_nat b, virtio_blk_image m ! (unat off + b))) bs) m"
proof (induction bs arbitrary: m)
  case (Cons b bs)
  have u: "unat (off + of_nat b) = unat off + b"
    by (rule unat_off) (use Cons.prems in force)
  obtain k m' where w: "write_phys_byte (a + of_nat b) (virtio_blk_image m ! (unat off + b)) m = (k, m')"
    by (cases "write_phys_byte (a + of_nat b) (virtio_blk_image m ! (unat off + b)) m")
  have i: "virtio_blk_image m' = virtio_blk_image m"
    using image_write_byte(1) [of "a + of_nat b" "virtio_blk_image m ! (unat off + b)" m] by (simp add: w)
  show ?case using Cons.prems Cons.IH [of m']
    by (simp add: image_get_def u w i)
qed simp

lemma copy_bytes_out:
  "\<forall>b \<in> List.set bs. unat off + b < length (virtio_blk_image m) \<Longrightarrow> length (virtio_blk_image m) < 2 ^ 63 \<Longrightarrow>
   t \<noteq> kVirtioBlkTIn \<Longrightarrow> copy_bytes t a off bs m = (k, m') \<Longrightarrow>
   \<exists>img. m' = m\<lparr>virtio_blk_image := img\<rparr> \<and> length img = length (virtio_blk_image m)
     \<and> (k \<longrightarrow> img = fold (\<lambda>b img. img[unat off + b := the (read_phys_byte (a + of_nat b) m)]) bs (virtio_blk_image m)
          \<and> list_all (\<lambda>b. read_phys_byte (a + of_nat b) m \<noteq> None) bs)"
proof (induction bs arbitrary: m)
  case Nil
  then show ?case by (intro exI [of _ "virtio_blk_image m"]) simp
next
  case (Cons b bs)
  have u: "unat (off + of_nat b) = unat off + b"
    by (rule unat_off) (use Cons.prems in force)
  show ?case
  proof (cases "read_phys_byte (a + of_nat b) m")
    case None
    with Cons.prems show ?thesis by (intro exI [of _ "virtio_blk_image m"]) simp
  next
    case (Some v)
    let ?m = "m\<lparr>virtio_blk_image := (virtio_blk_image m)[unat off + b := v]\<rparr>"
    have r: "read_phys_byte x (m\<lparr>virtio_blk_image := i\<rparr>) = read_phys_byte x m" for x i
      by (simp add: read_phys_byte_eq)
    have "copy_bytes t a off bs ?m = (k, m')"
      using Cons.prems Some by (simp add: image_set_def u)
    from Cons.IH [OF _ _ Cons.prems(3) this] obtain img where
      "m' = ?m\<lparr>virtio_blk_image := img\<rparr>" "length img = length (virtio_blk_image m)"
      "k \<longrightarrow> img = fold (\<lambda>b img. img[unat off + b := the (read_phys_byte (a + of_nat b) m)]) bs
            ((virtio_blk_image m)[unat off + b := v]) \<and> list_all (\<lambda>b. read_phys_byte (a + of_nat b) m \<noteq> None) bs"
      using Cons.prems(1,2) by (auto simp: r)
    then show ?thesis using Some by (intro exI [of _ img]) simp
  qed
qed

lemma fold_update_slice:
  "k + n \<le> length xs \<Longrightarrow>
   fold (\<lambda>b ys. ys[k + b := f b]) [0..<n] xs = take k xs @ List.map f [0..<n] @ drop (k + n) xs"
proof (induction n)
  case (Suc n)
  then show ?case
    by (simp add: list_update_append nth_append upd_conv_take_nth_drop flip: Cons_nth_drop_Suc)
qed simp

lemma unat_disk_off:
  "unat off \<le> n \<Longrightarrow> n < 2 ^ 63 \<Longrightarrow> unat (off + ucast (l :: u32) :: u64) = unat off + unat l"
  using unat_lt_u32 [of l] by (simp add: unat_word_ariths unat_ucast_up)

lemma process_descs_in:
  "process_descs kVirtioBlkTIn ds off u m = (True, u', m') \<Longrightarrow>
   unat off \<le> length (virtio_blk_image m) \<Longrightarrow> length (virtio_blk_image m) < 2 ^ 63 \<Longrightarrow>
   unat off + data_len ds \<le> length (virtio_blk_image m) \<and> list_all dev_write ds
     \<and> phys.wr_all (zip (data_addrs ds) (drop (unat off) (virtio_blk_image m))) m = (True, m')
     \<and> u' = u + of_nat (data_len ds)"
proof (induction ds arbitrary: off u m)
  case (Cons d ds)
  let ?img = "virtio_blk_image m"
  let ?n = "unat (vlen d)"
  obtain k m1 where c: "copy_bytes kVirtioBlkTIn (vaddr d) off [0..<?n] m = (k, m1)"
    by (cases "copy_bytes kVirtioBlkTIn (vaddr d) off [0..<?n] m")
  have u: "unat (off + ucast (vlen d)) = unat off + ?n"
    by (rule unat_disk_off) (use Cons.prems in auto)
  have p: "dev_write d" "unat off + ?n \<le> length ?img" k
    "process_descs kVirtioBlkTIn ds (off + ucast (vlen d)) (u + vlen d) m1 = (True, u', m')"
    using Cons.prems(1) by (auto simp: c u split: if_splits)
  have w: "phys.wr_all (List.map (\<lambda>b. (vaddr d + of_nat b, ?img ! (unat off + b))) [0..<?n]) m = (True, m1)"
    using copy_bytes_in [of "[0..<?n]" off m "vaddr d"] c p(2,3) Cons.prems(3) by simp
  have i: "virtio_blk_image m1 = ?img"
    using wr_all_image(1) [of "List.map (\<lambda>b. (vaddr d + of_nat b, ?img ! (unat off + b))) [0..<?n]" m]
    by (simp add: w)
  have z: "zip (data_addrs (d # ds)) (drop (unat off) ?img) =
      List.map (\<lambda>b. (vaddr d + of_nat b, ?img ! (unat off + b))) [0..<?n]
      @ zip (data_addrs ds) (drop (unat off + ?n) ?img)"
  proof -
    have "take ?n (drop (unat off) ?img) = List.map (\<lambda>b. ?img ! (unat off + b)) [0..<?n]"
      using p(2) by (intro nth_equalityI) auto
    then show ?thesis
      by (simp add: zip_append1 zip_map_map zip_same_conv_map add.commute)
  qed
  show ?case using Cons.IH [OF p(4)] Cons.prems p w
    by (simp add: i u z wr_all_append del: data_simps(3))
qed simp

lemma process_descs_out:
  "process_descs t ds off u m = (True, u', m') \<Longrightarrow> t \<noteq> kVirtioBlkTIn \<Longrightarrow>
   unat off \<le> length (virtio_blk_image m) \<Longrightarrow> length (virtio_blk_image m) < 2 ^ 63 \<Longrightarrow>
   unat off + data_len ds \<le> length (virtio_blk_image m)
     \<and> list_all (\<lambda>a. read_phys_byte a m \<noteq> None) (data_addrs ds)
     \<and> m' = m\<lparr>virtio_blk_image := take (unat off) (virtio_blk_image m)
            @ List.map (\<lambda>a. the (read_phys_byte a m)) (data_addrs ds)
            @ drop (unat off + data_len ds) (virtio_blk_image m)\<rparr>
     \<and> u' = u + of_nat (data_len ds)"
proof (induction ds arbitrary: off u m)
  case (Cons d ds)
  let ?img = "virtio_blk_image m"
  let ?n = "unat (vlen d)"
  obtain k m1 where c: "copy_bytes t (vaddr d) off [0..<?n] m = (k, m1)"
    by (cases "copy_bytes t (vaddr d) off [0..<?n] m")
  have u: "unat (off + ucast (vlen d)) = unat off + ?n"
    by (rule unat_disk_off) (use Cons.prems in auto)
  have p: "unat off + ?n \<le> length ?img" k
    "process_descs t ds (off + ucast (vlen d)) (u + vlen d) m1 = (True, u', m')"
    using Cons.prems(1) by (auto simp: c u split: if_splits)
  have r: "read_phys_byte x (m\<lparr>virtio_blk_image := i\<rparr>) = read_phys_byte x m" for x i
    by (simp add: read_phys_byte_eq)
  let ?bs = "List.map (\<lambda>b. the (read_phys_byte (vaddr d + of_nat b) m)) [0..<?n]"
  have m1: "m1 = m\<lparr>virtio_blk_image := take (unat off) ?img @ ?bs @ drop (unat off + ?n) ?img\<rparr>"
      "list_all (\<lambda>b. read_phys_byte (vaddr d + of_nat b) m \<noteq> None) [0..<?n]"
    using copy_bytes_out [OF _ _ Cons.prems(2) c] p Cons.prems(4)
    by (auto simp: fold_update_slice)
  have l: "length (virtio_blk_image m1) = length ?img"
    using p(1) by (simp add: m1(1))
  have o: "unat off \<le> length ?img" using p(1) by simp
  have I: "virtio_blk_image m1 = take (unat off) ?img @ ?bs @ drop (unat off + ?n) ?img"
    by (simp add: m1(1))
  have r1: "read_phys_byte x m1 = read_phys_byte x m" for x
    by (simp add: m1(1) r)
  have t: "take (unat off + ?n) (virtio_blk_image m1) = take (unat off) ?img @ ?bs"
    using o by (simp add: I min_def)
  have dr: "drop (unat off + ?n + j) (virtio_blk_image m1) = drop (unat off + ?n + j) ?img" for j
    using o by (simp add: I min_def add.commute)
  note IH = Cons.IH [OF p(3) Cons.prems(2), unfolded l u r1 t dr]
  have m': "m1\<lparr>virtio_blk_image := x\<rparr> = m\<lparr>virtio_blk_image := x\<rparr>" for x
    by (simp add: m1(1))
  show ?case using IH [OF p(1) Cons.prems(4)] m1(2)
    unfolding m' by (auto simp: list_all_iff add.assoc)
qed simp

lemma disk_off_eq:
  "unat sector * 512 < 2 ^ 64 \<Longrightarrow> unat (sector * kVirtioBlkSectorSize) = unat sector * 512"
  by (simp add: unat_word_ariths)

lemma write_status: "read_phys_byte b (snd (write_phys_byte a d m)) =
    (if phys_writable a \<and> b = a then Some d else read_phys_byte b m)"
proof -
  have "write_phys_byte a d m = (phys_writable a, snd (write_phys_byte a d m))"
    by (simp add: prod_eq_iff write_phys_byte_ok)
  then show ?thesis by (rule read_write_phys_byte)
qed

lemma process_chain_cases:
  assumes "virtio_process_chain c m = (True, ul, st, m')"
    "read_phys_u32 (vaddr (hd c)) m = Some t" "read_phys_u64 (vaddr (hd c) + 8) m = Some sector"
  obtains m1 where "process_descs t (butlast (tl c)) (sector * kVirtioBlkSectorSize) 0 m = (True, ul, m1)"
    "m' = snd (write_phys_byte (vaddr (last c)) kVirtioBlkStatusOk m1)" "st = kVirtioBlkStatusOk"
    "t = kVirtioBlkTIn \<or> t = kVirtioBlkTOut" "3 \<le> length c" "dev_write (last c)"
  using assms unfolding virtio_process_chain_def Let_def
  by (auto split: if_splits prod.splits)

text \<open>C4: A request that reports success has moved exactly the sectors it names. Reading from
  the disk (type 0) leaves the image alone and stores its bytes, from the first byte of the
  sector on, at the addresses of the data descriptors in their order, a later byte replacing
  an earlier one at the same address; writing to the disk (type 1) replaces exactly those bytes
  of the image by the memory the data descriptors name and leaves main memory alone. Both
  count the bytes moved and end with the status byte 0. The hypotheses are the header of the
  request, a sector inside the image and an image below \<open>2 ^ 63\<close> bytes.\<close>

theorem virtio_request_correct:
  assumes "virtio_process_chain c m = (True, ul, st, m')"
    "read_phys_u32 (vaddr (hd c)) m = Some t" "read_phys_u64 (vaddr (hd c) + 8) m = Some sector"
    "unat sector * 512 \<le> length (virtio_blk_image m)" "length (virtio_blk_image m) < 2 ^ 63"
  shows "let ds = butlast (tl c); img = virtio_blk_image m; k = unat sector * 512;
             status_at = vaddr (last c)
    in st = kVirtioBlkStatusOk \<and> ul = of_nat (data_len ds) \<and> k + data_len ds \<le> length img
      \<and> (if t = kVirtioBlkTIn
         then virtio_blk_image m' = img \<and> list_all phys_writable (data_addrs ds)
           \<and> (\<forall>b. read_phys_byte b m' =
               (if phys_writable status_at \<and> b = status_at then Some st
                else case map_of (rev (zip (data_addrs ds) (drop k img))) b of
                       Some v \<Rightarrow> Some v | None \<Rightarrow> read_phys_byte b m))
         else t = kVirtioBlkTOut
           \<and> virtio_blk_image m' = take k img @ List.map (\<lambda>a. the (read_phys_byte a m)) (data_addrs ds)
                                     @ drop (k + data_len ds) img
           \<and> (\<forall>b. read_phys_byte b m' =
               (if phys_writable status_at \<and> b = status_at then Some st else read_phys_byte b m)))"
proof -
  let ?ds = "butlast (tl c)" and ?img = "virtio_blk_image m" and ?k = "unat sector * 512"
  obtain m1 where p: "process_descs t ?ds (sector * kVirtioBlkSectorSize) 0 m = (True, ul, m1)"
    and m': "m' = snd (write_phys_byte (vaddr (last c)) kVirtioBlkStatusOk m1)" "st = kVirtioBlkStatusOk"
    and t: "t = kVirtioBlkTIn \<or> t = kVirtioBlkTOut"
    by (rule process_chain_cases [OF assms(1-3)])
  have k: "unat (sector * kVirtioBlkSectorSize) = ?k"
    by (rule disk_off_eq) (use assms(4,5) in simp)
  show ?thesis
  proof (cases "t = kVirtioBlkTIn")
    case True
    from process_descs_in [OF p [unfolded True], unfolded k, OF assms(4,5)]
    have d: "?k + data_len ?ds \<le> length ?img" "ul = of_nat (data_len ?ds)"
      and w: "phys.wr_all (zip (data_addrs ?ds) (drop ?k ?img)) m = (True, m1)"
      by auto
    have i: "virtio_blk_image m1 = ?img"
      using wr_all_image(1) [of "zip (data_addrs ?ds) (drop ?k ?img)" m] by (simp add: w)
    have z: "List.map fst (zip (data_addrs ?ds) (drop ?k ?img)) = data_addrs ?ds"
      using d(1) by (simp add: map_fst_zip_take)
    have "list_all phys_writable (List.map fst (zip (data_addrs ?ds) (drop ?k ?img)))"
      using phys.wr_all_ok [of "zip (data_addrs ?ds) (drop ?k ?img)" m] w
      by (auto simp: list_all_iff)
    then have "list_all phys_writable (data_addrs ?ds)" by (simp only: z)
    then show ?thesis using True d m' phys.wr_all_reads [of "zip (data_addrs ?ds) (drop ?k ?img)" m]
      by (simp add: w i write_status Let_def)
  next
    case False
    from process_descs_out [OF p False] k assms(4,5) have d: "?k + data_len ?ds \<le> length ?img" "ul = of_nat (data_len ?ds)"
      and m1: "m1 = m\<lparr>virtio_blk_image := take ?k ?img
            @ List.map (\<lambda>a. the (read_phys_byte a m)) (data_addrs ?ds) @ drop (?k + data_len ?ds) ?img\<rparr>"
      by auto
    have r: "read_phys_byte x m1 = read_phys_byte x m" for x
      by (simp add: m1 read_phys_byte_eq)
    show ?thesis using False d m' t
      by (simp add: write_status Let_def r) (simp add: m1)
  qed
qed

section \<open>Accesses to the image\<close>

lemma copy_bytes_no_fault:
  assumes "unat off + n \<le> length (virtio_blk_image m)" "length (virtio_blk_image m) < 2 ^ 63"
    "copy_bytes t a off [0..<n] m = (k, m')"
  shows "image_fault m' = image_fault m \<and> length (virtio_blk_image m') = length (virtio_blk_image m)"
proof (cases "t = kVirtioBlkTIn")
  case True
  let ?xs = "List.map (\<lambda>b. (a + of_nat b, virtio_blk_image m ! (unat off + b))) [0..<n]"
  have "copy_bytes t a off [0..<n] m = phys.wr_all ?xs m"
    unfolding True by (rule copy_bytes_in) (use assms in auto)
  then have "m' = snd (phys.wr_all ?xs m)" using assms(3) by (metis snd_conv)
  then show ?thesis by simp
next
  case False
  then show ?thesis using copy_bytes_out [OF _ _ False assms(3)] assms(1,2) by auto
qed

lemma process_descs_no_fault:
  "process_descs t ds off u m = (k, u', m') \<Longrightarrow> unat off + 2 ^ 32 \<le> 2 ^ 64 \<Longrightarrow>
   length (virtio_blk_image m) < 2 ^ 63 \<Longrightarrow>
   image_fault m' = image_fault m \<and> length (virtio_blk_image m') = length (virtio_blk_image m)"
proof (induction ds arbitrary: off u m)
  case (Cons d ds)
  obtain j m1 where c: "copy_bytes t (vaddr d) off [0..<unat (vlen d)] m = (j, m1)"
    by (cases "copy_bytes t (vaddr d) off [0..<unat (vlen d)] m")
  have o: "unat (off + ucast (vlen d)) = unat off + unat (vlen d)"
    using Cons.prems(2) unat_lt_u32 [of "vlen d"] by (simp add: unat_word_ariths unat_ucast_up)
  show ?case
  proof (cases "length (virtio_blk_image m) < unat (off + ucast (vlen d))")
    case True
    then show ?thesis using Cons.prems(1) by (auto split: if_splits)
  next
    case False
    then have i: "image_fault m1 = image_fault m" "length (virtio_blk_image m1) = length (virtio_blk_image m)"
      using copy_bytes_no_fault [OF _ Cons.prems(3) c] o by auto
    have b: "unat (off + ucast (vlen d)) + 2 ^ 32 \<le> 2 ^ 64"
      using False Cons.prems(3) by simp
    show ?thesis using Cons.IH [OF _ b, of "u + vlen d" m1] Cons.prems i False
      by (auto simp: c split: if_splits)
  qed
qed simp

text \<open>C37: As long as the byte offset of the sector is at least 4 GiB below the end of the
  64-bit range, no request, however it fails, reads or writes the image outside its bounds
  or changes its size. (Lemma \<open>wrapped_sector_faults\<close> shows why the hypothesis is needed:
  the bounds check adds without regard to overflow.)\<close>

theorem virtio_request_in_bounds:
  assumes "virtio_process_chain c m = (ok, ul, st, m')"
    "\<forall>sector. read_phys_u64 (vaddr (hd c) + 8) m = Some sector
        \<longrightarrow> unat (sector * kVirtioBlkSectorSize) + 2 ^ 32 \<le> 2 ^ 64"
    "length (virtio_blk_image m) < 2 ^ 63"
  shows "image_fault m' = image_fault m
    \<and> length (virtio_blk_image m') = length (virtio_blk_image m)"
proof -
  have w: "image_fault (snd (write_phys_byte a d n)) = image_fault n"
    "length (virtio_blk_image (snd (write_phys_byte a d n))) = length (virtio_blk_image n)" for a d n
    by simp_all
  show ?thesis using assms unfolding virtio_process_chain_def Let_def
    by (auto simp: w split: if_splits option.splits prod.splits dest: process_descs_no_fault)
qed

section \<open>The loop over the available ring\<close>

definition ring_entry :: "unified_mem \<Rightarrow> u64" where
  "ring_entry m = virtio_queue_avail m + 4
     + ucast (ucast (ucast (virtio_last_avail_idx m) mod virtio_queue_num m) :: u16) * 2"

text \<open>One turn of the loop: the request the next entry of the ring names is processed and
  published, and the device's own index moves on.\<close>

definition serve_next :: "unified_mem \<Rightarrow> unified_mem" where
  "serve_next m = (case read_phys_u16 (ring_entry m) m of None \<Rightarrow> m
     | Some head_idx \<Rightarrow>
         (let r = virtio_process_blk_request head_idx m;
              m = virtio_push_used head_idx (fst (snd r)) (snd (snd (snd r)))
          in m\<lparr>virtio_last_avail_idx := virtio_last_avail_idx m + 1\<rparr>))"

lemma readable_byte: "read_phys_byte a m = None \<longleftrightarrow>
    \<not> (a \<le> 0xFFFFFFFF \<and> (in_pmem (ucast a) \<or> in_bootrom (ucast a)))"
  by (auto simp: read_phys_byte_eq)

lemma readable_u16: "read_phys_u16 a m = None \<longleftrightarrow> read_phys_u16 a m' = None"
proof -
  have "read_phys_u16 a m = None \<longleftrightarrow> read_phys_byte a m = None \<or> read_phys_byte (a + 1) m = None" for m
    by (auto simp: read_phys_u16_def split: option.split)
  then show ?thesis by (simp only: readable_byte)
qed

lemma devices_set_idx:
  "devices (x\<lparr>virtio_last_avail_idx := l\<rparr>) = (devices x)\<lparr>virtio_last_avail_idx := l\<rparr>"
  by (simp add: devices_def)

lemma devices_serve_next:
  assumes "read_phys_u16 (ring_entry m) m \<noteq> None"
  shows "devices (serve_next m) = devices (m\<lparr>virtio_last_avail_idx := virtio_last_avail_idx m + 1\<rparr>)"
proof -
  obtain h where h: "read_phys_u16 (ring_entry m) m = Some h" using assms by auto
  let ?m = "virtio_push_used h (fst (snd (virtio_process_blk_request h m)))
      (snd (snd (snd (virtio_process_blk_request h m))))"
  have d: "devices ?m = devices m" by (simp only: frame)
  show ?thesis by (simp add: serve_next_def h Let_def devices_set_idx d devices_sel(1) [OF d])
qed

lemma notify_loop_serves:
  assumes "\<forall>i :: u16. ucast i < virtio_queue_num m \<longrightarrow> read_phys_u16 (virtio_queue_avail m + 4 + ucast i * 2) m \<noteq> None"
    "virtio_queue_num m \<noteq> 0" "virtio_queue_num m \<le> 128"
  shows "notify_loop idx p m =
      (p \<or> virtio_last_avail_idx m \<noteq> idx, (serve_next ^^ unat (idx - virtio_last_avail_idx m)) m)
    \<and> virtio_last_avail_idx ((serve_next ^^ unat (idx - virtio_last_avail_idx m)) m) = idx
    \<and> devices ((serve_next ^^ unat (idx - virtio_last_avail_idx m)) m) = devices (m\<lparr>virtio_last_avail_idx := idx\<rparr>)"
  using assms
proof (induction "unat (idx - virtio_last_avail_idx m)" arbitrary: m p)
  case 0
  then have "virtio_last_avail_idx m = idx" by (simp add: unat_eq_0)
  moreover from this have "devices (m\<lparr>virtio_last_avail_idx := idx\<rparr>) = devices m"
    by (cases m) (auto simp: devices_def)
  ultimately show ?case by (subst notify_loop.simps) simp
next
  case (Suc n)
  let ?l = "virtio_last_avail_idx m"
  have ne: "?l \<noteq> idx" using Suc.hyps(2) by auto
  let ?slot = "ucast (ucast ?l mod virtio_queue_num m) :: u16"
  have "unat ?slot < unat (virtio_queue_num m)"
  proof -
    have "unat (ucast ?l mod virtio_queue_num m) < unat (virtio_queue_num m)"
      using word_mod_less_divisor [of "virtio_queue_num m" "ucast ?l"] Suc.prems(2)
      by (simp add: word_less_nat_alt unat_gt_0)
    then show ?thesis
      using mod_less_eq_dividend [of "unat (ucast ?l mod virtio_queue_num m)" 65536]
      by (simp add: unat_ucast_mod)
  qed
  then have "(ucast ?slot :: u32) < virtio_queue_num m"
    by (simp add: word_less_nat_alt unat_ucast_up)
  then have r: "read_phys_u16 (ring_entry m) m \<noteq> None"
    unfolding ring_entry_def using Suc.prems(1) by blast
  let ?m = "serve_next m"
  have d: "devices ?m = devices (m\<lparr>virtio_last_avail_idx := ?l + 1\<rparr>)"
    by (rule devices_serve_next [OF r])
  note q = devices_sel(1-3) [OF d, simplified]
  have u: "unat (idx - (?l + 1)) = n"
    using Suc.hyps(2) ne unat_minus_one [of "idx - ?l"] by (simp add: algebra_simps)
  have loop: "notify_loop idx p m = notify_loop idx True ?m"
    using r ne by (subst notify_loop.simps) (auto simp: serve_next_def ring_entry_def Let_def)
  have "\<forall>i :: u16. ucast i < virtio_queue_num ?m \<longrightarrow>
      read_phys_u16 (virtio_queue_avail ?m + 4 + ucast i * 2) ?m \<noteq> None"
    using Suc.prems(1) readable_u16 unfolding q by blast
  note IH = Suc.hyps(1) [of ?m True, unfolded q(1), OF u [symmetric], unfolded q(2), OF this [unfolded q(2)] Suc.prems(2,3)]
  have e: "(serve_next ^^ unat (idx - ?l)) m = (serve_next ^^ n) ?m"
    unfolding Suc.hyps(2) [symmetric] by (simp only: funpow_Suc_right o_apply)
  have "devices (?m\<lparr>virtio_last_avail_idx := idx\<rparr>) = devices (m\<lparr>virtio_last_avail_idx := idx\<rparr>)"
    by (simp add: devices_set_idx d)
  then show ?case using IH ne unfolding loop e u by simp
qed

text \<open>C20: A notification of a ready queue serves exactly the entries the driver has made
  available since the last one, in ring order and each once, whatever the requests in it are:
  the loop returns for every pair of 16-bit indices, wrap-around included, leaves the device
  index equal to the driver's, and raises the used-buffer interrupt and its source exactly
  when there was something to serve. Nothing else of the device state changes; only main
  memory and the disk image do.\<close>

theorem virtio_notify_correct:
  assumes "virtio_blk_enabled_flag m" "virtio_queue_num m \<noteq> 0" "virtio_queue_num m \<le> 128"
    "virtio_queue_ready m \<noteq> 0" "read_phys_u16 (virtio_queue_avail m + 2) m = Some idx"
    "\<forall>i :: u16. ucast i < virtio_queue_num m \<longrightarrow> read_phys_u16 (virtio_queue_avail m + 4 + ucast i * 2) m \<noteq> None"
  shows "let k = unat (idx - virtio_last_avail_idx m); m1 = (serve_next ^^ k) m in
      virtio_handle_notify 0 m =
        (if k = 0 then m
         else set_plic_source_pending 1 True
           (m1\<lparr>virtio_interrupt_status := virtio_interrupt_status m OR 1\<rparr>))
    \<and> virtio_last_avail_idx m1 = idx
    \<and> devices m1 = devices (m\<lparr>virtio_last_avail_idx := idx\<rparr>)"
proof -
  note l = notify_loop_serves [OF assms(6,2,3)]
  have i: "virtio_interrupt_status ((serve_next ^^ unat (idx - virtio_last_avail_idx m)) m)
      = virtio_interrupt_status m"
    using devices_sel(6) [OF conjunct2 [OF conjunct2 [OF l [of idx False]]]] by simp
  have z: "unat (idx - virtio_last_avail_idx m) = 0 \<longleftrightarrow> virtio_last_avail_idx m = idx"
    by (auto simp: unat_eq_0)
  have h: "virtio_handle_notify 0 m = (let (processed, m) = notify_loop idx False m in
      if processed then set_plic_source_pending kVirtioBlkIrqId True
        (m\<lparr>virtio_interrupt_status := virtio_interrupt_status m OR kVirtioInterruptUsedBuffer\<rparr>)
      else m)"
    using assms(1-5) by (simp add: virtio_handle_notify_def not_less)
  show ?thesis using l [of idx False] unfolding h Let_def
    by (simp add: i z)
qed

lemma write_phys_bytes_ok:
  "fst (write_phys_bytes a ds m) \<longleftrightarrow> list_all (\<lambda>i. phys_writable (a + of_nat i)) [0..<length ds]"
  by (simp add: write_phys_bytes_eq phys.wr_all_ok list_all_iff)

lemma write_phys_bytes_frame:
  "list_all (\<lambda>i. b \<noteq> a + of_nat i) [0..<length ds] \<Longrightarrow>
   read_phys_byte b (snd (write_phys_bytes a ds m)) = read_phys_byte b m"
  unfolding write_phys_bytes_eq by (rule phys.wr_all_frame) (auto simp: list_all_iff)

lemma of_nat_u64_inj: "i < 2 ^ 64 \<Longrightarrow> j < 2 ^ 64 \<Longrightarrow> (of_nat i :: u64) = of_nat j \<longleftrightarrow> i = j"
  by (simp add: word_unat_eq_iff unat_of_nat)

lemma write_phys_bytes_reads:
  assumes "fst (write_phys_bytes a ds m)" "j < length ds" "length ds \<le> 256"
  shows "read_phys_byte (a + of_nat j) (snd (write_phys_bytes a ds m)) = Some (ds ! j)"
proof -
  let ?xs = "List.map (\<lambda>i. (a + of_nat i, ds ! i)) [0..<length ds]"
  have "distinct (List.map fst (rev ?xs))"
    using assms(3) by (auto simp: rev_map [symmetric] distinct_map inj_on_def o_def of_nat_u64_inj)
  moreover have "(a + of_nat j, ds ! j) \<in> List.set (rev ?xs)"
    using assms(2) by auto
  ultimately have "map_of (rev ?xs) (a + of_nat j) = Some (ds ! j)"
    by (rule map_of_is_SomeI)
  then show ?thesis
    using phys.wr_all_reads [of ?xs m "a + of_nat j"] assms(1) by (simp add: write_phys_bytes_eq)
qed

lemma byte_split_u16: "ucast (ucast (v AND 0xff :: u16) :: u8) OR push_bit 8 (ucast (ucast (drop_bit 8 v AND 0xff) :: u8)) = v"
proof -
  have f: "(0xff :: u16) = mask 8" by (simp add: mask_eq_exp_minus_1)
  show ?thesis unfolding f by (rule bit_word_eqI)
    (auto simp: bit_or_iff bit_and_iff bit_push_bit_iff bit_ucast_iff bit_mask_iff bit_drop_bit_eq)
qed

lemma byte_split_u32: "ucast (word_byte 0 v) OR push_bit 8 (ucast (word_byte 8 v))
    OR push_bit 16 (ucast (word_byte 16 v)) OR push_bit 24 (ucast (word_byte 24 v)) = v"
proof (rule bit_word_eqI)
  fix n assume n: "n < LENGTH(32)"
  consider "n < 8" | "8 \<le> n" "n < 16" | "16 \<le> n" "n < 24" | "24 \<le> n" by linarith
  then show "bit (ucast (word_byte 0 v) OR push_bit 8 (ucast (word_byte 8 v))
      OR push_bit 16 (ucast (word_byte 16 v)) OR push_bit 24 (ucast (word_byte 24 v)) :: u32) n = bit v n"
    using n by cases (auto simp: bit_or_iff bit_push_bit_iff bit_ucast_iff bit_word_byte)
qed

lemma write_phys_u16_reads:
  assumes "fst (write_phys_u16 a v m)"
  shows "read_phys_u16 a (snd (write_phys_u16 a v m)) = Some v"
  using write_phys_bytes_reads [OF assms [unfolded write_phys_u16_def], of 0]
    write_phys_bytes_reads [OF assms [unfolded write_phys_u16_def], of 1]
  by (simp add: read_phys_u16_def write_phys_u16_def byte_split_u16 del: write_phys_bytes.simps)

lemma u32_bytes: "List.map (\<lambda>i. ucast (drop_bit (i * 8) v AND 0xff)) [0..<4]
    = [word_byte 0 v, word_byte 8 v, word_byte 16 v, word_byte 24 v]"
  by (simp add: upt_rec word_byte_def)

lemma read_phys_u32_bytes:
  assumes "list_all (\<lambda>i. read_phys_byte (a + of_nat i) m = Some (word_byte (8 * i) v)) [0..<4]"
  shows "read_phys_u32 a m = Some v"
proof -
  have "List.map (\<lambda>i. read_phys_byte (a + of_nat i) m) [0..<4]
      = [Some (word_byte 0 v), Some (word_byte 8 v), Some (word_byte 16 v), Some (word_byte 24 v)]"
    using assms by (simp add: upt_rec)
  then show ?thesis unfolding read_phys_u32_def by (simp add: byte_split_u32)
qed

lemma write_phys_u32_reads:
  assumes "fst (write_phys_u32 a v m)"
  shows "read_phys_u32 a (snd (write_phys_u32 a v m)) = Some v"
proof (rule read_phys_u32_bytes)
  have l: "length [word_byte 0 v, word_byte 8 v, word_byte 16 v, word_byte 24 v] = 4" by simp
  note r = write_phys_bytes_reads [OF assms [unfolded write_phys_u32_def u32_bytes], unfolded l]
  show "list_all (\<lambda>i. read_phys_byte (a + of_nat i) (snd (write_phys_u32 a v m)) = Some (word_byte (8 * i) v)) [0..<4]"
    unfolding write_phys_u32_def u32_bytes
    using r [of 0] r [of 1] r [of 2] r [of 3] by (simp add: upt_rec del: write_phys_bytes.simps)
qed

text \<open>The address of the next entry of the used ring.\<close>

definition used_slot :: "u16 \<Rightarrow> unified_mem \<Rightarrow> u64" where
  "used_slot used_idx m = virtio_queue_used m + 4 + ucast (ucast used_idx mod virtio_queue_num m) * 8"

lemma push_used_eq:
  assumes "virtio_queue_num m \<noteq> 0" "read_phys_u16 (virtio_queue_used m + 2) m = Some u"
    "list_all (\<lambda>i. phys_writable (used_slot u m + of_nat i)) [0..<8]"
  shows "virtio_push_used h l m = snd (write_phys_u16 (virtio_queue_used m + 2) (u + 1)
     (snd (write_phys_u32 (used_slot u m + 4) l (snd (write_phys_u32 (used_slot u m) (ucast h) m)))))"
proof -
  have "fst (write_phys_u32 (used_slot u m) v n)" "fst (write_phys_u32 (used_slot u m + 4) v n)" for v n
    using assms(3) by (simp_all add: write_phys_u32_def write_phys_bytes_ok upt_rec algebra_simps del: write_phys_bytes.simps)
  note ok = this
  have q: "virtio_queue_used (snd (write_phys_u32 a v (snd (write_phys_u32 b x m)))) = virtio_queue_used m" for a v b x
    by (rule devices_sel(4)) (simp add: write_phys_u32_def frame)
  have "virtio_push_used h l m = (case write_phys_u32 (used_slot u m) (ucast h) m of (ok, m1) \<Rightarrow>
      if \<not> ok then m1 else (case write_phys_u32 (used_slot u m + 4) l m1 of (ok, m2) \<Rightarrow>
        if \<not> ok then m2 else snd (write_phys_u16 (virtio_queue_used m2 + 2) (u + 1) m2)))"
    unfolding virtio_push_used_def used_slot_def Let_def using assms(1,2) by simp
  then show ?thesis by (simp only: case_prod_beta ok q simp_thms if_True if_False)
qed

lemma used_slot_offset:
  assumes "virtio_queue_num m \<noteq> 0"
  obtains k where "used_slot u m = virtio_queue_used m + of_nat k" "4 \<le> k" "k < 2 ^ 32"
proof
  have l: "unat u mod unat (virtio_queue_num m) < 65536"
    by (rule le_less_trans [OF mod_less_eq_dividend unat_lt_u16])
  then show "4 + unat u mod unat (virtio_queue_num m) * 8 < 2 ^ 32" by simp
  have "(ucast (ucast u mod virtio_queue_num m) :: u64) = of_nat (unat u mod unat (virtio_queue_num m))"
    using l by (simp add: word_unat_eq_iff unat_ucast_up unat_mod_distrib unat_of_nat)
  then show "used_slot u m = virtio_queue_used m + of_nat (4 + unat u mod unat (virtio_queue_num m) * 8)"
    by (simp add: used_slot_def algebra_simps)
qed simp

text \<open>Publishing a finished request writes the head of its chain and the number of bytes
  moved into the next element of the used ring and only then advances the ring's index by one
  (modulo 2 to the 16), provided the element and the index lie in main memory.\<close>

lemma used_entry_published:
  assumes "virtio_queue_num m \<noteq> 0" "read_phys_u16 (virtio_queue_used m + 2) m = Some u"
    "list_all (\<lambda>i. phys_writable (used_slot u m + of_nat i)) [0..<8]"
    "list_all (\<lambda>i. phys_writable (virtio_queue_used m + 2 + of_nat i)) [0..<2]"
  shows "read_phys_u32 (used_slot u m) (virtio_push_used h l m) = Some (ucast h)
    \<and> read_phys_u32 (used_slot u m + 4) (virtio_push_used h l m) = Some l
    \<and> read_phys_u16 (virtio_queue_used m + 2) (virtio_push_used h l m) = Some (u + 1)"
proof -
  let ?a = "virtio_queue_used m + 2" and ?e = "used_slot u m"
  obtain k where k: "?e = virtio_queue_used m + of_nat k" "4 \<le> k" "k < 2 ^ 32"
    by (rule used_slot_offset [OF assms(1)])
  define m1 where "m1 = snd (write_phys_u32 ?e (ucast h) m)"
  define m2 where "m2 = snd (write_phys_u32 (?e + 4) l m1)"
  define m3 where "m3 = snd (write_phys_u16 ?a (u + 1) m2)"
  have p: "virtio_push_used h l m = m3"
    unfolding m3_def m2_def m1_def by (rule push_used_eq [OF assms(1-3)])
  have ok: "fst (write_phys_u32 ?e v n)" "fst (write_phys_u32 (?e + 4) v n)" "fst (write_phys_u16 ?a w n)" for v w n
    using assms(3,4) by (simp_all add: write_phys_u32_def write_phys_u16_def write_phys_bytes_ok upt_rec
      algebra_simps del: write_phys_bytes.simps)
  have ne: "virtio_queue_used m + of_nat i \<noteq> virtio_queue_used m + of_nat j" if "i \<noteq> j" "i < 2 ^ 33" "j < 2 ^ 33" for i j
    using that of_nat_u64_inj [of i j] by simp
  have a2: "?a + of_nat i = virtio_queue_used m + of_nat (2 + i)" "?e + of_nat i = virtio_queue_used m + of_nat (k + i)"
    "?e + 4 + of_nat i = virtio_queue_used m + of_nat (k + 4 + i)" for i
    by (simp_all add: k(1) algebra_simps)
  have f3: "read_phys_byte (?e + of_nat i) m3 = read_phys_byte (?e + of_nat i) m2" if "i < 8" for i
    unfolding m3_def write_phys_u16_def
    by (rule write_phys_bytes_frame, unfold list_all_iff a2, intro ballI ne) (use k that in auto)
  have f2: "read_phys_byte (?e + of_nat i) m2 = read_phys_byte (?e + of_nat i) m1" if "i < 4" for i
    unfolding m2_def write_phys_u32_def
    by (rule write_phys_bytes_frame, unfold list_all_iff a2, intro ballI ne) (use k that in auto)
  have u32: "read_phys_u32 a n = read_phys_u32 a n'" if "\<And>i. i < 4 \<Longrightarrow> read_phys_byte (a + of_nat i) n = read_phys_byte (a + of_nat i) n'" for a n n'
  proof -
    have "List.map (\<lambda>i. read_phys_byte (a + of_nat i) n) [0..<4] = List.map (\<lambda>i. read_phys_byte (a + of_nat i) n') [0..<4]"
      using that by simp
    then show ?thesis by (simp only: read_phys_u32_def)
  qed
  have "read_phys_u32 ?e m3 = read_phys_u32 ?e m1"
    by (rule u32) (simp add: f3 f2)
  moreover have "read_phys_u32 (?e + 4) m3 = read_phys_u32 (?e + 4) m2"
    by (rule u32) (use f3 [of "4 + i" for i] in \<open>simp add: add.assoc\<close>)
  ultimately show ?thesis unfolding p
    using write_phys_u32_reads [OF ok(1)] write_phys_u32_reads [OF ok(2)] write_phys_u16_reads [OF ok(3)]
    by (simp add: m1_def m2_def m3_def)
qed

section \<open>The wrapping bounds check\<close>

lemma copy_bytes_keeps_fault: "image_fault m \<Longrightarrow> image_fault (snd (copy_bytes t a off bs m))"
proof (induction bs arbitrary: m)
  case (Cons b bs)
  have g: "image_fault (snd (image_get i m))" for i
    using Cons.prems by (simp add: image_get_def)
  obtain v m1 where i: "image_get (off + of_nat b) m = (v, m1)" by (cases "image_get (off + of_nat b) m")
  obtain k m2 where w: "write_phys_byte (a + of_nat b) v m1 = (k, m2)"
    by (cases "write_phys_byte (a + of_nat b) v m1")
  have "image_fault m2"
    using image_write_byte(2) [of "a + of_nat b" v m1] g [of "off + of_nat b"] by (simp add: i w)
  then show ?case using Cons by (auto simp: i w image_set_def split: option.split)
qed simp

lemma process_descs_keeps_fault: "image_fault m \<Longrightarrow> image_fault (snd (snd (process_descs t ds off u m)))"
proof (induction ds arbitrary: off u m)
  case (Cons d ds)
  obtain k m1 where c: "copy_bytes t (vaddr d) off [0..<unat (vlen d)] m = (k, m1)"
    by (cases "copy_bytes t (vaddr d) off [0..<unat (vlen d)] m")
  then show ?case using Cons copy_bytes_keeps_fault [of m t "vaddr d" off "[0..<unat (vlen d)]"] by simp
qed simp

text \<open>
  The check \<open>disk_off + len > size\<close> is made on a sum that wraps: with an offset outside the
  image and a length that carries the sum past \<open>2 ^ 64\<close>, the first byte is already read outside
  the image.
\<close>

lemma wrapped_sector_faults:
  assumes "dev_write d" "length (virtio_blk_image m) \<le> unat off"
    "unat (off + ucast (vlen d)) \<le> length (virtio_blk_image m)" "vlen d \<noteq> 0"
  shows "image_fault (snd (snd (process_descs kVirtioBlkTIn (d # ds) off u m)))"
proof -
  have n: "[0..<unat (vlen d)] = 0 # [1..<unat (vlen d)]"
    using assms(4) by (simp add: upt_conv_Cons unat_gt_0)
  have "image_fault (snd (copy_bytes kVirtioBlkTIn (vaddr d) off [0..<unat (vlen d)] m))"
  proof -
    have g: "image_get off m = (0, m\<lparr>image_fault := True\<rparr>)"
      using assms(2) by (simp add: image_get_def)
    obtain k m2 where w: "write_phys_byte (vaddr d) 0 (m\<lparr>image_fault := True\<rparr>) = (k, m2)"
      by (cases "write_phys_byte (vaddr d) 0 (m\<lparr>image_fault := True\<rparr>)")
    have "image_fault m2"
      using image_write_byte(2) [of "vaddr d" 0 "m\<lparr>image_fault := True\<rparr>"] by (simp add: w)
    then show ?thesis unfolding n
      using copy_bytes_keeps_fault [of m2 0 "vaddr d" off "[1..<unat (vlen d)]"] by (simp add: g w)
  qed
  then show ?thesis using assms(1,3)
    by (auto simp: not_less split: prod.split intro: process_descs_keeps_fault)
qed

lemma wrapped_sector_example:
  "image_fault (snd (snd (process_descs kVirtioBlkTIn [\<lparr>vaddr = 0x80000000, vlen = 513, vflags = 2, vnext = 0\<rparr>]
     (0x7FFFFFFFFFFFFF * kVirtioBlkSectorSize) 0 (UnifiedMem_init\<lparr>virtio_blk_image := [0]\<rparr>))))"
  by (rule wrapped_sector_faults) (simp_all add: dev_write_def)

section \<open>The invariant of the device\<close>

definition virtio_ok :: "unified_mem \<Rightarrow> bool" where
  "virtio_ok m \<longleftrightarrow> plic_ok m \<and> plic_source_pending1 m = bit (virtio_interrupt_status m) 0
     \<and> virtio_queue_num m \<le> 128"

lemma virtio_ok_init: "virtio_ok UnifiedMem_init"
  by (simp add: virtio_ok_def plic_ok_init) (simp add: UnifiedMem_init_def)

lemma queue_num_max: "virtio_ok m \<Longrightarrow> virtio_queue_num m \<le> kVirtioQueueNumMax"
  by (simp add: virtio_ok_def)

lemma devices_notify_loop: "\<exists>l. devices (snd (notify_loop idx p m)) = devices (m\<lparr>virtio_last_avail_idx := l\<rparr>)"
proof (induction idx p m rule: notify_loop.induct)
  case (1 idx p m)
  have same: "\<exists>l. devices m = devices (m\<lparr>virtio_last_avail_idx := l\<rparr>)"
    by (rule exI [of _ "virtio_last_avail_idx m"]) (simp add: devices_def)
  show ?case
  proof (cases "virtio_last_avail_idx m = idx \<or> read_phys_u16 (ring_entry m) m = None")
    case True
    then have "snd (notify_loop idx p m) = m"
      by (subst notify_loop.simps) (auto simp: Let_def ring_entry_def)
    then show ?thesis using same by simp
  next
    case False
    then have r: "read_phys_u16 (ring_entry m) m \<noteq> None" and ne: "virtio_last_avail_idx m \<noteq> idx" by auto
    have loop: "notify_loop idx p m = notify_loop idx True (serve_next m)"
      using r ne by (subst notify_loop.simps) (auto simp: serve_next_def ring_entry_def Let_def)
    obtain h where h: "read_phys_u16 (ring_entry m) m = Some h" using r by auto
    have "\<exists>l. devices (snd (notify_loop idx True (serve_next m))) = devices (serve_next m\<lparr>virtio_last_avail_idx := l\<rparr>)"
      using 1 [OF ne refl h [unfolded ring_entry_def] refl refl refl] by (simp add: serve_next_def h Let_def)
    then show ?thesis unfolding loop by (simp add: devices_set_idx devices_serve_next [OF r])
  qed
qed

lemma virtio_ok_cong:
  assumes "devices m' = devices (m\<lparr>virtio_last_avail_idx := l\<rparr>)"
  shows "virtio_ok m' = virtio_ok m" "bootrom_words m' = bootrom_words m"
  using devices_sel [OF assms] by (simp_all add: virtio_ok_def plic_ok_def)

lemma virtio_ok_notify:
  assumes "virtio_ok m"
  shows "virtio_ok (virtio_handle_notify q m)"
proof (cases "virtio_handle_notify q m = m")
  case False
  then obtain idx where "virtio_handle_notify q m = (let (processed, m) = notify_loop idx False m in
      if processed then set_plic_source_pending kVirtioBlkIrqId True
        (m\<lparr>virtio_interrupt_status := virtio_interrupt_status m OR kVirtioInterruptUsedBuffer\<rparr>)
      else m)"
    by (auto simp: virtio_handle_notify_def split: if_splits option.splits)
  moreover obtain p m1 where l: "notify_loop idx False m = (p, m1)" by (cases "notify_loop idx False m")
  moreover have "virtio_ok m1"
    using devices_notify_loop [of idx False m] virtio_ok_cong(1) assms by (auto simp: l)
  ultimately show ?thesis
    by (auto simp: virtio_ok_def plic_ok_source source_pending_set bit_or_iff plic_ok_def
        set_plic_source_pending_def refresh_plic_pending_def Let_def)
qed (use assms in simp)

lemma virtio_ok_mmio_write [inv_intro]:
  assumes "virtio_ok m"
  shows "virtio_ok (virtio_mmio_write a d m)"
proof -
  have b0: "x AND 1 = 0 \<longleftrightarrow> \<not> bit x 0" for x :: u32
    by (simp add: bit_0 and_one_eq even_iff_mod_2_eq_zero)
  have ack: "virtio_ok (virtio_interrupt_ack d m)"
    using assms unfolding virtio_ok_def plic_ok_def virtio_interrupt_ack_def Let_def b0
    by (auto simp: set_plic_source_pending_def refresh_plic_pending_def Let_def bit_and_iff bit_not_iff)
  have reset: "virtio_ok (virtio_blk_reset_transport_state m)"
    using assms by (simp add: virtio_ok_def plic_ok_def virtio_blk_reset_transport_state_def
        set_plic_source_pending_def refresh_plic_pending_def Let_def)
  show ?thesis
    unfolding virtio_mmio_write_def Let_def using assms ack reset virtio_ok_notify [OF assms]
    by (auto simp: virtio_ok_def plic_ok_def)
qed


section \<open>Concrete requests\<close>

lemma phys_writable_unat: "unat a \<ge> 0x80000000 \<Longrightarrow> unat a < 0x88000000 \<Longrightarrow> phys_writable a"
  by (simp add: phys_writable_def in_pmem_unat word_le_nat_alt unat_ucast_mod)

lemma readable_u16_pmem: "unat a \<ge> 0x80000000 \<Longrightarrow> unat a < 0x87FFFFFF \<Longrightarrow> read_phys_u16 a m \<noteq> None"
proof -
  assume a: "unat a \<ge> 0x80000000" "unat a < 0x87FFFFFF"
  then have "unat (a + 1) = unat a + 1" by (simp add: unat_word_ariths)
  with a have "phys_writable a" "phys_writable (a + 1)"
    by (auto intro!: phys_writable_unat)
  then show ?thesis using readable_byte [of a m] readable_byte [of "a + 1" m]
    by (auto simp: read_phys_u16_def phys_writable_def not_less split: option.split)
qed

text \<open>A read of two bytes from a disk of four, with a zero header, and its result.\<close>

definition demo_chain :: "virtq_desc list" where
  "demo_chain = [\<lparr>vaddr = 0x80000000, vlen = 16, vflags = 1, vnext = 1\<rparr>,
                 \<lparr>vaddr = 0x80001000, vlen = 2, vflags = 3, vnext = 2\<rparr>,
                 \<lparr>vaddr = 0x80002000, vlen = 1, vflags = 2, vnext = 0\<rparr>]"

definition demo_mem :: unified_mem where
  "demo_mem = UnifiedMem_init\<lparr>virtio_blk_image := [7, 8, 9, 10], virtio_blk_enabled_flag := True,
     virtio_queue_num := 8, virtio_queue_ready := 1, virtio_queue_avail := 0x80000000,
     virtio_queue_used := 0x80001000\<rparr>"

lemma demo_byte: "phys_writable a \<Longrightarrow> read_phys_byte a demo_mem = Some 0"
  by (simp add: read_phys_byte_eq phys_writable_def not_less demo_mem_def UnifiedMem_init_def word_byte_def)

lemma demo_u32: "list_all (\<lambda>i. phys_writable (a + of_nat i)) [0..<4] \<Longrightarrow> read_phys_u32 a demo_mem = Some 0"
  by (rule read_phys_u32_bytes) (auto simp: list_all_iff demo_byte word_byte_def)

lemma demo_header: "read_phys_u32 0x80000000 demo_mem = Some 0" "read_phys_u64 0x80000008 demo_mem = Some 0"
proof -
  have "read_phys_u32 a demo_mem = Some 0" if "a \<in> {0x80000000, 0x80000008, 0x8000000C}" for a
    by (rule demo_u32) (use that in \<open>auto simp: upt_rec intro!: phys_writable_unat\<close>)
  then show "read_phys_u32 0x80000000 demo_mem = Some 0" "read_phys_u64 0x80000008 demo_mem = Some 0"
    by (simp_all add: read_phys_u64_def)
qed

lemma demo_ok: "fst (virtio_process_chain demo_chain demo_mem)"
proof -
  have i: "virtio_blk_image demo_mem = [7, 8, 9, 10]" by (simp add: demo_mem_def)
  have "copy_bytes kVirtioBlkTIn 0x80001000 0 [0..<2] demo_mem =
      phys.wr_all (List.map (\<lambda>b. (0x80001000 + of_nat b, virtio_blk_image demo_mem ! (unat (0::u64) + b))) [0..<2]) demo_mem"
    by (rule copy_bytes_in) (auto simp: i)
  moreover have "fst (phys.wr_all (List.map (\<lambda>b. (0x80001000 + of_nat b, virtio_blk_image demo_mem ! (unat (0::u64) + b))) [0..<2]) demo_mem)"
    unfolding phys.wr_all_ok by (auto simp: upt_rec intro!: phys_writable_unat)
  ultimately have "fst (copy_bytes kVirtioBlkTIn 0x80001000 0 [0..<2] demo_mem)" by simp
  then show ?thesis
    by (auto simp: virtio_process_chain_def demo_chain_def demo_header dev_write_def i Let_def split: prod.splits)
qed

lemma virtio_request_witness:
  "read_phys_byte 0x80001001 (snd (snd (snd (virtio_process_chain demo_chain demo_mem)))) = Some 8"
proof -
  obtain ul st m' where p: "virtio_process_chain demo_chain demo_mem = (True, ul, st, m')"
    using demo_ok by (metis prod.collapse)
  have z: "zip (data_addrs (butlast (tl demo_chain))) [7, 8, 9, 10 :: u8] = [(0x80001000, 7), (0x80001001, 8)]"
    by (simp add: demo_chain_def upt_rec)
  have h: "vaddr (hd demo_chain) = 0x80000000" "vaddr (last demo_chain) = 0x80002000"
    "virtio_blk_image demo_mem = [7, 8, 9, 10]"
    by (simp_all add: demo_chain_def demo_mem_def)
  show ?thesis using virtio_request_correct [OF p, of 0 0] by (simp add: p h demo_header z Let_def)
qed

lemma virtio_bounds_witness:
  "image_fault (snd (snd (snd (virtio_process_chain demo_chain demo_mem)))) = False"
proof -
  obtain ok ul st m' where p: "virtio_process_chain demo_chain demo_mem = (ok, ul, st, m')"
    by (metis prod.collapse)
  have h: "vaddr (hd demo_chain) = 0x80000000" "virtio_blk_image demo_mem = [7, 8, 9, 10]" "\<not> image_fault demo_mem"
    by (simp_all add: demo_chain_def demo_mem_def UnifiedMem_init_def)
  show ?thesis using virtio_request_in_bounds [OF p] by (simp add: p h demo_header)
qed

lemma virtio_notify_witness:
  "virtio_last_avail_idx (virtio_handle_notify 0 (demo_mem\<lparr>virtio_last_avail_idx := 65534\<rparr>)) = 0"
proof -
  let ?m = "demo_mem\<lparr>virtio_last_avail_idx := 65534\<rparr>"
  have r: "read_phys_u16 0x80000002 ?m = Some 0"
    by (simp add: read_phys_u16_def read_phys_byte_eq demo_mem_def UnifiedMem_init_def in_pmem_def word_byte_def)
  have f: "virtio_blk_enabled_flag ?m" "virtio_queue_num ?m = 8" "virtio_queue_ready ?m = 1"
    "virtio_queue_avail ?m = 0x80000000" "virtio_last_avail_idx ?m = 65534"
    by (simp_all add: demo_mem_def)
  have "read_phys_u16 (0x80000000 + 4 + ucast (i :: u16) * 2) ?m \<noteq> None" if "ucast i < (8 :: u32)" for i
  proof (rule readable_u16_pmem)
    have "unat i < 8" using that by (simp add: word_less_nat_alt unat_ucast_up)
    then have "unat (0x80000000 + 4 + ucast i * 2 :: u64) = 0x80000004 + unat i * 2"
      by (simp add: unat_word_ariths unat_ucast_up)
    then show "0x80000000 \<le> unat (0x80000000 + 4 + ucast i * 2 :: u64)"
      "unat (0x80000000 + 4 + ucast i * 2 :: u64) < 0x87FFFFFF" using \<open>unat i < 8\<close> by simp_all
  qed
  then show ?thesis using virtio_notify_correct [of ?m 0] unfolding f
    by (simp add: r f Let_def set_plic_source_pending_def refresh_plic_pending_def)
qed

end
