(* ===== verification/Npc_Bus.thy ===== *)
theory Npc_Bus
  imports Npc_Virtio
begin

text \<open>
  The processor side of \<open>UnifiedMem\<close> (\<open>src/npc/csrc/include/memory_models.h\<close>): loads and
  stores with their dispatch to the devices, the loaders, the cache line transfers, and the
  models of the memory behind the two caches.
\<close>

section \<open>Words\<close>

definition write_word :: "u32 \<Rightarrow> u32 \<Rightarrow> unified_mem \<Rightarrow> unified_mem" where
  "write_word a d m =
    (let aligned = align4 a in
     if aligned = kClintMtimecmpLow then m\<lparr>clint_mtimecmp := set_low (clint_mtimecmp m) d\<rparr>
     else if aligned = kClintMtimecmpHigh then m\<lparr>clint_mtimecmp := set_high (clint_mtimecmp m) d\<rparr>
     else if aligned = kClintMtimeLow then m\<lparr>clint_mtime := set_low (clint_mtime m) d\<rparr>
     else if aligned = kClintMtimeHigh then m\<lparr>clint_mtime := set_high (clint_mtime m) d\<rparr>
     else if aligned = kPlicPriority1 then m\<lparr>plic_priority1 := d AND 0x7\<rparr>
     else if aligned = kPlicEnableM then m\<lparr>plic_enable_m := d\<rparr>
     else if aligned = kPlicThresholdM then m\<lparr>plic_threshold_m := d AND 0x7\<rparr>
     else if aligned = kPlicClaimCompleteM then plic_complete_write d m
     else if in_uart aligned then
       fold (\<lambda>i m. uart_write8 (aligned + of_nat i) (ucast (drop_bit (i * 8) d AND 0xff)) m) [0..<4] m
     else if in_virtio_blk aligned then virtio_mmio_write aligned d m
     else if in_bootrom aligned then
       (let idx = bootrom_index aligned in
        if idx < bootrom_nwords then m\<lparr>bootrom_words := (bootrom_words m)(idx := d)\<rparr> else m)
     else if \<not> in_pmem aligned then m
     else (let idx = pmem_index aligned in
       if idx < pmem_nwords then
         (let m = (if fw_text_watch_enabled m \<and> in_fw_text_watch m aligned
                   then m\<lparr>fw_text_write_count := fw_text_write_count m + 1,
                          fw_text_last_write_addr := aligned, fw_text_last_write_data := d\<rparr>
                   else m)
          in m\<lparr>pmem_words := (pmem_words m)(idx := d)\<rparr>)
       else m))"

definition read_word_common :: "u32 \<Rightarrow> unified_mem \<Rightarrow> u32" where
  "read_word_common aligned m =
    (if aligned = kRtcPortLow then get_low (rtc_time_us m)
     else if aligned = kRtcPortHigh then get_high (rtc_time_us m)
     else if aligned = kClintMtimecmpLow then get_low (clint_mtimecmp m)
     else if aligned = kClintMtimecmpHigh then get_high (clint_mtimecmp m)
     else if aligned = kClintMtimeLow then get_low (clint_mtime m)
     else if aligned = kClintMtimeHigh then get_high (clint_mtime m)
     else if aligned = kPlicPriority1 then plic_priority1 m
     else if aligned = kPlicPending then plic_pending_bits m
     else if aligned = kPlicEnableM then plic_enable_m m
     else if aligned = kPlicThresholdM then plic_threshold_m m
     else if aligned = kPlicClaimCompleteM then plic_claim_peek m
     else if in_virtio_blk aligned then virtio_mmio_read aligned m
     else if in_uart aligned then
       fold (\<lambda>i v. v OR push_bit (i * 8) (ucast (uart_peek8 (aligned + of_nat i) m))) [0..<4] 0
     else if in_bootrom aligned then
       (let idx = bootrom_index aligned in
        if idx < bootrom_nwords then bootrom_words m idx else 0)
     else if \<not> in_pmem aligned then 0
     else (let idx = pmem_index aligned in
       if idx < pmem_nwords then pmem_words m idx else 0))"

text \<open>A load of the processor claims the interrupt at the claim register; a load through a
  constant reference (\<open>read_word_const\<close>) only looks.\<close>

definition read_word :: "u32 \<Rightarrow> unified_mem \<Rightarrow> u32 \<times> unified_mem" where
  "read_word a m =
    (let aligned = align4 a in
     if aligned = kPlicClaimCompleteM then plic_claim_read m
     else (read_word_common aligned m, m))"

definition read_word_const :: "u32 \<Rightarrow> unified_mem \<Rightarrow> u32" where
  "read_word_const a m = (let aligned = align4 a in read_word_common aligned m)"

section \<open>Stores\<close>

definition write_byte :: "u32 \<Rightarrow> u8 \<Rightarrow> unified_mem \<Rightarrow> unified_mem" where
  "write_byte a d m =
    (if in_uart a then uart_write8 a d m
     else if in_virtio_blk a then
       (let aligned = align4 a; shift = byte_shift a;
            (cur, m) = read_word aligned m;
            next = merge_field 0xff cur shift (ucast d)
        in write_word aligned next m)
     else if \<not> in_pmem a \<and> \<not> in_bootrom a then m
     else
       (let aligned = align4 a; shift = byte_shift a;
            (cur, m) = read_word aligned m;
            next = merge_field 0xff cur shift (ucast d)
        in write_word aligned next m))"

definition write_half :: "u32 \<Rightarrow> u16 \<Rightarrow> unified_mem \<Rightarrow> unified_mem" where
  "write_half a d m =
    (let lo_ok = in_pmem a \<or> in_bootrom a \<or> in_uart a \<or> in_virtio_blk a;
         hi_ok = in_pmem (a + 1) \<or> in_bootrom (a + 1) \<or> in_uart (a + 1) \<or> in_virtio_blk (a + 1) in
     if \<not> lo_ok \<or> \<not> hi_ok then m
     else if in_uart a \<or> in_uart (a + 1) then
       write_byte (a + 1) (ucast (drop_bit 8 d AND 0xff)) (write_byte a (ucast (d AND 0xff)) m)
     else if in_virtio_blk a \<or> in_virtio_blk (a + 1) then
       write_byte (a + 1) (ucast (drop_bit 8 d AND 0xff)) (write_byte a (ucast (d AND 0xff)) m)
     else
       (let aligned = align4 a; shift = byte_shift a;
            (cur, m) = read_word aligned m;
            next = merge_field 0xffff cur shift (ucast d)
        in write_word aligned next m))"

definition write_store :: "u32 \<Rightarrow> u32 \<Rightarrow> u32 \<Rightarrow> unified_mem \<Rightarrow> unified_mem" where
  "write_store a d op m =
    (if op = 7 \<and> access_touches_bootrom a 1 \<or> op = 8 \<and> access_touches_bootrom a 2
        \<or> op = 9 \<and> access_touches_bootrom a 4 then m
     else if op = 7 then write_byte a (ucast (d AND 0xff)) m
     else if op = 8 then write_half a (ucast (d AND 0xffff)) m
     else if op = 9 then write_word a d m
     else m)"

section \<open>Lines and loaders\<close>

definition fill_line :: "u32 \<Rightarrow> unified_mem \<Rightarrow> u32 list" where
  "fill_line line_addr m = List.map (\<lambda>i. read_word_const (line_addr + 4 * of_nat i) m) [0..<8]"

definition write_line :: "u32 \<Rightarrow> u32 list \<Rightarrow> unified_mem \<Rightarrow> unified_mem" where
  "write_line line_addr line m =
    fold (\<lambda>i m. write_word (line_addr + 4 * of_nat i) (line ! i) m) [0..<8] m"

definition load_words :: "u32 list \<Rightarrow> u32 \<Rightarrow> unified_mem \<Rightarrow> unified_mem" where
  "load_words words base m =
    fold (\<lambda>i m. write_word (base + of_nat i * 4) (words ! i) m) [0..<length words] m"

definition file_word :: "u8 list \<Rightarrow> nat \<Rightarrow> u32" where
  "file_word buf i =
    fold (\<lambda>b w. if i + b < length buf then w OR push_bit (8 * b) (ucast (buf ! (i + b))) else w) [0..<4] 0"

text \<open>The loop index runs over the multiples of 4 below the size of the file; the file is a
  parameter, None when it cannot be opened.\<close>

definition load_binary :: "u8 list option \<Rightarrow> u32 \<Rightarrow> unified_mem \<Rightarrow> bool \<times> unified_mem" where
  "load_binary file base m =
    (case file of
       None \<Rightarrow> (False, m)
     | Some buf \<Rightarrow> (True,
         fold (\<lambda>i m. write_word (base + of_nat i) (file_word buf i) m)
           (List.map (\<lambda>k. 4 * k) [0..<(length buf + 3) div 4]) m))"

section \<open>The top module's ports\<close>

text \<open>
  The processor is generated from the hardware description: its ports are a record, split in
  the inputs the simulator drives and the outputs it samples.
\<close>

record top_in =
  rst_ni :: bool
  clk_i :: bool
  timer_irq_i :: bool
  ext_irq_i :: bool
  icache_miss_req_ready_i :: bool
  icache_refill_valid_i :: bool
  icache_refill_paddr_i :: u32
  icache_refill_way_i :: u32
  icache_refill_data_i :: "u32 list"
  dcache_miss_req_ready_i :: bool
  dcache_wb_req_ready_i :: bool
  dcache_refill_valid_i :: bool
  dcache_refill_paddr_i :: u32
  dcache_refill_way_i :: u32
  dcache_refill_data_i :: "u32 list"

record top_out =
  icache_miss_req_valid_o :: bool
  icache_miss_req_paddr_o :: u32
  icache_miss_req_victim_way_o :: u32
  icache_refill_ready_o :: bool
  dcache_miss_req_valid_o :: bool
  dcache_miss_req_paddr_o :: u32
  dcache_miss_req_victim_way_o :: u32
  dcache_refill_ready_o :: bool
  dcache_wb_req_valid_o :: bool
  dcache_wb_req_paddr_o :: u32
  dcache_wb_req_data_o :: "u32 list"

section \<open>Behind the instruction cache\<close>

record icache_model =
  ic_pending :: bool
  ic_delay :: int
  ic_miss_addr :: u32
  ic_miss_way :: u32
  ic_refill_pulse :: bool
  ic_line_words :: "u32 list"

definition ICacheModel_reset :: "icache_model \<Rightarrow> icache_model" where
  "ICacheModel_reset c = c\<lparr>ic_pending := False, ic_delay := 0, ic_miss_addr := 0, ic_miss_way := 0,
     ic_refill_pulse := False\<rparr>"

definition ICacheModel_drive :: "icache_model \<Rightarrow> top_in \<Rightarrow> top_in" where
  "ICacheModel_drive c t =
    (let t = t\<lparr>icache_miss_req_ready_i := True\<rparr> in
     if ic_refill_pulse c then
       t\<lparr>icache_refill_valid_i := True, icache_refill_paddr_i := ic_miss_addr c,
         icache_refill_way_i := ic_miss_way c, icache_refill_data_i := ic_line_words c\<rparr>
     else
       t\<lparr>icache_refill_valid_i := False, icache_refill_paddr_i := 0,
         icache_refill_way_i := 0, icache_refill_data_i := replicate 8 0\<rparr>)"

definition ICacheModel_observe :: "top_in \<Rightarrow> top_out \<Rightarrow> unified_mem \<Rightarrow> icache_model \<Rightarrow> icache_model" where
  "ICacheModel_observe ti to m c =
    (if \<not> rst_ni ti then ICacheModel_reset c
     else
     (let c = (if ic_refill_pulse c then c\<lparr>ic_refill_pulse := False\<rparr> else c);
          c = (if icache_miss_req_valid_o to \<and> icache_miss_req_ready_i ti then
                 c\<lparr>ic_pending := True, ic_delay := 2, ic_miss_addr := icache_miss_req_paddr_o to,
                   ic_miss_way := icache_miss_req_victim_way_o to,
                   ic_line_words := fill_line (icache_miss_req_paddr_o to) m\<rparr>
               else c)
      in if ic_pending c then
           (if 0 < ic_delay c then c\<lparr>ic_delay := ic_delay c - 1\<rparr>
            else if icache_refill_ready_o to then c\<lparr>ic_refill_pulse := True, ic_pending := False\<rparr>
            else c)
         else c))"

section \<open>Behind the data cache\<close>

record miss_txn =
  tx_delay :: int
  tx_miss_addr :: u32
  tx_miss_way :: u32
  tx_line_words :: "u32 list"

definition MissTxn_init :: miss_txn where
  "MissTxn_init = \<lparr>tx_delay = 0, tx_miss_addr = 0, tx_miss_way = 0, tx_line_words = replicate 8 0\<rparr>"

record dcache_model =
  pending_q :: "miss_txn list"
  refill_pulse :: bool
  refill_txn :: miss_txn

definition DCacheModel_reset :: "dcache_model \<Rightarrow> dcache_model" where
  "DCacheModel_reset c = c\<lparr>pending_q := [], refill_pulse := False, refill_txn := MissTxn_init\<rparr>"

definition DCacheModel_drive :: "dcache_model \<Rightarrow> top_in \<Rightarrow> top_in" where
  "DCacheModel_drive c t =
    (let t = t\<lparr>dcache_miss_req_ready_i := True, dcache_wb_req_ready_i := True\<rparr> in
     if refill_pulse c then
       t\<lparr>dcache_refill_valid_i := True, dcache_refill_paddr_i := tx_miss_addr (refill_txn c),
         dcache_refill_way_i := tx_miss_way (refill_txn c),
         dcache_refill_data_i := tx_line_words (refill_txn c)\<rparr>
     else
       t\<lparr>dcache_refill_valid_i := False, dcache_refill_paddr_i := 0,
         dcache_refill_way_i := 0, dcache_refill_data_i := replicate 8 0\<rparr>)"

definition dcache_new_txn :: "top_out \<Rightarrow> unified_mem \<Rightarrow> miss_txn" where
  "dcache_new_txn to m = \<lparr>tx_delay = 2, tx_miss_addr = dcache_miss_req_paddr_o to,
     tx_miss_way = dcache_miss_req_victim_way_o to,
     tx_line_words = fill_line (dcache_miss_req_paddr_o to) m\<rparr>"

definition tx_tick :: "miss_txn \<Rightarrow> miss_txn" where
  "tx_tick t = (if 0 < tx_delay t then t\<lparr>tx_delay := tx_delay t - 1\<rparr> else t)"

definition DCacheModel_observe ::
  "top_in \<Rightarrow> top_out \<Rightarrow> unified_mem \<times> dcache_model \<Rightarrow> unified_mem \<times> dcache_model" where
  "DCacheModel_observe ti to = (\<lambda>(m, c).
    if \<not> rst_ni ti then (m, DCacheModel_reset c)
    else
    (let c = (if refill_pulse c then c\<lparr>refill_pulse := False\<rparr> else c);
         c = (if dcache_miss_req_valid_o to \<and> dcache_miss_req_ready_i ti
              then c\<lparr>pending_q := pending_q c @ [dcache_new_txn to m]\<rparr> else c);
         c = c\<lparr>pending_q := List.map tx_tick (pending_q c)\<rparr>;
         c = (if pending_q c \<noteq> [] \<and> tx_delay (hd (pending_q c)) = 0 \<and> dcache_refill_ready_o to
              then c\<lparr>refill_txn := hd (pending_q c), pending_q := tl (pending_q c), refill_pulse := True\<rparr>
              else c);
         m = (if dcache_wb_req_valid_o to \<and> dcache_wb_req_ready_i ti
              then write_line (dcache_wb_req_paddr_o to) (dcache_wb_req_data_o to) m else m)
     in (m, c)))"

section \<open>The memory system and a clock cycle\<close>

record mem_system =
  sys_mem :: unified_mem
  sys_icache :: icache_model
  sys_dcache :: dcache_model

definition MemSystem_reset :: "mem_system \<Rightarrow> mem_system" where
  "MemSystem_reset s = s\<lparr>sys_icache := ICacheModel_reset (sys_icache s),
     sys_dcache := DCacheModel_reset (sys_dcache s)\<rparr>"

definition MemSystem_drive :: "mem_system \<Rightarrow> top_in \<Rightarrow> top_in" where
  "MemSystem_drive s t =
    DCacheModel_drive (sys_dcache s) (ICacheModel_drive (sys_icache s)
      (t\<lparr>timer_irq_i := timer_irq_pending (sys_mem s), ext_irq_i := plic_irq_pending (sys_mem s)\<rparr>))"

definition MemSystem_observe :: "top_in \<Rightarrow> top_out \<Rightarrow> mem_system \<Rightarrow> mem_system" where
  "MemSystem_observe ti to s =
    (let s = s\<lparr>sys_icache := ICacheModel_observe ti to (sys_mem s) (sys_icache s)\<rparr>;
         (m, d) = DCacheModel_observe ti to (sys_mem s, sys_dcache s)
     in s\<lparr>sys_mem := m, sys_dcache := d\<rparr>)"

text \<open>
  The generated module is a parameter: \<open>eval\<close> takes its internal state and its inputs to its
  next state, and \<open>outputs\<close> reads its output ports. A simulation is the inputs as last driven,
  the internal state and the memory system; the waveform dump is left out.
\<close>

definition tick :: "('s \<Rightarrow> top_in \<Rightarrow> 's) \<Rightarrow> ('s \<Rightarrow> top_out) \<Rightarrow>
    top_in \<times> 's \<times> mem_system \<Rightarrow> top_in \<times> 's \<times> mem_system" where
  "tick eval outputs = (\<lambda>(t, s, ms).
    let t = MemSystem_drive ms t;
        t = t\<lparr>clk_i := False\<rparr>;
        s = eval s t;
        t = t\<lparr>clk_i := True\<rparr>;
        s = eval s t;
        ms = MemSystem_observe t (outputs s) ms
    in (t, s, ms))"

definition sim_reset :: "('s \<Rightarrow> top_in \<Rightarrow> 's) \<Rightarrow> ('s \<Rightarrow> top_out) \<Rightarrow>
    top_in \<times> 's \<times> mem_system \<Rightarrow> top_in \<times> 's \<times> mem_system" where
  "sim_reset eval outputs = (\<lambda>(t, s, ms).
    let t = t\<lparr>rst_ni := False\<rparr>;
        ms = MemSystem_reset ms;
        (t, s, ms) = (tick eval outputs ^^ 5) (t, s, ms);
        t = t\<lparr>rst_ni := True\<rparr>
    in (tick eval outputs ^^ 2) (t, s, ms))"


section \<open>Main memory as bytes\<close>

lemma align4_const: "unat k mod 4 = 0 \<Longrightarrow> align4 k = k"
  using mult_div_mod_eq [of 4 "unat k"] by (simp add: word_unat_eq_iff unat_align4)

lemma ucast_ucast_u64: "ucast (ucast a :: u64) = (a :: u32)"
  using unat_lt_u32 [of a] by (simp add: word_unat_eq_iff unat_ucast_mod)

text \<open>An access to main memory meets none of the devices.\<close>

lemma pmem_no_device:
  assumes "in_pmem a"
  shows "align4 a \<noteq> kRtcPortLow" "align4 a \<noteq> kRtcPortHigh" "align4 a \<noteq> kClintMtimecmpLow"
    "align4 a \<noteq> kClintMtimecmpHigh" "align4 a \<noteq> kClintMtimeLow" "align4 a \<noteq> kClintMtimeHigh"
    "align4 a \<noteq> kPlicPriority1" "align4 a \<noteq> kPlicPending" "align4 a \<noteq> kPlicEnableM"
    "align4 a \<noteq> kPlicThresholdM" "align4 a \<noteq> kPlicClaimCompleteM"
    "\<not> in_uart a" "\<not> in_virtio_blk a" "\<not> in_bootrom a"
    "\<not> in_uart (align4 a)" "\<not> in_virtio_blk (align4 a)" "\<not> in_bootrom (align4 a)"
proof -
  have p: "in_pmem (align4 a)" using assms by (simp add: in_pmem_align4)
  have "align4 a \<noteq> k" if "\<not> in_pmem k" for k using that p by auto
  then show "align4 a \<noteq> kRtcPortLow" "align4 a \<noteq> kRtcPortHigh" "align4 a \<noteq> kClintMtimecmpLow"
    "align4 a \<noteq> kClintMtimecmpHigh" "align4 a \<noteq> kClintMtimeLow" "align4 a \<noteq> kClintMtimeHigh"
    "align4 a \<noteq> kPlicPriority1" "align4 a \<noteq> kPlicPending" "align4 a \<noteq> kPlicEnableM"
    "align4 a \<noteq> kPlicThresholdM" "align4 a \<noteq> kPlicClaimCompleteM"
    by (simp_all add: in_pmem_def)
  show "\<not> in_uart a" "\<not> in_virtio_blk a" "\<not> in_bootrom a"
    "\<not> in_uart (align4 a)" "\<not> in_virtio_blk (align4 a)" "\<not> in_bootrom (align4 a)"
    using assms p by (auto simp: in_pmem_unat in_uart_unat in_virtio_unat in_bootrom_unat)
qed

lemma write_word_pmem:
  assumes "in_pmem a"
  shows "pmem_words (write_word a d m) = (pmem_words m)(pmem_index (align4 a) := d)"
    "bootrom_words (write_word a d m) = bootrom_words m"
  using assms pmem_index_below [OF assms]
  by (simp_all add: write_word_def Let_def align4_idem pmem_no_device in_pmem_align4)

lemma read_word_pmem:
  assumes "in_pmem a"
  shows "read_word a m = (pmem_words m (pmem_index (align4 a)), m)"
    "read_word_const a m = pmem_words m (pmem_index (align4 a))"
  using assms pmem_index_below [OF assms]
  by (simp_all add: read_word_def read_word_const_def read_word_common_def Let_def pmem_no_device in_pmem_align4)

lemma read_phys_pmem: "in_pmem a \<Longrightarrow>
    read_phys_byte (ucast a) m = Some (word_byte (byte_shift a) (pmem_words m (pmem_index (align4 a))))"
proof -
  have "(ucast a :: u64) \<le> 0xFFFFFFFF"
    using unat_lt_u32 [of a] by (simp add: word_le_nat_alt unat_ucast_up)
  moreover assume "in_pmem a"
  ultimately show ?thesis by (simp add: read_phys_byte_eq not_less ucast_ucast_u64)
qed

lemma read_phys_not_pmem: "\<not> in_pmem a \<Longrightarrow> bootrom_words m' = bootrom_words m \<Longrightarrow>
    read_phys_byte (ucast a) m' = read_phys_byte (ucast a) m"
  by (simp add: read_phys_byte_eq ucast_ucast_u64)

definition store_size :: "u32 \<Rightarrow> nat" where
  "store_size op = (if op = 7 then 1 else if op = 8 then 2 else if op = 9 then 4 else 0)"

text \<open>All stores replace a field of the word they fall into.\<close>

lemma word_byte_merge16: "s \<in> {0, 16} \<Longrightarrow> t \<in> {0, 8, 16, 24} \<Longrightarrow>
    word_byte t (merge_field 0xffff w s (ucast (d :: u16)))
      = (if s \<le> t \<and> t < s + 16 then word_byte (t - s) (ucast d) else word_byte t w)"
proof -
  assume a: "s \<in> {0, 16}" "t \<in> {0, 8, 16, 24}"
  have f: "(0xffff :: u32) = mask 16" by (simp add: mask_eq_exp_minus_1)
  show ?thesis unfolding f using a
    by (intro bit_word_eqI)
      (auto simp: bit_word_byte bit_merge_field bit_ucast_iff dest: bit_imp_le_length)
qed

lemma store_word_eq:
  assumes "in_pmem a" "op \<in> {7, 8, 9}" "unat a mod store_size op = 0"
  shows "pmem_words (write_store a d op m) = (pmem_words m)(pmem_index (align4 a) :=
      (let w = pmem_words m (pmem_index (align4 a)) in
       if op = 7 then merge_field 0xff w (byte_shift a) (ucast (ucast (d AND 0xff) :: u8))
       else if op = 8 then merge_field 0xffff w (byte_shift a) (ucast (ucast (d AND 0xffff) :: u16))
       else d))"
    "bootrom_words (write_store a d op m) = bootrom_words m"
proof -
  have end_below: "unat a + store_size op \<le> 0x88000000"
    using assms by (auto simp: in_pmem_unat store_size_def)
  have p: "in_pmem (a + of_nat i)" if "i < store_size op" for i
  proof -
    have "unat (a + of_nat i) = unat a + i"
      using that end_below by (simp add: unat_word_ariths unat_of_nat)
    then show ?thesis using that assms(1) end_below by (simp add: in_pmem_unat)
  qed
  then have nb: "\<not> access_touches_bootrom a (store_size op)"
    using pmem_no_device(14) by (auto simp: access_touches_bootrom_def list_ex_iff)
  have aa: "read_word (align4 a) m = (pmem_words m (pmem_index (align4 a)), m)"
    using read_word_pmem(1) [of "align4 a"] assms(1) by (simp add: in_pmem_align4 align4_idem)
  have ww: "pmem_words (write_word (align4 a) v m) = (pmem_words m)(pmem_index (align4 a) := v)"
    "bootrom_words (write_word (align4 a) v m) = bootrom_words m" for v
    using write_word_pmem [of "align4 a" v m] assms(1) by (simp_all add: in_pmem_align4 align4_idem)
  have one: "op = 8 \<Longrightarrow> in_pmem (a + 1)" using p [of 1] by (simp add: store_size_def)
  show "pmem_words (write_store a d op m) = (pmem_words m)(pmem_index (align4 a) :=
      (let w = pmem_words m (pmem_index (align4 a)) in
       if op = 7 then merge_field 0xff w (byte_shift a) (ucast (ucast (d AND 0xff) :: u8))
       else if op = 8 then merge_field 0xffff w (byte_shift a) (ucast (ucast (d AND 0xffff) :: u16))
       else d))" "bootrom_words (write_store a d op m) = bootrom_words m"
    using assms(1,2) nb one
    by (auto simp: write_store_def store_size_def write_byte_def write_half_def Let_def aa ww
        pmem_no_device write_word_pmem)
qed

lemma range_in_word:
  assumes "(r :: nat) + n \<le> 4" "r < 4" "r' < 4"
  shows "(4 * q + r \<le> 4 * q' + r' \<and> 4 * q' + r' < 4 * q + r + n) \<longleftrightarrow> q = q' \<and> r \<le> r' \<and> r' < r + n"
proof (cases q q' rule: linorder_cases)
  case less
  then have "4 * q + 4 \<le> 4 * q'" by simp
  then show ?thesis using assms less by auto
next
  case equal
  then show ?thesis by auto
next
  case greater
  then have "4 * q' + 4 \<le> 4 * q" by simp
  then show ?thesis using assms greater by auto
qed

lemma same_pmem_word:
  assumes "in_pmem a" "in_pmem b"
  shows "pmem_index (align4 a) = pmem_index (align4 b) \<longleftrightarrow> unat a div 4 = unat b div 4"
proof -
  have "536870912 \<le> unat a div 4" "536870912 \<le> unat b div 4"
    using assms by (simp_all add: in_pmem_unat less_eq_div_iff_mult_less_eq)
  then show ?thesis
    using div4_diff [of "unat a" "0x20000000"] div4_diff [of "unat b" "0x20000000"]
    by (simp add: pmem_index_eq assms) linarith
qed

lemma stored_byte:
  assumes "op \<in> {7, 8, 9}" "r + store_size op \<le> 4" "r mod store_size op = 0" "r' < 4"
  shows "word_byte (8 * r')
      (if op = 7 then merge_field 0xff w (8 * r) (ucast (ucast (d AND 0xff) :: u8))
       else if op = 8 then merge_field 0xffff w (8 * r) (ucast (ucast (d AND 0xffff) :: u16))
       else d)
     = (if r \<le> r' \<and> r' < r + store_size op then word_byte (8 * (r' - r)) d else word_byte (8 * r') w)"
proof -
  have c: "r' \<in> {0, 1, 2, 3}" "r \<in> {0, 1, 2, 3}"
    using assms by (auto simp: store_size_def)
  then have sh: "8 * r' \<in> {0, 8, 16, 24}" "8 * r \<in> {0, 8, 16, 24}" by auto
  have b8: "ucast (d AND 0xff) = word_byte 0 d" by (simp add: word_byte_def)
  have f: "(0xffff :: u32) = mask 16" by (simp add: mask_eq_exp_minus_1)
  have b16: "word_byte (8 * k) (ucast (ucast (d AND 0xffff) :: u16)) = word_byte (8 * k) d" if "k \<in> {0, 1}" for k
    unfolding f using that by (intro bit_word_eqI)
      (auto simp: bit_word_byte bit_ucast_iff bit_and_iff bit_mask_iff)
  consider "op = 7" | "op = 8" | "op = 9" using assms(1) by blast
  then show ?thesis
  proof cases
    case 1
    then show ?thesis using word_byte_merge8 [OF sh(2,1), of w "word_byte 0 d"]
      by (auto simp: store_size_def b8)
  next
    case 2
    then have r: "r \<in> {0, 2}" using c(2) assms(2,3) by (auto simp: store_size_def)
    then have s16: "8 * r \<in> {0, 16}" by auto
    show ?thesis using 2 r c(1) word_byte_merge16 [OF s16 sh(1), of w "ucast (d AND 0xffff)"]
        b16 [of 0] b16 [of 1]
      by (auto simp: store_size_def)
  next
    case 3
    then have "r = 0" using assms(2) by (simp add: store_size_def)
    then show ?thesis using 3 assms(4) by (simp add: store_size_def)
  qed
qed

lemma store_in_word:
  assumes "op \<in> {7, 8, 9}" "x mod store_size op = 0"
  shows "x mod 4 + store_size op \<le> 4" "x mod 4 mod store_size op = 0"
proof -
  consider "op = 7" | "op = 8" | "op = 9" using assms(1) by blast
  then have "x mod 4 + store_size op \<le> 4 \<and> x mod 4 mod store_size op = 0"
  proof cases
    case 1
    then show ?thesis using mod_less_divisor [of 4 x] by (simp add: store_size_def)
  next
    case 2
    then have "x mod 2 = 0" using assms(2) by (simp add: store_size_def)
    then have "x mod 4 + 2 \<le> 4 \<and> x mod 4 mod 2 = 0" by presburger
    then show ?thesis using 2 by (simp add: store_size_def)
  next
    case 3
    then show ?thesis using assms(2) by (simp add: store_size_def)
  qed
  then show "x mod 4 + store_size op \<le> 4" "x mod 4 mod store_size op = 0" by simp_all
qed

text \<open>C6: Main memory seen as bytes: a byte, halfword or word store of the processor at a
  naturally aligned address replaces exactly the bytes it names by the little endian bytes of
  the data; at every other address, boot ROM included, nothing changes. The device's accesses
  read the same bytes as the processor's loads.\<close>

theorem store_refines_bytes:
  assumes "in_pmem a" "op \<in> {7, 8, 9}" "unat a mod store_size op = 0"
  shows "read_phys_byte (ucast (b :: u32)) (write_store a d op m) =
     (if unat a \<le> unat b \<and> unat b < unat a + store_size op
      then Some (word_byte (8 * (unat b - unat a)) d)
      else read_phys_byte (ucast b) m)
    \<and> read_phys_u32 (ucast (align4 a)) m = Some (fst (read_word a m))"
proof
  let ?x = "unat a" and ?y = "unat b"
  note st = store_word_eq [OF assms, of d m]
  note w = store_in_word [OF assms(2,3)]
  have ry: "?x = 4 * (?x div 4) + ?x mod 4" "?y = 4 * (?y div 4) + ?y mod 4" by simp_all
  have rng: "?x \<le> ?y \<and> ?y < ?x + store_size op \<longleftrightarrow>
      ?x div 4 = ?y div 4 \<and> ?x mod 4 \<le> ?y mod 4 \<and> ?y mod 4 < ?x mod 4 + store_size op"
    using range_in_word [OF w(1), of "?y mod 4" "?x div 4" "?y div 4"] ry by simp
  show "read_phys_byte (ucast b) (write_store a d op m) =
     (if ?x \<le> ?y \<and> ?y < ?x + store_size op then Some (word_byte (8 * (?y - ?x)) d)
      else read_phys_byte (ucast b) m)"
  proof (cases "in_pmem b")
    case False
    have "\<not> (?x \<le> ?y \<and> ?y < ?x + store_size op)"
    proof
      assume r: "?x \<le> ?y \<and> ?y < ?x + store_size op"
      then have "?x div 4 = ?y div 4" unfolding rng by simp
      moreover have "?x div 4 < 0x22000000"
        using assms(1) by (auto simp: in_pmem_unat intro: less_mult_imp_div_less)
      ultimately have "?y < 0x88000000"
        using div_less_iff_less_mult [of 4 ?y "0x22000000"] by simp
      then show False using r assms(1) False by (simp add: in_pmem_unat)
    qed
    then show ?thesis using read_phys_not_pmem [OF False st(2)] by auto
  next
    case True
    note same = same_pmem_word [OF assms(1) True]
    show ?thesis
    proof (cases "?x div 4 = ?y div 4")
      case False
      then show ?thesis using same by (simp add: rng read_phys_pmem [OF True] st(1))
    next
      case eq: True
      then have d: "?y - ?x = ?y mod 4 - ?x mod 4" using ry by linarith
      have i: "pmem_index (align4 b) = pmem_index (align4 a)" using same eq by simp
      have "read_phys_byte (ucast b) (write_store a d op m) = Some (word_byte (8 * (?y mod 4))
          (if op = 7 then merge_field 0xff (pmem_words m (pmem_index (align4 a))) (8 * (?x mod 4)) (ucast (ucast (d AND 0xff) :: u8))
           else if op = 8 then merge_field 0xffff (pmem_words m (pmem_index (align4 a))) (8 * (?x mod 4)) (ucast (ucast (d AND 0xffff) :: u16))
           else d))"
        by (simp only: read_phys_pmem [OF True] st(1) i byte_shift_eq Let_def fun_upd_same)
      also have "\<dots> = Some (if ?x mod 4 \<le> ?y mod 4 \<and> ?y mod 4 < ?x mod 4 + store_size op
          then word_byte (8 * (?y mod 4 - ?x mod 4)) d
          else word_byte (8 * (?y mod 4)) (pmem_words m (pmem_index (align4 a))))"
        by (subst stored_byte [OF assms(2) w]) simp_all
      finally show ?thesis
        by (simp add: rng eq d read_phys_pmem [OF True] i byte_shift_eq)
    qed
  qed
next
  show "read_phys_u32 (ucast (align4 a)) m = Some (fst (read_word a m))"
  proof (rule read_phys_u32_bytes, unfold list_all_iff, rule ballI)
    fix i assume "i \<in> List.set [0..<4]"
    then have i: "i < 4" by simp
    let ?b = "align4 a + of_nat i"
    have lt: "4 * (unat a div 4) + i < 4294967296"
    proof -
      have "unat a div 4 < 1073741824" using unat_lt_u32 [of a] by (simp add: less_mult_imp_div_less)
      then show ?thesis using i by linarith
    qed
    have u: "unat ?b = 4 * (unat a div 4) + i"
      using i lt by (simp add: unat_word_ariths unat_of_nat unat_align4)
    have p: "in_pmem ?b"
      using assms(1) in_pmem_align4 [of a] i by (simp add: in_pmem_unat u unat_align4)
    have "ucast (align4 a) + of_nat i = (ucast ?b :: u64)"
      using i u lt by (simp add: word_unat_eq_iff unat_word_ariths unat_of_nat unat_ucast_up unat_align4)
    moreover have "pmem_index (align4 ?b) = pmem_index (align4 a)"
      using same_pmem_word [OF p assms(1)] u i by simp
    moreover have "byte_shift ?b = 8 * i" using u i by (simp add: byte_shift_eq)
    ultimately show "read_phys_byte (ucast (align4 a) + of_nat i) m = Some (word_byte (8 * i) (fst (read_word a m)))"
      using read_phys_pmem [OF p] by (simp add: read_word_pmem [OF assms(1)])
  qed
qed


section \<open>What every bus operation keeps\<close>

lemma uart_write8_frame [frame]:
  "bootrom_words (uart_write8 a d m) = bootrom_words m"
  "virtio_ok (uart_write8 a d m) = virtio_ok m"
  by (simp_all add: uart_write8_def virtio_ok_def plic_ok_def Let_def)

lemma uart_word_frame [frame]:
  "bootrom_words (fold (\<lambda>i m. uart_write8 (a + of_nat i) (f i) m) xs m) = bootrom_words m"
  "virtio_ok (fold (\<lambda>i m. uart_write8 (a + of_nat i) (f i) m) xs m) = virtio_ok m"
  by (induction xs arbitrary: m) (simp_all add: frame)

lemma bootrom_notify [frame]: "bootrom_words (virtio_handle_notify q m) = bootrom_words m"
proof -
  have "bootrom_words m1 = bootrom_words m" if "notify_loop idx False m = (p, m1)" for idx p m1
    using devices_notify_loop [of idx False m] virtio_ok_cong(2) that by (auto simp: that)
  then show ?thesis
    by (auto simp: virtio_handle_notify_def Let_def set_plic_source_pending_def refresh_plic_pending_def
        split: option.split prod.split)
qed

lemma bootrom_mmio_write [frame]: "bootrom_words (virtio_mmio_write a d m) = bootrom_words m"
  by (simp add: virtio_mmio_write_def Let_def frame virtio_interrupt_ack_def
      virtio_blk_reset_transport_state_def set_plic_source_pending_def refresh_plic_pending_def)

lemma bootrom_write_word [frame]:
  "\<not> in_bootrom a \<Longrightarrow> bootrom_words (write_word a d m) = bootrom_words m"
  unfolding write_word_def Let_def
  by (simp add: frame in_bootrom_align4 plic_complete_write_def refresh_plic_pending_def)

lemma virtio_ok_write_word [inv_intro]: "virtio_ok m \<Longrightarrow> virtio_ok (write_word a d m)"
proof -
  assume ok: "virtio_ok m"
  have c: "virtio_ok (plic_complete_write d m)"
    using ok plic_ok_complete by (simp add: virtio_ok_def plic_complete_write_def refresh_plic_pending_def plic_ok_def)
  show ?thesis using ok c virtio_ok_mmio_write [OF ok]
    unfolding write_word_def Let_def by (simp add: frame) (simp add: virtio_ok_def plic_ok_def)
qed

lemma read_word_frame [frame]: "bootrom_words (snd (read_word a m)) = bootrom_words m"
  by (simp add: read_word_def plic_claim_read_def Let_def)

lemma virtio_ok_read_word [inv_intro]: "virtio_ok m \<Longrightarrow> virtio_ok (snd (read_word a m))"
  by (simp add: read_word_def plic_claim_read_def Let_def virtio_ok_def plic_ok_def)

lemma virtio_ok_write_byte [inv_intro]: "virtio_ok m \<Longrightarrow> virtio_ok (write_byte a d m)"
  by (simp add: write_byte_def Let_def frame inv_intro split_beta)

lemma virtio_ok_write_store [inv_intro]: "virtio_ok m \<Longrightarrow> virtio_ok (write_store a d op m)"
  by (simp add: write_store_def write_half_def Let_def inv_intro split_beta)

lemma bootrom_write_byte [frame]: "\<not> in_bootrom a \<Longrightarrow> bootrom_words (write_byte a d m) = bootrom_words m"
  by (simp add: write_byte_def Let_def frame in_bootrom_align4 split_beta)

lemma bootrom_write_store [frame]: "bootrom_words (write_store a d op m) = bootrom_words m"
proof -
  have "\<not> access_touches_bootrom a n \<Longrightarrow> 0 < n \<Longrightarrow> \<not> in_bootrom a" for n
    by (force simp: access_touches_bootrom_def list_ex_iff)
  moreover have "\<not> access_touches_bootrom a 2 \<Longrightarrow> \<not> in_bootrom (a + 1)"
    by (simp add: access_touches_bootrom_def upt_rec)
  ultimately show ?thesis
    by (auto simp: write_store_def write_half_def Let_def frame in_bootrom_align4 split_beta)
qed

lemma set_time_frame [frame]:
  "virtio_ok (set_time_us t m) = virtio_ok m" "bootrom_words (set_time_us t m) = bootrom_words m"
  by (simp_all add: set_time_us_def virtio_ok_def plic_ok_def)

datatype bus_op = BusStore u32 u32 u32 | BusLoad u32 | BusTime u64

fun bus_step :: "unified_mem \<Rightarrow> bus_op \<Rightarrow> unified_mem" where
  "bus_step m (BusStore a d op) = write_store a d op m"
| "bus_step m (BusLoad a) = snd (read_word a m)"
| "bus_step m (BusTime t) = set_time_us t m"

interpretation bus: machine bus_step "\<lambda>m. virtio_ok m \<and> bootrom_words m = rom" for rom
proof
  fix m e assume "virtio_ok m \<and> bootrom_words m = rom"
  then show "virtio_ok (bus_step m e) \<and> bootrom_words (bus_step m e) = rom"
    by (cases e) (simp_all add: frame inv_intro)
qed

text \<open>C12: Whatever stores, loads and clock updates the processor makes, the interrupt of the
  block device is pending exactly while the device asks for it and nobody has claimed it, the
  device asks exactly while the used-buffer bit of its interrupt status is set, the queue never
  grows past its 128 descriptors, and the boot ROM keeps its contents.\<close>

theorem bus_invariant:
  assumes "virtio_ok m"
  shows "let m' = fold (\<lambda>e m. bus_step m e) es m in
    plic_pending1 m' = (plic_source_pending1 m' \<and> \<not> plic_claimed1 m')
    \<and> plic_source_pending1 m' = bit (virtio_interrupt_status m') 0
    \<and> virtio_queue_num m' \<le> 128 \<and> bootrom_words m' = bootrom_words m"
  using bus.fold_inv [of m "bootrom_words m" es] assms
  by (simp add: Let_def virtio_ok_def plic_ok_def)

lemma bus_invariant_witness:
  "bootrom_words (fold (\<lambda>e m. bus_step m e) [BusStore 0x1000 7 9, BusLoad kPlicClaimCompleteM] UnifiedMem_init)
     = bootrom_words UnifiedMem_init"
  using bus_invariant [OF virtio_ok_init] unfolding Let_def by blast

section \<open>Claim and complete\<close>

lemma read_claim: "read_word kPlicClaimCompleteM m = plic_claim_read m"
  by (simp add: read_word_def align4_const)

lemma write_complete: "write_word kPlicClaimCompleteM d m = plic_complete_write d m"
  by (simp add: write_word_def align4_const)

text \<open>The claim register hands the interrupt out once: it reads 1 exactly when the source
  asks, is enabled above the threshold and is not being served; then the line to the processor
  falls and further claims read 0 until the completion is written; at that moment the line is
  up again exactly when the source still asks.\<close>

lemma plic_protocol:
  assumes "plic_ok m"
  shows "let (v, m1) = read_word kPlicClaimCompleteM m; m2 = write_word kPlicClaimCompleteM 1 m1 in
      v = (if plic_source_pending1 m \<and> \<not> plic_claimed1 m \<and> plic_source1_enabled m then 1 else 0)
    \<and> \<not> plic_irq_pending m1 \<and> read_word kPlicClaimCompleteM m1 = (0, m1)
    \<and> plic_irq_pending m2 = (plic_source_pending1 m \<and> plic_source1_enabled m)"
  using assms
  by (auto simp: read_claim write_complete Let_def plic_claim_read_def plic_source1_eligible_def plic_ok_def
      plic_irq_pending_def plic_complete_write_def refresh_plic_pending_def plic_source1_enabled_def)

section \<open>The timer\<close>

lemma bit_halves:
  "bit (set_low x d) n \<longleftrightarrow> (if n < 32 then bit d n else bit x n)"
  "bit (set_high x d) n \<longleftrightarrow> (if n < 32 then bit x n else bit d (n - 32))"
  "bit (get_low x) n \<longleftrightarrow> n < 32 \<and> bit x n"
  "bit (get_high x) n \<longleftrightarrow> bit x (n + 32)"
proof -
  have m: "(0xFFFFFFFF00000000 :: u64) = push_bit 32 (mask 32)" "(0x00000000FFFFFFFF :: u64) = mask 32"
    by (simp_all add: mask_eq_exp_minus_1 push_bit_eq_mult)
  show "bit (set_low x d) n \<longleftrightarrow> (if n < 32 then bit d n else bit x n)"
    "bit (set_high x d) n \<longleftrightarrow> (if n < 32 then bit x n else bit d (n - 32))"
    unfolding set_low_def set_high_def m
    by (auto simp: bit_or_iff bit_and_iff bit_push_bit_iff bit_ucast_iff bit_mask_iff dest: bit_imp_le_length)
  show "bit (get_low x) n \<longleftrightarrow> n < 32 \<and> bit x n" "bit (get_high x) n \<longleftrightarrow> bit x (n + 32)"
    unfolding get_low_def get_high_def m
    by (auto simp: bit_and_iff bit_ucast_iff bit_mask_iff bit_drop_bit_eq add.commute dest: bit_imp_le_length)
qed

lemma halves:
  "get_low (set_low x d) = d" "get_high (set_high x d) = d"
  "get_high (set_low x d) = get_high x" "get_low (set_high x d) = get_low x"
  "set_high (set_low x d) e = set_low (set_high x e) d"
  by (auto intro!: bit_word_eqI simp: bit_halves)

lemma unat_halves: "unat (set_high (set_low x lo) hi) = unat hi * 2 ^ 32 + unat lo"
proof -
  have lo: "bit lo n \<Longrightarrow> n < 32" for n
    using bit_imp_le_length [of lo n] by simp
  then have hi: "32 \<le> n \<Longrightarrow> \<not> bit lo n" for n
    by (meson not_less)
  have "set_high (set_low x lo) hi = push_bit 32 (ucast hi) OR ucast lo"
    by (auto intro!: bit_word_eqI simp: bit_halves bit_or_iff bit_push_bit_iff bit_ucast_iff
        split: if_splits dest: lo)
  moreover have "push_bit 32 (ucast hi) AND (ucast lo :: u64) = 0"
    by (auto intro!: bit_word_eqI simp: bit_and_iff bit_push_bit_iff bit_ucast_iff hi)
  ultimately show ?thesis using unat_lt_u32 [of hi]
    by (simp add: unat_or_disjoint unat_push_bit unat_ucast_up)
qed

text \<open>The 64-bit compare register is written in two halves, in either order, and reads back
  as written; the timer interrupt is up exactly when the time has reached the value the halves
  make up. Updating the clock leaves the compare register alone and moves the real-time clock
  and the timer together.\<close>

lemma timer_compare_correct:
  "let m' = write_word kClintMtimecmpHigh hi (write_word kClintMtimecmpLow lo m) in
     m' = write_word kClintMtimecmpLow lo (write_word kClintMtimecmpHigh hi m)
   \<and> read_word_const kClintMtimecmpLow m' = lo \<and> read_word_const kClintMtimecmpHigh m' = hi
   \<and> timer_irq_pending (set_time_us t m') = (unat hi * 2 ^ 32 + unat lo \<le> unat t)
   \<and> read_word_const kRtcPortLow (set_time_us t m') = read_word_const kClintMtimeLow (set_time_us t m')
   \<and> read_word_const kRtcPortHigh (set_time_us t m') = read_word_const kClintMtimeHigh (set_time_us t m')"
  by (simp add: Let_def write_word_def read_word_const_def read_word_common_def align4_const halves
      set_time_us_def timer_irq_pending_def word_le_nat_alt unat_halves [unfolded halves(5)])

section \<open>Refills of the data cache\<close>

text \<open>What a miss is, apart from its countdown, and the run of the model over the samples of
  successive cycles, collecting the misses it accepts and the refills it delivers.\<close>

definition tx_key :: "miss_txn \<Rightarrow> u32 \<times> u32 \<times> u32 list" where
  "tx_key t = (tx_miss_addr t, tx_miss_way t, tx_line_words t)"

lemma tx_key_tick [simp]: "tx_key (tx_tick t) = tx_key t"
  by (simp add: tx_key_def tx_tick_def)

fun dc_run :: "(top_in \<times> top_out) list \<Rightarrow> unified_mem \<times> dcache_model \<Rightarrow>
    miss_txn list \<times> miss_txn list \<times> unified_mem \<times> dcache_model" where
  "dc_run [] s = ([], [], s)"
| "dc_run ((ti, to) # cs) s =
    (let s' = DCacheModel_observe ti to s;
         (acc, del, s'') = dc_run cs s'
     in ((if dcache_miss_req_valid_o to \<and> dcache_miss_req_ready_i ti then [dcache_new_txn to (fst s)] else []) @ acc,
         (if refill_pulse (snd s') then [refill_txn (snd s')] else []) @ del, s''))"

lemma dcache_observe_order:
  assumes "rst_ni ti" "DCacheModel_observe ti to (m, c) = (m', c')"
  shows "List.map tx_key (if refill_pulse c' then [refill_txn c'] else []) @ List.map tx_key (pending_q c')
    = List.map tx_key (pending_q c)
      @ List.map tx_key (if dcache_miss_req_valid_o to \<and> dcache_miss_req_ready_i ti then [dcache_new_txn to m] else [])"
proof -
  define q where "q = List.map tx_tick (pending_q c @ (if dcache_miss_req_valid_o to \<and> dcache_miss_req_ready_i ti
      then [dcache_new_txn to m] else []))"
  have k: "List.map tx_key q = List.map tx_key (pending_q c)
      @ List.map tx_key (if dcache_miss_req_valid_o to \<and> dcache_miss_req_ready_i ti then [dcache_new_txn to m] else [])"
    by (simp add: q_def)
  have "refill_pulse c' = (q \<noteq> [] \<and> tx_delay (hd q) = 0 \<and> dcache_refill_ready_o to)"
    "pending_q c' = (if refill_pulse c' then tl q else q)" "refill_pulse c' \<Longrightarrow> refill_txn c' = hd q"
    using assms by (auto simp: DCacheModel_observe_def q_def Let_def split: if_splits)
  then show ?thesis unfolding k [symmetric] by (cases q) auto
qed

text \<open>C21: While reset is high, every miss the data cache's memory accepts is refilled at most
  once, in the order of acceptance, with its address, its way and the line as it was in memory
  at the moment of acceptance: the refills delivered followed by the misses still waiting are
  the misses accepted so far.\<close>

theorem dcache_refills_in_order:
  assumes "\<forall>(ti, to) \<in> List.set cs. rst_ni ti" "dc_run cs (m, c) = (acc, del, m', c')"
  shows "List.map tx_key del @ List.map tx_key (pending_q c')
    = List.map tx_key (pending_q c) @ List.map tx_key acc"
  using assms
proof (induction cs arbitrary: m c acc del)
  case (Cons x cs)
  obtain ti to where x: "x = (ti, to)" by (cases x)
  obtain m1 c1 where o: "DCacheModel_observe ti to (m, c) = (m1, c1)"
    by (cases "DCacheModel_observe ti to (m, c)")
  obtain acc1 del1 s1 where r: "dc_run cs (m1, c1) = (acc1, del1, s1)" by (cases "dc_run cs (m1, c1)")
  have eq: "acc = (if dcache_miss_req_valid_o to \<and> dcache_miss_req_ready_i ti then [dcache_new_txn to m] else []) @ acc1"
    "del = (if refill_pulse c1 then [refill_txn c1] else []) @ del1" "s1 = (m', c')"
    using Cons.prems(2) by (auto simp: x o r)
  have "List.map tx_key del1 @ List.map tx_key (pending_q c') = List.map tx_key (pending_q c1) @ List.map tx_key acc1"
    using Cons.prems(1) r eq(3) by (intro Cons.IH) auto
  moreover have "rst_ni ti" using Cons.prems(1) by (simp add: x)
  ultimately have "List.map tx_key del @ List.map tx_key (pending_q c') =
      (List.map tx_key (if refill_pulse c1 then [refill_txn c1] else []) @ List.map tx_key (pending_q c1)) @ List.map tx_key acc1"
    "rst_ni ti" by (simp_all only: eq(2) map_append append_assoc)
  then show ?case unfolding eq(1) by (simp only: dcache_observe_order [OF _ o] map_append append_assoc)
qed simp

lemma dcache_latency:
  assumes "rst_ni ti" "pending_q c = []" "DCacheModel_observe ti to (m, c) = (m', c')"
  shows "\<not> refill_pulse c'" "\<forall>t \<in> List.set (pending_q c'). tx_delay t = 1"
  using assms by (auto simp: DCacheModel_observe_def Let_def tx_tick_def dcache_new_txn_def split: if_splits)

section \<open>Refills of the instruction cache\<close>

text \<open>A miss of the instruction cache is answered in the third sample from its acceptance
  on, with the line as memory held it at acceptance, when the cache is ready and sends no other
  request; lemma \<open>icache_overrun\<close> says what another request in between does: the first one is
  never answered.\<close>

lemma icache_refill:
  assumes "rst_ni t1" "rst_ni t2" "rst_ni t3" "icache_miss_req_valid_o o1" "icache_miss_req_ready_i t1"
    "\<not> icache_miss_req_valid_o o2" "\<not> icache_miss_req_valid_o o3" "icache_refill_ready_o o3"
  shows "let c1 = ICacheModel_observe t1 o1 m c; c2 = ICacheModel_observe t2 o2 m2 c1;
             c3 = ICacheModel_observe t3 o3 m3 c2; t = ICacheModel_drive c3 t4 in
      \<not> ic_refill_pulse c1 \<and> \<not> ic_refill_pulse c2 \<and> icache_refill_valid_i t
    \<and> icache_refill_paddr_i t = icache_miss_req_paddr_o o1
    \<and> icache_refill_way_i t = icache_miss_req_victim_way_o o1
    \<and> icache_refill_data_i t = fill_line (icache_miss_req_paddr_o o1) m
    \<and> \<not> ic_pending c3"
  using assms by (simp add: ICacheModel_observe_def ICacheModel_drive_def Let_def)

lemma icache_overrun:
  assumes "rst_ni t" "icache_miss_req_valid_o to" "icache_miss_req_ready_i t"
  shows "ICacheModel_observe t to m c = ICacheModel_observe t to m (ICacheModel_reset c)"
  using assms by (simp add: ICacheModel_observe_def ICacheModel_reset_def Let_def)

section \<open>Concrete cycles\<close>

definition demo_in :: top_in where
  "demo_in = \<lparr>rst_ni = True, clk_i = True, timer_irq_i = False, ext_irq_i = False,
     icache_miss_req_ready_i = True, icache_refill_valid_i = False, icache_refill_paddr_i = 0,
     icache_refill_way_i = 0, icache_refill_data_i = [], dcache_miss_req_ready_i = True,
     dcache_wb_req_ready_i = True, dcache_refill_valid_i = False, dcache_refill_paddr_i = 0,
     dcache_refill_way_i = 0, dcache_refill_data_i = []\<rparr>"

definition demo_out :: "bool \<Rightarrow> u32 \<Rightarrow> top_out" where
  "demo_out v a = \<lparr>icache_miss_req_valid_o = v, icache_miss_req_paddr_o = a, icache_miss_req_victim_way_o = 0,
     icache_refill_ready_o = True, dcache_miss_req_valid_o = v, dcache_miss_req_paddr_o = a,
     dcache_miss_req_victim_way_o = 0, dcache_refill_ready_o = True, dcache_wb_req_valid_o = False,
     dcache_wb_req_paddr_o = 0, dcache_wb_req_data_o = []\<rparr>"

definition demo_dcache :: dcache_model where
  "demo_dcache = \<lparr>pending_q = [], refill_pulse = False, refill_txn = MissTxn_init\<rparr>"

lemma dcache_order_witness:
  "let (acc, del, m, c) = dc_run [(demo_in, demo_out True 64), (demo_in, demo_out False 0)] (UnifiedMem_init, demo_dcache)
   in length acc = 1 \<and> List.map tx_key del = List.map tx_key acc"
proof -
  let ?cs = "[(demo_in, demo_out True 64), (demo_in, demo_out False 0)]"
  obtain acc del m c where r: "dc_run ?cs (UnifiedMem_init, demo_dcache) = (acc, del, m, c)"
    by (metis prod.collapse)
  then have "pending_q c = []" "length acc = 1"
    by (auto simp: DCacheModel_observe_def demo_in_def demo_out_def demo_dcache_def tx_tick_def dcache_new_txn_def Let_def)
  then show ?thesis using dcache_refills_in_order [OF _ r] unfolding r
    by (simp add: demo_in_def demo_dcache_def)
qed

lemma store_refines_witness:
  "read_phys_byte 0x80000006 (write_store 0x80000006 0x1234 8 UnifiedMem_init) = Some 0x34"
proof -
  have "(ucast (0x80000006 :: u32) :: u64) = 0x80000006" by simp
  then show ?thesis using store_refines_bytes [of "0x80000006" 8 "0x80000006" "0x1234" UnifiedMem_init]
    by (simp add: in_pmem_def store_size_def word_byte_def)
qed

end
