(* ===== verification/Npc_Ports.thy ===== *)
theory Npc_Ports
  imports Npc_Bus
begin

text \<open>
  The output ports of the generated top module that the main loop and the profile collector of
  the simulator read (\<open>src/npc/csrc/npc_main.cpp\<close>, \<open>src/npc/csrc/lib/profile_collector_stall.cpp\<close>),
  by group, as extensions of the ports that the memory system samples. One-bit ports are truth
  values, packed and wide ports words, unpacked arrays functions of the index.
\<close>

record flush_ports = top_out +
  backend_flush_o :: bool
  backend_redirect_pc_o :: u32
  dbg_rob_flush_o :: bool
  dbg_rob_flush_is_mispred_o :: bool
  dbg_rob_flush_is_exception_o :: bool
  dbg_rob_flush_is_branch_o :: bool
  dbg_rob_flush_is_jump_o :: bool
  dbg_rob_flush_cause_o :: u32
  dbg_rob_flush_src_pc_o :: u32

record commit_ports = flush_ports +
  commit_valid_o :: u32
  commit_we_o :: u32
  commit_areg_o :: u32
  commit_wdata_o :: "nat \<Rightarrow> u32"
  commit_pc_o :: "nat \<Rightarrow> u32"
  commit_inst_o :: "nat \<Rightarrow> u32"
  commit_decoded_inst_o :: "nat \<Rightarrow> u32"
  commit_is_rvc_o :: u32

record fq_ports = commit_ports +
  dbg_ifu_fq_count_o :: u32
  dbg_ifu_fq_full_o :: bool
  dbg_ifu_fq_empty_o :: bool
  dbg_ifu_fq_enq_fire_o :: bool
  dbg_ifu_fq_deq_fire_o :: bool
  dbg_ifu_fq_bypass_fire_o :: bool
  dbg_ifu_fq_enq_blocked_o :: bool

record bus_ports = fq_ports +
  dbg_pipe_bus_valid_o :: bool
  dbg_pipe_bus_rob_ready_o :: bool
  dbg_pipe_bus_dec_valid_o :: bool
  dbg_pipe_bus_dec_ready_o :: bool
  dbg_pipe_bus_fe_valid_o :: bool
  dbg_mem_bus_valid_o :: bool
  dbg_mem_bus_lsu_issue_valid_o :: bool
  dbg_mem_bus_lsu_req_ready_o :: bool
  dbg_rob_ready_o :: bool
  dbg_dec_valid_o :: bool
  dbg_dec_ready_o :: bool
  dbg_lsu_issue_valid_o :: bool
  dbg_lsu_req_ready_o :: bool

record fe_ports = bus_ports +
  dbg_fe_valid_o :: bool
  dbg_fe_ready_o :: bool
  dbg_ifu_req_valid_o :: bool
  dbg_ifu_req_ready_o :: bool
  dbg_ifu_req_fire_o :: bool
  dbg_ifu_req_inflight_o :: bool
  dbg_ifu_rsp_valid_o :: bool
  dbg_ifu_rsp_capture_o :: bool
  dbg_ifu_drop_stale_rsp_o :: bool
  dbg_ifu_block_flush_o :: bool
  dbg_ifu_block_reqq_empty_o :: bool
  dbg_ifu_block_inf_full_o :: bool
  dbg_ifu_block_storage_budget_o :: bool
  dbg_icache_state_o :: u32

record ren_ports = fe_ports +
  dbg_ren_src_from_pending_o :: bool
  dbg_ren_src_count_o :: u32
  dbg_ren_sel_count_o :: u32
  dbg_ren_fire_o :: bool
  dbg_ren_ready_o :: bool
  dbg_gate_alu_o :: bool
  dbg_gate_bru_o :: bool
  dbg_gate_lsu_o :: bool
  dbg_gate_mdu_o :: bool
  dbg_gate_csr_o :: bool
  dbg_need_alu_o :: u32
  dbg_need_bru_o :: u32
  dbg_need_lsu_o :: u32
  dbg_need_mdu_o :: u32
  dbg_need_csr_o :: u32

record lsu_ports = ren_ports +
  dbg_lsu_state_o :: u32
  dbg_lsu_ld_fire_o :: bool
  dbg_lsu_rsp_fire_o :: bool
  dbg_lsu_ld_req_valid_o :: bool
  dbg_lsu_ld_req_ready_o :: bool
  dbg_lsu_ld_rsp_valid_o :: bool
  dbg_lsu_ld_rsp_ready_o :: bool
  dbg_lsu_grp_lane_busy_o :: u32
  dbg_lsu_grp_alloc_fire_o :: bool
  dbg_lsu_grp_ld_owner_o :: u32
  dbg_lsu_rs_busy_o :: u32
  dbg_lsu_rs_ready_o :: u32
  dbg_lsu_rs_head_valid_o :: bool
  dbg_lsu_rs_head_has_rs1_o :: bool
  dbg_lsu_rs_head_r1_ready_o :: bool
  dbg_lsu_rs_head_has_rs2_o :: bool
  dbg_lsu_rs_head_r2_ready_o :: bool

record sb_ports = lsu_ports +
  dbg_sb_alloc_req_o :: u32
  dbg_sb_alloc_ready_o :: bool
  dbg_sb_head_valid_o :: bool
  dbg_sb_head_committed_o :: bool
  dbg_sb_head_addr_valid_o :: bool
  dbg_sb_head_data_valid_o :: bool
  dbg_sb_dcache_req_valid_o :: bool
  dbg_sb_dcache_req_ready_o :: bool
  dbg_sb_dcache_req_addr_o :: u32
  dbg_sb_dcache_req_data_o :: u32
  dbg_sb_dcache_req_op_o :: u32
  dbg_dc_store_wait_same_line_o :: bool
  dbg_dc_store_wait_mshr_full_o :: bool
  dbg_dc_mshr_full_o :: bool
  dbg_dc_mshr_alloc_ready_o :: bool

record rob_ports = sb_ports +
  dbg_rob_count_o :: u32
  dbg_rob_head_fu_o :: u32
  dbg_rob_head_complete_o :: bool
  dbg_rob_head_is_store_o :: bool
  dbg_rob_q2_valid_o :: bool
  dbg_rob_q2_complete_o :: bool
  dbg_alu_wb_head_hit_o :: bool
  dbg_alu_issue_any_o :: bool
  dbg_alu_ready_not_issued_o :: bool
  dbg_bru_wb_head_hit_o :: bool
  dbg_bru_valid_o :: bool
  dbg_bru_ready_not_issued_o :: bool

record top_ports = rob_ports +
  dbg_csr_mtvec_o :: u32
  dbg_csr_mepc_o :: u32
  dbg_csr_mstatus_o :: u32
  dbg_csr_mcause_o :: u32
  dbg_csr_satp_o :: u32
  dbg_csr_stvec_o :: u32
  dbg_csr_sepc_o :: u32
  dbg_csr_scause_o :: u32
  dbg_csr_stval_o :: u32
  dbg_csr_priv_mode_o :: u32
  dbg_cfg_instr_per_fetch_o :: u32
  dbg_cfg_nret_o :: u32
  dbg_fe_pc_o :: u32

text \<open>All ports low.\<close>

definition idle_ports :: top_ports where
  "idle_ports =
    \<lparr>icache_miss_req_valid_o = False, icache_miss_req_paddr_o = 0,
     icache_miss_req_victim_way_o = 0, icache_refill_ready_o = False,
     dcache_miss_req_valid_o = False, dcache_miss_req_paddr_o = 0,
     dcache_miss_req_victim_way_o = 0, dcache_refill_ready_o = False,
     dcache_wb_req_valid_o = False, dcache_wb_req_paddr_o = 0, dcache_wb_req_data_o = [],
     backend_flush_o = False, backend_redirect_pc_o = 0, dbg_rob_flush_o = False,
     dbg_rob_flush_is_mispred_o = False, dbg_rob_flush_is_exception_o = False,
     dbg_rob_flush_is_branch_o = False, dbg_rob_flush_is_jump_o = False,
     dbg_rob_flush_cause_o = 0, dbg_rob_flush_src_pc_o = 0, commit_valid_o = 0, commit_we_o = 0,
     commit_areg_o = 0, commit_wdata_o = (\<lambda>_. 0), commit_pc_o = (\<lambda>_. 0),
     commit_inst_o = (\<lambda>_. 0), commit_decoded_inst_o = (\<lambda>_. 0),
     commit_is_rvc_o = 0, dbg_ifu_fq_count_o = 0, dbg_ifu_fq_full_o = False,
     dbg_ifu_fq_empty_o = False, dbg_ifu_fq_enq_fire_o = False, dbg_ifu_fq_deq_fire_o = False,
     dbg_ifu_fq_bypass_fire_o = False, dbg_ifu_fq_enq_blocked_o = False,
     dbg_pipe_bus_valid_o = False, dbg_pipe_bus_rob_ready_o = False,
     dbg_pipe_bus_dec_valid_o = False, dbg_pipe_bus_dec_ready_o = False,
     dbg_pipe_bus_fe_valid_o = False, dbg_mem_bus_valid_o = False,
     dbg_mem_bus_lsu_issue_valid_o = False, dbg_mem_bus_lsu_req_ready_o = False,
     dbg_rob_ready_o = False, dbg_dec_valid_o = False, dbg_dec_ready_o = False,
     dbg_lsu_issue_valid_o = False, dbg_lsu_req_ready_o = False, dbg_fe_valid_o = False,
     dbg_fe_ready_o = False, dbg_ifu_req_valid_o = False, dbg_ifu_req_ready_o = False,
     dbg_ifu_req_fire_o = False, dbg_ifu_req_inflight_o = False, dbg_ifu_rsp_valid_o = False,
     dbg_ifu_rsp_capture_o = False, dbg_ifu_drop_stale_rsp_o = False,
     dbg_ifu_block_flush_o = False, dbg_ifu_block_reqq_empty_o = False,
     dbg_ifu_block_inf_full_o = False, dbg_ifu_block_storage_budget_o = False,
     dbg_icache_state_o = 0, dbg_ren_src_from_pending_o = False, dbg_ren_src_count_o = 0,
     dbg_ren_sel_count_o = 0, dbg_ren_fire_o = False, dbg_ren_ready_o = False,
     dbg_gate_alu_o = False, dbg_gate_bru_o = False, dbg_gate_lsu_o = False,
     dbg_gate_mdu_o = False, dbg_gate_csr_o = False, dbg_need_alu_o = 0, dbg_need_bru_o = 0,
     dbg_need_lsu_o = 0, dbg_need_mdu_o = 0, dbg_need_csr_o = 0, dbg_lsu_state_o = 0,
     dbg_lsu_ld_fire_o = False, dbg_lsu_rsp_fire_o = False, dbg_lsu_ld_req_valid_o = False,
     dbg_lsu_ld_req_ready_o = False, dbg_lsu_ld_rsp_valid_o = False,
     dbg_lsu_ld_rsp_ready_o = False, dbg_lsu_grp_lane_busy_o = 0,
     dbg_lsu_grp_alloc_fire_o = False, dbg_lsu_grp_ld_owner_o = 0, dbg_lsu_rs_busy_o = 0,
     dbg_lsu_rs_ready_o = 0, dbg_lsu_rs_head_valid_o = False, dbg_lsu_rs_head_has_rs1_o = False,
     dbg_lsu_rs_head_r1_ready_o = False, dbg_lsu_rs_head_has_rs2_o = False,
     dbg_lsu_rs_head_r2_ready_o = False, dbg_sb_alloc_req_o = 0, dbg_sb_alloc_ready_o = False,
     dbg_sb_head_valid_o = False, dbg_sb_head_committed_o = False,
     dbg_sb_head_addr_valid_o = False, dbg_sb_head_data_valid_o = False,
     dbg_sb_dcache_req_valid_o = False, dbg_sb_dcache_req_ready_o = False,
     dbg_sb_dcache_req_addr_o = 0, dbg_sb_dcache_req_data_o = 0, dbg_sb_dcache_req_op_o = 0,
     dbg_dc_store_wait_same_line_o = False, dbg_dc_store_wait_mshr_full_o = False,
     dbg_dc_mshr_full_o = False, dbg_dc_mshr_alloc_ready_o = False, dbg_rob_count_o = 0,
     dbg_rob_head_fu_o = 0, dbg_rob_head_complete_o = False, dbg_rob_head_is_store_o = False,
     dbg_rob_q2_valid_o = False, dbg_rob_q2_complete_o = False, dbg_alu_wb_head_hit_o = False,
     dbg_alu_issue_any_o = False, dbg_alu_ready_not_issued_o = False,
     dbg_bru_wb_head_hit_o = False, dbg_bru_valid_o = False, dbg_bru_ready_not_issued_o = False,
     dbg_csr_mtvec_o = 0, dbg_csr_mepc_o = 0, dbg_csr_mstatus_o = 0, dbg_csr_mcause_o = 0,
     dbg_csr_satp_o = 0, dbg_csr_stvec_o = 0, dbg_csr_sepc_o = 0, dbg_csr_scause_o = 0,
     dbg_csr_stval_o = 0, dbg_csr_priv_mode_o = 0, dbg_cfg_instr_per_fetch_o = 0,
     dbg_cfg_nret_o = 0,
     dbg_fe_pc_o = 0\<rparr>"

end
