(* ===== verification/Npc_Args.thy ===== *)
theory Npc_Args
  imports Prelude
begin
text \<open>
  The command line of the simulator (\<open>src/npc/csrc/lib/args_parser.cpp\<close> and
  \<open>src/npc/csrc/include/args_parser.h\<close>). The conversion \<open>std::stoull\<close> with base 0 is modelled
  from the language standard: spaces, a sign, the base from the prefix, digits; it throws
  (None) without digits or on overflow. An argument vector is a list of strings.
\<close>

section \<open>Numbers\<close>

definition is_space :: "char \<Rightarrow> bool" where
  "is_space c \<longleftrightarrow> c = CHR '' '' \<or> (9 \<le> (of_char c :: nat) \<and> (of_char c :: nat) \<le> 13)"

definition digit_value :: "char \<Rightarrow> nat option" where
  "digit_value c = (let n = of_char c in
     if 48 \<le> n \<and> n \<le> 57 then Some (n - 48)
     else if 65 \<le> n \<and> n \<le> 90 then Some (n - 55)
     else if 97 \<le> n \<and> n \<le> 122 then Some (n - 87)
     else None)"

definition is_digit :: "nat \<Rightarrow> char \<Rightarrow> bool" where
  "is_digit base c \<longleftrightarrow> (case digit_value c of None \<Rightarrow> False | Some d \<Rightarrow> d < base)"

definition number_value :: "nat \<Rightarrow> string \<Rightarrow> nat" where
  "number_value base ds = foldl (\<lambda>v c. v * base + the (digit_value c)) 0 ds"

definition has_hex_prefix :: "string \<Rightarrow> bool" where
  "has_hex_prefix s \<longleftrightarrow> (case s of
     a # x # c # _ \<Rightarrow> a = CHR ''0'' \<and> (x = CHR ''x'' \<or> x = CHR ''X'') \<and> is_digit 16 c
   | _ \<Rightarrow> False)"

text \<open>The value and the number of characters consumed.\<close>

definition stoull :: "string \<Rightarrow> (u64 \<times> nat) option" where
  "stoull s =
    (let r = dropWhile is_space s;
         neg = (r \<noteq> [] \<and> hd r = CHR ''-'');
         r = (if r \<noteq> [] \<and> (hd r = CHR ''-'' \<or> hd r = CHR ''+'') then tl r else r);
         base = (if has_hex_prefix r then 16 else if r \<noteq> [] \<and> hd r = CHR ''0'' then 8 else 10);
         r = (if base = 16 then drop 2 r else r);
         ds = takeWhile (is_digit base) r;
         v = number_value base ds
     in if ds = [] then None
        else if 2 ^ 64 \<le> v then None
        else Some (if neg then - of_nat v else of_nat v, length s - length r + length ds))"

definition parse_u64 :: "string \<Rightarrow> u64 option" where
  "parse_u64 s =
    (case stoull s of None \<Rightarrow> None | Some (v, idx) \<Rightarrow> if idx = length s then Some v else None)"

definition find_char :: "char \<Rightarrow> string \<Rightarrow> nat option" where
  "find_char c s = (let n = length (takeWhile (\<lambda>d. d \<noteq> c) s) in if n = length s then None else Some n)"

definition parse_commit_trace_range :: "string \<Rightarrow> (u64 \<times> u64) option" where
  "parse_commit_trace_range spec =
    (case find_char (CHR '':'') spec of
       None \<Rightarrow> (case parse_u64 spec of None \<Rightarrow> None | Some v \<Rightarrow> Some (v, v))
     | Some colon \<Rightarrow>
         if colon = 0 \<or> length spec \<le> colon + 1 then None
         else (case parse_u64 (take colon spec) of None \<Rightarrow> None | Some lo \<Rightarrow>
               case parse_u64 (drop (colon + 1) spec) of None \<Rightarrow> None | Some hi \<Rightarrow>
               if hi < lo then None else Some (lo, hi)))"

section \<open>The arguments\<close>

record sim_args =
  img_path :: string
  max_cycles :: u64
  difftest_so :: string
  boot_handoff_flag :: bool
  dtb_path :: string
  firmware_load_base :: u64
  virtio_blk_path :: string
  trace :: bool
  trace_path :: string
  commit_trace :: bool
  commit_trace_start :: u64
  commit_trace_end :: u64
  fe_trace :: bool
  bru_trace :: bool
  stall_trace :: bool
  stall_threshold :: u64
  progress_interval :: u64
  progress_verbose :: bool
  linux_early_debug :: bool

definition sim_args_init :: sim_args where
  "sim_args_init = \<lparr>img_path = [], max_cycles = 600000000, difftest_so = [],
     boot_handoff_flag = False, dtb_path = [], firmware_load_base = 0, virtio_blk_path = [],
     trace = False, trace_path = ''npc.vcd'', commit_trace = False, commit_trace_start = 0,
     commit_trace_end = 0, fe_trace = False, bru_trace = False, stall_trace = False,
     stall_threshold = 200, progress_interval = 0, progress_verbose = False,
     linux_early_debug = False\<rparr>"

definition starts_with :: "string \<Rightarrow> string \<Rightarrow> bool" where
  "starts_with p s \<longleftrightarrow> take (length p) s = p"

definition after :: "string \<Rightarrow> string \<Rightarrow> string" where
  "after p s = drop (length p) s"

text \<open>\<open>argv[i][0] != '-'\<close>: the first character of an empty argument is the terminator.\<close>

definition no_dash :: "string \<Rightarrow> bool" where
  "no_dash s \<longleftrightarrow> s = [] \<or> hd s \<noteq> CHR ''-''"

definition set_u64 :: "string \<Rightarrow> (u64 \<Rightarrow> sim_args \<Rightarrow> sim_args) \<Rightarrow> sim_args \<Rightarrow> sim_args" where
  "set_u64 s f a = (case parse_u64 s of None \<Rightarrow> a | Some v \<Rightarrow> f v a)"

text \<open>
  The branches of the loop body, in the order of the code, as a function of the argument and
  the ones behind it; the number is how many of those the branch takes as well.
\<close>

definition parse_commit_trace :: "string list \<Rightarrow> sim_args \<Rightarrow> sim_args \<times> nat" where
  "parse_commit_trace rest a =
    (let a = a\<lparr>commit_trace := True\<rparr> in
     case rest of
       [] \<Rightarrow> (a, 0)
     | x # xs \<Rightarrow>
       if \<not> no_dash x then (a, 0)
       else (case parse_commit_trace_range x of
         Some (s, e) \<Rightarrow> (a\<lparr>commit_trace_start := s, commit_trace_end := e\<rparr>, 1)
       | None \<Rightarrow>
         (case parse_u64 x of
            None \<Rightarrow> (a, 0)
          | Some only_start \<Rightarrow>
            (let a = a\<lparr>commit_trace_start := only_start\<rparr> in
             case xs of
               [] \<Rightarrow> (a, 1)
             | y # _ \<Rightarrow> (case parse_u64 y of
                 None \<Rightarrow> (a, 1)
               | Some e \<Rightarrow> (a\<lparr>commit_trace_end := e\<rparr>, 2))))))"

definition parse_arg_tail :: "string \<Rightarrow> string list \<Rightarrow> sim_args \<Rightarrow> sim_args \<times> nat" where
  "parse_arg_tail arg rest a =
    (if starts_with ''--commit-trace='' arg then
       (case parse_commit_trace_range (after ''--commit-trace='' arg) of
          None \<Rightarrow> (a, 0)
        | Some (s, e) \<Rightarrow> (a\<lparr>commit_trace := True, commit_trace_start := s, commit_trace_end := e\<rparr>, 0))
     else if arg = ''--commit-trace-start'' \<and> rest \<noteq> [] then
       (case parse_u64 (hd rest) of
          None \<Rightarrow> (a, 0)
        | Some v \<Rightarrow> (a\<lparr>commit_trace := True, commit_trace_start := v\<rparr>, 1))
     else if starts_with ''--commit-trace-start='' arg then
       (set_u64 (after ''--commit-trace-start='' arg)
          (\<lambda>v a. a\<lparr>commit_trace := True, commit_trace_start := v\<rparr>) a, 0)
     else if arg = ''--commit-trace-end'' \<and> rest \<noteq> [] then
       (case parse_u64 (hd rest) of
          None \<Rightarrow> (a, 0)
        | Some v \<Rightarrow> (a\<lparr>commit_trace := True, commit_trace_end := v\<rparr>, 1))
     else if starts_with ''--commit-trace-end='' arg then
       (set_u64 (after ''--commit-trace-end='' arg)
          (\<lambda>v a. a\<lparr>commit_trace := True, commit_trace_end := v\<rparr>) a, 0)
     else if arg = ''--fe-trace'' then (a\<lparr>fe_trace := True\<rparr>, 0)
     else if arg = ''--bru-trace'' then (a\<lparr>bru_trace := True\<rparr>, 0)
     else if arg = ''--stall-trace'' then
       (let a = a\<lparr>stall_trace := True\<rparr> in
        if rest \<noteq> [] then
          (case parse_u64 (hd rest) of None \<Rightarrow> (a, 0) | Some v \<Rightarrow> (a\<lparr>stall_threshold := v\<rparr>, 1))
        else (a, 0))
     else if starts_with ''--stall-trace='' arg then
       (set_u64 (after ''--stall-trace='' arg) (\<lambda>v a. a\<lparr>stall_threshold := v\<rparr>)
          (a\<lparr>stall_trace := True\<rparr>), 0)
     else if arg = ''--progress'' then
       (let a = a\<lparr>progress_interval := 1000000\<rparr> in
        if rest \<noteq> [] \<and> no_dash (hd rest) then
          (case parse_u64 (hd rest) of None \<Rightarrow> (a, 0) | Some v \<Rightarrow> (a\<lparr>progress_interval := v\<rparr>, 1))
        else (a, 0))
     else if starts_with ''--progress='' arg then
       (set_u64 (after ''--progress='' arg) (\<lambda>v a. a\<lparr>progress_interval := v\<rparr>) a, 0)
     else if arg = ''--progress-verbose'' then (a\<lparr>progress_verbose := True\<rparr>, 0)
     else if arg = ''--linux-early-debug'' then (a\<lparr>linux_early_debug := True\<rparr>, 0)
     else if arg \<noteq> [] \<and> hd arg = CHR ''-'' then (a, 0)
     else (a\<lparr>img_path := arg\<rparr>, 0))"

definition parse_arg :: "string \<Rightarrow> string list \<Rightarrow> sim_args \<Rightarrow> sim_args \<times> nat" where
  "parse_arg arg rest a =
    (if arg = ''-d'' then
       (if rest \<noteq> [] then (a\<lparr>difftest_so := hd rest\<rparr>, 1) else (a, 0))
     else if arg = ''--boot-handoff'' then (a\<lparr>boot_handoff_flag := True\<rparr>, 0)
     else if arg = ''--dtb'' \<and> rest \<noteq> [] then (a\<lparr>dtb_path := hd rest\<rparr>, 1)
     else if starts_with ''--dtb='' arg then (a\<lparr>dtb_path := after ''--dtb='' arg\<rparr>, 0)
     else if arg = ''--firmware-load-base'' \<and> rest \<noteq> [] \<and> parse_u64 (hd rest) \<noteq> None then
       (a\<lparr>firmware_load_base := the (parse_u64 (hd rest))\<rparr>, 1)
     else if starts_with ''--firmware-load-base='' arg then
       (set_u64 (after ''--firmware-load-base='' arg) (\<lambda>v a. a\<lparr>firmware_load_base := v\<rparr>) a, 0)
     else if arg = ''--virtio-blk-image'' \<and> rest \<noteq> [] then (a\<lparr>virtio_blk_path := hd rest\<rparr>, 1)
     else if starts_with ''--virtio-blk-image='' arg then
       (a\<lparr>virtio_blk_path := after ''--virtio-blk-image='' arg\<rparr>, 0)
     else if starts_with ''--difftest='' arg then (a\<lparr>difftest_so := after ''--difftest='' arg\<rparr>, 0)
     else if arg = ''--max-cycles'' \<and> rest \<noteq> [] \<and> parse_u64 (hd rest) \<noteq> None then
       (a\<lparr>max_cycles := the (parse_u64 (hd rest))\<rparr>, 1)
     else if starts_with ''--max-cycles='' arg then
       (set_u64 (after ''--max-cycles='' arg) (\<lambda>v a. a\<lparr>max_cycles := v\<rparr>) a, 0)
     else if arg = ''--trace'' then
       (let a = a\<lparr>trace := True\<rparr> in
        if rest \<noteq> [] \<and> no_dash (hd rest) then (a\<lparr>trace_path := hd rest\<rparr>, 1) else (a, 0))
     else if starts_with ''--trace='' arg then
       (a\<lparr>trace := True, trace_path := after ''--trace='' arg\<rparr>, 0)
     else if arg = ''--commit-trace'' then parse_commit_trace rest a
     else parse_arg_tail arg rest a)"

function parse_args_loop :: "string list \<Rightarrow> sim_args \<Rightarrow> sim_args" where
  "parse_args_loop [] a = a"
| "parse_args_loop (arg # rest) a =
    (let r = parse_arg arg rest a in parse_args_loop (drop (snd r) rest) (fst r))"
  by pat_completeness auto

termination
  by (relation "measure (\<lambda>(args, a). length args)") auto

definition parse_args :: "string list \<Rightarrow> sim_args" where
  "parse_args argv = parse_args_loop (tl argv) sim_args_init"

section \<open>Numbers on the command line\<close>

text \<open>Decimal and hexadecimal notation of a number.\<close>

definition digit_char :: "nat \<Rightarrow> char" where
  "digit_char d = (if d < 10 then char_of (48 + d) else char_of (87 + d))"

fun show_base :: "nat \<Rightarrow> nat \<Rightarrow> string" where
  "show_base b n = (if b < 2 \<or> n < b then [digit_char n] else show_base b (n div b) @ [digit_char (n mod b)])"

declare show_base.simps [simp del]

lemma digit_value_char: "d < 16 \<Longrightarrow> digit_value (digit_char d) = Some d"
  by (auto simp: digit_value_def digit_char_def Let_def)

lemma is_digit_char: "d < b \<Longrightarrow> b \<le> 16 \<Longrightarrow> is_digit b (digit_char d)"
  by (simp add: is_digit_def digit_value_char)

lemma show_base_digits: "2 \<le> b \<Longrightarrow> b \<le> 16 \<Longrightarrow> list_all (is_digit b) (show_base b n) \<and> show_base b n \<noteq> []"
proof (induction b n rule: show_base.induct)
  case (1 b n)
  then show ?case by (subst (1 2) show_base.simps) (auto simp: is_digit_char)
qed

lemma show_base_value: "2 \<le> b \<Longrightarrow> b \<le> 16 \<Longrightarrow> number_value b (show_base b n) = n"
proof (induction b n rule: show_base.induct)
  case (1 b n)
  have "n mod b < 16" using 1(2,3) mod_less_divisor [of b n] by linarith
  then show ?case using 1
    by (subst show_base.simps) (auto simp: number_value_def digit_value_char)
qed

lemma show_base_head: "2 \<le> b \<Longrightarrow> \<exists>d. hd (show_base b n) = digit_char d \<and> d < b \<and> (n \<noteq> 0 \<longrightarrow> d \<noteq> 0)"
proof (induction b n rule: show_base.induct)
  case (1 b n)
  show ?case
  proof (cases "n < b")
    case True
    then show ?thesis by (subst show_base.simps) auto
  next
    case False
    then have "n div b \<noteq> 0" using 1(2) by (simp add: div_eq_0_iff)
    moreover have "show_base b (n div b) \<noteq> []" by (subst show_base.simps) simp
    moreover have "show_base b n = show_base b (n div b) @ [digit_char (n mod b)]"
      using False 1(2) by (subst show_base.simps) simp
    ultimately show ?thesis using 1(1) False 1(2) by auto
  qed
qed

lemma digit_char_0: "digit_char 0 = CHR ''0''"
proof -
  have "of_char (CHR ''0'') = (48 :: nat)" by simp
  then have "char_of (48 :: nat) = CHR ''0''" by (metis char_of_char)
  then show ?thesis by (simp add: digit_char_def)
qed

lemma digit_char_plain: "d < 16 \<Longrightarrow> \<not> is_space (digit_char d) \<and> digit_char d \<noteq> CHR ''-''
    \<and> digit_char d \<noteq> CHR ''+'' \<and> digit_char d \<noteq> CHR '':'' \<and> (digit_char d = CHR ''0'' \<longleftrightarrow> d = 0)"
proof -
  assume "d < 16"
  then have v: "digit_value (digit_char d) = Some d" by (rule digit_value_char)
  have s: "is_space c \<Longrightarrow> digit_value c = None" for c
    by (auto simp: is_space_def digit_value_def Let_def)
  have "digit_value (CHR ''-'') = None" "digit_value (CHR ''+'') = None" "digit_value (CHR '':'') = None"
    "digit_value (CHR ''0'') = Some 0"
    by (simp_all add: digit_value_def)
  moreover note digit_char_0
  ultimately show ?thesis using v s by auto
qed

lemma takeWhile_digits: "2 \<le> b \<Longrightarrow> b \<le> 16 \<Longrightarrow> takeWhile (is_digit b) (show_base b n) = show_base b n"
  using show_base_digits [of b n] by (auto simp: list_all_iff takeWhile_eq_all_conv)

lemma parse_decimal: "n < 2 ^ 64 \<Longrightarrow> parse_u64 (show_base 10 n) = Some (of_nat n)"
proof -
  assume n: "n < 2 ^ 64"
  let ?s = "show_base 10 n"
  obtain d where d: "hd ?s = digit_char d" "d < 10" "n \<noteq> 0 \<longrightarrow> d \<noteq> 0"
    using show_base_head [of 10 n] by auto
  have ne: "?s \<noteq> []" using show_base_digits [of 10 n] by simp
  have pl: "\<not> is_space (hd ?s)" "hd ?s \<noteq> CHR ''-''" "hd ?s \<noteq> CHR ''+''" "hd ?s = CHR ''0'' \<longleftrightarrow> d = 0"
    using digit_char_plain [of d] d by auto
  have dw: "dropWhile is_space ?s = ?s" using ne pl(1) by (cases ?s) auto
  show ?thesis
  proof (cases "n = 0")
    case True
    then have z: "?s = ''0''" by (subst show_base.simps) (simp add: digit_char_0)
    show ?thesis unfolding z using True
      by (simp add: parse_u64_def stoull_def is_space_def has_hex_prefix_def is_digit_def digit_value_def number_value_def Let_def)
  next
    case False
    then have nz: "hd ?s \<noteq> CHR ''0''" using pl(4) d(3) by simp
    then have "\<not> has_hex_prefix ?s" by (auto simp: has_hex_prefix_def split: list.split)
    then show ?thesis using ne pl nz n
      by (simp add: parse_u64_def stoull_def dw takeWhile_digits show_base_value Let_def)
  qed
qed

lemma parse_hex: "n < 2 ^ 64 \<Longrightarrow> parse_u64 (''0x'' @ show_base 16 n) = Some (of_nat n)"
proof -
  assume n: "n < 2 ^ 64"
  have ne: "show_base 16 n \<noteq> []" "is_digit 16 (hd (show_base 16 n))"
    using show_base_digits [of 16 n] by (auto simp: list_all_iff)
  have "has_hex_prefix (''0x'' @ show_base 16 n)"
    using ne by (cases "show_base 16 n") (auto simp: has_hex_prefix_def)
  then show ?thesis using ne(1) n
    by (simp add: parse_u64_def stoull_def is_space_def takeWhile_digits show_base_value Let_def)
qed

text \<open>C38: Every 64-bit number written in decimal, or in hexadecimal behind 0x, is read back as
  that number.\<close>

theorem number_roundtrip:
  assumes "n < 2 ^ 64"
  shows "parse_u64 (show_base 10 n) = Some (of_nat n) \<and> parse_u64 (''0x'' @ show_base 16 n) = Some (of_nat n)"
  using assms by (simp add: parse_decimal parse_hex del: append_Cons append_Nil)

lemma number_roundtrip_witness: "parse_u64 (show_base 10 2147483648) = Some 2147483648"
  using number_roundtrip [of 2147483648] by simp

text \<open>A minus sign is accepted: the value wraps around.\<close>

lemma negative_accepted: "parse_u64 ''-1'' = Some 18446744073709551615"
  by (simp add: parse_u64_def stoull_def is_space_def has_hex_prefix_def is_digit_def digit_value_def number_value_def Let_def)

section \<open>The window of the commit trace\<close>

lemma no_colon: "list_all (\<lambda>c. c \<noteq> CHR '':'') (show_base 10 n)"
proof -
  have "digit_value (CHR '':'') = None" by (simp add: digit_value_def)
  then have "\<not> is_digit 10 (CHR '':'')" by (simp add: is_digit_def)
  then show ?thesis using show_base_digits [of 10 n] by (auto simp: list_all_iff)
qed

lemma range_decimal:
  assumes "lo < 2 ^ 64" "hi < 2 ^ 64"
  shows "parse_commit_trace_range (show_base 10 lo @ '':'' @ show_base 10 hi)
    = (if lo \<le> hi then Some (of_nat lo, of_nat hi) else None)"
proof -
  let ?l = "show_base 10 lo" and ?h = "show_base 10 hi"
  have t: "takeWhile (\<lambda>d. d \<noteq> CHR '':'') (?l @ '':'' @ ?h) = ?l"
    using no_colon [of lo] by (subst takeWhile_append2) (auto simp: list_all_iff)
  have f: "find_char (CHR '':'') (?l @ '':'' @ ?h) = Some (length ?l)"
    unfolding find_char_def t Let_def by simp
  have ne: "?l \<noteq> []" "?h \<noteq> []" using show_base_digits [of 10] by auto
  have "(of_nat hi :: u64) < of_nat lo \<longleftrightarrow> hi < lo"
    using assms by (simp add: word_less_nat_alt unat_of_nat)
  then show ?thesis using ne assms
    by (simp add: parse_commit_trace_range_def f [simplified] parse_decimal)
qed

lemma starts_with_append [simp]: "starts_with p (p @ s)"
  by (simp add: starts_with_def)

lemma after_append [simp]: "after p (p @ s) = s"
  by (simp add: after_def)

text \<open>A window given as \<open>--commit-trace=LO:HI\<close> in decimal is set exactly as written when
  its bounds are in order, and the argument is ignored as a whole when they are not; nothing
  else is consumed.\<close>

lemma trace_window_correct:
  assumes "lo < 2 ^ 64" "hi < 2 ^ 64"
  shows "parse_args_loop ((''--commit-trace='' @ show_base 10 lo @ '':'' @ show_base 10 hi) # rest) a
    = parse_args_loop rest (if lo \<le> hi
        then a\<lparr>commit_trace := True, commit_trace_start := of_nat lo, commit_trace_end := of_nat hi\<rparr> else a)"
proof -
  have r: "parse_commit_trace_range (after ''--commit-trace='' (''--commit-trace='' @ show_base 10 lo @ '':'' @ show_base 10 hi))
      = (if lo \<le> hi then Some (of_nat lo, of_nat hi) else None)"
    by (simp only: after_append range_decimal [OF assms])
  have "parse_arg (''--commit-trace='' @ show_base 10 lo @ '':'' @ show_base 10 hi) rest a
     = parse_arg_tail (''--commit-trace='' @ show_base 10 lo @ '':'' @ show_base 10 hi) rest a"
    by (simp add: parse_arg_def starts_with_def)
  also have "\<dots> = (if lo \<le> hi then a\<lparr>commit_trace := True, commit_trace_start := of_nat lo, commit_trace_end := of_nat hi\<rparr> else a, 0)"
    unfolding parse_arg_tail_def r by (simp del: append_Cons append_Nil append_assoc add: starts_with_append)
  finally show ?thesis by (simp del: append_Cons append_Nil append_assoc)
qed

text \<open>The usage line also offers \<open>--commit-trace START END\<close>; a number alone already is a window
  of one cycle, so END becomes the image.\<close>

lemma plain_argument:
  assumes "hd s \<noteq> CHR ''-''" "s \<noteq> []"
  shows "parse_args_loop (s # rest) a = parse_args_loop rest (a\<lparr>img_path := s\<rparr>)"
proof -
  obtain c t where s: "s = c # t" "c \<noteq> CHR ''-''" using assms by (cases s) auto
  have "parse_arg s rest a = (a\<lparr>img_path := s\<rparr>, 0)"
    using s by (simp add: parse_arg_def parse_arg_tail_def starts_with_def)
  then show ?thesis by simp
qed

lemma number_argument:
  shows "show_base 10 n \<noteq> []" "hd (show_base 10 n) \<noteq> CHR ''-''"
proof -
  show ne: "show_base 10 n \<noteq> []" using show_base_digits [of 10 n] by simp
  obtain d where "hd (show_base 10 n) = digit_char d" "d < 10"
    using show_base_head [of 10 n] by auto
  then show "hd (show_base 10 n) \<noteq> CHR ''-''" using digit_char_plain [of d] by simp
qed

lemma range_single: "n < 2 ^ 64 \<Longrightarrow> parse_commit_trace_range (show_base 10 n) = Some (of_nat n, of_nat n)"
  using no_colon [of n]
  by (simp add: parse_commit_trace_range_def find_char_def parse_decimal list_all_iff
      takeWhile_eq_all_conv [THEN iffD2] Let_def)

lemma start_end_form:
  assumes "lo < 2 ^ 64"
  shows "parse_args_loop [''--commit-trace'', show_base 10 lo, show_base 10 hi] a
    = a\<lparr>commit_trace := True, commit_trace_start := of_nat lo, commit_trace_end := of_nat lo,
        img_path := show_base 10 hi\<rparr>"
proof -
  have "parse_arg ''--commit-trace'' [show_base 10 lo, show_base 10 hi] a
    = (a\<lparr>commit_trace := True, commit_trace_start := of_nat lo, commit_trace_end := of_nat lo\<rparr>, 1)"
    using number_argument [of lo] assms
    by (simp add: parse_arg_def starts_with_def parse_commit_trace_def no_dash_def range_single Let_def)
  then have "parse_args_loop [''--commit-trace'', show_base 10 lo, show_base 10 hi] a
    = parse_args_loop [show_base 10 hi]
        (a\<lparr>commit_trace := True, commit_trace_start := of_nat lo, commit_trace_end := of_nat lo\<rparr>)"
    by simp
  then show ?thesis
    by (simp only: plain_argument [OF number_argument(2) number_argument(1)] parse_args_loop.simps(1))
qed

section \<open>The two forms of an option\<close>

text \<open>An option that takes a value means the same with the value behind an equals sign and
  with the value as the next argument, for every path and for every value that is a number.\<close>

lemma option_forms_agree:
  assumes "parse_u64 v \<noteq> None"
  shows "parse_args_loop (''--dtb'' # p # rest) a = parse_args_loop ((''--dtb='' @ p) # rest) a
    \<and> parse_args_loop (''-d'' # p # rest) a = parse_args_loop ((''--difftest='' @ p) # rest) a
    \<and> parse_args_loop (''--virtio-blk-image'' # p # rest) a = parse_args_loop ((''--virtio-blk-image='' @ p) # rest) a
    \<and> parse_args_loop (''--firmware-load-base'' # v # rest) a = parse_args_loop ((''--firmware-load-base='' @ v) # rest) a
    \<and> parse_args_loop (''--max-cycles'' # v # rest) a = parse_args_loop ((''--max-cycles='' @ v) # rest) a
    \<and> parse_args_loop (''--commit-trace-start'' # v # rest) a = parse_args_loop ((''--commit-trace-start='' @ v) # rest) a
    \<and> parse_args_loop (''--commit-trace-end'' # v # rest) a = parse_args_loop ((''--commit-trace-end='' @ v) # rest) a
    \<and> parse_args_loop (''--stall-trace'' # v # rest) a = parse_args_loop ((''--stall-trace='' @ v) # rest) a"
  using assms
  by (intro conjI) (auto simp: parse_arg_def parse_arg_tail_def starts_with_def after_def set_u64_def)

end
