(* ===== verification/Npc_Profile.thy ===== *)
theory Npc_Profile
  imports Npc_Ports Npc_Args
begin

text \<open>
  The profile collector of the simulator: the counters it keeps each cycle, at each flush and at
  each commit (\<open>src/npc/csrc/include/profile_collector.h\<close> and
  \<open>src/npc/csrc/lib/profile_collector_runtime.cpp\<close>). The lines it prints are a log of what they
  report (of the flush line the fields computed here); the summary at the end only prints the
  counters and is left out.
\<close>

section \<open>State\<close>

datatype profile_line =
    FlushLine u64 string string u32 u32 u32 string string u32 u32
  | PenaltyLine u64 string u64
  | StallLine u64 u64

record profile_config =
  profile_args :: sim_args
  cfg_instr_per_fetch :: u32
  cfg_commit_width :: u32
  cfg_commit_mask :: u32

record profile_commits =
  total_commits :: u64
  last_commit_pc :: u32
  last_commit_inst :: u32
  last_commit_decoded_inst :: u32
  last_commit_is_rvc :: bool
  has_prev_commit :: bool
  prev_commit_pc :: u32
  prev_commit_inst :: u32
  commit_pc_hist :: "u32 \<Rightarrow> u64"
  commit_inst_hist :: "u32 \<Rightarrow> u64"
  commit_width_hist :: "u64 list"

record profile_pred = profile_commits +
  pred_cond_total :: u64
  pred_cond_miss :: u64
  pred_jump_total :: u64
  pred_jump_miss :: u64
  pred_jump_direct_total :: u64
  pred_jump_direct_miss :: u64
  pred_jump_indirect_total :: u64
  pred_jump_indirect_miss :: u64
  pred_ret_total :: u64
  pred_ret_miss :: u64
  pred_call_total :: u64

record profile_control = profile_pred +
  control_branch_count :: u64
  control_jal_count :: u64
  control_jalr_count :: u64
  control_branch_taken_count :: u64
  control_call_count :: u64
  control_ret_count :: u64
  redirect_distance_sum :: u64
  redirect_distance_samples :: u64
  redirect_distance_max :: u64
  wrong_path_killed_uops :: u64
  pending_flush_penalty :: bool
  pending_flush_cycle :: u64
  pending_flush_reason :: string

record profile_queue = profile_control +
  ifu_fq_enq :: u64
  ifu_fq_deq :: u64
  ifu_fq_bypass :: u64
  ifu_fq_enq_blocked :: u64
  ifu_fq_full_cycles :: u64
  ifu_fq_empty_cycles :: u64
  ifu_fq_nonempty_cycles :: u64
  ifu_fq_occ_sum :: u64
  ifu_fq_occ_max :: u64
  ifu_fq_occ_hist :: "nat \<Rightarrow> u64"

record profile = profile_queue +
  stall_cycle_hist :: "nat \<Rightarrow> u64"
  stall_frontend_empty_hist :: "nat \<Rightarrow> u64"
  stall_decode_blocked_detail_hist :: "string \<Rightarrow> u64"
  stall_rob_backpressure_detail_hist :: "string \<Rightarrow> u64"
  stall_other_detail_hist :: "string \<Rightarrow> u64"
  branch_ready_not_issued_cycles :: u64
  alu_ready_not_issued_cycles :: u64
  complete_not_visible_cycles :: u64
  profile_log :: "profile_line list"

definition make_low_mask :: "u32 \<Rightarrow> u32" where
  "make_low_mask width =
    (if width = 0 then 0 else if 32 \<le> width then 0xFFFFFFFF else push_bit (unat width) 1 - 1)"

definition ProfileCollector_config :: "sim_args \<Rightarrow> u32 \<Rightarrow> u32 \<Rightarrow> profile_config" where
  "ProfileCollector_config a fetch width =
    \<lparr>profile_args = a, cfg_instr_per_fetch = fetch, cfg_commit_width = width,
     cfg_commit_mask = make_low_mask width\<rparr>"

definition ProfileCollector_init :: "u32 \<Rightarrow> profile" where
  "ProfileCollector_init width =
    \<lparr>total_commits = 0, last_commit_pc = 0, last_commit_inst = 0, last_commit_decoded_inst = 0,
     last_commit_is_rvc = False, has_prev_commit = False, prev_commit_pc = 0, prev_commit_inst = 0,
     commit_pc_hist = (\<lambda>_. 0), commit_inst_hist = (\<lambda>_. 0),
     commit_width_hist = replicate (unat (max 5 (width + 1))) 0,
     pred_cond_total = 0, pred_cond_miss = 0, pred_jump_total = 0, pred_jump_miss = 0,
     pred_jump_direct_total = 0, pred_jump_direct_miss = 0, pred_jump_indirect_total = 0,
     pred_jump_indirect_miss = 0, pred_ret_total = 0, pred_ret_miss = 0, pred_call_total = 0,
     control_branch_count = 0, control_jal_count = 0, control_jalr_count = 0,
     control_branch_taken_count = 0, control_call_count = 0, control_ret_count = 0,
     redirect_distance_sum = 0, redirect_distance_samples = 0, redirect_distance_max = 0,
     wrong_path_killed_uops = 0, pending_flush_penalty = False, pending_flush_cycle = 0,
     pending_flush_reason = ''unknown'',
     ifu_fq_enq = 0, ifu_fq_deq = 0, ifu_fq_bypass = 0, ifu_fq_enq_blocked = 0, ifu_fq_full_cycles = 0,
     ifu_fq_empty_cycles = 0, ifu_fq_nonempty_cycles = 0, ifu_fq_occ_sum = 0, ifu_fq_occ_max = 0,
     ifu_fq_occ_hist = (\<lambda>_. 0),
     stall_cycle_hist = (\<lambda>_. 0), stall_frontend_empty_hist = (\<lambda>_. 0),
     stall_decode_blocked_detail_hist = (\<lambda>_. 0), stall_rob_backpressure_detail_hist = (\<lambda>_. 0),
     stall_other_detail_hist = (\<lambda>_. 0), branch_ready_not_issued_cycles = 0,
     alu_ready_not_issued_cycles = 0, complete_not_visible_cycles = 0, profile_log = []\<rparr>"

section \<open>Windows and instruction classes\<close>

definition commit_trace_window_active :: "sim_args \<Rightarrow> u64 \<Rightarrow> bool" where
  "commit_trace_window_active a cycle =
    (if \<not> commit_trace a then False
     else if cycle < commit_trace_start a then False
     else if commit_trace_end a \<noteq> 0 \<and> commit_trace_end a < cycle then False
     else True)"

definition should_log_verbose_flush :: "sim_args \<Rightarrow> u64 \<Rightarrow> bool" where
  "should_log_verbose_flush a cycle =
    (if commit_trace a then commit_trace_window_active a cycle
     else if bru_trace a then True
     else False)"

definition is_call_inst :: "u32 \<Rightarrow> bool" where
  "is_call_inst inst =
    (let opcode = inst AND 0x7f; rd = drop_bit 7 inst AND 0x1f in
     if opcode = 0x6f \<or> opcode = 0x67 then rd = 1 \<or> rd = 5 else False)"

definition is_ret_inst :: "u32 \<Rightarrow> bool" where
  "is_ret_inst inst =
    (let opcode = inst AND 0x7f in
     if opcode \<noteq> 0x67 then False
     else
       (let rd = drop_bit 7 inst AND 0x1f; rs1 = drop_bit 15 inst AND 0x1f;
            imm12 = drop_bit 20 inst AND 0xfff
        in rd = 0 \<and> (rs1 = 1 \<or> rs1 = 5) \<and> imm12 = 0))"

definition is_indirect_jump_inst :: "u32 \<Rightarrow> bool" where
  "is_indirect_jump_inst inst =
    (let opcode = inst AND 0x7f in
     if opcode \<noteq> 0x67 then False
     else if is_call_inst inst \<or> is_ret_inst inst then False
     else True)"

definition popcount :: "u32 \<Rightarrow> nat" where
  "popcount v = length (List.filter (bit v) [0..<32])"

definition popcount_commit :: "profile_config \<Rightarrow> u32 \<Rightarrow> u32" where
  "popcount_commit cfg v = of_nat (popcount (v AND cfg_commit_mask cfg))"

section \<open>Each cycle\<close>

definition bump :: "bool \<Rightarrow> u64" where
  "bump b = (if b then 1 else 0)"

definition count_at :: "'k \<Rightarrow> ('k \<Rightarrow> u64) \<Rightarrow> 'k \<Rightarrow> u64" where
  "count_at k h = h(k := h k + 1)"

definition observe_cycle :: "('z) fq_ports_scheme \<Rightarrow> profile \<Rightarrow> profile" where
  "observe_cycle tp p =
    (let fq_count = dbg_ifu_fq_count_o tp;
         fq_count = (if 16 \<le> fq_count then 15 else fq_count)
     in p\<lparr>ifu_fq_occ_sum := ifu_fq_occ_sum p + ucast fq_count,
          ifu_fq_occ_hist := count_at (unat fq_count) (ifu_fq_occ_hist p),
          ifu_fq_occ_max := max (ifu_fq_occ_max p) (ucast fq_count),
          ifu_fq_full_cycles := ifu_fq_full_cycles p + bump (dbg_ifu_fq_full_o tp),
          ifu_fq_empty_cycles := ifu_fq_empty_cycles p + bump (dbg_ifu_fq_empty_o tp),
          ifu_fq_nonempty_cycles := ifu_fq_nonempty_cycles p + bump (\<not> dbg_ifu_fq_empty_o tp),
          ifu_fq_enq := ifu_fq_enq p + bump (dbg_ifu_fq_enq_fire_o tp),
          ifu_fq_deq := ifu_fq_deq p + bump (dbg_ifu_fq_deq_fire_o tp),
          ifu_fq_bypass := ifu_fq_bypass p + bump (dbg_ifu_fq_bypass_fire_o tp),
          ifu_fq_enq_blocked := ifu_fq_enq_blocked p + bump (dbg_ifu_fq_enq_blocked_o tp)\<rparr>)"

section \<open>A flush\<close>

definition flush_reason_of :: "('z) flush_ports_scheme \<Rightarrow> string" where
  "flush_reason_of tp =
    (if dbg_rob_flush_o tp then
       if dbg_rob_flush_is_mispred_o tp then ''branch_mispredict''
       else if dbg_rob_flush_is_exception_o tp then ''exception''
       else ''rob_other''
     else ''external'')"

text \<open>The miss counters of a mispredicted branch, with its type and subtype.\<close>

definition record_miss :: "('z) flush_ports_scheme \<Rightarrow> unified_mem \<Rightarrow> profile \<Rightarrow> profile \<times> string \<times> string" where
  "record_miss tp m p =
    (if flush_reason_of tp = ''branch_mispredict'' then
       if dbg_rob_flush_is_jump_o tp then
         (let src_inst = read_word_const (dbg_rob_flush_src_pc_o tp) m in
          if is_ret_inst src_inst then
            (p\<lparr>pred_ret_miss := pred_ret_miss p + 1\<rparr>, ''return'', ''return'')
          else if is_indirect_jump_inst src_inst then
            (p\<lparr>pred_jump_miss := pred_jump_miss p + 1,
               pred_jump_indirect_miss := pred_jump_indirect_miss p + 1\<rparr>, ''jump'', ''jump_indirect'')
          else
            (p\<lparr>pred_jump_miss := pred_jump_miss p + 1,
               pred_jump_direct_miss := pred_jump_direct_miss p + 1\<rparr>, ''jump'', ''jump_direct''))
       else if dbg_rob_flush_is_branch_o tp then
         (p\<lparr>pred_cond_miss := pred_cond_miss p + 1\<rparr>, ''cond_branch'', ''cond_branch'')
       else (p, ''control_unknown'', ''control_unknown'')
     else (p, ''none'', ''none''))"

definition redirect_distance :: "('z) flush_ports_scheme \<Rightarrow> u32" where
  "redirect_distance tp =
    (let src_pc = dbg_rob_flush_src_pc_o tp; redirect_pc = backend_redirect_pc_o tp in
     if src_pc \<le> redirect_pc then redirect_pc - src_pc else src_pc - redirect_pc)"

definition killed_uops :: "profile_config \<Rightarrow> ('z) rob_ports_scheme \<Rightarrow> u32" where
  "killed_uops cfg tp =
    (let commit_pop = popcount_commit cfg (commit_valid_o tp); rob_count = dbg_rob_count_o tp in
     if commit_pop \<le> rob_count then rob_count - commit_pop else 0)"

definition record_flush :: "profile_config \<Rightarrow> u64 \<Rightarrow> ('z) rob_ports_scheme \<Rightarrow> unified_mem \<Rightarrow> profile \<Rightarrow> profile" where
  "record_flush cfg cycles tp m p =
    (let a = profile_args cfg in
     if \<not> (commit_trace a \<or> bru_trace a) \<or> \<not> backend_flush_o tp then p
     else
       (let reason = flush_reason_of tp;
            source = (if dbg_rob_flush_o tp then ''rob'' else ''external'');
            cause = dbg_rob_flush_cause_o tp AND 0x1f;
            r = record_miss tp m p;
            p = fst r; miss_type = fst (snd r); miss_subtype = snd (snd r);
            dist = redirect_distance tp;
            p = p\<lparr>redirect_distance_sum := redirect_distance_sum p + ucast dist,
                  redirect_distance_samples := redirect_distance_samples p + 1,
                  redirect_distance_max := max (redirect_distance_max p) (ucast dist)\<rparr>;
            killed = killed_uops cfg tp;
            p = p\<lparr>wrong_path_killed_uops := wrong_path_killed_uops p
                    + (if reason = ''branch_mispredict'' then ucast killed else 0)\<rparr>
        in if \<not> should_log_verbose_flush a cycles then p
           else
             (let p = p\<lparr>profile_log := profile_log p @ [FlushLine cycles reason source cause
                          (dbg_rob_flush_src_pc_o tp) (backend_redirect_pc_o tp)
                          miss_type miss_subtype dist killed]\<rparr>
              in if \<not> pending_flush_penalty p
                 then p\<lparr>pending_flush_penalty := True, pending_flush_cycle := cycles, pending_flush_reason := reason\<rparr>
                 else p)))"

section \<open>A commit\<close>

text \<open>The statistics of the instruction before, now that its successor is known.\<close>

definition record_prev :: "u32 \<Rightarrow> profile \<Rightarrow> profile" where
  "record_prev pc p =
    (if has_prev_commit p then
       (let prev_opcode = prev_commit_inst p AND 0x7f; expected_next = prev_commit_pc p + 4 in
        p\<lparr>control_branch_count := control_branch_count p + bump (prev_opcode = 0x63),
          control_branch_taken_count := control_branch_taken_count p
            + bump (prev_opcode = 0x63 \<and> pc \<noteq> expected_next),
          control_jal_count := control_jal_count p + bump (prev_opcode = 0x6f),
          control_jalr_count := control_jalr_count p + bump (prev_opcode = 0x67),
          control_call_count := control_call_count p + bump (is_call_inst (prev_commit_inst p)),
          control_ret_count := control_ret_count p + bump (is_ret_inst (prev_commit_inst p))\<rparr>)
     else p)"

definition record_class :: "u32 \<Rightarrow> profile \<Rightarrow> profile" where
  "record_class decoded p =
    (let opcode = decoded AND 0x7f;
         jump = (opcode = 0x6f \<or> opcode = 0x67);
         ret = is_ret_inst decoded; ind = is_indirect_jump_inst decoded
     in p\<lparr>pred_cond_total := pred_cond_total p + bump (opcode = 0x63),
          pred_ret_total := pred_ret_total p + bump (jump \<and> ret),
          pred_jump_total := pred_jump_total p + bump (jump \<and> \<not> ret),
          pred_jump_indirect_total := pred_jump_indirect_total p + bump (jump \<and> \<not> ret \<and> ind),
          pred_jump_direct_total := pred_jump_direct_total p + bump (jump \<and> \<not> ret \<and> \<not> ind),
          pred_call_total := pred_call_total p + bump (is_call_inst decoded)\<rparr>)"

definition record_commit :: "u32 \<Rightarrow> u32 \<Rightarrow> u32 \<Rightarrow> bool \<Rightarrow> profile \<Rightarrow> profile" where
  "record_commit pc raw decoded rvc p =
    (let p = p\<lparr>total_commits := total_commits p + 1,
               commit_pc_hist := count_at pc (commit_pc_hist p),
               commit_inst_hist := count_at raw (commit_inst_hist p)\<rparr>;
         p = record_prev pc p;
         p = p\<lparr>has_prev_commit := True, prev_commit_pc := pc, prev_commit_inst := decoded\<rparr>;
         p = record_class decoded p
     in p\<lparr>last_commit_pc := pc, last_commit_inst := raw, last_commit_decoded_inst := decoded,
          last_commit_is_rvc := rvc\<rparr>)"

definition record_commit_width :: "profile_config \<Rightarrow> u32 \<Rightarrow> profile \<Rightarrow> profile" where
  "record_commit_width cfg n p =
    (let i = unat (min n (cfg_commit_width cfg)) in
     p\<lparr>commit_width_hist := (commit_width_hist p)[i := commit_width_hist p ! i + 1]\<rparr>)"

definition on_commit_cycle :: "profile_config \<Rightarrow> u64 \<Rightarrow> profile \<Rightarrow> profile" where
  "on_commit_cycle cfg cycles p =
    (let a = profile_args cfg in
     if (commit_trace a \<or> bru_trace a) \<and> pending_flush_penalty p \<and> pending_flush_cycle p < cycles then
       (let p = (if should_log_verbose_flush a cycles
                 then p\<lparr>profile_log := profile_log p @
                          [PenaltyLine cycles (pending_flush_reason p) (cycles - pending_flush_cycle p)]\<rparr>
                 else p)
        in p\<lparr>pending_flush_penalty := False\<rparr>)
     else p)"

section \<open>Counters\<close>

lemma sum_count_at [simp]: "finite A \<Longrightarrow> k \<in> A \<Longrightarrow> (\<Sum>x\<in>A. count_at k h x) = (\<Sum>x\<in>A. h x) + 1"
  by (simp add: count_at_def sum.remove [of A k] algebra_simps)

lemma count_at_other [simp]:
  "j \<noteq> k \<Longrightarrow> count_at k h j = h j" "k \<noteq> j \<Longrightarrow> count_at k h j = h j"
  by (simp_all add: count_at_def)

lemma bump_simps [simp]: "bump True = 1" "bump False = 0"
  by (simp_all add: bump_def)

lemma bump_not: "bump (\<not> b) = 1 - bump b"
  by (simp add: bump_def)

text \<open>A counter that every step moves by one on certain events counts those events.\<close>

lemma counter_counts:
  assumes "\<And>s e. f (step s e) = f s + bump (P e)"
  shows "f (fold (\<lambda>e s. step s e) es s) = f s + of_nat (length (List.filter P es))"
  by (induction es arbitrary: s) (simp_all add: assms bump_def)

lemma popcount_le: "popcount (v AND make_low_mask w) \<le> unat w"
proof (cases "32 \<le> w")
  case True
  have "popcount x \<le> length [0..<32]" for x
    unfolding popcount_def by (rule length_filter_le)
  from this [of "v AND make_low_mask w"] show ?thesis using True
    by (simp add: word_le_nat_alt order_trans [of _ 32])
next
  case False
  then have w: "unat w < 32" by (simp add: word_le_nat_alt)
  have m: "make_low_mask w = mask (unat w)"
    using False by (simp add: make_low_mask_def mask_eq_exp_minus_1)
  have "{i. i < 32 \<and> bit (v AND mask (unat w)) i} \<subseteq> {..<unat w}"
    by (auto simp: bit_and_iff bit_mask_iff)
  then have "card {i. i < 32 \<and> bit (v AND mask (unat w)) i} \<le> unat w"
    by (metis card_lessThan card_mono finite_lessThan)
  moreover have "popcount x = card {i. i < 32 \<and> bit x i}" for x
  proof -
    have "List.set (List.filter (bit x) [0..<32]) = {i. i < 32 \<and> bit x i}" by auto
    then show ?thesis unfolding popcount_def by (metis distinct_card distinct_filter distinct_upt)
  qed
  ultimately show ?thesis by (simp only: m)
qed

section \<open>Classes of jumps\<close>

text \<open>A return is no call, and an indirect jump is neither.\<close>

lemma jump_classes:
  "is_ret_inst i \<Longrightarrow> \<not> is_call_inst i" "is_indirect_jump_inst i \<Longrightarrow> \<not> is_call_inst i \<and> \<not> is_ret_inst i"
  by (auto simp: is_ret_inst_def is_call_inst_def is_indirect_jump_inst_def Let_def)

text \<open>An indirect call, here \<open>jalr ra, 0(a5)\<close>, is counted with the direct jumps.\<close>

lemma indirect_call_counted_direct:
  "is_call_inst 0x000780e7"
  "pred_jump_direct_total (record_commit pc raw 0x000780e7 rvc p) = pred_jump_direct_total p + 1"
  by (simp_all add: is_call_inst_def is_ret_inst_def is_indirect_jump_inst_def record_commit_def record_class_def record_prev_def Let_def)

text \<open>The branch after which the next address follows it by two, a compressed branch that is not
  taken, is counted as taken.\<close>

lemma compressed_branch_counted_taken:
  "control_branch_taken_count (record_commit (pc + 2) raw' d' True (record_commit pc raw 0x00050063 True p))
    = control_branch_taken_count (record_commit pc raw 0x00050063 True p) + 1"
  by (simp add: record_commit_def record_class_def record_prev_def Let_def bump_def)

end
