(* ===== verification/Npc_Stall.thy ===== *)
theory Npc_Stall
  imports Npc_Profile
begin

text \<open>
  The cycles without a commit (\<open>src/npc/csrc/lib/profile_collector_stall.cpp\<close>): why the processor
  stalls, in more detail for four of the reasons, and how the collector counts it. The condition
  under which the long line of port values is printed is part of the model, the line is not.
\<close>

section \<open>Reasons\<close>

abbreviation kStallFlushRecovery :: nat where "kStallFlushRecovery \<equiv> 0"
abbreviation kStallICacheMissWait :: nat where "kStallICacheMissWait \<equiv> 1"
abbreviation kStallDCacheMissWait :: nat where "kStallDCacheMissWait \<equiv> 2"
abbreviation kStallROBBackpressure :: nat where "kStallROBBackpressure \<equiv> 3"
abbreviation kStallFrontendEmpty :: nat where "kStallFrontendEmpty \<equiv> 4"
abbreviation kStallDecodeBlocked :: nat where "kStallDecodeBlocked \<equiv> 5"
abbreviation kStallLSUReqBlocked :: nat where "kStallLSUReqBlocked \<equiv> 6"
abbreviation kStallOther :: nat where "kStallOther \<equiv> 7"

definition classify_stall_cycle :: "top_ports \<Rightarrow> nat" where
  "classify_stall_cycle tp =
    (let pipe_bus_valid = dbg_pipe_bus_valid_o tp;
         mem_bus_valid = dbg_mem_bus_valid_o tp;
         rob_ready = (if pipe_bus_valid then dbg_pipe_bus_rob_ready_o tp else dbg_rob_ready_o tp);
         dec_valid = (if pipe_bus_valid then dbg_pipe_bus_dec_valid_o tp else dbg_dec_valid_o tp);
         dec_ready = (if pipe_bus_valid then dbg_pipe_bus_dec_ready_o tp else dbg_dec_ready_o tp);
         lsu_issue_valid = (if mem_bus_valid then dbg_mem_bus_lsu_issue_valid_o tp else dbg_lsu_issue_valid_o tp);
         lsu_req_ready = (if mem_bus_valid then dbg_mem_bus_lsu_req_ready_o tp else dbg_lsu_req_ready_o tp)
     in if backend_flush_o tp then kStallFlushRecovery
        else if icache_miss_req_valid_o tp then kStallICacheMissWait
        else if dcache_miss_req_valid_o tp then kStallDCacheMissWait
        else if \<not> rob_ready then kStallROBBackpressure
        else if \<not> dec_valid then kStallFrontendEmpty
        else if dec_valid \<and> \<not> dec_ready then kStallDecodeBlocked
        else if lsu_issue_valid \<and> \<not> lsu_req_ready then kStallLSUReqBlocked
        else kStallOther)"

abbreviation kFeNoReq :: nat where "kFeNoReq \<equiv> 0"
abbreviation kFeWaitICacheRspHitLatency :: nat where "kFeWaitICacheRspHitLatency \<equiv> 1"
abbreviation kFeWaitICacheRspMissWait :: nat where "kFeWaitICacheRspMissWait \<equiv> 2"
abbreviation kFeRspBlockedByFQFull :: nat where "kFeRspBlockedByFQFull \<equiv> 3"
abbreviation kFeWaitIbufferConsume :: nat where "kFeWaitIbufferConsume \<equiv> 4"
abbreviation kFeRedirectRecovery :: nat where "kFeRedirectRecovery \<equiv> 5"
abbreviation kFeRspCaptureBubble :: nat where "kFeRspCaptureBubble \<equiv> 6"
abbreviation kFeHasDataDecodeGap :: nat where "kFeHasDataDecodeGap \<equiv> 7"
abbreviation kFeOther :: nat where "kFeOther \<equiv> 8"
abbreviation kFeDropStaleRsp :: nat where "kFeDropStaleRsp \<equiv> 9"
abbreviation kFeNoReqReqQEmpty :: nat where "kFeNoReqReqQEmpty \<equiv> 10"
abbreviation kFeNoReqInfFull :: nat where "kFeNoReqInfFull \<equiv> 11"
abbreviation kFeNoReqStorageBudget :: nat where "kFeNoReqStorageBudget \<equiv> 12"
abbreviation kFeNoReqFlushBlock :: nat where "kFeNoReqFlushBlock \<equiv> 13"
abbreviation kFeNoReqOther :: nat where "kFeNoReqOther \<equiv> 14"
abbreviation kFeReqFireNoInflight :: nat where "kFeReqFireNoInflight \<equiv> 15"
abbreviation kFeRspNoInflight :: nat where "kFeRspNoInflight \<equiv> 16"
abbreviation kFeFQNonemptyNoFeValid :: nat where "kFeFQNonemptyNoFeValid \<equiv> 17"
abbreviation kFeReqReadyNoFire :: nat where "kFeReqReadyNoFire \<equiv> 18"

definition classify_frontend_empty_cycle :: "top_ports \<Rightarrow> nat" where
  "classify_frontend_empty_cycle tp =
    (let fe_valid = (if dbg_pipe_bus_valid_o tp then dbg_pipe_bus_fe_valid_o tp else dbg_fe_valid_o tp);
         fe_ready = dbg_fe_ready_o tp;
         ifu_req_valid = dbg_ifu_req_valid_o tp;
         ifu_req_ready = dbg_ifu_req_ready_o tp;
         ifu_req_fire = dbg_ifu_req_fire_o tp;
         ifu_req_inflight = dbg_ifu_req_inflight_o tp;
         ifu_rsp_valid = dbg_ifu_rsp_valid_o tp;
         ifu_rsp_capture = dbg_ifu_rsp_capture_o tp;
         ifu_fq_full = dbg_ifu_fq_full_o tp;
         ifu_fq_empty = dbg_ifu_fq_empty_o tp
     in if fe_valid \<and> \<not> fe_ready then kFeWaitIbufferConsume
        else if fe_valid \<and> fe_ready then kFeHasDataDecodeGap
        else if ifu_req_inflight \<and> ifu_rsp_valid \<and> ifu_rsp_capture then kFeRspCaptureBubble
        else if dbg_ifu_drop_stale_rsp_o tp then kFeDropStaleRsp
        else if ifu_rsp_valid \<and> \<not> ifu_rsp_capture \<and> ifu_fq_full then kFeRspBlockedByFQFull
        else if ifu_req_inflight \<and> \<not> ifu_rsp_valid then
          (if dbg_icache_state_o tp = 2 \<or> dbg_icache_state_o tp = 3 then kFeWaitICacheRspMissWait
           else kFeWaitICacheRspHitLatency)
        else if \<not> ifu_req_inflight \<and> ifu_fq_empty \<and> \<not> ifu_req_valid then
          (if dbg_ifu_block_flush_o tp then kFeNoReqFlushBlock
           else if dbg_ifu_block_reqq_empty_o tp then kFeNoReqReqQEmpty
           else if dbg_ifu_block_inf_full_o tp then kFeNoReqInfFull
           else if dbg_ifu_block_storage_budget_o tp then kFeNoReqStorageBudget
           else if \<not> ifu_req_ready then kFeRedirectRecovery
           else kFeNoReqOther)
        else if \<not> ifu_req_fire \<and> ifu_req_valid \<and> \<not> ifu_req_ready then kFeRedirectRecovery
        else if ifu_req_fire \<and> \<not> ifu_req_inflight \<and> \<not> ifu_rsp_valid then kFeReqFireNoInflight
        else if ifu_rsp_valid \<and> \<not> ifu_rsp_capture \<and> \<not> ifu_req_inflight then kFeRspNoInflight
        else if \<not> ifu_fq_empty \<and> \<not> fe_valid then kFeFQNonemptyNoFeValid
        else if ifu_req_valid \<and> ifu_req_ready \<and> \<not> ifu_req_fire then kFeReqReadyNoFire
        else kFeOther)"

section \<open>Details of a blocked decoder\<close>

text \<open>The dispatch gates in the order of their priority, each with its gate, its demand and the name.\<close>

definition gate_priority :: "top_ports \<Rightarrow> (bool \<times> u32 \<times> string) list" where
  "gate_priority tp =
    [(dbg_gate_lsu_o tp, dbg_need_lsu_o tp, ''dispatch_gate_lsu''),
     (dbg_gate_alu_o tp, dbg_need_alu_o tp, ''dispatch_gate_alu''),
     (dbg_gate_bru_o tp, dbg_need_bru_o tp, ''dispatch_gate_bru''),
     (dbg_gate_csr_o tp, dbg_need_csr_o tp, ''dispatch_gate_csr''),
     (dbg_gate_mdu_o tp, dbg_need_mdu_o tp, ''dispatch_gate_mdu'')]"

definition classify_decode_blocked_detail_cycle :: "profile_config \<Rightarrow> top_ports \<Rightarrow> string" where
  "classify_decode_blocked_detail_cycle cfg tp =
    (let kPendingReplayFullSrc = cfg_instr_per_fetch cfg;
         has_rs2 = dbg_lsu_rs_head_has_rs2_o tp; rs2_ready = dbg_lsu_rs_head_r2_ready_o tp
     in if dbg_ren_src_from_pending_o tp then
          (let full = (kPendingReplayFullSrc \<le> dbg_ren_src_count_o tp) in
           if dbg_ren_fire_o tp \<and> 0 < dbg_ren_sel_count_o tp then
             (if full then ''pending_replay_progress_full'' else ''pending_replay_progress_has_room'')
           else (if full then ''pending_replay_wait_full'' else ''pending_replay_wait_has_room''))
        else if dbg_lsu_grp_lane_busy_o tp \<noteq> 0 \<and> \<not> dbg_lsu_grp_alloc_fire_o tp then
          (if dbg_lsu_grp_ld_owner_o tp = 0 then ''lsug_wait_dcache_owner'' else ''lsug_no_free_lane'')
        else if dbg_dc_store_wait_same_line_o tp then ''dc_store_wait_same_line''
        else if dbg_dc_store_wait_mshr_full_o tp then ''dc_store_wait_mshr_full''
        else if dbg_sb_alloc_req_o tp \<noteq> 0 \<and> \<not> dbg_sb_alloc_ready_o tp then ''sb_alloc_blocked''
        else if dbg_lsu_rs_head_valid_o tp \<and>
          ((dbg_lsu_rs_head_has_rs1_o tp \<and> \<not> dbg_lsu_rs_head_r1_ready_o tp) \<or> (has_rs2 \<and> \<not> rs2_ready))
          then ''lsu_operand_wait''
        else if dbg_lsu_rs_busy_o tp \<noteq> 0 \<and> dbg_lsu_rs_ready_o tp = 0 then ''lsu_rs_pressure''
        else if dbg_rob_q2_valid_o tp \<and> \<not> dbg_rob_q2_complete_o tp \<and> has_rs2 \<and> \<not> rs2_ready then ''rob_q2_wait''
        else (case find (\<lambda>(gate, need, _). \<not> gate \<and> 0 < need) (gate_priority tp) of
                Some (_, _, name) \<Rightarrow> name
              | None \<Rightarrow>
                (case find (\<lambda>(gate, _, _). \<not> gate) (gate_priority tp) of
                   Some (_, _, name) \<Rightarrow> name
                 | None \<Rightarrow>
                   if dbg_lsu_state_o tp = 1 \<and> \<not> dbg_lsu_ld_fire_o tp then ''lsu_wait_ld_req''
                   else if dbg_lsu_state_o tp = 2 \<and> \<not> dbg_lsu_rsp_fire_o tp then ''lsu_wait_ld_rsp''
                   else ''other'')))"

section \<open>Details of a full reorder buffer\<close>

definition rob_store_detail :: "top_ports \<Rightarrow> string" where
  "rob_store_detail tp =
    (if \<not> dbg_sb_head_valid_o tp then ''rob_store_wait_sb_head''
     else if \<not> dbg_sb_head_committed_o tp then ''rob_store_wait_commit''
     else if \<not> dbg_sb_head_addr_valid_o tp then ''rob_store_wait_addr''
     else if \<not> dbg_sb_head_data_valid_o tp then ''rob_store_wait_data''
     else if dbg_sb_dcache_req_valid_o tp \<and> \<not> dbg_sb_dcache_req_ready_o tp then ''rob_store_wait_dcache''
     else if \<not> dbg_sb_dcache_req_valid_o tp then ''rob_store_wait_issue''
     else ''rob_store_wait_other'')"

definition rob_ld_req_detail :: "top_in \<Rightarrow> top_ports \<Rightarrow> string" where
  "rob_ld_req_detail ti tp =
    (let rsp_valid = dbg_lsu_ld_rsp_valid_o tp; rsp_ready = dbg_lsu_ld_rsp_ready_o tp;
         owner = dbg_lsu_grp_ld_owner_o tp
     in if owner \<noteq> 0 \<and> rsp_valid \<and> rsp_ready then ''rob_lsu_wait_ld_req_ready_owner_rsp_fire''
        else if owner \<noteq> 0 \<and> \<not> rsp_valid \<and> rsp_ready then ''rob_lsu_wait_ld_req_ready_owner_rsp_valid''
        else if owner \<noteq> 0 \<and> rsp_valid \<and> \<not> rsp_ready then ''rob_lsu_wait_ld_req_ready_owner_rsp_ready''
        else if dbg_sb_dcache_req_valid_o tp \<and> \<not> dbg_sb_dcache_req_ready_o tp
          then ''rob_lsu_wait_ld_req_ready_sb_conflict''
        else if dbg_dc_mshr_full_o tp \<or> \<not> dbg_dc_mshr_alloc_ready_o tp
          then ''rob_lsu_wait_ld_req_ready_mshr_blocked''
        else if dcache_miss_req_valid_o tp \<and> \<not> dcache_miss_req_ready_i ti
          then ''rob_lsu_wait_ld_req_ready_miss_port_busy''
        else ''rob_lsu_wait_ld_req_ready'')"

definition rob_lsu_detail :: "top_in \<Rightarrow> top_ports \<Rightarrow> string" where
  "rob_lsu_detail ti tp =
    (let sm = dbg_lsu_state_o tp;
         ld_valid = dbg_lsu_ld_req_valid_o tp; ld_ready = dbg_lsu_ld_req_ready_o tp;
         rsp_valid = dbg_lsu_ld_rsp_valid_o tp; rsp_ready = dbg_lsu_ld_rsp_ready_o tp;
         owner = dbg_lsu_grp_ld_owner_o tp; alloc_fire = dbg_lsu_grp_alloc_fire_o tp
     in if sm = 0 then ''rob_lsu_incomplete_sm_idle''
        else if sm = 1 then
          (if ld_valid \<and> \<not> ld_ready then rob_ld_req_detail ti tp
           else if \<not> ld_valid \<and> \<not> ld_ready \<and> owner \<noteq> 0 then
             (if rsp_valid \<and> rsp_ready then ''rob_lsu_wait_ld_owner_rsp_fire''
              else if \<not> rsp_valid \<and> rsp_ready then ''rob_lsu_wait_ld_owner_rsp_valid''
              else if rsp_valid \<and> \<not> rsp_ready then ''rob_lsu_wait_ld_owner_rsp_ready''
              else ''rob_lsu_wait_ld_owner_hold'')
           else if \<not> ld_valid \<and> \<not> ld_ready \<and> \<not> alloc_fire then ''rob_lsu_wait_ld_arb_no_grant''
           else if \<not> dbg_lsu_ld_fire_o tp then ''rob_lsu_wait_ld_req_fire''
           else ''rob_lsu_incomplete_sm_req_unknown'')
        else if sm = 2 then
          (if \<not> rsp_valid then ''rob_lsu_wait_ld_rsp_valid''
           else if rsp_valid \<and> \<not> rsp_ready then ''rob_lsu_wait_ld_rsp_ready''
           else if \<not> dbg_lsu_rsp_fire_o tp then ''rob_lsu_wait_ld_rsp_fire''
           else ''rob_lsu_incomplete_sm_rsp_unknown'')
        else if sm = 3 then ''rob_lsu_wait_wb''
        else ''rob_lsu_incomplete_sm_illegal'')"

definition classify_rob_backpressure_detail_cycle :: "top_in \<Rightarrow> top_ports \<Rightarrow> string" where
  "classify_rob_backpressure_detail_cycle ti tp =
    (let fu = dbg_rob_head_fu_o tp in
     if dbg_rob_head_is_store_o tp then rob_store_detail tp
     else if \<not> dbg_rob_head_complete_o tp then
       (if fu = 1 then ''rob_head_fu_alu_incomplete''
        else if fu = 2 then ''rob_head_fu_branch_incomplete''
        else if fu = 3 then rob_lsu_detail ti tp
        else if fu = 4 \<or> fu = 5 then ''rob_head_fu_mdu_incomplete''
        else if fu = 6 then ''rob_head_fu_csr_incomplete''
        else ''rob_head_fu_unknown_incomplete'')
     else ''rob_head_complete_but_not_ready'')"

section \<open>Details of the remaining cycles\<close>

definition other_store_detail :: "top_ports \<Rightarrow> string" where
  "other_store_detail tp =
    (if \<not> dbg_sb_head_valid_o tp then ''rob_head_store_wait_sb_head_nonbp''
     else if \<not> dbg_sb_head_committed_o tp then ''rob_head_store_wait_commit_nonbp''
     else if \<not> dbg_sb_head_addr_valid_o tp then ''rob_head_store_wait_addr_nonbp''
     else if \<not> dbg_sb_head_data_valid_o tp then ''rob_head_store_wait_data_nonbp''
     else if dbg_sb_dcache_req_valid_o tp \<and> \<not> dbg_sb_dcache_req_ready_o tp
       then ''rob_head_store_wait_dcache_nonbp''
     else if \<not> dbg_sb_dcache_req_valid_o tp then ''rob_head_store_wait_issue_nonbp''
     else ''rob_head_store_wait_other_nonbp'')"

definition other_lsu_detail :: "top_ports \<Rightarrow> string" where
  "other_lsu_detail tp =
    (let sm = dbg_lsu_state_o tp;
         ld_valid = dbg_lsu_ld_req_valid_o tp; ld_ready = dbg_lsu_ld_req_ready_o tp;
         rsp_valid = dbg_lsu_ld_rsp_valid_o tp; rsp_ready = dbg_lsu_ld_rsp_ready_o tp
     in if sm = 0 then ''rob_head_lsu_incomplete_sm_idle_nonbp''
        else if sm = 1 then
          (if ld_valid \<and> \<not> ld_ready then ''rob_head_lsu_incomplete_wait_req_ready_nonbp''
           else if \<not> ld_valid \<and> \<not> ld_ready then ''rob_head_lsu_incomplete_wait_owner_or_alloc_nonbp''
           else if \<not> dbg_lsu_ld_fire_o tp then ''rob_head_lsu_incomplete_req_fire_gap_nonbp''
           else ''rob_head_lsu_incomplete_sm_req_unknown_nonbp'')
        else if sm = 2 then
          (if \<not> rsp_valid then ''rob_head_lsu_incomplete_wait_rsp_valid_nonbp''
           else if rsp_valid \<and> \<not> rsp_ready then ''rob_head_lsu_incomplete_wait_rsp_ready_nonbp''
           else if \<not> dbg_lsu_rsp_fire_o tp then ''rob_head_lsu_incomplete_rsp_fire_gap_nonbp''
           else ''rob_head_lsu_incomplete_sm_rsp_unknown_nonbp'')
        else ''rob_head_lsu_incomplete_sm_other_nonbp'')"

definition other_incomplete_detail :: "top_ports \<Rightarrow> string" where
  "other_incomplete_detail tp =
    (let fu = dbg_rob_head_fu_o tp in
     if fu = 1 then
       (if dbg_alu_wb_head_hit_o tp then ''rob_head_alu_complete_not_visible_incomplete_nonbp''
        else if dbg_alu_issue_any_o tp then ''rob_head_alu_exec_wait_wb_incomplete_nonbp''
        else if dbg_alu_ready_not_issued_o tp then ''rob_head_alu_ready_not_issued_incomplete_nonbp''
        else if \<not> dbg_gate_alu_o tp \<and> 0 < dbg_need_alu_o tp then ''rob_head_alu_dispatch_blocked_incomplete_nonbp''
        else ''rob_head_alu_wait_operand_or_select_incomplete_nonbp'')
     else if fu = 2 then
       (if dbg_bru_wb_head_hit_o tp then ''rob_head_branch_complete_not_visible_incomplete_nonbp''
        else if dbg_bru_valid_o tp then ''rob_head_branch_exec_wait_wb_incomplete_nonbp''
        else if dbg_bru_ready_not_issued_o tp then ''rob_head_branch_ready_not_issued_incomplete_nonbp''
        else if \<not> dbg_gate_bru_o tp \<and> 0 < dbg_need_bru_o tp then ''rob_head_branch_dispatch_blocked_incomplete_nonbp''
        else ''rob_head_branch_wait_operand_or_select_incomplete_nonbp'')
     else if fu = 3 then other_lsu_detail tp
     else if fu = 4 \<or> fu = 5 then ''rob_head_mdu_incomplete_nonbp''
     else if fu = 6 then ''rob_head_csr_incomplete_nonbp''
     else ''rob_head_unknown_incomplete_nonbp'')"

definition classify_other_detail_cycle :: "top_ports \<Rightarrow> string" where
  "classify_other_detail_cycle tp =
    (let ren_ready = dbg_ren_ready_o tp; ren_fire = dbg_ren_fire_o tp;
         sm = dbg_lsu_state_o tp; fu = dbg_rob_head_fu_o tp;
         rob_head_complete = dbg_rob_head_complete_o tp;
         q2_incomplete = (dbg_rob_q2_valid_o tp \<and> \<not> dbg_rob_q2_complete_o tp)
     in if dbg_rob_count_o tp = 0 then
          (if \<not> ren_ready then ''rob_empty_refill_ren_not_ready''
           else if ren_fire then ''rob_empty_refill_ren_fire''
           else if dbg_ifu_req_inflight_o tp then ''rob_empty_refill_wait_frontend_rsp''
           else if dbg_ifu_rsp_valid_o tp \<and> dbg_ifu_rsp_capture_o tp then ''rob_empty_refill_rsp_capture''
           else ''rob_empty_refill_other'')
        else if sm = 3 then
          (if fu = 3 \<and> \<not> rob_head_complete then ''lsu_wait_wb_head_lsu_incomplete''
           else if fu = 3 \<and> rob_head_complete then ''lsu_wait_wb_head_lsu_complete''
           else if q2_incomplete then ''lsu_wait_wb_q2_incomplete''
           else ''lsu_wait_wb_other'')
        else if dbg_rob_head_is_store_o tp then other_store_detail tp
        else if \<not> rob_head_complete then other_incomplete_detail tp
        else if q2_incomplete then ''rob_q2_not_complete_nonstall''
        else if \<not> ren_ready then ''ren_not_ready''
        else if \<not> ren_fire then ''ren_no_fire''
        else if sm = 1 \<and> dbg_lsu_ld_req_valid_o tp \<and> dbg_lsu_ld_req_ready_o tp \<and> \<not> dbg_lsu_ld_fire_o tp
          then ''lsu_req_fire_gap''
        else if sm = 2 \<and> dbg_lsu_ld_rsp_valid_o tp \<and> dbg_lsu_ld_rsp_ready_o tp \<and> \<not> dbg_lsu_rsp_fire_o tp
          then ''lsu_rsp_fire_gap''
        else ''other'')"

section \<open>A cycle without a commit\<close>

definition count_detail :: "profile_config \<Rightarrow> top_in \<Rightarrow> top_ports \<Rightarrow> profile \<Rightarrow> profile" where
  "count_detail cfg ti tp p =
    (let stall_kind = classify_stall_cycle tp in
     if stall_kind = kStallFrontendEmpty then
       p\<lparr>stall_frontend_empty_hist := count_at (classify_frontend_empty_cycle tp) (stall_frontend_empty_hist p)\<rparr>
     else if stall_kind = kStallDecodeBlocked then
       p\<lparr>stall_decode_blocked_detail_hist :=
           count_at (classify_decode_blocked_detail_cycle cfg tp) (stall_decode_blocked_detail_hist p)\<rparr>
     else if stall_kind = kStallROBBackpressure then
       p\<lparr>stall_rob_backpressure_detail_hist :=
           count_at (classify_rob_backpressure_detail_cycle ti tp) (stall_rob_backpressure_detail_hist p)\<rparr>
     else if stall_kind = kStallOther then
       p\<lparr>stall_other_detail_hist := count_at (classify_other_detail_cycle tp) (stall_other_detail_hist p)\<rparr>
     else p)"

definition on_no_commit_cycle :: "profile_config \<Rightarrow> u64 \<Rightarrow> u64 \<Rightarrow> top_in \<Rightarrow> top_ports \<Rightarrow> profile \<Rightarrow> profile" where
  "on_no_commit_cycle cfg cycles no_commit_cycles ti tp p =
    (let a = profile_args cfg;
         p = p\<lparr>stall_cycle_hist := count_at (classify_stall_cycle tp) (stall_cycle_hist p)\<rparr>;
         p = count_detail cfg ti tp p;
         p = p\<lparr>branch_ready_not_issued_cycles := branch_ready_not_issued_cycles p + bump (dbg_bru_ready_not_issued_o tp),
               alu_ready_not_issued_cycles := alu_ready_not_issued_cycles p + bump (dbg_alu_ready_not_issued_o tp),
               complete_not_visible_cycles := complete_not_visible_cycles p
                 + bump (\<not> dbg_rob_head_complete_o tp \<and> (dbg_bru_wb_head_hit_o tp \<or> dbg_alu_wb_head_hit_o tp))\<rparr>
     in if stall_trace a \<and> 0 < stall_threshold a \<and>
           (no_commit_cycles = stall_threshold a \<or>
            (stall_threshold a < no_commit_cycles \<and> no_commit_cycles mod stall_threshold a = 0))
        then p\<lparr>profile_log := profile_log p @ [StallLine cycles no_commit_cycles]\<rparr>
        else p)"

section \<open>The names of the details\<close>

definition decode_details :: "string list" where
  "decode_details =
    [''dispatch_gate_lsu'', ''dispatch_gate_alu'', ''dispatch_gate_bru'', ''dispatch_gate_csr'',
     ''dispatch_gate_mdu'', ''pending_replay_progress_full'', ''pending_replay_progress_has_room'',
     ''pending_replay_wait_full'', ''pending_replay_wait_has_room'', ''lsug_wait_dcache_owner'',
     ''lsug_no_free_lane'', ''dc_store_wait_same_line'', ''dc_store_wait_mshr_full'',
     ''sb_alloc_blocked'', ''lsu_operand_wait'', ''lsu_rs_pressure'', ''rob_q2_wait'',
     ''lsu_wait_ld_req'', ''lsu_wait_ld_rsp'', ''other'']"

definition rob_details :: "string list" where
  "rob_details =
    [''rob_store_wait_sb_head'', ''rob_store_wait_commit'', ''rob_store_wait_addr'',
     ''rob_store_wait_data'', ''rob_store_wait_dcache'', ''rob_store_wait_issue'',
     ''rob_store_wait_other'', ''rob_lsu_wait_ld_req_ready_owner_rsp_fire'',
     ''rob_lsu_wait_ld_req_ready_owner_rsp_valid'', ''rob_lsu_wait_ld_req_ready_owner_rsp_ready'',
     ''rob_lsu_wait_ld_req_ready_sb_conflict'', ''rob_lsu_wait_ld_req_ready_mshr_blocked'',
     ''rob_lsu_wait_ld_req_ready_miss_port_busy'', ''rob_lsu_wait_ld_req_ready'',
     ''rob_lsu_incomplete_sm_idle'', ''rob_lsu_wait_ld_owner_rsp_fire'',
     ''rob_lsu_wait_ld_owner_rsp_valid'', ''rob_lsu_wait_ld_owner_rsp_ready'',
     ''rob_lsu_wait_ld_owner_hold'', ''rob_lsu_wait_ld_arb_no_grant'',
     ''rob_lsu_wait_ld_req_fire'', ''rob_lsu_incomplete_sm_req_unknown'',
     ''rob_lsu_wait_ld_rsp_valid'', ''rob_lsu_wait_ld_rsp_ready'', ''rob_lsu_wait_ld_rsp_fire'',
     ''rob_lsu_incomplete_sm_rsp_unknown'', ''rob_lsu_wait_wb'', ''rob_lsu_incomplete_sm_illegal'',
     ''rob_head_fu_alu_incomplete'', ''rob_head_fu_branch_incomplete'',
     ''rob_head_fu_mdu_incomplete'', ''rob_head_fu_csr_incomplete'',
     ''rob_head_fu_unknown_incomplete'', ''rob_head_complete_but_not_ready'']"

definition other_details :: "string list" where
  "other_details =
    [''rob_head_store_wait_sb_head_nonbp'', ''rob_head_store_wait_commit_nonbp'',
     ''rob_head_store_wait_addr_nonbp'', ''rob_head_store_wait_data_nonbp'',
     ''rob_head_store_wait_dcache_nonbp'', ''rob_head_store_wait_issue_nonbp'',
     ''rob_head_store_wait_other_nonbp'', ''rob_head_lsu_incomplete_sm_idle_nonbp'',
     ''rob_head_lsu_incomplete_wait_req_ready_nonbp'',
     ''rob_head_lsu_incomplete_wait_owner_or_alloc_nonbp'',
     ''rob_head_lsu_incomplete_req_fire_gap_nonbp'',
     ''rob_head_lsu_incomplete_sm_req_unknown_nonbp'',
     ''rob_head_lsu_incomplete_wait_rsp_valid_nonbp'',
     ''rob_head_lsu_incomplete_wait_rsp_ready_nonbp'',
     ''rob_head_lsu_incomplete_rsp_fire_gap_nonbp'',
     ''rob_head_lsu_incomplete_sm_rsp_unknown_nonbp'', ''rob_head_lsu_incomplete_sm_other_nonbp'',
     ''rob_head_alu_complete_not_visible_incomplete_nonbp'',
     ''rob_head_alu_exec_wait_wb_incomplete_nonbp'',
     ''rob_head_alu_ready_not_issued_incomplete_nonbp'',
     ''rob_head_alu_dispatch_blocked_incomplete_nonbp'',
     ''rob_head_alu_wait_operand_or_select_incomplete_nonbp'',
     ''rob_head_branch_complete_not_visible_incomplete_nonbp'',
     ''rob_head_branch_exec_wait_wb_incomplete_nonbp'',
     ''rob_head_branch_ready_not_issued_incomplete_nonbp'',
     ''rob_head_branch_dispatch_blocked_incomplete_nonbp'',
     ''rob_head_branch_wait_operand_or_select_incomplete_nonbp'',
     ''rob_head_mdu_incomplete_nonbp'', ''rob_head_csr_incomplete_nonbp'',
     ''rob_head_unknown_incomplete_nonbp'', ''rob_empty_refill_ren_not_ready'',
     ''rob_empty_refill_ren_fire'', ''rob_empty_refill_wait_frontend_rsp'',
     ''rob_empty_refill_rsp_capture'', ''rob_empty_refill_other'',
     ''lsu_wait_wb_head_lsu_incomplete'', ''lsu_wait_wb_head_lsu_complete'',
     ''lsu_wait_wb_q2_incomplete'', ''lsu_wait_wb_other'', ''rob_q2_not_complete_nonstall'',
     ''ren_not_ready'', ''ren_no_fire'', ''lsu_req_fire_gap'', ''lsu_rsp_fire_gap'', ''other'']"

lemma if_in: "x \<in> A \<Longrightarrow> y \<in> A \<Longrightarrow> (if b then x else y) \<in> A"
  by simp

lemma gate_in:
  assumes "\<And>g n name. (g, n, name) \<in> List.set gs \<Longrightarrow> name \<in> A" "d \<in> A"
  shows "(case find P gs of None \<Rightarrow> d | Some (_, _, name) \<Rightarrow> name) \<in> A"
proof (cases "find P gs")
  case (Some r)
  then have "r \<in> List.set gs" unfolding find_Some_iff by (metis nth_mem)
  moreover obtain g n name where "r = (g, n, name)" by (metis prod_cases3)
  ultimately show ?thesis using assms(1) Some by simp
qed (simp add: assms(2))

lemma gate_names:
  "(g, n, name) \<in> List.set (gate_priority tp) \<Longrightarrow> name \<in> List.set decode_details"
  unfolding gate_priority_def decode_details_def list.set
  by (elim insertE emptyE; unfold prod.inject; elim conjE; hypsubst; (rule insertI1 | rule insertI2)+)

lemma decode_detail_named: "classify_decode_blocked_detail_cycle cfg tp \<in> List.set decode_details"
  unfolding classify_decode_blocked_detail_cycle_def Let_def
  by (intro if_in gate_in; (erule gate_names | (unfold decode_details_def list.set, (rule insertI1 | rule insertI2)+)))

lemma rob_detail_named: "classify_rob_backpressure_detail_cycle ti tp \<in> List.set rob_details"
  unfolding classify_rob_backpressure_detail_cycle_def rob_store_detail_def rob_lsu_detail_def
    rob_ld_req_detail_def Let_def
  by (intro if_in; unfold rob_details_def list.set; (rule insertI1 | rule insertI2)+)

lemma other_detail_named: "classify_other_detail_cycle tp \<in> List.set other_details"
  unfolding classify_other_detail_cycle_def other_store_detail_def other_incomplete_detail_def
    other_lsu_detail_def Let_def
  by (intro if_in; unfold other_details_def list.set; (rule insertI1 | rule insertI2)+)

lemma frontend_detail_range: "classify_frontend_empty_cycle tp \<in> {1..<19}"
  unfolding classify_frontend_empty_cycle_def Let_def by (intro if_in) simp_all

lemma stall_kind_range: "classify_stall_cycle tp < 8"
proof -
  have "classify_stall_cycle tp \<in> {..<8}"
    unfolding classify_stall_cycle_def Let_def by (intro if_in) simp_all
  then show ?thesis by simp
qed

section \<open>Runs of the collector\<close>

datatype profile_event =
    Observe top_ports
  | FlushSeen u64 top_ports unified_mem
  | CommitSeen u32 u32 u32 bool
  | WidthSeen u32
  | CommitCycle u64
  | NoCommitCycle u64 u64 top_in top_ports

fun profile_step :: "profile_config \<Rightarrow> profile \<Rightarrow> profile_event \<Rightarrow> profile" where
  "profile_step cfg p (Observe tp) = observe_cycle tp p"
| "profile_step cfg p (FlushSeen cycles tp m) = record_flush cfg cycles tp m p"
| "profile_step cfg p (CommitSeen pc raw decoded rvc) = record_commit pc raw decoded rvc p"
| "profile_step cfg p (WidthSeen n) = record_commit_width cfg n p"
| "profile_step cfg p (CommitCycle cycles) = on_commit_cycle cfg cycles p"
| "profile_step cfg p (NoCommitCycle cycles n ti tp) = on_no_commit_cycle cfg cycles n ti tp p"

definition profile_run :: "profile_config \<Rightarrow> profile_event list \<Rightarrow> profile" where
  "profile_run cfg es = fold (\<lambda>e p. profile_step cfg p e) es (ProfileCollector_init (cfg_commit_width cfg))"

definition is_control :: "u32 \<Rightarrow> bool" where
  "is_control i \<longleftrightarrow> i AND 0x7f = 0x6f \<or> i AND 0x7f = 0x67"

text \<open>The counters by class add up, and those of the successor statistics lag behind those of the
  prediction statistics by the last commit only.\<close>

definition commits_ok :: "profile \<Rightarrow> bool" where
  "commits_ok p \<longleftrightarrow>
     pred_jump_total p = pred_jump_direct_total p + pred_jump_indirect_total p
     \<and> pred_cond_total p = control_branch_count p + bump (has_prev_commit p \<and> prev_commit_inst p AND 0x7f = 0x63)
     \<and> pred_jump_total p + pred_ret_total p = control_jal_count p + control_jalr_count p
         + bump (has_prev_commit p \<and> is_control (prev_commit_inst p))
     \<and> pred_call_total p = control_call_count p + bump (has_prev_commit p \<and> is_call_inst (prev_commit_inst p))
     \<and> pred_ret_total p = control_ret_count p + bump (has_prev_commit p \<and> is_ret_inst (prev_commit_inst p))
     \<and> (\<Sum>a\<in>UNIV. commit_pc_hist p a) = total_commits p
     \<and> (\<Sum>i\<in>UNIV. commit_inst_hist p i) = total_commits p"

definition cycles_ok :: "profile \<Rightarrow> bool" where
  "cycles_ok p \<longleftrightarrow>
     pred_jump_miss p = pred_jump_direct_miss p + pred_jump_indirect_miss p
     \<and> (\<Sum>i<16. ifu_fq_occ_hist p i) = ifu_fq_empty_cycles p + ifu_fq_nonempty_cycles p
     \<and> (\<Sum>i<19. stall_frontend_empty_hist p i) = stall_cycle_hist p kStallFrontendEmpty
     \<and> (\<Sum>d\<in>List.set decode_details. stall_decode_blocked_detail_hist p d) = stall_cycle_hist p kStallDecodeBlocked
     \<and> (\<Sum>d\<in>List.set rob_details. stall_rob_backpressure_detail_hist p d) = stall_cycle_hist p kStallROBBackpressure
     \<and> (\<Sum>d\<in>List.set other_details. stall_other_detail_hist p d) = stall_cycle_hist p kStallOther"

lemma cycles_ok_cong:
  assumes "cycles_ok p" "pred_jump_miss q = pred_jump_direct_miss q + pred_jump_indirect_miss q"
    "ifu_fq_occ_hist q = ifu_fq_occ_hist p" "ifu_fq_empty_cycles q = ifu_fq_empty_cycles p"
    "ifu_fq_nonempty_cycles q = ifu_fq_nonempty_cycles p"
    "stall_cycle_hist q = stall_cycle_hist p" "stall_frontend_empty_hist q = stall_frontend_empty_hist p"
    "stall_decode_blocked_detail_hist q = stall_decode_blocked_detail_hist p"
    "stall_rob_backpressure_detail_hist q = stall_rob_backpressure_detail_hist p"
    "stall_other_detail_hist q = stall_other_detail_hist p"
  shows "cycles_ok q"
  using assms unfolding cycles_ok_def by presburger

lemma bump_control: "bump (is_control i) = bump (i AND 0x7f = 0x6f) + bump (i AND 0x7f = 0x67)"
  by (auto simp: bump_def is_control_def)

lemma ret_is_control: "is_ret_inst i \<Longrightarrow> is_control i"
  by (auto simp: is_ret_inst_def is_control_def Let_def split: if_splits)

lemma record_class_jumps:
  "pred_jump_total (record_class d p) + pred_ret_total (record_class d p)
     = pred_jump_total p + pred_ret_total p + bump (is_control d)"
  "pred_ret_total (record_class d p) = pred_ret_total p + bump (is_ret_inst d)"
  "pred_jump_total p = pred_jump_direct_total p + pred_jump_indirect_total p \<Longrightarrow>
     pred_jump_total (record_class d p) = pred_jump_direct_total (record_class d p) + pred_jump_indirect_total (record_class d p)"
  using ret_is_control [of d] unfolding record_class_def Let_def is_control_def [symmetric]
  by (cases "is_ret_inst d"; cases "is_control d"; cases "is_indirect_jump_inst d"; simp add: bump_def)+

lemma record_class_frame:
  "has_prev_commit (record_class d p) = has_prev_commit p"
  "prev_commit_inst (record_class d p) = prev_commit_inst p"
  "control_branch_count (record_class d p) = control_branch_count p"
  "control_jal_count (record_class d p) = control_jal_count p"
  "control_jalr_count (record_class d p) = control_jalr_count p"
  "control_call_count (record_class d p) = control_call_count p"
  "control_ret_count (record_class d p) = control_ret_count p"
  "pred_cond_total (record_class d p) = pred_cond_total p + bump (d AND 0x7f = 0x63)"
  "pred_call_total (record_class d p) = pred_call_total p + bump (is_call_inst d)"
  by (simp_all add: record_class_def Let_def)

lemma record_prev_frame:
  "pred_jump_total (record_prev pc p) = pred_jump_total p"
  "pred_jump_direct_total (record_prev pc p) = pred_jump_direct_total p"
  "pred_jump_indirect_total (record_prev pc p) = pred_jump_indirect_total p"
  "pred_ret_total (record_prev pc p) = pred_ret_total p"
  "pred_cond_total (record_prev pc p) = pred_cond_total p"
  "pred_call_total (record_prev pc p) = pred_call_total p"
  by (simp_all add: record_prev_def Let_def)

lemma record_prev_counts:
  "control_branch_count (record_prev pc p) = control_branch_count p
     + bump (has_prev_commit p \<and> prev_commit_inst p AND 0x7f = 0x63)"
  "control_jal_count (record_prev pc p) + control_jalr_count (record_prev pc p)
     = control_jal_count p + control_jalr_count p + bump (has_prev_commit p \<and> is_control (prev_commit_inst p))"
  "control_call_count (record_prev pc p) = control_call_count p
     + bump (has_prev_commit p \<and> is_call_inst (prev_commit_inst p))"
  "control_ret_count (record_prev pc p) = control_ret_count p
     + bump (has_prev_commit p \<and> is_ret_inst (prev_commit_inst p))"
  by (cases "has_prev_commit p"; simp add: record_prev_def Let_def bump_control algebra_simps)+

lemma record_commit_ok: "commits_ok p \<Longrightarrow> commits_ok (record_commit pc raw d rvc p)"
proof -
  assume ok: "commits_ok p"
  define a where "a = p\<lparr>total_commits := total_commits p + 1,
      commit_pc_hist := count_at pc (commit_pc_hist p), commit_inst_hist := count_at raw (commit_inst_hist p)\<rparr>"
  define b where "b = (record_prev pc a)\<lparr>has_prev_commit := True, prev_commit_pc := pc, prev_commit_inst := d\<rparr>"
  define q where "q = (record_class d b)\<lparr>last_commit_pc := pc, last_commit_inst := raw,
      last_commit_decoded_inst := d, last_commit_is_rvc := rvc\<rparr>"
  have q: "record_commit pc raw d rvc p = q"
    by (simp add: record_commit_def Let_def a_def b_def q_def)
  have hist: "commit_pc_hist q = count_at pc (commit_pc_hist p)" "commit_inst_hist q = count_at raw (commit_inst_hist p)"
    "total_commits q = total_commits p + 1"
    by (simp_all add: q_def b_def a_def record_class_def record_prev_def Let_def)
  have "pred_jump_total q + pred_ret_total q = pred_jump_total p + pred_ret_total p + bump (is_control d)"
    using record_class_jumps(1) [of d b] by (simp add: q_def b_def a_def record_prev_frame)
  moreover have "control_jal_count q + control_jalr_count q = control_jal_count p + control_jalr_count p
      + bump (has_prev_commit p \<and> is_control (prev_commit_inst p))"
    using record_prev_counts(2) [of pc a] by (simp add: q_def b_def a_def record_class_frame)
  moreover have "has_prev_commit q" "prev_commit_inst q = d"
    by (simp_all add: q_def b_def record_class_frame)
  moreover have "pred_jump_total p + pred_ret_total p = control_jal_count p + control_jalr_count p
      + bump (has_prev_commit p \<and> is_control (prev_commit_inst p))"
    using ok unfolding commits_ok_def by blast
  ultimately have jumps: "pred_jump_total q + pred_ret_total q = control_jal_count q + control_jalr_count q
      + bump (has_prev_commit q \<and> is_control (prev_commit_inst q))"
    by (simp only:) simp
  have direct: "pred_jump_total q = pred_jump_direct_total q + pred_jump_indirect_total q"
    using ok record_class_jumps(3) [of b d]
    by (simp add: q_def b_def a_def record_prev_frame commits_ok_def)
  have "pred_cond_total q = control_branch_count q + bump (has_prev_commit q \<and> prev_commit_inst q AND 0x7f = 0x63)"
    "pred_call_total q = control_call_count q + bump (has_prev_commit q \<and> is_call_inst (prev_commit_inst q))"
    "pred_ret_total q = control_ret_count q + bump (has_prev_commit q \<and> is_ret_inst (prev_commit_inst q))"
    using ok by (simp_all add: commits_ok_def q_def b_def a_def record_class_frame record_class_jumps(2)
        record_prev_frame record_prev_counts)
  moreover have "(\<Sum>a\<in>UNIV. commit_pc_hist q a) = total_commits q" "(\<Sum>i\<in>UNIV. commit_inst_hist q i) = total_commits q"
    using ok by (simp_all add: commits_ok_def hist)
  ultimately show ?thesis unfolding q commits_ok_def using jumps direct by blast
qed

lemma record_miss_ok:
  "cycles_ok p \<Longrightarrow> cycles_ok (fst (record_miss tp m p)) \<and> commits_ok (fst (record_miss tp m p)) = commits_ok p"
  by (auto simp: record_miss_def cycles_ok_def commits_ok_def Let_def)

lemma record_flush_ok:
  assumes "cycles_ok p"
  shows "cycles_ok (record_flush cfg c tp m p)" "commits_ok (record_flush cfg c tp m p) = commits_ok p"
proof -
  note r = record_miss_ok [OF assms, of tp m]
  show "cycles_ok (record_flush cfg c tp m p)" using assms r
    unfolding record_flush_def Let_def by (auto simp: cycles_ok_def)
  show "commits_ok (record_flush cfg c tp m p) = commits_ok p" using r
    unfolding record_flush_def Let_def by (auto simp: commits_ok_def)
qed

lemma observe_ok:
  "cycles_ok p \<Longrightarrow> cycles_ok (observe_cycle tp p)" "commits_ok (observe_cycle tp p) = commits_ok p"
proof -
  let ?n = "unat (if 16 \<le> dbg_ifu_fq_count_o tp then 15 else dbg_ifu_fq_count_o tp)"
  have "?n \<in> {..<16}" by (simp add: word_le_nat_alt)
  then show "cycles_ok p \<Longrightarrow> cycles_ok (observe_cycle tp p)"
    by (simp add: cycles_ok_def observe_cycle_def Let_def bump_not del: if_split)
  show "commits_ok (observe_cycle tp p) = commits_ok p"
    by (simp add: commits_ok_def observe_cycle_def Let_def)
qed

lemma width_ok:
  "cycles_ok (record_commit_width cfg n p) = cycles_ok p" "commits_ok (record_commit_width cfg n p) = commits_ok p"
  by (simp_all add: record_commit_width_def cycles_ok_def commits_ok_def Let_def)

lemma commit_cycle_ok:
  "cycles_ok (on_commit_cycle cfg c p) = cycles_ok p" "commits_ok (on_commit_cycle cfg c p) = commits_ok p"
  by (simp_all add: on_commit_cycle_def cycles_ok_def commits_ok_def Let_def)

lemma record_commit_cycles: "cycles_ok p \<Longrightarrow> cycles_ok (record_commit pc raw d rvc p)"
  by (simp add: cycles_ok_def record_commit_def record_class_def record_prev_def Let_def)

lemma count_detail_ok:
  assumes "cycles_ok p"
  shows "cycles_ok (count_detail cfg ti tp (p\<lparr>stall_cycle_hist := count_at (classify_stall_cycle tp) (stall_cycle_hist p)\<rparr>))"
proof -
  have h: "count_at k h j = h j + bump (j = k)" for k j :: nat and h
    by (simp add: count_at_def bump_def)
  have "classify_frontend_empty_cycle tp \<in> {..<19}"
    using frontend_detail_range [of tp] by auto
  then show ?thesis
    using assms decode_detail_named [of cfg tp] rob_detail_named [of ti tp] other_detail_named [of tp]
    by (simp add: cycles_ok_def count_detail_def Let_def h [of _ _ 3] h [of _ _ 4] h [of _ _ 5] h [of _ _ 7])
qed

lemma no_commit_ok:
  "cycles_ok p \<Longrightarrow> cycles_ok (on_no_commit_cycle cfg c n ti tp p)"
  "commits_ok (on_no_commit_cycle cfg c n ti tp p) = commits_ok p"
proof -
  assume "cycles_ok p"
  from count_detail_ok [OF this, of cfg ti tp]
  show "cycles_ok (on_no_commit_cycle cfg c n ti tp p)"
    unfolding on_no_commit_cycle_def Let_def by (simp add: cycles_ok_def)
next
  show "commits_ok (on_no_commit_cycle cfg c n ti tp p) = commits_ok p"
    by (simp add: on_no_commit_cycle_def count_detail_def commits_ok_def Let_def)
qed

lemma profile_step_ok: "cycles_ok p \<and> commits_ok p \<Longrightarrow> cycles_ok (profile_step cfg p e) \<and> commits_ok (profile_step cfg p e)"
  by (cases e) (simp_all add: observe_ok record_flush_ok record_commit_ok record_commit_cycles width_ok commit_cycle_ok no_commit_ok)

interpretation accounts: machine "profile_step cfg" "\<lambda>p. cycles_ok p \<and> commits_ok p" for cfg
  by unfold_locales (rule profile_step_ok)

lemma init_ok: "cycles_ok (ProfileCollector_init w) \<and> commits_ok (ProfileCollector_init w)"
  by (simp add: cycles_ok_def commits_ok_def ProfileCollector_init_def)

lemma total_commits_step: "total_commits (profile_step cfg p e) = total_commits p + bump (case e of CommitSeen _ _ _ _ \<Rightarrow> True | _ \<Rightarrow> False)"
  by (cases e) (simp_all add: observe_cycle_def record_flush_def record_miss_def record_commit_def record_prev_def record_class_def
      record_commit_width_def on_commit_cycle_def on_no_commit_cycle_def count_detail_def Let_def)

lemma stall_hist_step: "(\<Sum>k<8. stall_cycle_hist (profile_step cfg p e) k) = (\<Sum>k<8. stall_cycle_hist p k)
    + bump (case e of NoCommitCycle _ _ _ _ \<Rightarrow> True | _ \<Rightarrow> False)"
proof (cases e)
  case (NoCommitCycle c n ti tp)
  then show ?thesis using stall_kind_range [of tp]
    by (simp add: on_no_commit_cycle_def count_detail_def Let_def)
qed (simp_all add: observe_cycle_def record_flush_def record_miss_def record_commit_def record_prev_def record_class_def
      record_commit_width_def on_commit_cycle_def Let_def)

text \<open>C13: Whatever the events of a run, the collector's numbers add up: the commits are the number
  of commit events and the sum of both commit histograms; the stall reasons sum up to the
  cycles without a commit, and the details of the four reasons that have them to their reason,
  under the names listed; jumps are direct or indirect ones, the queue is empty or not in every
  cycle; the successor statistics lag behind the prediction statistics by the last commit.\<close>

theorem profile_accounts:
  "let p = profile_run cfg es in
     total_commits p = of_nat (length (List.filter (\<lambda>e. case e of CommitSeen _ _ _ _ \<Rightarrow> True | _ \<Rightarrow> False) es))
     \<and> (\<Sum>k<8. stall_cycle_hist p k)
         = of_nat (length (List.filter (\<lambda>e. case e of NoCommitCycle _ _ _ _ \<Rightarrow> True | _ \<Rightarrow> False) es))
     \<and> cycles_ok p \<and> commits_ok p"
  using accounts.fold_inv [OF init_ok [of "cfg_commit_width cfg"], where es = es and cfg = cfg]
    counter_counts [of total_commits "profile_step cfg", OF total_commits_step, of es "ProfileCollector_init (cfg_commit_width cfg)"]
    counter_counts [of "\<lambda>p. \<Sum>k<8. stall_cycle_hist p k" "profile_step cfg", OF stall_hist_step, of es
      "ProfileCollector_init (cfg_commit_width cfg)"]
  by (simp add: profile_run_def Let_def) (simp add: ProfileCollector_init_def)

section \<open>Details that are never counted\<close>

text \<open>The reason names the data cache first, so a full reorder buffer is never counted while a miss
  request is up.\<close>

definition dead_ok :: "profile \<Rightarrow> bool" where
  "dead_ok p \<longleftrightarrow> stall_frontend_empty_hist p kFeNoReq = 0
     \<and> stall_rob_backpressure_detail_hist p ''rob_lsu_wait_ld_req_ready_miss_port_busy'' = 0"

lemma if_not: "x \<noteq> a \<Longrightarrow> y \<noteq> a \<Longrightarrow> (if b then x else y) \<noteq> a"
  by simp

lemma not_port_busy:
  assumes "classify_stall_cycle tp = kStallROBBackpressure"
  shows "classify_rob_backpressure_detail_cycle ti tp \<noteq> ''rob_lsu_wait_ld_req_ready_miss_port_busy''"
proof -
  have "\<not> dcache_miss_req_valid_o tp"
    using assms by (auto simp: classify_stall_cycle_def Let_def split: if_splits)
  then have f: "(dcache_miss_req_valid_o tp \<and> x) = False" for x by simp
  show ?thesis
    unfolding classify_rob_backpressure_detail_cycle_def rob_store_detail_def rob_lsu_detail_def
      rob_ld_req_detail_def Let_def f if_False
    by (intro if_not) simp_all
qed

lemma dead_step: "dead_ok p \<Longrightarrow> dead_ok (profile_step cfg p e)"
proof (cases e)
  case (NoCommitCycle c n ti tp)
  moreover have "classify_frontend_empty_cycle tp \<noteq> 0"
    using frontend_detail_range [of tp] by auto
  moreover assume "dead_ok p"
  ultimately show ?thesis using not_port_busy [of tp ti]
    by (simp add: dead_ok_def on_no_commit_cycle_def count_detail_def Let_def)
qed (simp_all add: dead_ok_def observe_cycle_def record_flush_def record_miss_def record_commit_def record_prev_def
    record_class_def record_commit_width_def on_commit_cycle_def Let_def)

interpretation dead: machine "profile_step cfg" dead_ok for cfg
  by unfold_locales (rule dead_step)

text \<open>In no run is a cycle counted under the front-end detail 0 or under the detail of a busy
  miss port, although the collector has a place for both.\<close>

lemma dead_details:
  "stall_frontend_empty_hist (profile_run cfg es) kFeNoReq = 0
   \<and> stall_rob_backpressure_detail_hist (profile_run cfg es) ''rob_lsu_wait_ld_req_ready_miss_port_busy'' = 0"
proof -
  have "dead_ok (ProfileCollector_init (cfg_commit_width cfg))"
    by (simp add: dead_ok_def ProfileCollector_init_def)
  from dead.fold_inv [OF this, where es = es and cfg = cfg] show ?thesis
    by (simp add: profile_run_def dead_ok_def)
qed

section \<open>Flush penalties\<close>

text \<open>A reported penalty belongs to a flush that was reported that many cycles earlier, with its
  reason, and so does the penalty that is still to come.\<close>

definition penalties_ok :: "profile \<Rightarrow> bool" where
  "penalties_ok p \<longleftrightarrow>
     (\<forall>c r d. PenaltyLine c r d \<in> List.set (profile_log p) \<longrightarrow> 0 < d \<and> d \<le> c
        \<and> (\<exists>s ca a b mt ms di k. FlushLine (c - d) r s ca a b mt ms di k \<in> List.set (profile_log p)))
     \<and> (pending_flush_penalty p \<longrightarrow>
        (\<exists>s ca a b mt ms di k. FlushLine (pending_flush_cycle p) (pending_flush_reason p) s ca a b mt ms di k
           \<in> List.set (profile_log p)))"

lemma penalties_cong:
  "profile_log q = profile_log p \<Longrightarrow> pending_flush_penalty q = pending_flush_penalty p \<Longrightarrow>
   pending_flush_cycle q = pending_flush_cycle p \<Longrightarrow> pending_flush_reason q = pending_flush_reason p \<Longrightarrow>
   penalties_ok p \<Longrightarrow> penalties_ok q"
  by (simp add: penalties_ok_def)

lemma record_miss_frame:
  "profile_log (fst (record_miss tp m p)) = profile_log p"
  "pending_flush_penalty (fst (record_miss tp m p)) = pending_flush_penalty p"
  "pending_flush_cycle (fst (record_miss tp m p)) = pending_flush_cycle p"
  "pending_flush_reason (fst (record_miss tp m p)) = pending_flush_reason p"
  by (simp_all add: record_miss_def Let_def)

lemma penalties_flush: "penalties_ok p \<Longrightarrow> penalties_ok (record_flush cfg c tp m p)"
  unfolding record_flush_def Let_def
  by (simp add: penalties_ok_def record_miss_frame) blast

lemma penalties_commit: "penalties_ok p \<Longrightarrow> penalties_ok (on_commit_cycle cfg c p)"
  unfolding on_commit_cycle_def Let_def
  by (auto simp: penalties_ok_def word_gt_0 word_sub_le less_imp_le)

lemma penalties_step: "penalties_ok p \<Longrightarrow> penalties_ok (profile_step cfg p e)"
proof (cases e)
  case (NoCommitCycle c n ti tp)
  assume "penalties_ok p"
  then show ?thesis unfolding NoCommitCycle
    by (simp add: penalties_ok_def on_no_commit_cycle_def count_detail_def Let_def)
qed (auto intro: penalties_flush penalties_commit elim: penalties_cong [rotated -1]
    simp: observe_cycle_def record_commit_def record_prev_def record_class_def record_commit_width_def Let_def)

interpretation penalties: machine "profile_step cfg" penalties_ok for cfg
  by unfold_locales (rule penalties_step)

text \<open>C39: Every flush penalty that a run reports is positive, and is the distance to an earlier
  reported flush with the reason it names.\<close>

theorem penalties_justified:
  assumes "PenaltyLine c r d \<in> List.set (profile_log (profile_run cfg es))"
  shows "0 < d \<and> d \<le> c
    \<and> (\<exists>s ca a b mt ms di k. FlushLine (c - d) r s ca a b mt ms di k \<in> List.set (profile_log (profile_run cfg es)))"
proof -
  have "penalties_ok (ProfileCollector_init (cfg_commit_width cfg))"
    by (simp add: penalties_ok_def ProfileCollector_init_def)
  from penalties.fold_inv [OF this, where es = es and cfg = cfg] assms show ?thesis
    unfolding profile_run_def penalties_ok_def by blast
qed

definition demo_config :: profile_config where
  "demo_config = ProfileCollector_config (sim_args_init\<lparr>bru_trace := True\<rparr>) 4 4"

lemma penalties_witness:
  "PenaltyLine 9 ''external'' 6 \<in> List.set (profile_log (profile_run demo_config
      [FlushSeen 3 (idle_ports\<lparr>backend_flush_o := True\<rparr>) UnifiedMem_init, CommitCycle 9]))
   \<and> (0 :: u64) < 6"
proof -
  have "PenaltyLine 9 ''external'' 6 \<in> List.set (profile_log (profile_run demo_config
      [FlushSeen 3 (idle_ports\<lparr>backend_flush_o := True\<rparr>) UnifiedMem_init, CommitCycle 9]))"
    by (simp add: profile_run_def record_flush_def record_miss_def flush_reason_of_def on_commit_cycle_def
        should_log_verbose_flush_def demo_config_def ProfileCollector_config_def sim_args_init_def
        ProfileCollector_init_def idle_ports_def Let_def)
  with penalties_justified [OF this] show ?thesis by simp
qed

section \<open>The histogram of the commit width\<close>

definition width_hist_ok :: "u32 \<Rightarrow> profile \<Rightarrow> bool" where
  "width_hist_ok w p \<longleftrightarrow> length (commit_width_hist p) = unat (max 5 (w + 1))"

lemma width_hist_step: "width_hist_ok w p \<Longrightarrow> width_hist_ok w (profile_step cfg p e)"
  by (cases e) (simp_all add: width_hist_ok_def observe_cycle_def record_flush_def record_miss_def record_commit_def
      record_prev_def record_class_def record_commit_width_def on_commit_cycle_def on_no_commit_cycle_def count_detail_def Let_def)

interpretation width_hist: machine "profile_step cfg" "width_hist_ok w" for cfg w
  by unfold_locales (rule width_hist_step)

lemma hist_step: "commit_width_hist (profile_step cfg p e) = (case e of
    WidthSeen n \<Rightarrow> (commit_width_hist p)[unat (min n (cfg_commit_width cfg)) :=
      commit_width_hist p ! unat (min n (cfg_commit_width cfg)) + 1]
  | _ \<Rightarrow> commit_width_hist p)"
  by (cases e) (simp_all add: observe_cycle_def record_flush_def record_miss_def record_commit_def
      record_prev_def record_class_def record_commit_width_def on_commit_cycle_def on_no_commit_cycle_def count_detail_def Let_def)

definition width_events :: "(nat \<Rightarrow> bool) \<Rightarrow> profile_event list \<Rightarrow> u64" where
  "width_events P es = of_nat (length (List.filter (\<lambda>e. case e of WidthSeen n \<Rightarrow> P (unat n) | _ \<Rightarrow> False) es))"

lemma hist_run:
  assumes "unat (cfg_commit_width cfg) < length (commit_width_hist p)" and "i < length (commit_width_hist p)"
  shows "commit_width_hist (fold (\<lambda>e p. profile_step cfg p e) es p) ! i
    = commit_width_hist p ! i + width_events (\<lambda>n. min n (unat (cfg_commit_width cfg)) = i) es"
  using assms
proof (induction es arbitrary: p)
  case (Cons e es)
  have m: "unat (min n (cfg_commit_width cfg)) = min (unat n) (unat (cfg_commit_width cfg))" for n
    by (simp add: min_def word_le_nat_alt)
  have l: "length (commit_width_hist (profile_step cfg p e)) = length (commit_width_hist p)"
    by (simp add: hist_step split: profile_event.split)
  then have "commit_width_hist (fold (\<lambda>e p. profile_step cfg p e) es (profile_step cfg p e)) ! i
      = commit_width_hist (profile_step cfg p e) ! i + width_events (\<lambda>n. min n (unat (cfg_commit_width cfg)) = i) es"
    using Cons by simp
  moreover have "commit_width_hist (profile_step cfg p e) ! i + width_events Q es = commit_width_hist p ! i + width_events Q (e # es)"
    if "Q = (\<lambda>n. min n (unat (cfg_commit_width cfg)) = i)" for Q
    using Cons.prems that unfolding hist_step by (cases e) (simp_all add: width_events_def m nth_list_update)
  ultimately show ?case by simp
qed (simp add: width_events_def)

text \<open>C40: In every run, and for every commit width but the largest word, the histogram has a place
  for the commit width, and its entries count the cycles by the number of commits recorded at
  their end: entry \<open>i\<close> below the commit width those with \<open>i\<close> commits, the entry of the commit width
  those with at least as many, and the entries behind it none.\<close>

theorem commit_width_histogram:
  fixes cfg :: profile_config and es :: "profile_event list"
  assumes "cfg_commit_width cfg \<noteq> 0xFFFFFFFF"
  defines "w \<equiv> unat (cfg_commit_width cfg)" and "h \<equiv> commit_width_hist (profile_run cfg es)"
  shows "w < length h \<and> (\<forall>i<w. h ! i = width_events (\<lambda>n. n = i) es) \<and> h ! w = width_events (\<lambda>n. w \<le> n) es
    \<and> (\<forall>i. w < i \<and> i < length h \<longrightarrow> h ! i = 0)"
proof -
  let ?w = "cfg_commit_width cfg" and ?p = "ProfileCollector_init (cfg_commit_width cfg)"
  have i: "width_hist_ok ?w ?p" by (simp add: width_hist_ok_def ProfileCollector_init_def)
  from width_hist.fold_inv [OF this, where es = es and cfg = cfg]
  have l: "length h = unat (max 5 (?w + 1))" "length (commit_width_hist ?p) = length h"
    using i by (simp_all add: h_def profile_run_def width_hist_ok_def)
  have "?w + 1 \<noteq> 0"
  proof
    assume "?w + 1 = 0"
    then have "?w = - 1" by (simp only: eq_neg_iff_add_eq_0)
    then show False using assms(1) by simp
  qed
  then have "unat (?w + 1) = Suc w"
    unfolding w_def using unat_lt_u32 [of ?w] by (metis unatSuc add.commute)
  moreover have "unat (?w + 1) \<le> unat (max 5 (?w + 1))" by (simp add: max_def word_le_nat_alt)
  ultimately have b: "w < length h" unfolding l by linarith
  have z: "j < length h \<Longrightarrow> commit_width_hist ?p ! j = 0" for j
    using l(2) by (simp add: ProfileCollector_init_def)
  have r: "j < length h \<Longrightarrow> h ! j = width_events (\<lambda>n. min n w = j) es" for j
    using hist_run [of cfg ?p j es] b l(2) z [of j] unfolding h_def profile_run_def w_def by simp
  have "(\<lambda>n. min n w = j) = (\<lambda>n. n = j)" if "j < w" for j using that by (auto simp: fun_eq_iff min_def)
  moreover have "(\<lambda>n. min n w = w) = (\<lambda>n. w \<le> n)" by (auto simp: fun_eq_iff min_def)
  moreover have "width_events (\<lambda>n. min n w = j) es = 0" if "w < j" for j
  proof -
    have "(\<lambda>n. min n w = j) = (\<lambda>n. False)" using that by (auto simp: fun_eq_iff min_def)
    moreover have "(\<lambda>e. case e of WidthSeen n \<Rightarrow> False | _ \<Rightarrow> False) = (\<lambda>e :: profile_event. False)"
      by (auto simp: fun_eq_iff split: profile_event.split)
    ultimately show ?thesis by (simp add: width_events_def)
  qed
  ultimately show ?thesis using b r by simp
qed

lemma commit_width_witness:
  "commit_width_hist (profile_run demo_config [WidthSeen 7, WidthSeen 1, WidthSeen 4]) ! 4 = 2"
  using commit_width_histogram [of demo_config "[WidthSeen 7, WidthSeen 1, WidthSeen 4]"]
  by (simp add: demo_config_def ProfileCollector_config_def width_events_def)

end
