(* ===== verification/Npc_Boot.thy ===== *)
theory Npc_Boot
  imports Npc_Bus
begin

text \<open>
  How the simulator starts a system (\<open>src/npc/csrc/include/boot_loader.h\<close>, the first part of
  \<open>main\<close> in \<open>src/npc/csrc/npc_main.cpp\<close>, \<open>trap_decode.h\<close>): the instruction encoders, the
  stubs they make up, and their installation. A small interpreter of the four instructions
  the stubs use, written from the instruction set manual, says what the stubs do.
\<close>

section \<open>Encoders\<close>

abbreviation kBootStubBase :: u32 where "kBootStubBase \<equiv> kBootRomBase"
abbreviation kOpenSbiLoadBase :: u32 where "kOpenSbiLoadBase \<equiv> kPmemBase + 0x00020000"
abbreviation kCsrSatp :: u32 where "kCsrSatp \<equiv> 0x180"
abbreviation kFdtMagic :: u32 where "kFdtMagic \<equiv> 0xd00dfeed"
abbreviation kFdtVersion :: u32 where "kFdtVersion \<equiv> 17"
abbreviation kFdtLastCompVersion :: u32 where "kFdtLastCompVersion \<equiv> 16"
abbreviation kFdtMinBlobSize :: u32 where "kFdtMinBlobSize \<equiv> 0x28"

record boot_handoff =
  hartid :: u32
  dtb_addr :: u32
  handoff_satp :: u32

definition make_default_boot_handoff :: boot_handoff where
  "make_default_boot_handoff = \<lparr>hartid = 0, dtb_addr = kDtbBase, handoff_satp = 0\<rparr>"

definition enc_i :: "u32 \<Rightarrow> u32 \<Rightarrow> u32 \<Rightarrow> u32 \<Rightarrow> u32 \<Rightarrow> u32" where
  "enc_i imm12 rs1 funct3 rd opcode =
    push_bit 20 (imm12 AND 0xfff) OR push_bit 15 (rs1 AND 0x1f) OR push_bit 12 (funct3 AND 0x7)
    OR push_bit 7 (rd AND 0x1f) OR (opcode AND 0x7f)"

definition enc_u :: "u32 \<Rightarrow> u32 \<Rightarrow> u32 \<Rightarrow> u32" where
  "enc_u imm31_12 rd opcode =
    push_bit 12 (imm31_12 AND 0xfffff) OR push_bit 7 (rd AND 0x1f) OR (opcode AND 0x7f)"

definition insn_lui :: "u32 \<Rightarrow> u32 \<Rightarrow> u32" where
  "insn_lui rd imm31_12 = enc_u imm31_12 rd 0x37"

text \<open>The signed immediates are words: the cast to \<open>uint32_t\<close> keeps their bits.\<close>

definition insn_addi :: "u32 \<Rightarrow> u32 \<Rightarrow> u32 \<Rightarrow> u32" where
  "insn_addi rd rs1 imm = enc_i imm rs1 0x0 rd 0x13"

definition insn_csrrw :: "u32 \<Rightarrow> u32 \<Rightarrow> u32 \<Rightarrow> u32" where
  "insn_csrrw rd rs1 csr = enc_i csr rs1 0x1 rd 0x73"

definition insn_jalr :: "u32 \<Rightarrow> u32 \<Rightarrow> u32 \<Rightarrow> u32" where
  "insn_jalr rd rs1 imm = enc_i imm rs1 0x0 rd 0x67"

section \<open>Stubs\<close>

definition emit_load_imm32 :: "u32 list \<Rightarrow> u32 \<Rightarrow> u32 \<Rightarrow> u32 list" where
  "emit_load_imm32 out rd value =
    (let hi20 = drop_bit 12 (value + 0x800);
         low12 = value AND 0xfff;
         low12 = (if low12 AND 0x800 \<noteq> 0 then low12 - 0x1000 else low12)
     in out @ [insn_lui rd hi20] @ [insn_addi rd rd low12])"

definition make_boot_handoff_stub :: "u32 \<Rightarrow> boot_handoff \<Rightarrow> u32 list" where
  "make_boot_handoff_stub firmware_entry h =
    (let words = [];
         words = emit_load_imm32 words 10 (hartid h);
         words = emit_load_imm32 words 11 (dtb_addr h);
         words = (if handoff_satp h = 0 then words @ [insn_csrrw 0 0 kCsrSatp]
                  else emit_load_imm32 words 12 (handoff_satp h) @ [insn_csrrw 0 12 kCsrSatp]);
         words = emit_load_imm32 words 1 firmware_entry;
         words = words @ [insn_jalr 0 1 0]
     in words @ [0x00000013])"

definition make_jump_stub :: "u32 \<Rightarrow> u32 list" where
  "make_jump_stub target_pc =
    (let words = emit_load_imm32 [] 1 target_pc;
         words = words @ [insn_jalr 0 1 0]
     in words @ [0x00000013])"

definition install_boot_handoff_stub :: "u32 \<Rightarrow> boot_handoff \<Rightarrow> u32 \<Rightarrow> unified_mem \<Rightarrow> unified_mem" where
  "install_boot_handoff_stub firmware_entry h stub_base m =
    (let words = make_boot_handoff_stub firmware_entry h
     in fold (\<lambda>i m. write_word (stub_base + of_nat i * 4) (words ! i) m) [0..<length words] m)"

definition install_jump_stub :: "u32 \<Rightarrow> u32 \<Rightarrow> unified_mem \<Rightarrow> unified_mem" where
  "install_jump_stub target_pc stub_base m =
    (let words = make_jump_stub target_pc
     in fold (\<lambda>i m. write_word (stub_base + of_nat i * 4) (words ! i) m) [0..<length words] m)"

definition install_minimal_dtb :: "u32 \<Rightarrow> unified_mem \<Rightarrow> unified_mem" where
  "install_minimal_dtb a m =
    (let m = write_word (a + 0x00) kFdtMagic m;
         m = write_word (a + 0x04) kFdtMinBlobSize m;
         m = write_word (a + 0x08) 0x10 m;
         m = write_word (a + 0x0c) 0x20 m;
         m = write_word (a + 0x10) 0x28 m;
         m = write_word (a + 0x14) kFdtVersion m;
         m = write_word (a + 0x18) kFdtLastCompVersion m;
         m = write_word (a + 0x1c) 0 m;
         m = write_word (a + 0x20) 0 m
     in write_word (a + 0x24) 0 m)"

section \<open>The boot setup of main\<close>

text \<open>
  The memory before reset, or None where \<open>main\<close> returns 1. The arguments used are the two
  options and the files, each None when it cannot be opened; \<open>dtb\<close> is None when no path is
  given.
\<close>

definition boot_setup :: "bool \<Rightarrow> u64 \<Rightarrow> u8 list option \<Rightarrow> u8 list option option \<Rightarrow> unified_mem option" where
  "boot_setup handoff_flag firmware_load_base img dtb =
    (let m = UnifiedMem_init; entry_pc = kPmemBase in
     if handoff_flag then
       (let firmware_base = (if firmware_load_base \<noteq> 0 then ucast firmware_load_base else kOpenSbiLoadBase) in
        if firmware_base = entry_pc then None
        else if firmware_base AND 0x003fffff \<noteq> 0 then None
        else (let (ok, m) = load_binary img firmware_base m in
          if \<not> ok then None
          else
          (let handoff = make_default_boot_handoff;
               (ok, m) = (case dtb of
                   Some file \<Rightarrow> load_binary file (dtb_addr handoff) m
                 | None \<Rightarrow> (True, install_minimal_dtb (dtb_addr handoff) m))
           in if \<not> ok then None
              else (let m = install_boot_handoff_stub firmware_base handoff kBootRomBase m
                    in Some (install_jump_stub kBootRomBase entry_pc m)))))
     else (let (ok, m) = load_binary img kPmemBase m in if \<not> ok then None else Some m))"

section \<open>Trap instructions\<close>

abbreviation kEbreakInsn :: u32 where "kEbreakInsn \<equiv> 0x00100073"
abbreviation kCEbreakInsn :: u16 where "kCEbreakInsn \<equiv> 0x9002"

definition is_ebreak_insn_word :: "u32 \<Rightarrow> u32 \<Rightarrow> bool" where
  "is_ebreak_insn_word insn_word pc =
    (if pc AND 0x1 \<noteq> 0 then False
     else (let half_shift = (if pc AND 0x2 \<noteq> 0 then 16 else 0);
               insn16 = ucast (drop_bit half_shift insn_word AND 0xffff) :: u16 in
       if insn16 = kCEbreakInsn then True
       else if half_shift = 0 \<and> insn_word = kEbreakInsn then True
       else False))"

section \<open>The instructions of the stubs\<close>

record rv_state =
  rv_pc :: u32
  rv_reg :: "u32 \<Rightarrow> u32"
  rv_satp :: u32

definition rv_imm12 :: "u32 \<Rightarrow> u32" where
  "rv_imm12 x = (if bit x 11 then (x AND 0xfff) - 0x1000 else x AND 0xfff)"

definition rv_set :: "u32 \<Rightarrow> u32 \<Rightarrow> (u32 \<Rightarrow> u32) \<Rightarrow> u32 \<Rightarrow> u32" where
  "rv_set rd v r = (if rd = 0 then r else r(rd := v))"

text \<open>LUI, ADDI, CSRRW on satp and JALR, by opcode and function field; None for all others.\<close>

definition rv_exec :: "u32 \<Rightarrow> rv_state \<Rightarrow> rv_state option" where
  "rv_exec w s =
    (let opcode = w AND 0x7f; rd = drop_bit 7 w AND 0x1f; funct3 = drop_bit 12 w AND 0x7;
         rs1 = drop_bit 15 w AND 0x1f; imm = drop_bit 20 w AND 0xfff in
     if opcode = 0x37 then
       Some (s\<lparr>rv_reg := rv_set rd (w AND 0xfffff000) (rv_reg s), rv_pc := rv_pc s + 4\<rparr>)
     else if opcode = 0x13 \<and> funct3 = 0 then
       Some (s\<lparr>rv_reg := rv_set rd (rv_reg s rs1 + rv_imm12 imm) (rv_reg s), rv_pc := rv_pc s + 4\<rparr>)
     else if opcode = 0x73 \<and> funct3 = 1 \<and> imm = 0x180 then
       Some (s\<lparr>rv_reg := rv_set rd (rv_satp s) (rv_reg s), rv_satp := rv_reg s rs1, rv_pc := rv_pc s + 4\<rparr>)
     else if opcode = 0x67 \<and> funct3 = 0 then
       Some (s\<lparr>rv_reg := rv_set rd (rv_pc s + 4) (rv_reg s),
               rv_pc := (rv_reg s rs1 + rv_imm12 imm) AND NOT 1\<rparr>)
     else None)"

primrec rv_run :: "nat \<Rightarrow> unified_mem \<Rightarrow> rv_state \<Rightarrow> rv_state option" where
  "rv_run 0 m s = Some s"
| "rv_run (Suc n) m s =
    (case rv_exec (read_word_const (rv_pc s) m) s of None \<Rightarrow> None | Some s \<Rightarrow> rv_run n m s)"


section \<open>Words in memory and boot ROM\<close>

definition plain_word :: "u32 \<Rightarrow> bool" where
  "plain_word a \<longleftrightarrow> (in_pmem a \<or> in_bootrom a) \<and> unat a mod 4 = 0"

lemma align4_plain: "plain_word a \<Longrightarrow> align4 a = a"
  by (simp add: plain_word_def align4_const)

lemma bootrom_no_device:
  assumes "in_bootrom a"
  shows "a \<noteq> kRtcPortLow" "a \<noteq> kRtcPortHigh" "a \<noteq> kClintMtimecmpLow"
    "a \<noteq> kClintMtimecmpHigh" "a \<noteq> kClintMtimeLow" "a \<noteq> kClintMtimeHigh"
    "a \<noteq> kPlicPriority1" "a \<noteq> kPlicPending" "a \<noteq> kPlicEnableM"
    "a \<noteq> kPlicThresholdM" "a \<noteq> kPlicClaimCompleteM"
    "\<not> in_uart a" "\<not> in_virtio_blk a" "\<not> in_pmem a"
  using assms by (auto simp: in_bootrom_unat in_uart_unat in_virtio_unat in_pmem_unat)

lemma bootrom_access:
  assumes "in_bootrom a" "plain_word a"
  shows "pmem_words (write_word a d m) = pmem_words m"
    "bootrom_words (write_word a d m) = (bootrom_words m)(bootrom_index a := d)"
    "read_word_const a m = bootrom_words m (bootrom_index a)"
  using bootrom_no_device [OF assms(1)] bootrom_index_below [OF assms(1)] assms(1)
  by (simp_all add: align4_plain [OF assms(2)] write_word_def read_word_const_def read_word_common_def Let_def)

lemma word_index_inj:
  assumes "plain_word a" "plain_word b"
  shows "in_bootrom a \<Longrightarrow> in_bootrom b \<Longrightarrow> bootrom_index a = bootrom_index b \<Longrightarrow> a = b"
    "in_pmem a \<Longrightarrow> in_pmem b \<Longrightarrow> pmem_index a = pmem_index b \<Longrightarrow> a = b"
proof -
  have d: "x = y" if "(x - k) div 4 = (y - k) div 4" "k \<le> x" "k \<le> y" "x mod 4 = 0" "y mod 4 = 0" "k mod 4 = 0" for x y k :: nat
  proof -
    have "4 dvd x - k" "4 dvd y - k" using that by (auto intro!: dvd_diff_nat)
    then have "x - k = y - k" using that(1) by (metis dvd_div_mult_self)
    then show ?thesis using that(2,3) by linarith
  qed
  note e = align4_plain [OF assms(1)] align4_plain [OF assms(2)]
  show "in_bootrom a \<Longrightarrow> in_bootrom b \<Longrightarrow> bootrom_index a = bootrom_index b \<Longrightarrow> a = b"
    using bootrom_index_eq [of a] bootrom_index_eq [of b] assms d [of "unat a" "0x1000" "unat b"]
    by (simp add: e plain_word_def in_bootrom_unat word_unat_eq_iff)
  show "in_pmem a \<Longrightarrow> in_pmem b \<Longrightarrow> pmem_index a = pmem_index b \<Longrightarrow> a = b"
    using pmem_index_eq [of a] pmem_index_eq [of b] assms d [of "unat a" "0x80000000" "unat b"]
    by (simp add: e plain_word_def in_pmem_unat word_unat_eq_iff)
qed

lemma read_write_plain:
  assumes "plain_word a" "plain_word b"
  shows "read_word_const b (write_word a d m) = (if b = a then d else read_word_const b m)"
proof -
  consider "in_pmem a" "in_pmem b" | "in_pmem a" "in_bootrom b" | "in_bootrom a" "in_pmem b" | "in_bootrom a" "in_bootrom b"
    using assms by (auto simp: plain_word_def)
  then show ?thesis
  proof cases
    case 1
    then show ?thesis using word_index_inj(2) [OF assms(2,1)]
      by (auto simp: read_word_pmem write_word_pmem align4_plain assms)
  next
    case 2
    then show ?thesis using bootrom_no_device(14) [OF 2(2)] bootrom_access [OF 2(2) assms(2)]
      by (auto simp: write_word_pmem)
  next
    case 3
    then show ?thesis using bootrom_no_device(14) [OF 3(1)] bootrom_access [OF 3(1) assms(1)]
      by (auto simp: read_word_pmem)
  next
    case 4
    then show ?thesis using word_index_inj(1) [OF assms(2,1)] bootrom_access [OF 4(1) assms(1)] bootrom_access [OF 4(2) assms(2)]
      by auto
  qed
qed

text \<open>The loop of the installers, and what is read back afterwards.\<close>

lemma install_frame:
  "\<forall>i<n. plain_word (base + of_nat i * 4) \<and> b \<noteq> base + of_nat i * 4 \<Longrightarrow> plain_word b \<Longrightarrow>
   read_word_const b (fold (\<lambda>i m. write_word (base + of_nat i * 4) (words ! i) m) [0..<n] m) = read_word_const b m"
  by (induction n) (simp_all add: read_write_plain)

lemma install_reads:
  "\<forall>i<n. plain_word (base + of_nat i * 4) \<Longrightarrow> n \<le> 1024 \<Longrightarrow> k < n \<Longrightarrow>
   read_word_const (base + of_nat k * 4) (fold (\<lambda>i m. write_word (base + of_nat i * 4) (words ! i) m) [0..<n] m) = words ! k"
proof (induction n)
  case (Suc n)
  have ne: "base + of_nat k * 4 \<noteq> base + of_nat n * 4" if "k \<noteq> n"
  proof -
    have "unat (of_nat k * 4 :: u32) = k * 4" "unat (of_nat n * 4 :: u32) = n * 4"
      using Suc.prems(2,3) by (simp_all add: unat_word_ariths unat_of_nat)
    then show ?thesis using that by (metis add_left_cancel mult_cancel2 zero_neq_numeral)
  qed
  show ?case using Suc ne by (cases "k = n") (simp_all add: read_write_plain)
qed simp

section \<open>Decoding what was encoded\<close>

lemma field_masks: "(0xfff :: u32) = mask 12" "(0xfffff :: u32) = mask 20" "(0x1f :: u32) = mask 5"
  "(0x7f :: u32) = mask 7" "(0x7 :: u32) = mask 3" "(0xfffff000 :: u32) = push_bit 12 (mask 20)"
  by (simp_all add: mask_eq_exp_minus_1 push_bit_eq_mult)

lemma enc_i_fields:
  "enc_i imm rs1 f rd opc AND 0x7f = opc AND 0x7f"
  "drop_bit 7 (enc_i imm rs1 f rd opc) AND 0x1f = rd AND 0x1f"
  "drop_bit 12 (enc_i imm rs1 f rd opc) AND 0x7 = f AND 0x7"
  "drop_bit 15 (enc_i imm rs1 f rd opc) AND 0x1f = rs1 AND 0x1f"
  "drop_bit 20 (enc_i imm rs1 f rd opc) AND 0xfff = imm AND 0xfff"
  unfolding enc_i_def field_masks
  by (auto intro!: bit_word_eqI simp: bit_or_iff bit_and_iff bit_push_bit_iff bit_drop_bit_eq bit_mask_iff)

lemma enc_u_fields:
  "enc_u imm rd opc AND 0x7f = opc AND 0x7f"
  "drop_bit 7 (enc_u imm rd opc) AND 0x1f = rd AND 0x1f"
  "enc_u imm rd opc AND 0xfffff000 = push_bit 12 imm"
  unfolding enc_u_def field_masks
  by (auto intro!: bit_word_eqI simp: bit_or_iff bit_and_iff bit_push_bit_iff bit_drop_bit_eq bit_mask_iff)

text \<open>The upper part is rounded so that the sign-extended lower part brings the value back.\<close>

lemma hi_lo_sum:
  fixes v :: u32
  defines "low \<equiv> v AND 0xfff"
  shows "push_bit 12 (drop_bit 12 (v + 0x800)) + rv_imm12 ((if low AND 0x800 \<noteq> 0 then low - 0x1000 else low) AND 0xfff) = v"
proof -
  have low: "low = take_bit 12 v" by (simp only: low_def field_masks take_bit_eq_mask)
  have u: "unat low = unat v mod 4096" by (simp add: low unat_take_bit)
  then have l: "unat low < 4096" by simp
  have b: "low AND 0x800 \<noteq> 0 \<longleftrightarrow> bit low 11"
  proof -
    have "(0x800 :: u32) = 2 ^ 11" by simp
    then show ?thesis by (simp only: and_exp_eq_0_iff_not_bit) simp
  qed
  have hi: "bit low 11 \<longleftrightarrow> 2048 \<le> unat low"
  proof -
    have "bit low 11 = bit (unat low) 11" by (simp add: bit_unsigned_iff)
    also have "\<dots> = odd (unat low div 2048)" by (simp add: bit_iff_odd)
    also have "unat low div 2048 = (if unat low < 2048 then 0 else 1)"
      using l by (auto intro: div_nat_eqI)
    finally show ?thesis by auto
  qed
  have m: "(low - 0x1000) AND 0xfff = low"
  proof -
    have "unat (low + 0xFFFFF000) = unat low + 0xFFFFF000"
      using l by (simp add: unat_word_ariths)
    then have "unat (take_bit 12 (low + 0xFFFFF000)) = (unat low + 0xFFFFF000) mod 4096"
      by (simp add: unat_take_bit)
    also have "\<dots> = unat low" using l by (simp add: mod_add_eq [symmetric])
    finally have "take_bit 12 (low + 0xFFFFF000) = low" by (simp add: word_unat_eq_iff)
    moreover have "low - 0x1000 = low + 0xFFFFF000" by simp
    ultimately show ?thesis unfolding field_masks(1) by (simp only: flip: take_bit_eq_mask)
  qed
  have m': "low AND 0xfff = low" unfolding field_masks by (simp add: low flip: take_bit_eq_mask)
  have t: "take_bit 12 (v + 0x800) = (if bit low 11 then low - 0x800 else low + 0x800)"
  proof -
    have "unat (take_bit 12 (v + 0x800)) = (unat v + 2048) mod 4294967296 mod 4096"
      by (simp add: unat_take_bit unat_word_ariths)
    also have "\<dots> = (unat low + 2048) mod 4096"
      by (simp add: mod_mod_cancel u mod_add_left_eq)
    finally have "unat (take_bit 12 (v + 0x800)) = (unat low + 2048) mod 4096" .
    moreover have "(unat low + 2048) mod 4096 = unat low - 2048" if "2048 \<le> unat low"
      using l that by (simp add: mod_if)
    moreover have "unat (low - 0x800) = unat low - 2048" if "2048 \<le> unat low"
      using that by (simp add: unat_sub word_le_nat_alt)
    moreover have "unat (low + 0x800) = unat low + 2048" using l by (simp add: unat_word_ariths)
    ultimately show ?thesis using l unfolding word_unat_eq_iff hi by simp
  qed
  have "push_bit 12 (drop_bit 12 (v + 0x800)) + take_bit 12 (v + 0x800) = v + 0x800"
    by (rule bits_ident)
  then have s: "push_bit 12 (drop_bit 12 (v + 0x800)) = v + 0x800 - (if bit low 11 then low - 0x800 else low + 0x800)"
    unfolding t by (simp add: eq_diff_eq)
  show ?thesis unfolding b s by (simp add: m m' rv_imm12_def)
qed

text \<open>The two instructions that load a constant.\<close>

lemma load_imm_exec:
  assumes "rd AND 0x1f = rd" "rd \<noteq> 0"
  shows "\<exists>a b s1. emit_load_imm32 ws rd v = ws @ [a, b] \<and> rv_exec a s = Some s1
    \<and> rv_exec b s1 = Some (s\<lparr>rv_reg := (rv_reg s)(rd := v), rv_pc := rv_pc s + 8\<rparr>) \<and> rv_pc s1 = rv_pc s + 4"
proof -
  let ?low = "if (v AND 0xfff) AND 0x800 \<noteq> 0 then (v AND 0xfff) - 0x1000 else v AND 0xfff"
  let ?a = "insn_lui rd (drop_bit 12 (v + 0x800))" and ?b = "insn_addi rd rd ?low"
  let ?s1 = "s\<lparr>rv_reg := (rv_reg s)(rd := push_bit 12 (drop_bit 12 (v + 0x800))), rv_pc := rv_pc s + 4\<rparr>"
  have "emit_load_imm32 ws rd v = ws @ [?a, ?b]"
    by (simp only: emit_load_imm32_def Let_def append_Cons append_Nil)
  moreover have "rv_exec ?a s = Some ?s1"
    using assms by (simp add: rv_exec_def insn_lui_def enc_u_fields rv_set_def Let_def)
  moreover have "rv_exec ?b ?s1 = Some (s\<lparr>rv_reg := (rv_reg s)(rd := v), rv_pc := rv_pc s + 8\<rparr>)"
    using assms hi_lo_sum [of v] unfolding rv_exec_def insn_addi_def enc_i_fields Let_def
    by (simp add: rv_set_def)
  ultimately show ?thesis by fastforce
qed

lemma emit_append: "emit_load_imm32 out rd v = out @ emit_load_imm32 [] rd v"
  by (simp only: emit_load_imm32_def Let_def append_Nil append_assoc)

lemma emit_length: "length (emit_load_imm32 [] rd v) = 2"
  by (simp add: emit_load_imm32_def Let_def)

lemma run_load_imm:
  assumes "rd AND 0x1f = rd" "rd \<noteq> 0" "read_word_const (rv_pc s) m = emit_load_imm32 [] rd v ! 0"
    "read_word_const (rv_pc s + 4) m = emit_load_imm32 [] rd v ! 1"
  shows "rv_run (Suc (Suc n)) m s = rv_run n m (s\<lparr>rv_reg := (rv_reg s)(rd := v), rv_pc := rv_pc s + 8\<rparr>)"
proof -
  obtain a b s1 where "emit_load_imm32 [] rd v = [] @ [a, b]" "rv_exec a s = Some s1"
    "rv_exec b s1 = Some (s\<lparr>rv_reg := (rv_reg s)(rd := v), rv_pc := rv_pc s + 8\<rparr>)" "rv_pc s1 = rv_pc s + 4"
    using load_imm_exec [OF assms(1,2)] by blast
  then show ?thesis using assms(3,4) by simp
qed

lemma exec_csrrw: "rs AND 0x1f = rs \<Longrightarrow> rv_exec (insn_csrrw 0 rs kCsrSatp) s
    = Some (s\<lparr>rv_satp := rv_reg s rs, rv_pc := rv_pc s + 4\<rparr>)"
  by (simp add: rv_exec_def insn_csrrw_def enc_i_fields rv_set_def Let_def)

lemma exec_jalr: "rv_exec (insn_jalr 0 1 0) s = Some (s\<lparr>rv_pc := rv_reg s 1 AND NOT 1\<rparr>)"
  by (simp add: rv_exec_def insn_jalr_def enc_i_fields rv_set_def Let_def rv_imm12_def)

lemma jump_stub_eq: "make_jump_stub t = emit_load_imm32 [] 1 t @ [insn_jalr 0 1 0, 0x00000013]"
  by (simp add: make_jump_stub_def Let_def)

lemma handoff_stub_eq: "make_boot_handoff_stub t h = emit_load_imm32 [] 10 (hartid h) @ emit_load_imm32 [] 11 (dtb_addr h)
    @ (if handoff_satp h = 0 then [insn_csrrw 0 0 kCsrSatp]
       else emit_load_imm32 [] 12 (handoff_satp h) @ [insn_csrrw 0 12 kCsrSatp])
    @ emit_load_imm32 [] 1 t @ [insn_jalr 0 1 0, 0x00000013]"
proof -
  obtain a b where ab: "emit_load_imm32 [] 10 (hartid h) = [a, b]"
    using emit_length [of 10 "hartid h"] by (auto simp: length_Suc_conv numeral_2_eq_2)
  have e: "emit_load_imm32 (x # xs) rd v = x # xs @ emit_load_imm32 [] rd v" for x xs rd v
    using emit_append [of "x # xs"] by simp
  show ?thesis
    by (cases "handoff_satp h = 0") (simp_all add: make_boot_handoff_stub_def Let_def ab e)
qed

definition code_at :: "unified_mem \<Rightarrow> u32 \<Rightarrow> u32 list \<Rightarrow> bool" where
  "code_at m pc ws \<longleftrightarrow> (\<forall>i<length ws. read_word_const (pc + of_nat i * 4) m = ws ! i)"

lemma code_at_append: "code_at m pc (us @ ws) \<longleftrightarrow> code_at m pc us \<and> code_at m (pc + of_nat (length us) * 4) ws"
proof -
  have "(\<forall>i<length us + length ws. P i) \<longleftrightarrow> (\<forall>i<length us. P i) \<and> (\<forall>i<length ws. P (length us + i))" for P :: "nat \<Rightarrow> bool"
  proof (intro iffI allI impI)
    fix i assume h: "(\<forall>i<length us. P i) \<and> (\<forall>i<length ws. P (length us + i))" "i < length us + length ws"
    show "P i"
    proof (cases "i < length us")
      case False
      then have "P (length us + (i - length us))" using h by (intro h(1) [THEN conjunct2, rule_format]) linarith
      then show ?thesis using False by simp
    qed (use h in simp)
  qed auto
  then show ?thesis
    by (simp add: code_at_def nth_append algebra_simps)
qed

lemma code_at_Cons: "code_at m pc (w # ws) \<longleftrightarrow> read_word_const pc m = w \<and> code_at m (pc + 4) ws"
  using code_at_append [of m pc "[w]" ws] by (simp add: code_at_def)

lemma run_load_code:
  assumes "code_at m (rv_pc s) (emit_load_imm32 [] rd v)" "rd AND 0x1f = rd" "rd \<noteq> 0"
  shows "rv_run (Suc (Suc n)) m s = rv_run n m (s\<lparr>rv_reg := (rv_reg s)(rd := v), rv_pc := rv_pc s + 8\<rparr>)"
proof (rule run_load_imm [OF assms(2,3)])
  show "read_word_const (rv_pc s) m = emit_load_imm32 [] rd v ! 0"
    "read_word_const (rv_pc s + 4) m = emit_load_imm32 [] rd v ! 1"
    using assms(1) emit_length [of rd v] unfolding code_at_def by (auto dest: spec [of _ 0] spec [of _ 1])
qed

lemma run_jump_stub:
  assumes "code_at m (rv_pc s) (make_jump_stub t)"
  shows "rv_run (3 + n) m s = rv_run n m (s\<lparr>rv_reg := (rv_reg s)(1 := t), rv_pc := t AND NOT 1\<rparr>)"
proof -
  have c: "code_at m (rv_pc s) (emit_load_imm32 [] 1 t)" "read_word_const (rv_pc s + 8) m = insn_jalr 0 1 0"
    using assms by (simp_all add: jump_stub_eq code_at_append code_at_Cons emit_length)
  have "rv_run (3 + n) m s = rv_run (Suc n) m (s\<lparr>rv_reg := (rv_reg s)(1 := t), rv_pc := rv_pc s + 8\<rparr>)"
    using run_load_code [OF c(1), of "Suc n"] by (simp add: numeral_3_eq_3)
  then show ?thesis using c(2) by (simp add: exec_jalr)
qed

lemma run_handoff_stub:
  assumes "code_at m (rv_pc s) (make_boot_handoff_stub t h)" "rv_reg s 0 = 0" "handoff_satp h = 0"
  shows "rv_run (8 + n) m s = rv_run n m (s\<lparr>rv_satp := 0, rv_reg := (rv_reg s)(10 := hartid h, 11 := dtb_addr h, 1 := t),
     rv_pc := t AND NOT 1\<rparr>)"
proof -
  let ?s1 = "s\<lparr>rv_reg := (rv_reg s)(10 := hartid h), rv_pc := 8 + rv_pc s\<rparr>"
  let ?s2 = "s\<lparr>rv_reg := (rv_reg s)(10 := hartid h, 11 := dtb_addr h), rv_pc := 16 + rv_pc s\<rparr>"
  let ?s3 = "s\<lparr>rv_satp := 0, rv_reg := (rv_reg s)(10 := hartid h, 11 := dtb_addr h), rv_pc := 20 + rv_pc s\<rparr>"
  let ?s4 = "s\<lparr>rv_satp := 0, rv_reg := (rv_reg s)(10 := hartid h, 11 := dtb_addr h, 1 := t), rv_pc := 28 + rv_pc s\<rparr>"
  have c: "code_at m (rv_pc s) (emit_load_imm32 [] 10 (hartid h))"
    "code_at m (rv_pc ?s1) (emit_load_imm32 [] 11 (dtb_addr h))"
    "read_word_const (rv_pc ?s2) m = insn_csrrw 0 0 kCsrSatp"
    "code_at m (rv_pc ?s3) (emit_load_imm32 [] 1 t)"
    "read_word_const (rv_pc ?s4) m = insn_jalr 0 1 0"
    using assms(1,3) by (simp_all add: handoff_stub_eq code_at_append code_at_Cons emit_length ac_simps)
  have r: "(10 :: u32) AND 0x1f = 10" "(10 :: u32) \<noteq> 0" "(11 :: u32) AND 0x1f = 11" "(11 :: u32) \<noteq> 0"
    "(1 :: u32) AND 0x1f = 1" "(1 :: u32) \<noteq> 0" by simp_all
  have "rv_run (Suc (Suc (6 + n))) m s = rv_run (6 + n) m ?s1"
    by (subst run_load_code [OF c(1) r(1,2)]) (simp add: add.commute [of "rv_pc s"])
  also have "6 + n = Suc (Suc (4 + n))" by simp
  also have "rv_run (Suc (Suc (4 + n))) m ?s1 = rv_run (4 + n) m ?s2"
    by (subst run_load_code [OF c(2) r(3,4)]) (simp add: add.commute [of "rv_pc s"])
  also have "4 + n = Suc (3 + n)" by simp
  also have "rv_run (Suc (3 + n)) m ?s2 = rv_run (3 + n) m ?s3"
  proof -
    have "rv_exec (insn_csrrw 0 0 kCsrSatp) ?s2 = Some ?s3"
      using assms(2) exec_csrrw [of 0 ?s2] by simp
    then show ?thesis by (simp only: rv_run.simps c(3) option.case)
  qed
  also have "3 + n = Suc (Suc (1 + n))" by simp
  also have "rv_run (Suc (Suc (1 + n))) m ?s3 = rv_run (1 + n) m ?s4"
    by (subst run_load_code [OF c(4) r(5,6)]) (simp add: add.commute [of "rv_pc s"])
  also have "1 + n = Suc n" by simp
  also have "rv_run (Suc n) m ?s4 = rv_run n m (?s4\<lparr>rv_pc := t AND NOT 1\<rparr>)"
    by (simp only: rv_run.simps c(5) exec_jalr) simp
  finally have "rv_run (Suc (Suc (Suc (Suc (Suc (Suc (Suc (Suc n)))))))) m s = rv_run n m (?s4\<lparr>rv_pc := t AND NOT 1\<rparr>)" .
  moreover have "8 + n = Suc (Suc (Suc (Suc (Suc (Suc (Suc (Suc n)))))))" by simp
  ultimately show ?thesis by (simp only:) simp
qed

section \<open>From reset to the firmware\<close>

lemma plain_pmem_base: "\<forall>i<4. plain_word (kPmemBase + of_nat i * 4)"
  and plain_bootrom_base: "\<forall>i<9. plain_word (kBootRomBase + of_nat i * 4)"
proof -
  have "unat (k + of_nat i * 4 :: u32) = unat k + i * 4" if "i < 9" "unat k \<le> 0x80000000" for i and k :: u32
    using that by (simp add: unat_word_ariths unat_of_nat)
  from this [of _ kPmemBase] this [of _ kBootRomBase]
  show "\<forall>i<4. plain_word (kPmemBase + of_nat i * 4)" "\<forall>i<9. plain_word (kBootRomBase + of_nat i * 4)"
    by (simp_all add: plain_word_def in_pmem_unat in_bootrom_unat)
qed

lemma jump_stub_length: "length (make_jump_stub t) = 4"
  by (simp add: jump_stub_eq emit_length)

lemma handoff_stub_length: "handoff_satp h = 0 \<Longrightarrow> length (make_boot_handoff_stub t h) = 9"
  by (simp add: handoff_stub_eq emit_length)

lemma jump_stub_installed: "code_at (install_jump_stub t kPmemBase m) kPmemBase (make_jump_stub t)"
  unfolding code_at_def install_jump_stub_def Let_def jump_stub_length
  using install_reads [OF plain_pmem_base] by simp

lemma handoff_stub_installed:
  assumes "handoff_satp h = 0"
  shows "code_at (install_jump_stub u kPmemBase (install_boot_handoff_stub t h kBootRomBase m)) kBootRomBase
     (make_boot_handoff_stub t h)"
  unfolding code_at_def handoff_stub_length [OF assms]
proof (intro allI impI)
  fix i :: nat assume i: "i < 9"
  let ?a = "kBootRomBase + of_nat i * 4"
  have a: "plain_word ?a" using plain_bootrom_base i by blast
  have "in_bootrom ?a" using plain_bootrom_base i
    by (simp add: in_bootrom_unat unat_word_ariths unat_of_nat)
  then have "\<not> in_pmem ?a" by (rule bootrom_no_device)
  moreover have "in_pmem (kPmemBase + of_nat j * 4)" if "j < 4" for j
    using that by (simp add: in_pmem_unat unat_word_ariths unat_of_nat)
  ultimately have "\<forall>j<4. plain_word (kPmemBase + of_nat j * 4) \<and> ?a \<noteq> kPmemBase + of_nat j * 4"
    using plain_pmem_base by metis
  from install_frame [OF this a]
  have "read_word_const ?a (install_jump_stub u kPmemBase (install_boot_handoff_stub t h kBootRomBase m))
      = read_word_const ?a (install_boot_handoff_stub t h kBootRomBase m)"
    by (simp add: install_jump_stub_def Let_def jump_stub_length)
  also have "\<dots> = make_boot_handoff_stub t h ! i"
    unfolding install_boot_handoff_stub_def Let_def handoff_stub_length [OF assms]
    by (rule install_reads [OF plain_bootrom_base]) (use i in simp_all)
  finally show "read_word_const ?a (install_jump_stub u kPmemBase (install_boot_handoff_stub t h kBootRomBase m))
      = make_boot_handoff_stub t h ! i" .
qed

lemma boot_setup_handoff:
  assumes "boot_setup True base img dtb = Some m"
  obtains m0 where "m = install_jump_stub kBootRomBase kPmemBase
      (install_boot_handoff_stub (ucast base) make_default_boot_handoff kBootRomBase m0)"
    "(ucast base :: u32) AND 0x003fffff = 0" "base \<noteq> 0"
  using assms by (auto simp: boot_setup_def Let_def split: if_splits prod.splits option.splits)

text \<open>C8: When the setup for a boot with handoff succeeds, whatever the firmware image and
  the device tree are, the processor runs, from its reset address with any register contents,
  eleven instructions (the trampoline in main memory and the stub in the boot ROM) and arrives
  at the load address of the firmware with the hart number 0 in a0, the address of the device
  tree in a1 and address translation off. The load address must be given: without it the
  setup always fails (lemma \<open>boot_default_fails\<close>).\<close>

theorem boot_reaches_firmware:
  assumes "boot_setup True base img dtb = Some m" "rv_pc s = kPmemBase" "rv_reg s 0 = 0"
  shows "\<exists>s'. rv_run 11 m s = Some s' \<and> rv_pc s' = ucast base \<and> rv_reg s' 10 = 0
    \<and> rv_reg s' 11 = kDtbBase \<and> rv_satp s' = 0"
proof -
  obtain m0 where m: "m = install_jump_stub kBootRomBase kPmemBase
      (install_boot_handoff_stub (ucast base) make_default_boot_handoff kBootRomBase m0)"
    and fw: "(ucast base :: u32) AND 0x003fffff = 0"
    using boot_setup_handoff [OF assms(1)] by blast
  have h: "handoff_satp make_default_boot_handoff = 0" "hartid make_default_boot_handoff = 0"
    "dtb_addr make_default_boot_handoff = kDtbBase"
    by (simp_all add: make_default_boot_handoff_def)
  have even: "(ucast base :: u32) AND NOT 1 = ucast base"
  proof -
    have "(ucast base :: u32) AND 1 = ((ucast base :: u32) AND 0x003fffff) AND 1"
      by (simp add: and.assoc)
    then have "(ucast base :: u32) AND 1 = 0" by (simp only: fw) simp
    moreover have "x = (x AND 1) OR (x AND NOT 1)" for x :: u32
      by (simp flip: bit.conj_disj_distrib)
    ultimately show ?thesis by (metis or.left_neutral)
  qed
  have "rv_run (3 + (8 + 0)) m s = rv_run (8 + 0) m (s\<lparr>rv_reg := (rv_reg s)(1 := kBootRomBase), rv_pc := kBootRomBase AND NOT 1\<rparr>)"
    by (rule run_jump_stub) (simp add: assms(2) m jump_stub_installed)
  also have "\<dots> = rv_run 0 m (s\<lparr>rv_satp := 0, rv_reg := (rv_reg s)(1 := kBootRomBase, 10 := 0, 11 := kDtbBase, 1 := ucast base),
      rv_pc := ucast base\<rparr>)"
    using handoff_stub_installed [OF h(1), of kBootRomBase "ucast base" m0]
    by (subst run_handoff_stub [where t = "ucast base" and h = make_default_boot_handoff])
      (simp_all add: m h assms(3) even [simplified])
  finally show ?thesis by simp
qed

lemma boot_default_fails: "boot_setup True 0 img dtb = None"
  by (simp add: boot_setup_def Let_def)

lemma boot_witness:
  "\<exists>m s'. boot_setup True 0x80400000 (Some []) None = Some m
    \<and> rv_run 11 m \<lparr>rv_pc = kPmemBase, rv_reg = (\<lambda>_. 0), rv_satp = 7\<rparr> = Some s' \<and> rv_pc s' = 0x80400000"
proof -
  obtain m where m: "boot_setup True 0x80400000 (Some []) None = Some m"
    by (simp add: boot_setup_def Let_def load_binary_def)
  then show ?thesis using boot_reaches_firmware [OF m, of "\<lparr>rv_pc = kPmemBase, rv_reg = (\<lambda>_. 0), rv_satp = 7\<rparr>"]
    by auto
qed

end
