(* ===== verification/Npc_Difftest.thy ===== *)
theory Npc_Difftest
  imports Npc_Boot
begin

text \<open>
  Differential testing against a reference simulator (\<open>src/npc/csrc/lib/difftest_client.cpp\<close>
  and \<open>src/npc/csrc/include/difftest_client.h\<close>). The reference is a shared library that is
  loaded at run time: its four entry points are a record of functions on the library's state.
\<close>

abbreviation kMmioBase :: u32 where "kMmioBase \<equiv> 0xA0000000"
abbreviation kMmioEnd :: u32 where "kMmioEnd \<equiv> 0xAFFFFFFF"

record cpu_state =
  gpr :: "nat \<Rightarrow> u32"
  cpu_pc :: u32
  csr_mtvec :: u32
  csr_mepc :: u32
  csr_mstatus :: u32
  csr_mcause :: u32

record dut_csr_state =
  dut_mtvec :: u32
  dut_mepc :: u32
  dut_mstatus :: u32
  dut_mcause :: u32

text \<open>\<open>difftest_regcpy\<close> with its two directions is two functions; the buffer of
  \<open>difftest_memcpy\<close> is a function of the offset together with its size.\<close>

record 'r ref_lib =
  lib_memcpy :: "u32 \<Rightarrow> (nat \<Rightarrow> u8) \<Rightarrow> nat \<Rightarrow> 'r \<Rightarrow> 'r"
  lib_to_dut :: "'r \<Rightarrow> cpu_state"
  lib_to_ref :: "cpu_state \<Rightarrow> 'r \<Rightarrow> 'r"
  lib_exec :: "u64 \<Rightarrow> 'r \<Rightarrow> 'r"
  lib_init :: "'r \<Rightarrow> 'r"

record 'r difftest =
  ref_state :: 'r
  last_ref_state :: cpu_state
  has_last_ref_state :: bool
  difftest_enabled :: bool

definition pmem_image :: "(nat \<Rightarrow> u32) \<Rightarrow> nat \<Rightarrow> nat \<Rightarrow> u8" where
  "pmem_image words n i =
    (let max_words = unat kPmemSize div 4; word_cnt = (if n < max_words then n else max_words);
         copy_bytes = word_cnt * 4
     in if i < copy_bytes then word_byte (8 * (i mod 4)) (words (i div 4)) else 0)"

definition boot_state :: "u32 \<Rightarrow> cpu_state" where
  "boot_state entry_pc = \<lparr>gpr = (\<lambda>_. 0), cpu_pc = entry_pc, csr_mtvec = 0, csr_mepc = 0,
     csr_mstatus = 0x1800, csr_mcause = 0\<rparr>"

text \<open>\<open>handle\<close> and \<open>symbols\<close> say whether the library and its four symbols were found.\<close>

definition difftest_init :: "'r ref_lib \<Rightarrow> bool \<Rightarrow> bool \<Rightarrow> (nat \<Rightarrow> u32) \<Rightarrow> nat \<Rightarrow> u32 \<Rightarrow>
    'r difftest \<Rightarrow> bool \<times> 'r difftest" where
  "difftest_init lib handle symbols words n entry_pc d =
    (if \<not> handle then (False, d)
     else if \<not> symbols then (False, d)
     else
       (let r = lib_init lib (ref_state d);
            r = lib_memcpy lib kPmemBase (pmem_image words n) (unat kPmemSize) r;
            boot = boot_state entry_pc;
            r = lib_to_ref lib boot r
        in (True, d\<lparr>ref_state := r, last_ref_state := boot, has_last_ref_state := True,
                  difftest_enabled := True\<rparr>)))"

definition sext12 :: "u32 \<Rightarrow> u32" where
  "sext12 imm12 = signed_drop_bit 20 (push_bit 20 imm12)"

definition is_mmio_addr :: "u32 \<Rightarrow> bool" where
  "is_mmio_addr a \<longleftrightarrow> kMmioBase \<le> a \<and> a \<le> kMmioEnd"

definition decode_mmio_load_rd :: "u32 \<Rightarrow> (nat \<Rightarrow> u32) \<Rightarrow> nat option" where
  "decode_mmio_load_rd inst rf_before =
    (let opcode = inst AND 0x7f in
     if opcode \<noteq> 0x03 then None
     else
       (let rd = drop_bit 7 inst AND 0x1f;
            rs1 = drop_bit 15 inst AND 0x1f;
            imm12 = drop_bit 20 inst AND 0xfff;
            imm = sext12 imm12
        in if 32 \<le> unat rs1 then None
           else (let a = rf_before (unat rs1) + imm in
             if \<not> is_mmio_addr a then None
             else if rd = 0 \<or> 32 \<le> rd then None
             else Some (unat rd))))"

definition step_and_check :: "'r ref_lib \<Rightarrow> u32 \<Rightarrow> u32 \<Rightarrow> (nat \<Rightarrow> u32) \<Rightarrow> (nat \<Rightarrow> u32) \<Rightarrow>
    'r difftest \<Rightarrow> bool \<times> 'r difftest" where
  "step_and_check lib pc inst rf_before rf_after d =
    (if \<not> difftest_enabled d then (True, d)
     else if cpu_pc (lib_to_dut lib (ref_state d)) \<noteq> pc then (False, d)
     else
       (let r = lib_exec lib 1 (ref_state d);
            ref_after = lib_to_dut lib r;
            d = d\<lparr>ref_state := r, last_ref_state := ref_after, has_last_ref_state := True\<rparr>;
            ignored = decode_mmio_load_rd inst rf_before
        in if \<not> list_all (\<lambda>reg. ignored = Some reg \<or> gpr ref_after reg = rf_after reg) [0..<32]
           then (False, d)
           else (case ignored of
               None \<Rightarrow> (True, d)
             | Some rd \<Rightarrow>
               if rd \<noteq> 0 then
                 (let ref_after = ref_after\<lparr>gpr := (gpr ref_after)(rd := rf_after rd)\<rparr>
                  in (True, d\<lparr>ref_state := lib_to_ref lib ref_after r, last_ref_state := ref_after\<rparr>))
               else (True, d))))"

definition check_arch_state :: "(nat \<Rightarrow> u32) \<Rightarrow> dut_csr_state \<Rightarrow> 'r difftest \<Rightarrow> bool" where
  "check_arch_state rf_after c d =
    (if \<not> difftest_enabled d \<or> \<not> has_last_ref_state d then True
     else if \<not> list_all (\<lambda>reg. gpr (last_ref_state d) reg = rf_after reg) [0..<32] then False
     else if csr_mtvec (last_ref_state d) \<noteq> dut_mtvec c then False
     else if csr_mepc (last_ref_state d) \<noteq> dut_mepc c then False
     else if csr_mstatus (last_ref_state d) \<noteq> dut_mstatus c then False
     else if csr_mcause (last_ref_state d) \<noteq> dut_mcause c then False
     else True)"

text \<open>The calls of the main loop (\<open>src/npc/csrc/npc_main.cpp\<close>): one call per commit, with the
  registers before and after it; the first mismatch stops the simulation.\<close>

record commit_info =
  ci_pc :: u32
  ci_inst :: u32
  ci_rf :: "nat \<Rightarrow> u32"

primrec check_commits :: "'r ref_lib \<Rightarrow> commit_info list \<Rightarrow> (nat \<Rightarrow> u32) \<Rightarrow> 'r difftest \<Rightarrow> bool \<times> 'r difftest" where
  "check_commits lib [] rf d = (True, d)"
| "check_commits lib (c # cs) rf d =
    (case step_and_check lib (ci_pc c) (ci_inst c) rf (ci_rf c) d of
       (False, d) \<Rightarrow> (False, d)
     | (True, d) \<Rightarrow> check_commits lib cs (ci_rf c) d)"

section \<open>What a step decides\<close>

definition regs_agree :: "nat option \<Rightarrow> (nat \<Rightarrow> u32) \<Rightarrow> (nat \<Rightarrow> u32) \<Rightarrow> bool" where
  "regs_agree ignored f g \<longleftrightarrow> (\<forall>reg<32. ignored = Some reg \<or> f reg = g reg)"

lemma list_all_32: "list_all P [0..<32] \<longleftrightarrow> (\<forall>reg<32. P reg)"
  by (auto simp: list_all_iff)

lemma decode_rd_bounds: "decode_mmio_load_rd inst rf = Some rd \<Longrightarrow> rd \<noteq> 0 \<and> rd < 32"
  by (auto simp: decode_mmio_load_rd_def Let_def unat_gt_0 word_le_nat_alt split: if_splits)

lemma step_accepts:
  "difftest_enabled d \<Longrightarrow> fst (step_and_check lib pc inst rf rf' d) \<longleftrightarrow>
     cpu_pc (lib_to_dut lib (ref_state d)) = pc
     \<and> regs_agree (decode_mmio_load_rd inst rf) (gpr (lib_to_dut lib (lib_exec lib 1 (ref_state d)))) rf'"
  by (auto simp: step_and_check_def regs_agree_def list_all_32 Let_def split: option.splits)

text \<open>The reference after an accepted step: one instruction on, with the register that a load
  from a device wrote replaced by the value the design under test has read.\<close>

definition ref_next :: "'r ref_lib \<Rightarrow> commit_info \<Rightarrow> (nat \<Rightarrow> u32) \<Rightarrow> 'r \<Rightarrow> 'r" where
  "ref_next lib c rf r = (let r = lib_exec lib 1 r in
     (case decode_mmio_load_rd (ci_inst c) rf of
        None \<Rightarrow> r
      | Some rd \<Rightarrow> lib_to_ref lib ((lib_to_dut lib r)\<lparr>gpr := (gpr (lib_to_dut lib r))(rd := ci_rf c rd)\<rparr>) r))"

lemma step_state:
  assumes "difftest_enabled d" "fst (step_and_check lib (ci_pc c) (ci_inst c) rf (ci_rf c) d)"
  shows "ref_state (snd (step_and_check lib (ci_pc c) (ci_inst c) rf (ci_rf c) d)) = ref_next lib c rf (ref_state d)"
    "difftest_enabled (snd (step_and_check lib (ci_pc c) (ci_inst c) rf (ci_rf c) d))"
    "has_last_ref_state (snd (step_and_check lib (ci_pc c) (ci_inst c) rf (ci_rf c) d))"
    "\<forall>reg<32. gpr (last_ref_state (snd (step_and_check lib (ci_pc c) (ci_inst c) rf (ci_rf c) d))) reg = ci_rf c reg"
  using assms decode_rd_bounds [of "ci_inst c" rf]
  by (auto simp: step_and_check_def ref_next_def list_all_32 Let_def split: option.splits if_splits)

lemma step_last_csr:
  assumes "difftest_enabled d" "fst (step_and_check lib (ci_pc c) (ci_inst c) rf (ci_rf c) d)"
    and law: "\<And>s r. lib_to_dut lib (lib_to_ref lib s r) = s"
  shows "last_ref_state (snd (step_and_check lib (ci_pc c) (ci_inst c) rf (ci_rf c) d))
    = lib_to_dut lib (ref_next lib c rf (ref_state d))"
  using assms(1,2) decode_rd_bounds [of "ci_inst c" rf]
  by (auto simp: step_and_check_def ref_next_def list_all_32 Let_def law split: option.splits if_splits)

section \<open>Lockstep\<close>

text \<open>No commit is a load from a device register.\<close>

primrec no_mmio :: "commit_info list \<Rightarrow> (nat \<Rightarrow> u32) \<Rightarrow> bool" where
  "no_mmio [] rf = True"
| "no_mmio (c # cs) rf = (decode_mmio_load_rd (ci_inst c) rf = None \<and> no_mmio cs (ci_rf c))"

definition ref_after :: "'r ref_lib \<Rightarrow> nat \<Rightarrow> 'r \<Rightarrow> cpu_state" where
  "ref_after lib k r = lib_to_dut lib ((lib_exec lib 1 ^^ k) r)"

definition same_trace :: "'r ref_lib \<Rightarrow> commit_info list \<Rightarrow> 'r \<Rightarrow> bool" where
  "same_trace lib cs r \<longleftrightarrow> (\<forall>k<length cs. ci_pc (cs ! k) = cpu_pc (ref_after lib k r)
     \<and> (\<forall>reg<32. ci_rf (cs ! k) reg = gpr (ref_after lib (Suc k) r) reg))"

lemma same_trace_Nil [simp]: "same_trace lib [] r"
  by (simp add: same_trace_def)

lemma same_trace_Cons: "same_trace lib (c # cs) r \<longleftrightarrow> ci_pc c = cpu_pc (lib_to_dut lib r)
    \<and> (\<forall>reg<32. ci_rf c reg = gpr (lib_to_dut lib (lib_exec lib 1 r)) reg) \<and> same_trace lib cs (lib_exec lib 1 r)"
  unfolding same_trace_def length_Cons All_less_Suc2
  by (simp add: ref_after_def funpow_Suc_right del: funpow.simps)

text \<open>C10: While no commit is a load from a device register, the commits of a run are all
  accepted exactly when the committed addresses and the registers after every commit are those
  of the reference executing one instruction after the other: the first difference is found,
  and nothing else is reported.\<close>

theorem lockstep_correct:
  assumes "difftest_enabled d" "no_mmio cs rf"
  shows "fst (check_commits lib cs rf d) \<longleftrightarrow> same_trace lib cs (ref_state d)"
  using assms
proof (induction cs arbitrary: rf d)
  case (Cons c cs)
  let ?s = "step_and_check lib (ci_pc c) (ci_inst c) rf (ci_rf c) d"
  have none: "decode_mmio_load_rd (ci_inst c) rf = None" using Cons.prems(2) by simp
  have acc: "fst ?s \<longleftrightarrow> ci_pc c = cpu_pc (lib_to_dut lib (ref_state d))
      \<and> (\<forall>reg<32. ci_rf c reg = gpr (lib_to_dut lib (lib_exec lib 1 (ref_state d))) reg)"
    unfolding step_accepts [OF Cons.prems(1)] none by (auto simp: regs_agree_def)
  have cc: "fst (check_commits lib (c # cs) rf d) \<longleftrightarrow> fst ?s \<and> fst (check_commits lib cs (ci_rf c) (snd ?s))"
    by (auto split: prod.split bool.split)
  show ?case
  proof (cases "fst ?s")
    case True
    have "ref_state (snd ?s) = lib_exec lib 1 (ref_state d)"
      by (simp add: step_state(1) [OF Cons.prems(1) True] ref_next_def none)
    moreover have "fst (check_commits lib cs (ci_rf c) (snd ?s)) \<longleftrightarrow> same_trace lib cs (ref_state (snd ?s))"
      using Cons.prems(2) by (intro Cons.IH step_state [OF Cons.prems(1) True]) simp
    ultimately have "fst (check_commits lib cs (ci_rf c) (snd ?s)) \<longleftrightarrow> same_trace lib cs (lib_exec lib 1 (ref_state d))"
      by simp
    then show ?thesis using True acc unfolding cc same_trace_Cons by blast
  next
    case False
    then show ?thesis using acc unfolding cc same_trace_Cons by blast
  qed
qed simp

text \<open>A library whose state is the registers and that knows one instruction, which counts in
  register 1.\<close>

definition demo_lib :: "cpu_state ref_lib" where
  "demo_lib = \<lparr>lib_memcpy = (\<lambda>_ _ _ r. r), lib_to_dut = (\<lambda>r. r), lib_to_ref = (\<lambda>s _. s),
     lib_exec = (\<lambda>_ r. r\<lparr>gpr := (gpr r)(1 := gpr r 1 + 1), cpu_pc := cpu_pc r + 4\<rparr>), lib_init = (\<lambda>r. r)\<rparr>"

definition demo_difftest :: "cpu_state difftest" where
  "demo_difftest = \<lparr>ref_state = boot_state kPmemBase, last_ref_state = boot_state kPmemBase,
     has_last_ref_state = True, difftest_enabled = True\<rparr>"

definition demo_commit :: "u32 \<Rightarrow> u32 \<Rightarrow> commit_info" where
  "demo_commit a v = \<lparr>ci_pc = a, ci_inst = 0x00108093, ci_rf = (\<lambda>_. 0)(1 := v)\<rparr>"

lemma lockstep_witness:
  "fst (check_commits demo_lib [demo_commit 0x80000000 1, demo_commit 0x80000004 2] (\<lambda>_. 0) demo_difftest)
   \<and> \<not> fst (check_commits demo_lib [demo_commit 0x80000000 1, demo_commit 0x80000004 3] (\<lambda>_. 0) demo_difftest)"
proof -
  have n: "no_mmio [demo_commit 0x80000000 1, demo_commit 0x80000004 v] (\<lambda>_. 0)" for v
    by (simp add: demo_commit_def decode_mmio_load_rd_def)
  have d: "difftest_enabled demo_difftest" by (simp add: demo_difftest_def)
  have x: "same_trace demo_lib [demo_commit 0x80000000 1, demo_commit 0x80000004 v] (ref_state demo_difftest) \<longleftrightarrow> v = 2" for v
    by (auto simp: same_trace_Cons demo_lib_def demo_commit_def demo_difftest_def boot_state_def)
  show ?thesis unfolding lockstep_correct [OF d n] x by simp
qed

section \<open>Loads from devices\<close>

lemma sext12_correct: "sext12 (imm AND 0xfff) = rv_imm12 imm"
proof -
  have e: "(0xfff :: u32) = mask 12" "x - 0x1000 = x + NOT (mask 12)" for x :: u32
    by (simp_all add: mask_eq_exp_minus_1 not_eq_complement)
  have "(imm AND mask 12) + NOT (mask 12) = (imm AND mask 12) OR NOT (mask 12)"
    by (rule word_or_add) (simp add: and.assoc)
  then have *: "rv_imm12 imm = signed_take_bit 11 imm"
    unfolding rv_imm12_def e
    by (intro bit_word_eqI) (auto simp: bit_signed_take_bit_iff bit_and_iff bit_or_iff bit_not_iff bit_mask_iff min_def
        not_le less_Suc_eq numeral_eq_Suc)
  show ?thesis unfolding * e(1)
    by (rule bit_word_eqI) (auto simp: sext12_def bit_signed_drop_bit_iff bit_simps)
qed

text \<open>The check skips the destination register of exactly the loads of the instruction set
  whose effective address, base register plus sign-extended offset, is in the device window
  A0000000 to AFFFFFFF, and never register 0.\<close>

lemma mmio_load_decoded:
  "decode_mmio_load_rd inst rf = Some rd \<longleftrightarrow>
     inst AND 0x7f = 0x03 \<and> rd = unat (drop_bit 7 inst AND 0x1f) \<and> rd \<noteq> 0
     \<and> rf (unat (drop_bit 15 inst AND 0x1f)) + rv_imm12 (drop_bit 20 inst) \<in> {0xA0000000..0xAFFFFFFF}"
proof -
  have f: "unat (x AND 0x1f) < 32" for x :: u32
    using unat_and_below [of "0x1f :: u32" 5 x] by simp
  then have g: "(32 \<le> unat (x AND 0x1f)) = False" "(32 \<le> x AND 0x1f) = False"
    "(x AND 0x1f = 0) = (unat (x AND 0x1f) = 0)" for x :: u32
    by (simp_all add: word_le_nat_alt unat_eq_0 not_le)
  show ?thesis
    by (auto simp: decode_mmio_load_rd_def is_mmio_addr_def sext12_correct Let_def g not_le)
qed

text \<open>The registers of the timer, the interrupt controller and the block device are outside
  that window: what the design under test reads from them is compared with the reference.\<close>

lemma timer_load_compared:
  "rf 1 = kClintMtimeLow \<Longrightarrow> decode_mmio_load_rd 0x0000a103 rf = None"
  by (simp add: decode_mmio_load_rd_def is_mmio_addr_def sext12_def Let_def)

section \<open>The state at the end of a cycle\<close>

lemma check_commits_last:
  assumes "difftest_enabled d" "fst (check_commits lib cs rf d)" "cs \<noteq> []"
    and law: "\<And>s r. lib_to_dut lib (lib_to_ref lib s r) = s"
  shows "difftest_enabled (snd (check_commits lib cs rf d)) \<and> has_last_ref_state (snd (check_commits lib cs rf d))
    \<and> (\<forall>reg<32. gpr (last_ref_state (snd (check_commits lib cs rf d))) reg = ci_rf (last cs) reg)
    \<and> last_ref_state (snd (check_commits lib cs rf d)) = lib_to_dut lib (ref_state (snd (check_commits lib cs rf d)))"
  using assms(1-3)
proof (induction cs arbitrary: rf d)
  case (Cons c cs)
  let ?s = "step_and_check lib (ci_pc c) (ci_inst c) rf (ci_rf c) d"
  have a: "fst ?s" and c: "check_commits lib (c # cs) rf d = check_commits lib cs (ci_rf c) (snd ?s)"
    using Cons.prems(2) by (auto split: prod.splits bool.splits)
  note st = step_state [OF Cons.prems(1) a] step_last_csr [OF Cons.prems(1) a law]
  show ?case
  proof (cases cs)
    case Nil
    then show ?thesis unfolding c using st by simp
  next
    case (Cons c' cs')
    then have ne: "cs \<noteq> []" "last (c # cs) = last cs" by simp_all
    have "fst (check_commits lib cs (ci_rf c) (snd ?s))" using Cons.prems(2) unfolding c .
    from Cons.IH [OF st(2) this ne(1)] show ?thesis unfolding c ne(2) .
  qed
qed simp

text \<open>C22: When the library returns the registers it was given, then after a cycle whose commits
  were all accepted, device loads included, the reference holds the register file of the
  design under test; the check at the end of the cycle can only fail on the four control
  registers, and does so exactly when one of them differs from the reference.\<close>

theorem arch_state_after_cycle:
  assumes "difftest_enabled d" "check_commits lib cs rf d = (True, d')" "cs \<noteq> []"
    and "\<And>s r. lib_to_dut lib (lib_to_ref lib s r) = s"
  shows "(\<forall>reg<32. gpr (lib_to_dut lib (ref_state d')) reg = ci_rf (last cs) reg)
    \<and> (check_arch_state (ci_rf (last cs)) c d' \<longleftrightarrow>
        dut_mtvec c = csr_mtvec (lib_to_dut lib (ref_state d')) \<and> dut_mepc c = csr_mepc (lib_to_dut lib (ref_state d'))
        \<and> dut_mstatus c = csr_mstatus (lib_to_dut lib (ref_state d')) \<and> dut_mcause c = csr_mcause (lib_to_dut lib (ref_state d')))"
proof -
  have l: "difftest_enabled d'" "has_last_ref_state d'" "last_ref_state d' = lib_to_dut lib (ref_state d')"
    "\<forall>reg<32. gpr (last_ref_state d') reg = ci_rf (last cs) reg"
    using check_commits_last [OF assms(1) _ assms(3,4), of rf] unfolding assms(2) fst_conv snd_conv by blast+
  then have "check_arch_state (ci_rf (last cs)) c d' \<longleftrightarrow> csr_mtvec (last_ref_state d') = dut_mtvec c
      \<and> csr_mepc (last_ref_state d') = dut_mepc c \<and> csr_mstatus (last_ref_state d') = dut_mstatus c
      \<and> csr_mcause (last_ref_state d') = dut_mcause c"
    by (simp add: check_arch_state_def list_all_32)
  then show ?thesis using l(4) unfolding l(3) by (simp add: eq_commute)
qed

lemma arch_state_witness:
  "\<exists>d'. check_commits demo_lib [demo_commit 0x80000000 1] (\<lambda>_. 0) demo_difftest = (True, d')
    \<and> \<not> check_arch_state (ci_rf (demo_commit 0x80000000 1))
          \<lparr>dut_mtvec = 4, dut_mepc = 0, dut_mstatus = 0x1800, dut_mcause = 0\<rparr> d'"
proof -
  obtain d' where d': "check_commits demo_lib [demo_commit 0x80000000 1] (\<lambda>_. 0) demo_difftest = (True, d')"
      "ref_state d' = lib_exec demo_lib 1 (boot_state kPmemBase)"
    by (simp add: step_and_check_def demo_lib_def demo_commit_def demo_difftest_def boot_state_def
        decode_mmio_load_rd_def Let_def list_all_32)
  moreover have "difftest_enabled demo_difftest" by (simp add: demo_difftest_def)
  moreover have "\<And>s r. lib_to_dut demo_lib (lib_to_ref demo_lib s r) = s" by (simp add: demo_lib_def)
  moreover have "csr_mtvec (lib_to_dut demo_lib (ref_state d')) = 0"
    by (simp add: d'(2) demo_lib_def boot_state_def)
  ultimately show ?thesis
    using arch_state_after_cycle [of demo_difftest demo_lib "[demo_commit 0x80000000 1]" "\<lambda>_. 0" d'
      "\<lparr>dut_mtvec = 4, dut_mepc = 0, dut_mstatus = 0x1800, dut_mcause = 0\<rparr>"]
    by auto
qed

section \<open>The reference starts on the same image\<close>

lemma pmem_index_offset:
  assumes "i < 0x8000000"
  shows "in_pmem (kPmemBase + of_nat i)" "pmem_index (align4 (kPmemBase + of_nat i)) = i div 4"
    "byte_shift (kPmemBase + of_nat i) = 8 * (i mod 4)"
proof -
  let ?a = "kPmemBase + of_nat i :: u32"
  have u: "unat ?a = 0x80000000 + i"
    using assms by (subst unat_add_lem [THEN iffD1]) (simp_all add: unat_of_nat)
  show p: "in_pmem ?a" using u assms by (simp add: in_pmem_def word_le_nat_alt word_less_nat_alt)
  show "pmem_index (align4 ?a) = i div 4" unfolding pmem_index_eq [OF p] u by simp
  have "unat (?a AND 0x3) = unat ?a mod 4"
    using unat_take_bit [of 2 ?a] by (simp add: take_bit_eq_mask mask_eq_exp_minus_1)
  also have "\<dots> = i mod 4" unfolding u by presburger
  finally show "byte_shift ?a = 8 * (i mod 4)"
    by (simp add: byte_shift_def unat_word_ariths)
qed

text \<open>Starting the test hands the library the whole main memory as it is after loading, byte
  for byte, and the registers of the reset state with the given entry address.\<close>

lemma difftest_starts_on_image:
  "difftest_init lib True True (pmem_words m) pmem_nwords entry_pc d =
     (True, d\<lparr>ref_state := lib_to_ref lib (boot_state entry_pc)
          (lib_memcpy lib kPmemBase (pmem_image (pmem_words m) pmem_nwords) 0x8000000 (lib_init lib (ref_state d))),
        last_ref_state := boot_state entry_pc, has_last_ref_state := True, difftest_enabled := True\<rparr>)
   \<and> (\<forall>i<0x8000000. read_phys_byte (ucast (kPmemBase + of_nat i :: u32)) m
          = Some (pmem_image (pmem_words m) pmem_nwords i))"
proof (intro conjI allI impI)
  fix i :: nat
  assume "i < 0x8000000"
  then show "read_phys_byte (ucast (kPmemBase + of_nat i :: u32)) m = Some (pmem_image (pmem_words m) pmem_nwords i)"
    using pmem_index_offset [of i] by (simp add: read_phys_pmem pmem_image_def Let_def)
qed (simp add: difftest_init_def Let_def)

end
