(* ===== verification/Npc_Linux.thy ===== *)
theory Npc_Linux
  imports Npc_Boot
begin

text \<open>
  The tracker of the stages of a Linux boot (\<open>src/npc/csrc/include/linux_boot_stage.h\<close>). The
  lines it prints are a log of what they report; the descriptions and the layout of a line are
  left out.
\<close>

abbreviation kLinuxLoadBase :: u32 where "kLinuxLoadBase \<equiv> 0x80400000"
abbreviation kOpenSbiFirmwareBase :: u32 where "kOpenSbiFirmwareBase \<equiv> kPmemBase"
abbreviation kKernelTrapVecBase :: u32 where "kKernelTrapVecBase \<equiv> 0xC0001000"
abbreviation kKernelHighTextBase :: u32 where "kKernelHighTextBase \<equiv> 0xC0800000"
abbreviation kAllStagesSeenMask :: u32 where "kAllStagesSeenMask \<equiv> push_bit 15 1 - 1"

record stage_view =
  sv_cycle :: u64
  sv_slot :: u32
  sv_pc :: u32
  sv_inst :: u32
  sv_priv :: u32
  sv_flush :: bool
  sv_redirect_pc :: u32
  sv_satp :: u32
  sv_satp_old :: u32
  sv_stvec :: u32
  sv_sepc :: u32
  sv_scause :: u32
  sv_stval :: u32
  sv_mstatus :: u32
  sv_mepc :: u32
  sv_mcause :: u32
  sv_mtval :: u32
  sv_rob_flush_cause :: u32
  sv_rf :: "(nat \<Rightarrow> u32) option"

record stage_line =
  ln_tag :: string
  ln_bit :: nat
  ln_view :: stage_view
  ln_src_pc :: u32
  ln_src_inst :: u32
  ln_dtb_magic :: u32
  ln_fdt_ok :: bool

record stage_tracker =
  seen_mask :: u32
  linux_entered :: bool
  mmu_enabled_in_linux :: bool
  stage_log :: "stage_line list"

definition tracker_init :: stage_tracker where
  "tracker_init = \<lparr>seen_mask = 0, linux_entered = False, mmu_enabled_in_linux = False, stage_log = []\<rparr>"

definition all_seen :: "stage_tracker \<Rightarrow> bool" where
  "all_seen t \<longleftrightarrow> seen_mask t AND kAllStagesSeenMask = kAllStagesSeenMask"

definition maybe_emit :: "string \<Rightarrow> stage_view \<Rightarrow> nat \<Rightarrow> u32 \<Rightarrow> u32 \<Rightarrow>
    unified_mem \<times> stage_tracker \<Rightarrow> unified_mem \<times> stage_tracker" where
  "maybe_emit tag view b src_pc src_inst = (\<lambda>(m, t).
    if seen_mask t AND push_bit b 1 \<noteq> 0 then (m, t)
    else
    (let t = t\<lparr>seen_mask := seen_mask t OR push_bit b 1\<rparr>;
         (dtb_magic, m) = read_word kDtbBase m;
         fdt_ok = (dtb_magic = 0xedfe0dd0)
     in (m, t\<lparr>stage_log := stage_log t @ [\<lparr>ln_tag = tag, ln_bit = b, ln_view = view, ln_src_pc = src_pc,
              ln_src_inst = src_inst, ln_dtb_magic = dtb_magic, ln_fdt_ok = fdt_ok\<rparr>]\<rparr>)))"

text \<open>The handlers are lists of rules, tried in order: a condition on the tracker at that moment,
  and what to do when it holds.\<close>

type_synonym stage_rule =
  "(stage_tracker \<Rightarrow> bool) \<times> (unified_mem \<times> stage_tracker \<Rightarrow> unified_mem \<times> stage_tracker)"

definition apply_rule :: "stage_rule \<Rightarrow> unified_mem \<times> stage_tracker \<Rightarrow> unified_mem \<times> stage_tracker" where
  "apply_rule r s = (if fst r (snd s) then snd r s else s)"

definition enter_linux :: "unified_mem \<times> stage_tracker \<Rightarrow> unified_mem \<times> stage_tracker" where
  "enter_linux = (\<lambda>(m, t). (m, t\<lparr>linux_entered := True\<rparr>))"

definition enable_mmu :: "unified_mem \<times> stage_tracker \<Rightarrow> unified_mem \<times> stage_tracker" where
  "enable_mmu = (\<lambda>(m, t). (m, t\<lparr>mmu_enabled_in_linux := True\<rparr>))"

definition commit_rules :: "stage_view \<Rightarrow> (nat \<Rightarrow> u32) \<Rightarrow> stage_rule list" where
  "commit_rules v rf = (let pc = sv_pc v; priv = sv_priv v in
    [(\<lambda>t. pc = kOpenSbiFirmwareBase \<and> priv = 3, maybe_emit ''opensbi-reset'' v 0 0 0),
     (\<lambda>t. \<not> linux_entered t \<and> priv = 3 \<and> kOpenSbiFirmwareBase + 0x00010000 \<le> pc \<and> pc < kLinuxLoadBase,
      maybe_emit ''opensbi-init'' v 1 0 0),
     (\<lambda>t. \<not> linux_entered t \<and> priv = 3 \<and> 0x80005200 \<le> pc \<and> pc < 0x80005400,
      maybe_emit ''opensbi-pre-jump'' v 2 0 0),
     (\<lambda>t. \<not> linux_entered t \<and> priv = 1 \<and> kLinuxLoadBase \<le> pc \<and> pc < kDtbBase,
      maybe_emit ''linux-handoff'' v 3 0 0 \<circ> enter_linux),
     (\<lambda>t. priv = 1 \<and> pc = kLinuxLoadBase, maybe_emit ''linux-head'' v 4 0 0),
     (\<lambda>t. priv = 1 \<and> 0x80401000 \<le> pc \<and> pc < 0x80401200, maybe_emit ''linux-decompress'' v 5 0 0),
     (\<lambda>t. priv = 1 \<and> pc = 0x804010d8, maybe_emit ''linux-gp-init'' v 6 0 0),
     (\<lambda>t. priv = 1 \<and> kKernelTrapVecBase \<le> pc \<and> pc < kKernelTrapVecBase + 0x200,
      maybe_emit ''linux-trap-vec'' v 9 0 0),
     (\<lambda>t. priv = 1 \<and> kKernelHighTextBase \<le> pc, maybe_emit ''linux-vtext'' v 11 0 0),
     (\<lambda>t. priv = 3 \<and> rf 10 = kDtbBase, maybe_emit ''opensbi-dtb-a0'' v 12 0 0),
     (\<lambda>t. priv = 1 \<and> rf 11 = kDtbBase, maybe_emit ''linux-dtb-a1'' v 14 0 0)])"

definition on_commit :: "stage_view \<Rightarrow> unified_mem \<times> stage_tracker \<Rightarrow> unified_mem \<times> stage_tracker" where
  "on_commit v s =
    (if all_seen (snd s) then s
     else (case sv_rf v of None \<Rightarrow> s | Some rf \<Rightarrow> fold apply_rule (commit_rules v rf) s))"

definition satp_rules :: "stage_view \<Rightarrow> stage_rule list" where
  "satp_rules v =
    [(\<lambda>t. sv_satp v \<noteq> 0 \<and> sv_priv v = 1 \<and> kLinuxLoadBase \<le> sv_pc v \<and> sv_pc v < 0x81000000,
      maybe_emit ''linux-mmu-enable'' v 7 0 0 \<circ> enable_mmu),
     (\<lambda>t. sv_priv v = 1 \<and> kKernelTrapVecBase \<le> sv_pc v \<and> sv_pc v < kKernelTrapVecBase + 0x100
          \<and> sv_satp_old v \<noteq> 0, maybe_emit ''linux-swap-pgdir'' v 10 0 0)]"

definition on_satp_change :: "stage_view \<Rightarrow> unified_mem \<times> stage_tracker \<Rightarrow> unified_mem \<times> stage_tracker" where
  "on_satp_change v s =
    (if all_seen (snd s) then s
     else if sv_rf v = None then s
     else if sv_satp_old v = sv_satp v then s
     else fold apply_rule (satp_rules v) s)"

definition flush_rules :: "stage_view \<Rightarrow> u32 \<Rightarrow> u32 \<Rightarrow> stage_rule list" where
  "flush_rules v src_pc src_inst =
    [(\<lambda>t. mmu_enabled_in_linux t \<and> sv_rob_flush_cause v = 12 \<and> 0x80401044 \<le> src_pc \<and> src_pc \<le> 0x80401050,
      maybe_emit ''linux-first-ipf'' v 8 src_pc src_inst),
     (\<lambda>t. kKernelTrapVecBase \<le> sv_redirect_pc v \<and> sv_redirect_pc v < kKernelTrapVecBase + 0x100,
      maybe_emit ''linux-trap-redirect'' v 13 src_pc src_inst)]"

definition on_flush :: "stage_view \<Rightarrow> u32 \<Rightarrow> u32 \<Rightarrow> unified_mem \<times> stage_tracker \<Rightarrow> unified_mem \<times> stage_tracker" where
  "on_flush v src_pc src_inst s =
    (if all_seen (snd s) then s
     else if sv_rf v = None then s
     else fold apply_rule (flush_rules v src_pc src_inst) s)"

section \<open>What the log says\<close>

datatype stage_event = Commit stage_view | SatpChange stage_view | Flush stage_view u32 u32

fun stage_step :: "unified_mem \<times> stage_tracker \<Rightarrow> stage_event \<Rightarrow> unified_mem \<times> stage_tracker" where
  "stage_step s (Commit v) = on_commit v s"
| "stage_step s (SatpChange v) = on_satp_change v s"
| "stage_step s (Flush v src_pc src_inst) = on_flush v src_pc src_inst s"

definition stage_bits :: "stage_tracker \<Rightarrow> nat list" where
  "stage_bits t = List.map ln_bit (stage_log t)"

text \<open>No stage twice, only known stages, the firmware's stages 1 and 2 never after the entry into
  Linux (3), the first page fault (8) only after translation was switched on (7).\<close>

definition stage_order :: "nat list \<Rightarrow> bool" where
  "stage_order bs \<longleftrightarrow> distinct bs \<and> list_all (\<lambda>b. b < 15) bs
     \<and> list_all (\<lambda>k. (bs ! k \<noteq> 1 \<and> bs ! k \<noteq> 2 \<or> 3 \<notin> List.set (take k bs))
                  \<and> (bs ! k \<noteq> 8 \<or> 7 \<in> List.set (take k bs))) [0..<length bs]"

lemma stage_order_snoc: "stage_order (bs @ [b]) \<longleftrightarrow> stage_order bs \<and> b \<notin> List.set bs \<and> b < 15
    \<and> (b \<noteq> 1 \<and> b \<noteq> 2 \<or> 3 \<notin> List.set bs) \<and> (b \<noteq> 8 \<or> 7 \<in> List.set bs)"
  by (auto simp: stage_order_def list_all_iff nth_append)

definition tracker_ok :: "unified_mem \<Rightarrow> unified_mem \<times> stage_tracker \<Rightarrow> bool" where
  "tracker_ok m0 = (\<lambda>(m, t). m = m0 \<and> stage_order (stage_bits t)
     \<and> (\<forall>b<32. bit (seen_mask t) b \<longleftrightarrow> b \<in> List.set (stage_bits t))
     \<and> (linux_entered t \<longleftrightarrow> 3 \<in> List.set (stage_bits t))
     \<and> (mmu_enabled_in_linux t \<longleftrightarrow> 7 \<in> List.set (stage_bits t)))"

lemma and_bit_zero: "x AND push_bit b 1 \<noteq> 0 \<longleftrightarrow> bit x b" for x :: u32
  by (simp add: push_bit_of_1 and_exp_eq_0_iff_not_bit)

lemma read_dtb: "read_word kDtbBase m = (fst (read_word kDtbBase m), m)"
  using read_word_pmem(1) [of kDtbBase m] by (simp add: in_pmem_def)

definition mark :: "nat \<Rightarrow> u32 \<Rightarrow> u32" where
  "mark b x = x OR push_bit b 1"

lemma bit_mark: "bit (mark b x) n \<longleftrightarrow> bit x n \<or> n = b \<and> n < 32"
  by (auto simp: mark_def bit_or_iff bit_exp_iff)

lemma maybe_emit_eq: "maybe_emit tag v b p i (m, t) =
    (if bit (seen_mask t) b then (m, t)
     else (m, t\<lparr>seen_mask := mark b (seen_mask t),
            stage_log := stage_log t @ [\<lparr>ln_tag = tag, ln_bit = b, ln_view = v, ln_src_pc = p,
              ln_src_inst = i, ln_dtb_magic = fst (read_word kDtbBase m),
              ln_fdt_ok = (fst (read_word kDtbBase m) = 0xedfe0dd0)\<rparr>]\<rparr>))"
  unfolding maybe_emit_def and_bit_zero mark_def by (subst read_dtb) (simp add: Let_def)

lemma emit_plain:
  assumes "tracker_ok m0 s" "b < 15" "b \<noteq> 1" "b \<noteq> 2" "b \<noteq> 3" "b \<noteq> 7" "b \<noteq> 8"
  shows "tracker_ok m0 (maybe_emit tag v b p i s)"
  using assms by (cases s) (auto simp: maybe_emit_eq bit_mark tracker_ok_def stage_bits_def stage_order_snoc)

lemma emit_firmware:
  assumes "tracker_ok m0 s" "\<not> linux_entered (snd s)"
  shows "tracker_ok m0 (maybe_emit tag v 1 p i s)" "tracker_ok m0 (maybe_emit tag v 2 p i s)"
  using assms by (cases s; auto simp: maybe_emit_eq bit_mark tracker_ok_def stage_bits_def stage_order_snoc)+

lemma emit_fault:
  assumes "tracker_ok m0 s" "mmu_enabled_in_linux (snd s)"
  shows "tracker_ok m0 (maybe_emit tag v 8 p i s)"
  using assms by (cases s) (auto simp: maybe_emit_eq bit_mark tracker_ok_def stage_bits_def stage_order_snoc)

lemma emit_enter:
  assumes "tracker_ok m0 s" "\<not> linux_entered (snd s)"
  shows "tracker_ok m0 ((maybe_emit tag v 3 p i \<circ> enter_linux) s)"
  using assms by (cases s) (auto simp: enter_linux_def enable_mmu_def maybe_emit_eq bit_mark tracker_ok_def stage_bits_def stage_order_snoc)

lemma emit_mmu:
  assumes "tracker_ok m0 s"
  shows "tracker_ok m0 ((maybe_emit tag v 7 p i \<circ> enable_mmu) s)"
  using assms by (cases s) (auto simp: enter_linux_def enable_mmu_def maybe_emit_eq bit_mark tracker_ok_def stage_bits_def stage_order_snoc)

definition rule_ok :: "unified_mem \<Rightarrow> stage_rule \<Rightarrow> bool" where
  "rule_ok m0 r \<longleftrightarrow> (\<forall>s. tracker_ok m0 s \<longrightarrow> fst r (snd s) \<longrightarrow> tracker_ok m0 (snd r s))"

lemma rules_keep_ok: "list_all (rule_ok m0) rs \<Longrightarrow> tracker_ok m0 s \<Longrightarrow> tracker_ok m0 (fold apply_rule rs s)"
  by (induction rs arbitrary: s) (simp_all add: apply_rule_def rule_ok_def del: split_paired_All)

lemma commit_rules_ok: "list_all (rule_ok m0) (commit_rules v rf)"
  by (simp add: commit_rules_def Let_def rule_ok_def emit_plain emit_firmware [unfolded One_nat_def]
      emit_enter [unfolded o_apply] del: split_paired_All)

lemma satp_rules_ok: "list_all (rule_ok m0) (satp_rules v)"
  by (simp add: satp_rules_def rule_ok_def emit_plain emit_mmu [unfolded o_apply] del: split_paired_All)

lemma flush_rules_ok: "list_all (rule_ok m0) (flush_rules v p i)"
  by (simp add: flush_rules_def rule_ok_def emit_plain emit_fault del: split_paired_All)

lemma stage_step_ok: "tracker_ok m0 s \<Longrightarrow> tracker_ok m0 (stage_step s e)"
  by (cases e) (auto simp: on_commit_def on_satp_change_def on_flush_def rules_keep_ok
      commit_rules_ok satp_rules_ok flush_rules_ok split: option.split)

interpretation stages: machine stage_step "tracker_ok m0" for m0
  by unfold_locales (rule stage_step_ok)

lemma all_seen_bits: "all_seen t \<longleftrightarrow> (\<forall>b<15. bit (seen_mask t) b)"
proof -
  have "(kAllStagesSeenMask :: u32) = mask 15" by (simp add: mask_eq_exp_minus_1)
  then have "all_seen t \<longleftrightarrow> take_bit 15 (seen_mask t) = mask 15"
    by (simp only: all_seen_def take_bit_eq_mask)
  also have "\<dots> \<longleftrightarrow> (\<forall>b<15. bit (seen_mask t) b)"
  proof
    assume "take_bit 15 (seen_mask t) = mask 15"
    then have e: "bit (take_bit 15 (seen_mask t)) b = bit (mask 15 :: u32) b" for b by simp
    have "bit (seen_mask t) b" if "b < 15" for b
      using e [of b] that by (simp add: bit_take_bit_iff bit_mask_iff)
    then show "\<forall>b<15. bit (seen_mask t) b" by blast
  qed (auto intro!: bit_word_eqI simp: bit_take_bit_iff bit_mask_iff)
  finally show ?thesis .
qed

text \<open>C19: Over every sequence of commits, changes of satp and flushes the tracker reports each
  stage at most once and only the fifteen it knows; the stages 1 (\<open>opensbi-init\<close>) and 2
  (\<open>opensbi-pre-jump\<close>) never after the entry into Linux (stage 3), the expected first page fault
  (8) never before translation was switched on (7). It falls silent exactly when all fifteen are
  reported, and it never changes the memory it looks at. The other two stages of the firmware, 0
  (\<open>opensbi-reset\<close>) and 12 (\<open>opensbi-dtb-a0\<close>), are not guarded by the entry and may come later.\<close>

theorem linux_stages_ordered:
  "let (m', t) = fold (\<lambda>e s. stage_step s e) es (m, tracker_init) in
     m' = m \<and> stage_order (stage_bits t)
     \<and> all_seen t = (List.set (stage_bits t) = {..<15})
     \<and> linux_entered t = (3 \<in> List.set (stage_bits t))"
proof -
  have "tracker_ok m (m, tracker_init)"
    by (simp add: tracker_ok_def tracker_init_def stage_bits_def stage_order_def)
  from stages.fold_inv [OF this, of es]
  obtain t where t: "fold (\<lambda>e s. stage_step s e) es (m, tracker_init) = (m, t)"
    and ok: "tracker_ok m (m, t)"
    by (cases "fold (\<lambda>e s. stage_step s e) es (m, tracker_init)") (auto simp: tracker_ok_def)
  have sub: "List.set (stage_bits t) \<subseteq> {..<15}"
    using ok by (auto simp: tracker_ok_def stage_order_def list_all_iff)
  have "bit (seen_mask t) b \<longleftrightarrow> b \<in> List.set (stage_bits t)" if "b < 15" for b
    using ok that by (simp add: tracker_ok_def)
  then have "all_seen t \<longleftrightarrow> {..<15} \<subseteq> List.set (stage_bits t)"
    unfolding all_seen_bits by blast
  then have "all_seen t \<longleftrightarrow> List.set (stage_bits t) = {..<15}" using sub by blast
  moreover have "stage_order (stage_bits t)" "linux_entered t = (3 \<in> List.set (stage_bits t))"
    using ok by (simp_all only: tracker_ok_def case_prod_conv)
  ultimately show ?thesis unfolding t by simp
qed

end
