(* ===== verification/Npc_Main.thy ===== *)
theory Npc_Main
  imports Npc_Stall Npc_Difftest Npc_Linux
begin

text \<open>
  The main program of the simulator (\<open>src/npc/csrc/npc_main.cpp\<close>): set-up, one clock cycle with
  everything that hangs on it, the loop over the cycles and the exit code. The generated module
  (its \<open>eval\<close> and output ports), the reference library and the files are parameters. Log lines
  and the reads that only the debug lines of \<open>--linux-early-debug\<close> do are left out.
\<close>

section \<open>State\<close>

datatype sim_stop = GoodTrap | BadTrap u32 | DiffMismatch | ArchMismatch | Timeout

definition exit_code :: "sim_stop \<Rightarrow> nat" where
  "exit_code r = (if r = GoodTrap then 0 else 1)"

record ('r, 's) sim_params =
  sp_eval :: "'s \<Rightarrow> top_in \<Rightarrow> 's"
  sp_outputs :: "'s \<Rightarrow> top_ports"
  sp_lib :: "'r ref_lib"
  sp_args :: sim_args
  sp_cfg :: profile_config

record ('r, 's) sim_state =
  sm_in :: top_in
  sm_dut :: 's
  sm_sys :: mem_system
  sm_difftest :: "'r difftest"
  sm_profile :: profile
  sm_stages :: stage_tracker
  sm_last_satp :: u32
  sm_rf :: "nat \<Rightarrow> u32"
  sm_no_commit :: u64

definition sm_mem :: "('r, 's) sim_state \<Rightarrow> unified_mem" where
  "sm_mem s = sys_mem (sm_sys s)"

definition set_mem :: "unified_mem \<Rightarrow> ('r, 's) sim_state \<Rightarrow> ('r, 's) sim_state" where
  "set_mem m s = s\<lparr>sm_sys := (sm_sys s)\<lparr>sys_mem := m\<rparr>\<rparr>"

text \<open>Code 0 in a0 is the good trap.\<close>

definition trap_stop :: "(nat \<Rightarrow> u32) \<Rightarrow> sim_stop" where
  "trap_stop rf = (let code = rf 10 in if code = 0 then GoodTrap else BadTrap code)"

section \<open>Stores, flushes and traps\<close>

definition sim_tick :: "('r, 's) sim_params \<Rightarrow> u64 \<Rightarrow> ('r, 's) sim_state \<Rightarrow> ('r, 's) sim_state" where
  "sim_tick p cycles s =
    (let s = set_mem (set_time_us cycles (sm_mem s)) s;
         r = tick (sp_eval p) (\<lambda>d. top_out.truncate (sp_outputs p d)) (sm_in s, sm_dut s, sm_sys s)
     in s\<lparr>sm_in := fst r, sm_dut := fst (snd r), sm_sys := snd (snd r)\<rparr>)"

definition sim_store :: "top_ports \<Rightarrow> ('r, 's) sim_state \<Rightarrow> ('r, 's) sim_state" where
  "sim_store tp s =
    (if dbg_sb_dcache_req_valid_o tp \<and> dbg_sb_dcache_req_ready_o tp
     then set_mem (write_store (dbg_sb_dcache_req_addr_o tp) (dbg_sb_dcache_req_data_o tp)
            (dbg_sb_dcache_req_op_o tp) (sm_mem s)) s
     else s)"

definition flush_exception :: "top_ports \<Rightarrow> bool" where
  "flush_exception tp \<longleftrightarrow> backend_flush_o tp \<and> dbg_rob_flush_o tp \<and> dbg_rob_flush_is_exception_o tp"

definition make_linux_stage_view :: "top_ports \<Rightarrow> u32 \<Rightarrow> u64 \<Rightarrow> u32 \<Rightarrow> u32 \<Rightarrow> u32 \<Rightarrow> (nat \<Rightarrow> u32) \<Rightarrow> stage_view" where
  "make_linux_stage_view tp last_satp_seen cycle slot pc inst regs =
    \<lparr>sv_cycle = cycle, sv_slot = slot, sv_pc = pc, sv_inst = inst, sv_priv = dbg_csr_priv_mode_o tp,
     sv_flush = backend_flush_o tp, sv_redirect_pc = backend_redirect_pc_o tp, sv_satp = dbg_csr_satp_o tp,
     sv_satp_old = last_satp_seen, sv_stvec = dbg_csr_stvec_o tp, sv_sepc = dbg_csr_sepc_o tp,
     sv_scause = dbg_csr_scause_o tp, sv_stval = dbg_csr_stval_o tp, sv_mstatus = dbg_csr_mstatus_o tp,
     sv_mepc = dbg_csr_mepc_o tp, sv_mcause = dbg_csr_mcause_o tp, sv_mtval = dbg_csr_stval_o tp,
     sv_rob_flush_cause = dbg_rob_flush_cause_o tp, sv_rf = Some regs\<rparr>"

text \<open>The tracker of the boot stages is asked only under \<open>--linux-early-debug\<close>.\<close>

definition stages_call :: "('r, 's) sim_params \<Rightarrow> (unified_mem \<times> stage_tracker \<Rightarrow> unified_mem \<times> stage_tracker) \<Rightarrow>
    ('r, 's) sim_state \<Rightarrow> ('r, 's) sim_state" where
  "stages_call p f s =
    (if linux_early_debug (sp_args p) \<and> \<not> all_seen (sm_stages s)
     then (let r = f (sm_mem s, sm_stages s) in (set_mem (fst r) s)\<lparr>sm_stages := snd r\<rparr>)
     else s)"

text \<open>The trap check reads the instruction of the flush, and so does the flush report after it;
  a read by the simulator has the side effects of a load.\<close>

definition sim_flush :: "('r, 's) sim_params \<Rightarrow> u64 \<Rightarrow> top_ports \<Rightarrow> ('r, 's) sim_state \<Rightarrow>
    sim_stop + ('r, 's) sim_state" where
  "sim_flush p cycles tp s =
    (if \<not> flush_exception tp then Inr s
     else
       (let src_pc = dbg_rob_flush_src_pc_o tp;
            checked = (\<not> boot_handoff_flag (sp_args p));
            r = read_word src_pc (sm_mem s);
            s1 = (if checked then set_mem (snd r) s else s)
        in if checked \<and> is_ebreak_insn_word (fst r) src_pc then Inl (trap_stop (sm_rf s1))
           else
             (let r = read_word src_pc (sm_mem s1);
                  s2 = set_mem (snd r) s1;
                  view = make_linux_stage_view tp (sm_last_satp s2) cycles 0 src_pc (fst r) (sm_rf s2)
              in Inr (stages_call p (on_flush view src_pc (fst r)) s2))))"

section \<open>Commits\<close>

definition slot_valid :: "top_ports \<Rightarrow> nat \<Rightarrow> bool" where
  "slot_valid tp i \<longleftrightarrow> drop_bit i (commit_valid_o tp) AND 1 \<noteq> 0"

definition slot_rf :: "top_ports \<Rightarrow> nat \<Rightarrow> (nat \<Rightarrow> u32) \<Rightarrow> nat \<Rightarrow> u32" where
  "slot_rf tp i rf =
    (let we = (drop_bit i (commit_we_o tp) AND 1 \<noteq> 0);
         rd = drop_bit (i * 5) (commit_areg_o tp) AND 0x1f;
         data = commit_wdata_o tp i
     in if we \<and> rd \<noteq> 0 then rf(unat rd := data) else rf)"

definition satp_seen :: "('r, 's) sim_params \<Rightarrow> u64 \<Rightarrow> top_ports \<Rightarrow> nat \<Rightarrow> ('r, 's) sim_state \<Rightarrow> ('r, 's) sim_state" where
  "satp_seen p cycles tp i s =
    (let satp_now = dbg_csr_satp_o tp; satp_old = sm_last_satp s in
     if satp_now \<noteq> satp_old then
       (let s = s\<lparr>sm_last_satp := satp_now\<rparr>;
            view = make_linux_stage_view tp (sm_last_satp s) cycles (of_nat i) (commit_pc_o tp i)
              (commit_inst_o tp i) (sm_rf s)
        in stages_call p (on_satp_change (view\<lparr>sv_satp_old := satp_old, sv_satp := satp_now\<rparr>)) s)
     else s)"

definition commit_slot :: "('r, 's) sim_params \<Rightarrow> u64 \<Rightarrow> top_ports \<Rightarrow> nat \<Rightarrow> ('r, 's) sim_state \<Rightarrow>
    sim_stop + ('r, 's) sim_state" where
  "commit_slot p cycles tp i s =
    (let rf_before = sm_rf s;
         rf = slot_rf tp i rf_before;
         pc = commit_pc_o tp i; inst = commit_inst_o tp i; decoded_inst = commit_decoded_inst_o tp i;
         is_rvc = (drop_bit i (commit_is_rvc_o tp) AND 1 \<noteq> 0);
         s = satp_seen p cycles tp i (s\<lparr>sm_rf := rf\<rparr>);
         s = stages_call p (on_commit (make_linux_stage_view tp (sm_last_satp s) cycles (of_nat i) pc inst rf)) s;
         s = s\<lparr>sm_profile := record_commit pc inst decoded_inst is_rvc (sm_profile s)\<rparr>;
         r = step_and_check (sp_lib p) pc decoded_inst rf_before rf (sm_difftest s);
         s = s\<lparr>sm_difftest := snd r\<rparr>
     in if \<not> fst r then Inl DiffMismatch
        else if (is_ebreak_insn_word inst pc \<or> (is_rvc \<and> decoded_inst = kEbreakInsn))
            \<and> \<not> boot_handoff_flag (sp_args p) then Inl (trap_stop rf)
        else Inr s)"

text \<open>The loop over the slots, with the number of commits so far.\<close>

fun commit_loop :: "('r, 's) sim_params \<Rightarrow> u64 \<Rightarrow> top_ports \<Rightarrow> nat list \<Rightarrow> u32 \<Rightarrow> ('r, 's) sim_state \<Rightarrow>
    sim_stop + u32 \<times> ('r, 's) sim_state" where
  "commit_loop p cycles tp [] n s = Inr (n, s)"
| "commit_loop p cycles tp (i # is) n s =
    (if \<not> slot_valid tp i then commit_loop p cycles tp is n s
     else (case commit_slot p cycles tp i s of
         Inl stop \<Rightarrow> Inl stop
       | Inr s \<Rightarrow> commit_loop p cycles tp is (n + 1) s))"

section \<open>The cycle\<close>

definition dut_csrs :: "top_ports \<Rightarrow> dut_csr_state" where
  "dut_csrs tp = \<lparr>dut_mtvec = dbg_csr_mtvec_o tp, dut_mepc = dbg_csr_mepc_o tp,
     dut_mstatus = dbg_csr_mstatus_o tp, dut_mcause = dbg_csr_mcause_o tp\<rparr>"

definition end_of_cycle :: "('r, 's) sim_params \<Rightarrow> u64 \<Rightarrow> top_ports \<Rightarrow> u32 \<Rightarrow> ('r, 's) sim_state \<Rightarrow>
    sim_stop + ('r, 's) sim_state" where
  "end_of_cycle p cycles tp commit_this_cycle s =
    (let s = s\<lparr>sm_profile := record_commit_width (sp_cfg p) commit_this_cycle (sm_profile s)\<rparr> in
     if commit_this_cycle \<noteq> 0 then
       (let s = s\<lparr>sm_profile := on_commit_cycle (sp_cfg p) cycles (sm_profile s)\<rparr> in
        if difftest_enabled (sm_difftest s) \<and> \<not> check_arch_state (sm_rf s) (dut_csrs tp) (sm_difftest s)
        then Inl ArchMismatch
        else Inr (s\<lparr>sm_no_commit := 0\<rparr>))
     else
       (let s = s\<lparr>sm_no_commit := sm_no_commit s + 1\<rparr> in
        Inr (s\<lparr>sm_profile := on_no_commit_cycle (sp_cfg p) cycles (sm_no_commit s) (sm_in s) tp (sm_profile s)\<rparr>)))"

text \<open>The fetch trace compares the fetched words with memory, by reads.\<close>

definition fe_trace_reads :: "('r, 's) sim_params \<Rightarrow> top_ports \<Rightarrow> ('r, 's) sim_state \<Rightarrow> ('r, 's) sim_state" where
  "fe_trace_reads p tp s =
    (if fe_trace (sp_args p) \<and> dbg_fe_valid_o tp \<and> dbg_fe_ready_o tp
     then set_mem (fold (\<lambda>i m. snd (read_word (dbg_fe_pc_o tp + of_nat (i * 4)) m))
            [0..<unat (cfg_instr_per_fetch (sp_cfg p))] (sm_mem s)) s
     else s)"

definition sim_front :: "('r, 's) sim_params \<Rightarrow> u64 \<Rightarrow> ('r, 's) sim_state \<Rightarrow> ('r, 's) sim_state" where
  "sim_front p cycles s =
    (let s = sim_tick p cycles s;
         tp = sp_outputs p (sm_dut s);
         s = s\<lparr>sm_profile := observe_cycle tp (sm_profile s)\<rparr>;
         s = sim_store tp s
     in s\<lparr>sm_profile := record_flush (sp_cfg p) cycles tp (sm_mem s) (sm_profile s)\<rparr>)"

definition sim_cycle :: "('r, 's) sim_params \<Rightarrow> u64 \<Rightarrow> ('r, 's) sim_state \<Rightarrow> sim_stop + ('r, 's) sim_state" where
  "sim_cycle p cycles s =
    (let s = sim_front p cycles s; tp = sp_outputs p (sm_dut s) in
     case sim_flush p cycles tp s of
       Inl stop \<Rightarrow> Inl stop
     | Inr s \<Rightarrow>
       (case commit_loop p cycles tp [0..<unat (cfg_commit_width (sp_cfg p))] 0 s of
          Inl stop \<Rightarrow> Inl stop
        | Inr (n, s) \<Rightarrow>
          (case end_of_cycle p cycles tp n s of
             Inl stop \<Rightarrow> Inl stop
           | Inr s \<Rightarrow> Inr (fe_trace_reads p tp s))))"

function sim_loop :: "('r, 's) sim_params \<Rightarrow> u64 \<Rightarrow> ('r, 's) sim_state \<Rightarrow> sim_stop" where
  "sim_loop p cycles s =
    (if cycles < max_cycles (sp_args p) then
       (case sim_cycle p cycles s of
          Inl stop \<Rightarrow> stop
        | Inr s \<Rightarrow> sim_loop p (cycles + 1) s)
     else Timeout)"
  by pat_completeness auto

termination
proof (relation "measure (\<lambda>(p, cycles, s). unat (max_cycles (sp_args p)) - unat cycles)")
  fix p :: "('r, 's) sim_params" and cycles s s'
  assume "cycles < max_cycles (sp_args p)"
  then have "unat (cycles + 1) = unat cycles + 1" "unat cycles < unat (max_cycles (sp_args p))"
    using unat_lt_u64 [of "max_cycles (sp_args p)"]
    by (simp_all add: word_less_nat_alt unat_word_ariths)
  then show "((p, cycles + 1, s'), p, cycles, s) \<in> measure (\<lambda>(p, cycles, s). unat (max_cycles (sp_args p)) - unat cycles)"
    by simp
qed simp

declare sim_loop.simps [simp del]

section \<open>Set-up and exit code\<close>

definition MemSystem_init :: "unified_mem \<Rightarrow> mem_system" where
  "MemSystem_init m =
    \<lparr>sys_mem = m,
     sys_icache = \<lparr>ic_pending = False, ic_delay = 0, ic_miss_addr = 0, ic_miss_way = 0,
       ic_refill_pulse = False, ic_line_words = replicate 8 0\<rparr>,
     sys_dcache = \<lparr>pending_q = [], refill_pulse = False, refill_txn = MissTxn_init\<rparr>\<rparr>"

definition Difftest_init :: "'r \<Rightarrow> 'r difftest" where
  "Difftest_init r = \<lparr>ref_state = r, last_ref_state = (boot_state 0)\<lparr>csr_mstatus := 0\<rparr>,
     has_last_ref_state = False, difftest_enabled = False\<rparr>"

text \<open>The firmware's code is watched under \<open>--linux-early-debug\<close> with \<open>--boot-handoff\<close>.\<close>

definition watch_firmware :: "sim_args \<Rightarrow> unified_mem \<Rightarrow> unified_mem" where
  "watch_firmware a m =
    (if linux_early_debug a \<and> boot_handoff_flag a then
       (let base = (if firmware_load_base a \<noteq> 0 then ucast (firmware_load_base a) else kOpenSbiLoadBase) in
        m\<lparr>fw_text_watch_base := base, fw_text_watch_limit := base + 0x00040000, fw_text_watch_enabled := True\<rparr>)
     else m)"

text \<open>The memory before reset, or None where \<open>main\<close> returns 1.\<close>

definition load_images :: "(string \<Rightarrow> u8 list option) \<Rightarrow> sim_args \<Rightarrow> unified_mem option" where
  "load_images files a =
    (if img_path a = [] then None
     else (case boot_setup (boot_handoff_flag a) (firmware_load_base a) (files (img_path a))
                  (if dtb_path a \<noteq> [] then Some (files (dtb_path a)) else None) of
         None \<Rightarrow> None
       | Some m \<Rightarrow>
         if virtio_blk_path a \<noteq> [] then
           (let r = load_virtio_blk_image (files (virtio_blk_path a)) m in
            if fst r then Some (watch_firmware a (snd r)) else None)
         else Some (watch_firmware a m)))"

text \<open>A configuration port of 0 or above 32 counts as 4.\<close>

definition cfg_or_4 :: "u32 \<Rightarrow> u32" where
  "cfg_or_4 v = (if v = 0 \<or> 32 < v then 4 else v)"

text \<open>The whole program: \<open>so\<close> says of a path whether the library and its symbols are found.\<close>

definition sim_main :: "('s \<Rightarrow> top_in \<Rightarrow> 's) \<Rightarrow> ('s \<Rightarrow> top_ports) \<Rightarrow> 'r ref_lib \<Rightarrow> (string \<Rightarrow> u8 list option) \<Rightarrow>
    (string \<Rightarrow> bool \<times> bool) \<Rightarrow> top_in \<Rightarrow> 's \<Rightarrow> 'r \<Rightarrow> string list \<Rightarrow> nat" where
  "sim_main eval outputs lib files so ti d r argv =
    (let a = parse_args argv in
     case load_images files a of
       None \<Rightarrow> 1
     | Some m \<Rightarrow>
       (let dt = (if difftest_so a \<noteq> []
                  then difftest_init lib (fst (so (difftest_so a))) (snd (so (difftest_so a)))
                         (pmem_words m) pmem_nwords kPmemBase (Difftest_init r)
                  else (True, Difftest_init r));
            m = m\<lparr>uart_stdout_enabled := \<not> difftest_enabled (snd dt)\<rparr>;
            (ti, d, sys) = sim_reset eval (\<lambda>d. top_out.truncate (outputs d)) (ti, d, MemSystem_init m);
            fetch = cfg_or_4 (dbg_cfg_instr_per_fetch_o (outputs d));
            width = cfg_or_4 (dbg_cfg_nret_o (outputs d));
            p = \<lparr>sp_eval = eval, sp_outputs = outputs, sp_lib = lib, sp_args = a,
                 sp_cfg = ProfileCollector_config a fetch width\<rparr>;
            s = \<lparr>sm_in = ti, sm_dut = d, sm_sys = sys, sm_difftest = snd dt,
                 sm_profile = ProfileCollector_init width, sm_stages = tracker_init,
                 sm_last_satp = 0xffffffff, sm_rf = (\<lambda>_. 0), sm_no_commit = 0\<rparr>
        in if \<not> fst dt then 1 else exit_code (sim_loop p 0 s)))"

section \<open>What a cycle leaves alone\<close>

lemma set_mem_frame [simp]:
  "sm_rf (set_mem m s) = sm_rf s" "sm_difftest (set_mem m s) = sm_difftest s" "sm_profile (set_mem m s) = sm_profile s"
  by (simp_all add: set_mem_def)

lemma stages_call_frame [simp]:
  "sm_rf (stages_call p f s) = sm_rf s" "sm_difftest (stages_call p f s) = sm_difftest s"
  "sm_profile (stages_call p f s) = sm_profile s"
  by (simp_all add: stages_call_def Let_def)

lemma satp_seen_frame [simp]:
  "sm_rf (satp_seen p c tp i s) = sm_rf s" "sm_difftest (satp_seen p c tp i s) = sm_difftest s"
  "sm_profile (satp_seen p c tp i s) = sm_profile s"
  by (simp_all add: satp_seen_def Let_def)

lemma sim_front_frame [simp]:
  "sm_rf (sim_front p c s) = sm_rf s" "sm_difftest (sim_front p c s) = sm_difftest s"
  by (simp_all add: sim_front_def sim_tick_def sim_store_def Let_def)

lemma fe_trace_frame [simp]:
  "sm_rf (fe_trace_reads p tp s) = sm_rf s" "sm_difftest (fe_trace_reads p tp s) = sm_difftest s"
  by (simp_all add: fe_trace_reads_def)

lemma check_passed: "(if a then Inl x else Inr z) = Inr s' \<Longrightarrow> \<not> a \<and> s' = z"
  by (simp split: if_splits)

lemma checks_passed: "(if a then Inl x else if b then Inl y else Inr z) = Inr s' \<Longrightarrow> \<not> a \<and> \<not> b \<and> s' = z"
  by (simp split: if_splits)

lemma sim_flush_frame:
  assumes "sim_flush p c tp s = Inr s'"
  shows "sm_rf s' = sm_rf s" "sm_difftest s' = sm_difftest s"
proof -
  have "sm_rf s' = sm_rf s \<and> sm_difftest s' = sm_difftest s"
  proof (cases "flush_exception tp")
    case True
    then show ?thesis using check_passed [OF assms [unfolded sim_flush_def Let_def, simplified True not_True_eq_False if_False]]
      by simp
  next
    case False
    then show ?thesis using assms by (simp add: sim_flush_def)
  qed
  then show "sm_rf s' = sm_rf s" "sm_difftest s' = sm_difftest s" by blast+
qed

lemma end_of_cycle_frame:
  assumes "end_of_cycle p c tp n s = Inr s'"
  shows "sm_rf s' = sm_rf s" "sm_difftest s' = sm_difftest s"
    "n \<noteq> 0 \<Longrightarrow> difftest_enabled (sm_difftest s) \<Longrightarrow> check_arch_state (sm_rf s) (dut_csrs tp) (sm_difftest s)"
proof -
  have "sm_rf s' = sm_rf s \<and> sm_difftest s' = sm_difftest s
      \<and> (n \<noteq> 0 \<longrightarrow> \<not> (difftest_enabled (sm_difftest s) \<and> \<not> check_arch_state (sm_rf s) (dut_csrs tp) (sm_difftest s)))"
  proof (cases "n = 0")
    case True
    have "s' = s\<lparr>sm_profile := record_commit_width (sp_cfg p) n (sm_profile s), sm_no_commit := sm_no_commit s + 1,
        sm_profile := on_no_commit_cycle (sp_cfg p) c (sm_no_commit s + 1) (sm_in s) tp
          (record_commit_width (sp_cfg p) n (sm_profile s))\<rparr>"
      using assms True by (simp add: end_of_cycle_def)
    then show ?thesis using True by simp
  next
    case False
    then show ?thesis
      using check_passed [OF assms [unfolded end_of_cycle_def Let_def, simplified if_P [OF False]]] by simp
  qed
  then show "sm_rf s' = sm_rf s" "sm_difftest s' = sm_difftest s"
    "n \<noteq> 0 \<Longrightarrow> difftest_enabled (sm_difftest s) \<Longrightarrow> check_arch_state (sm_rf s) (dut_csrs tp) (sm_difftest s)"
    by blast+
qed

section \<open>The commits of a cycle\<close>

fun commits_of :: "top_ports \<Rightarrow> nat list \<Rightarrow> (nat \<Rightarrow> u32) \<Rightarrow> commit_info list" where
  "commits_of tp [] rf = []"
| "commits_of tp (i # is) rf =
    (if \<not> slot_valid tp i then commits_of tp is rf
     else (let rf' = slot_rf tp i rf in
       \<lparr>ci_pc = commit_pc_o tp i, ci_inst = commit_decoded_inst_o tp i, ci_rf = rf'\<rparr> # commits_of tp is rf'))"

lemma commit_slot_frame:
  assumes "commit_slot p c tp i s = Inr s'"
  shows "sm_rf s' = slot_rf tp i (sm_rf s)"
    "step_and_check (sp_lib p) (commit_pc_o tp i) (commit_decoded_inst_o tp i) (sm_rf s) (slot_rf tp i (sm_rf s)) (sm_difftest s)
      = (True, sm_difftest s')"
proof -
  note ok = checks_passed [OF assms [unfolded commit_slot_def Let_def]]
  show "sm_rf s' = slot_rf tp i (sm_rf s)" by (simp only: ok) simp
  have "fst (step_and_check (sp_lib p) (commit_pc_o tp i) (commit_decoded_inst_o tp i) (sm_rf s)
      (slot_rf tp i (sm_rf s)) (sm_difftest s))"
    using conjunct1 [OF ok] by simp
  then show "step_and_check (sp_lib p) (commit_pc_o tp i) (commit_decoded_inst_o tp i) (sm_rf s) (slot_rf tp i (sm_rf s)) (sm_difftest s)
      = (True, sm_difftest s')"
    by (simp only: conjunct2 [OF conjunct2 [OF ok]]) (simp add: prod_eq_iff)
qed

lemma commit_loop_frame:
  assumes "commit_loop p c tp is n s = Inr (n', s')"
  shows "check_commits (sp_lib p) (commits_of tp is (sm_rf s)) (sm_rf s) (sm_difftest s) = (True, sm_difftest s')
    \<and> sm_rf s' = ci_rf (last (\<lparr>ci_pc = 0, ci_inst = 0, ci_rf = sm_rf s\<rparr> # commits_of tp is (sm_rf s)))
    \<and> n' = n + of_nat (length (commits_of tp is (sm_rf s)))"
  using assms
proof (induction "is" arbitrary: n s)
  case (Cons i "is")
  show ?case
  proof (cases "slot_valid tp i")
    case True
    then obtain s1 where s1: "commit_slot p c tp i s = Inr s1" "commit_loop p c tp is (n + 1) s1 = Inr (n', s')"
      using Cons.prems by (auto split: sum.splits)
    note fr = commit_slot_frame [OF s1(1)]
    show ?thesis
      using Cons.IH [OF s1(2), unfolded fr(1)] True by (simp add: Let_def fr(2) add.assoc)
  next
    case False
    then show ?thesis using Cons by simp
  qed
qed simp

section \<open>Lockstep of the whole simulation\<close>

lemma cycle_steps:
  assumes "sim_cycle p c s = Inr s'"
  shows "\<exists>tp. \<exists>n :: u32. let cs = commits_of tp [0..<unat (cfg_commit_width (sp_cfg p))] (sm_rf s) in
    check_commits (sp_lib p) cs (sm_rf s) (sm_difftest s) = (True, sm_difftest s')
    \<and> sm_rf s' = ci_rf (last (\<lparr>ci_pc = 0, ci_inst = 0, ci_rf = sm_rf s\<rparr> # cs))
    \<and> n = of_nat (length cs)
    \<and> (n \<noteq> 0 \<and> difftest_enabled (sm_difftest s') \<longrightarrow> check_arch_state (sm_rf s') (dut_csrs tp) (sm_difftest s'))"
proof -
  define s0 where "s0 = sim_front p c s"
  define tp where "tp = sp_outputs p (sm_dut s0)"
  obtain s1 where s1: "sim_flush p c tp s0 = Inr s1"
    using assms by (auto simp: sim_cycle_def Let_def s0_def [symmetric] tp_def [symmetric] split: sum.splits)
  obtain n s2 where s2: "commit_loop p c tp [0..<unat (cfg_commit_width (sp_cfg p))] 0 s1 = Inr (n, s2)"
    using assms s1 by (auto simp: sim_cycle_def Let_def s0_def [symmetric] tp_def [symmetric] split: sum.splits)
  obtain s3 where s3: "end_of_cycle p c tp n s2 = Inr s3" and s': "s' = fe_trace_reads p tp s3"
    using assms s1 s2 by (auto simp: sim_cycle_def Let_def s0_def [symmetric] tp_def [symmetric] split: sum.splits)
  have a: "sm_rf s1 = sm_rf s" "sm_difftest s1 = sm_difftest s"
    using sim_flush_frame [OF s1] by (simp_all add: s0_def)
  have b: "sm_rf s' = sm_rf s2" "sm_difftest s' = sm_difftest s2"
    using end_of_cycle_frame [OF s3] by (simp_all add: s')
  have ck: "n \<noteq> 0 \<and> difftest_enabled (sm_difftest s') \<longrightarrow> check_arch_state (sm_rf s') (dut_csrs tp) (sm_difftest s')"
    using end_of_cycle_frame(3) [OF s3] unfolding b by blast
  note fr = commit_loop_frame [OF s2, unfolded a, folded b, simplified add_0]
  show ?thesis unfolding Let_def
    by (rule exI [of _ tp], rule exI [of _ n]) (use fr ck in blast)
qed

text \<open>The invariant: with the test on, the reference holds the register file of the simulation.\<close>

definition in_lockstep :: "('r, 's) sim_params \<Rightarrow> ('r, 's) sim_state \<Rightarrow> bool" where
  "in_lockstep p s \<longleftrightarrow> difftest_enabled (sm_difftest s)
     \<and> (\<forall>reg<32. gpr (lib_to_dut (sp_lib p) (ref_state (sm_difftest s))) reg = sm_rf s reg)"

lemma cycle_lockstep:
  assumes "sim_cycle p c s = Inr s'" "in_lockstep p s"
    and law: "\<And>x r. lib_to_dut (sp_lib p) (lib_to_ref (sp_lib p) x r) = x"
  shows "in_lockstep p s'"
proof -
  obtain tp where st: "check_commits (sp_lib p) (commits_of tp [0..<unat (cfg_commit_width (sp_cfg p))] (sm_rf s)) (sm_rf s)
        (sm_difftest s) = (True, sm_difftest s')"
    "sm_rf s' = ci_rf (last (\<lparr>ci_pc = 0, ci_inst = 0, ci_rf = sm_rf s\<rparr>
        # commits_of tp [0..<unat (cfg_commit_width (sp_cfg p))] (sm_rf s)))"
    using cycle_steps [OF assms(1)] by (auto simp: Let_def)
  show ?thesis
  proof (cases "commits_of tp [0..<unat (cfg_commit_width (sp_cfg p))] (sm_rf s) = []")
    case True
    then show ?thesis using st assms(2) by (simp add: in_lockstep_def)
  next
    case False
    have e: "difftest_enabled (sm_difftest s)" using assms(2) by (simp add: in_lockstep_def)
    have l: "difftest_enabled (sm_difftest s')"
      "\<forall>reg<32. gpr (lib_to_dut (sp_lib p) (ref_state (sm_difftest s'))) reg = sm_rf s' reg"
      using check_commits_last [OF e _ False law, of "sm_rf s"] st False by auto
    then show ?thesis by (simp add: in_lockstep_def)
  qed
qed

text \<open>The states after each cycle, as long as none stops.\<close>

fun sim_run :: "('r, 's) sim_params \<Rightarrow> nat \<Rightarrow> ('r, 's) sim_state \<Rightarrow> sim_stop + ('r, 's) sim_state" where
  "sim_run p 0 s = Inr s"
| "sim_run p (Suc n) s = (case sim_run p n s of Inl x \<Rightarrow> Inl x | Inr s \<Rightarrow> sim_cycle p (of_nat n) s)"

text \<open>C1: When the reference library returns the registers it was given, then as long as a
  simulation under differential test runs, the reference holds after every cycle exactly the
  register file that the commits of the design under test have built, whatever the module does
  and whichever commits load from devices; the first deviation ends the simulation.\<close>

theorem simulation_lockstep:
  assumes "\<And>x r. lib_to_dut (sp_lib p) (lib_to_ref (sp_lib p) x r) = x"
    and "difftest_enabled (sm_difftest s)"
    and "\<forall>reg<32. gpr (lib_to_dut (sp_lib p) (ref_state (sm_difftest s))) reg = sm_rf s reg"
    and "sim_run p n s = Inr s'"
  shows "\<forall>reg<32. gpr (lib_to_dut (sp_lib p) (ref_state (sm_difftest s'))) reg = sm_rf s' reg"
proof -
  have "in_lockstep p s'" using assms(4)
  proof (induction n arbitrary: s')
    case 0
    then show ?case using assms(2,3) by (simp add: in_lockstep_def)
  next
    case (Suc n)
    then obtain s1 where s1: "sim_run p n s = Inr s1" "sim_cycle p (of_nat n) s1 = Inr s'"
      by (auto split: sum.splits)
    from cycle_lockstep [OF s1(2) Suc.IH [OF s1(1)] assms(1)] show ?case .
  qed
  then show ?thesis by (simp add: in_lockstep_def)
qed

section \<open>How a simulation ends\<close>

lemma flush_stop: "sim_flush p c tp s = Inl x \<Longrightarrow> \<not> boot_handoff_flag (sp_args p) \<and> (\<exists>rf. x = trap_stop rf)"
  by (auto simp: sim_flush_def Let_def split: if_splits)

lemma slot_stop: "commit_slot p c tp i s = Inl x \<Longrightarrow> x = DiffMismatch
    \<or> \<not> boot_handoff_flag (sp_args p) \<and> (\<exists>rf. x = trap_stop rf)"
  by (auto simp: commit_slot_def Let_def split: if_splits)

lemma loop_stop: "commit_loop p c tp is n s = Inl x \<Longrightarrow> x = DiffMismatch
    \<or> \<not> boot_handoff_flag (sp_args p) \<and> (\<exists>rf. x = trap_stop rf)"
proof (induction "is" arbitrary: n s)
  case (Cons i "is")
  then show ?case using slot_stop [of p c tp i s x] by (auto split: if_splits sum.splits)
qed simp

lemma end_stop: "end_of_cycle p c tp n s = Inl x \<Longrightarrow> x = ArchMismatch"
  by (auto simp: end_of_cycle_def Let_def split: if_splits)

lemma cycle_stop: "sim_cycle p c s = Inl x \<Longrightarrow> x = DiffMismatch \<or> x = ArchMismatch
    \<or> \<not> boot_handoff_flag (sp_args p) \<and> (\<exists>rf. x = trap_stop rf)"
  using flush_stop [of p c] loop_stop [of p c] end_stop [of p c]
  by (auto simp: sim_cycle_def Let_def split: sum.splits) blast+

lemma loop_steps:
  assumes "unat c \<le> unat (max_cycles (sp_args p))" "sim_run p (unat c) s0 = Inr s"
  shows "sim_loop p c s = (case sim_run p (unat (max_cycles (sp_args p))) s0 of Inl x \<Rightarrow> x | Inr _ \<Rightarrow> Timeout)"
  using assms
proof (induction p c s rule: sim_loop.induct)
  case (1 p c s)
  let ?m = "max_cycles (sp_args p)"
  have stuck: "sim_run p n s0 = Inl x \<Longrightarrow> n \<le> k \<Longrightarrow> sim_run p k s0 = Inl x" for n k x
    by (induction k) (auto simp: le_Suc_eq)
  show ?case
  proof (cases "c < ?m")
    case True
    then have u: "unat (c + 1) = Suc (unat c)" "unat c < unat ?m"
      using unat_lt_u64 [of ?m] by (simp_all add: word_less_nat_alt unat_word_ariths)
    have r: "sim_run p (Suc (unat c)) s0 = sim_cycle p c s" using 1(3) by simp
    show ?thesis
    proof (cases "sim_cycle p c s")
      case (Inl x)
      then have "sim_run p (unat ?m) s0 = Inl x"
        using stuck [of "Suc (unat c)" x "unat ?m"] r u(2) by simp
      then show ?thesis using True Inl by (subst sim_loop.simps) simp
    next
      case (Inr s1)
      then show ?thesis using 1(1) [OF True Inr] True r u by (subst sim_loop.simps) simp
    qed
  next
    case False
    then have "unat c = unat ?m" using 1(2) by (simp add: word_less_nat_alt)
    then show ?thesis using False 1(3) by (subst sim_loop.simps) simp
  qed
qed

text \<open>A cycle ends at a trap with the register file \<open>rf\<close>: without \<open>--boot-handoff\<close>, either the flush of an
  exception comes from an ebreak instruction, and \<open>rf\<close> is what the commits have built before the
  cycle; or an ebreak instruction is committed, every slot before it and its own check having passed,
  and \<open>rf\<close> is the register file after that commit.\<close>

definition ebreak_slot :: "top_ports \<Rightarrow> nat \<Rightarrow> bool" where
  "ebreak_slot tp i \<longleftrightarrow> is_ebreak_insn_word (commit_inst_o tp i) (commit_pc_o tp i)
     \<or> (drop_bit i (commit_is_rvc_o tp) AND 1 \<noteq> 0 \<and> commit_decoded_inst_o tp i = kEbreakInsn)"

definition slot_passes :: "('r, 's) sim_params \<Rightarrow> top_ports \<Rightarrow> nat \<Rightarrow> ('r, 's) sim_state \<Rightarrow> bool" where
  "slot_passes p tp i s \<longleftrightarrow> fst (step_and_check (sp_lib p) (commit_pc_o tp i) (commit_decoded_inst_o tp i)
     (sm_rf s) (slot_rf tp i (sm_rf s)) (sm_difftest s))"

definition ends_at_trap :: "('r, 's) sim_params \<Rightarrow> u64 \<Rightarrow> ('r, 's) sim_state \<Rightarrow> (nat \<Rightarrow> u32) \<Rightarrow> bool" where
  "ends_at_trap p c s rf \<longleftrightarrow> \<not> boot_handoff_flag (sp_args p)
     \<and> (let s1 = sim_front p c s; tp = sp_outputs p (sm_dut s1); src = dbg_rob_flush_src_pc_o tp in
          flush_exception tp \<and> is_ebreak_insn_word (fst (read_word src (sm_mem s1))) src \<and> rf = sm_rf s1
        \<or> (\<exists>s2 i n s3. sim_flush p c tp s1 = Inr s2 \<and> i < unat (cfg_commit_width (sp_cfg p))
             \<and> commit_loop p c tp [0..<i] 0 s2 = Inr (n, s3) \<and> slot_valid tp i \<and> slot_passes p tp i s3
             \<and> ebreak_slot tp i \<and> rf = slot_rf tp i (sm_rf s3)))"

lemma flush_trap: "sim_flush p c tp s = Inl x \<longleftrightarrow> flush_exception tp \<and> \<not> boot_handoff_flag (sp_args p)
    \<and> is_ebreak_insn_word (fst (read_word (dbg_rob_flush_src_pc_o tp) (sm_mem s))) (dbg_rob_flush_src_pc_o tp)
    \<and> x = trap_stop (sm_rf s)"
  by (auto simp: sim_flush_def Let_def)

lemma slot_trap: "x \<noteq> DiffMismatch \<Longrightarrow> commit_slot p c tp i s = Inl x \<longleftrightarrow> slot_passes p tp i s \<and> ebreak_slot tp i
    \<and> \<not> boot_handoff_flag (sp_args p) \<and> x = trap_stop (slot_rf tp i (sm_rf s))"
  by (auto simp: commit_slot_def slot_passes_def ebreak_slot_def Let_def)

lemma loop_split: "commit_loop p c tp (js @ ks) n s = (case commit_loop p c tp js n s of
    Inl x \<Rightarrow> Inl x | Inr (n, s) \<Rightarrow> commit_loop p c tp ks n s)"
  by (induction js arbitrary: n s) (auto split: sum.split)

lemma loop_trap: "commit_loop p c tp [0..<w] n s = Inl x \<longleftrightarrow>
    (\<exists>i<w. \<exists>n' s'. commit_loop p c tp [0..<i] n s = Inr (n', s') \<and> slot_valid tp i \<and> commit_slot p c tp i s' = Inl x)"
proof (induction w)
  case (Suc w)
  have "commit_loop p c tp [0..<Suc w] n s = Inl x \<longleftrightarrow> commit_loop p c tp [0..<w] n s = Inl x
      \<or> (\<exists>n' s'. commit_loop p c tp [0..<w] n s = Inr (n', s') \<and> slot_valid tp w \<and> commit_slot p c tp w s' = Inl x)"
    by (auto simp: loop_split split: sum.splits prod.splits)
  then show ?case unfolding Suc.IH less_Suc_eq by blast
qed simp

lemma cycle_trap:
  assumes "x \<noteq> DiffMismatch" "x \<noteq> ArchMismatch"
  shows "sim_cycle p c s = Inl x \<longleftrightarrow> (\<exists>rf. ends_at_trap p c s rf \<and> x = trap_stop rf)"
proof -
  let ?s1 = "sim_front p c s" and ?w = "unat (cfg_commit_width (sp_cfg p))"
  let ?tp = "sp_outputs p (sm_dut ?s1)"
  have "sim_cycle p c s = Inl x \<longleftrightarrow> sim_flush p c ?tp ?s1 = Inl x
      \<or> (\<exists>s2. sim_flush p c ?tp ?s1 = Inr s2 \<and> commit_loop p c ?tp [0..<?w] 0 s2 = Inl x)"
    using end_stop [of p c ?tp _ _ x] assms(2) by (auto simp: sim_cycle_def Let_def split: sum.splits prod.splits)
  then show ?thesis
    unfolding flush_trap loop_trap slot_trap [OF assms(1)] ends_at_trap_def Let_def by blast
qed

lemma trap_stop_cases: "trap_stop rf = GoodTrap \<longleftrightarrow> rf 10 = 0" "trap_stop rf = BadTrap c \<longleftrightarrow> rf 10 = c \<and> c \<noteq> 0"
  by (auto simp: trap_stop_def Let_def)

text \<open>C18: The simulation always ends, with what its first cycle that stops says, or at the limit of the
  cycles. Its exit code is 0 exactly if, before the limit, a cycle ends at a trap with 0 in register
  a0; it reports a bad trap with a code exactly if that is in a0 instead and is not 0; and with
  \<open>--boot-handoff\<close> the exit code is never 0.\<close>

theorem simulation_outcome:
  "sim_loop p 0 s = (case sim_run p (unat (max_cycles (sp_args p))) s of Inl x \<Rightarrow> x | Inr _ \<Rightarrow> Timeout)
   \<and> (exit_code (sim_loop p 0 s) = 0 \<longleftrightarrow>
        (\<exists>n s' rf. n < unat (max_cycles (sp_args p)) \<and> sim_run p n s = Inr s' \<and> ends_at_trap p (of_nat n) s' rf \<and> rf 10 = 0))
   \<and> (sim_loop p 0 s = BadTrap c \<longleftrightarrow> c \<noteq> 0 \<and>
        (\<exists>n s' rf. n < unat (max_cycles (sp_args p)) \<and> sim_run p n s = Inr s' \<and> ends_at_trap p (of_nat n) s' rf \<and> rf 10 = c))
   \<and> \<not> (boot_handoff_flag (sp_args p) \<and> exit_code (sim_loop p 0 s) = 0)"
proof -
  let ?m = "unat (max_cycles (sp_args p))"
  have l: "sim_loop p 0 s = (case sim_run p ?m s of Inl x \<Rightarrow> x | Inr _ \<Rightarrow> Timeout)"
    by (rule loop_steps) simp_all
  have f: "sim_run p k s = Inl x \<longleftrightarrow> (\<exists>n s'. n < k \<and> sim_run p n s = Inr s' \<and> sim_cycle p (of_nat n) s' = Inl x)" for k x
    by (induction k) (auto split: sum.split simp: less_Suc_eq)
  have t: "sim_loop p 0 s = x \<longleftrightarrow> (\<exists>n s' rf. n < ?m \<and> sim_run p n s = Inr s' \<and> ends_at_trap p (of_nat n) s' rf \<and> x = trap_stop rf)"
    if "x \<noteq> DiffMismatch" "x \<noteq> ArchMismatch" "x \<noteq> Timeout" for x
  proof -
    have "sim_loop p 0 s = x \<longleftrightarrow> sim_run p ?m s = Inl x" unfolding l using that(3) by (auto split: sum.splits)
    then show ?thesis unfolding f cycle_trap [OF that(1,2)] by blast
  qed
  have e: "exit_code (sim_loop p 0 s) = 0 \<longleftrightarrow> sim_loop p 0 s = GoodTrap" by (simp add: exit_code_def)
  have g: "GoodTrap = trap_stop rf \<longleftrightarrow> rf 10 = 0" "BadTrap c = trap_stop rf \<longleftrightarrow> rf 10 = c \<and> c \<noteq> 0" for rf
    using trap_stop_cases by metis+
  have "\<not> boot_handoff_flag (sp_args p)" if "sim_loop p 0 s = GoodTrap"
    using that t [of GoodTrap] by (auto simp: ends_at_trap_def)
  moreover have "sim_loop p 0 s = GoodTrap \<longleftrightarrow>
      (\<exists>n s' rf. n < ?m \<and> sim_run p n s = Inr s' \<and> ends_at_trap p (of_nat n) s' rf \<and> rf 10 = 0)"
    unfolding t [of GoodTrap, simplified] g by blast
  moreover have "sim_loop p 0 s = BadTrap c \<longleftrightarrow> c \<noteq> 0 \<and>
      (\<exists>n s' rf. n < ?m \<and> sim_run p n s = Inr s' \<and> ends_at_trap p (of_nat n) s' rf \<and> rf 10 = c)"
    unfolding t [of "BadTrap c", simplified] g by blast
  ultimately show ?thesis using l unfolding e by blast
qed

lemma handoff_loop:
  assumes "boot_handoff_flag (sp_args p)"
  shows "exit_code (sim_loop p 0 s) = 1"
proof -
  have "sim_run p k s \<noteq> Inl GoodTrap" for k
  proof (induction k)
    case (Suc k)
    then show ?case using cycle_stop [of p "of_nat k" _ GoodTrap] assms by (auto split: sum.split)
  qed simp
  then show ?thesis
    using loop_steps [of 0 p s s] by (auto simp: exit_code_def split: sum.splits)
qed

text \<open>With \<open>--boot-handoff\<close> the program's exit code is 1 for every module, image and library.\<close>

lemma handoff_exit_code:
  assumes "boot_handoff_flag (parse_args argv)"
  shows "sim_main eval outputs lib files so ti d r argv = 1"
  using assms by (simp add: sim_main_def Let_def case_prod_beta handoff_loop split: option.split)

section \<open>Concrete runs\<close>

definition idle_params :: "(cpu_state, unit) sim_params" where
  "idle_params = \<lparr>sp_eval = (\<lambda>d _. d), sp_outputs = (\<lambda>_. idle_ports), sp_lib = demo_lib,
     sp_args = sim_args_init, sp_cfg = demo_config\<rparr>"

definition idle_in :: top_in where
  "idle_in = \<lparr>rst_ni = False, clk_i = False, timer_irq_i = False, ext_irq_i = False,
     icache_miss_req_ready_i = False, icache_refill_valid_i = False, icache_refill_paddr_i = 0,
     icache_refill_way_i = 0, icache_refill_data_i = [], dcache_miss_req_ready_i = False,
     dcache_wb_req_ready_i = False, dcache_refill_valid_i = False, dcache_refill_paddr_i = 0,
     dcache_refill_way_i = 0, dcache_refill_data_i = []\<rparr>"

definition idle_state :: "(cpu_state, unit) sim_state" where
  "idle_state = \<lparr>sm_in = idle_in, sm_dut = (), sm_sys = MemSystem_init UnifiedMem_init, sm_difftest = demo_difftest,
     sm_profile = ProfileCollector_init 4, sm_stages = tracker_init, sm_last_satp = 0, sm_rf = (\<lambda>_. 0), sm_no_commit = 0\<rparr>"

lemma idle_cycle: "\<exists>s'. sim_cycle idle_params c s = Inr s'"
proof -
  have f: "sim_flush idle_params c idle_ports s = Inr s" for s
    by (simp add: sim_flush_def flush_exception_def idle_ports_def)
  have "\<not> slot_valid idle_ports i" for i by (simp add: slot_valid_def idle_ports_def)
  then have l: "commit_loop idle_params c idle_ports is n s = Inr (n, s)" for "is" n s
    by (induction "is") simp_all
  have o: "sp_outputs idle_params d = idle_ports" for d by (simp add: idle_params_def)
  show ?thesis unfolding sim_cycle_def Let_def o f l by (simp add: end_of_cycle_def Let_def)
qed

lemma simulation_witness:
  "\<exists>s'. sim_run idle_params 1 idle_state = Inr s'
    \<and> gpr (lib_to_dut demo_lib (ref_state (sm_difftest s'))) 5 = sm_rf s' 5"
proof -
  obtain s' where s': "sim_run idle_params 1 idle_state = Inr s'"
    using idle_cycle by auto
  have "\<forall>reg<32. gpr (lib_to_dut (sp_lib idle_params) (ref_state (sm_difftest s'))) reg = sm_rf s' reg"
    by (rule simulation_lockstep [OF _ _ _ s'])
      (simp_all add: idle_params_def demo_lib_def idle_state_def demo_difftest_def boot_state_def)
  then have "gpr (lib_to_dut demo_lib (ref_state (sm_difftest s'))) 5 = sm_rf s' 5"
    by (simp add: idle_params_def)
  with s' show ?thesis by blast
qed

end
