(* ===== verification/Npc_Sv32.thy ===== *)
theory Npc_Sv32
  imports Npc_Bus
begin

text \<open>
  The page-table walk of the simulator's fault report (\<open>emit_sv32_fault_walk\<close> in
  \<open>src/npc/csrc/npc_main.cpp\<close>). What the report prints is a record of the values it prints.
\<close>

definition pte_flags :: "u32 \<Rightarrow> string" where
  "pte_flags pte = List.map (\<lambda>(c, i). if pte AND push_bit i 1 \<noteq> 0 then c else CHR ''-'') (zip ''vrwxugad'' [0..<8])"

definition pte_valid :: "u32 \<Rightarrow> bool" where
  "pte_valid pte =
    (let v = (pte AND 0x1 \<noteq> 0); r = (pte AND 0x2 \<noteq> 0); w = (pte AND 0x4 \<noteq> 0) in v \<and> \<not> (w \<and> \<not> r))"

definition pte_leaf :: "u32 \<Rightarrow> bool" where
  "pte_leaf pte \<longleftrightarrow> pte AND 0xa \<noteq> 0"

record sv32_report =
  rp_sv32 :: bool
  rp_root_base :: u32
  rp_vpn1 :: u32
  rp_vpn0 :: u32
  rp_page_off :: u32
  rp_l1_addr :: u32
  rp_l1_pte :: u32
  rp_l1_read :: bool
  rp_l1_ok :: bool
  rp_l1_leaf :: bool
  rp_l0_base :: u32
  rp_l0_addr :: u32
  rp_l0_pte :: u32
  rp_l0_read :: bool
  rp_l0_ok :: bool
  rp_l0_leaf :: bool
  rp_resolved :: "u32 option"

text \<open>\<open>read_phys_u32\<close> leaves its output argument, initialised to 0, alone when it fails.\<close>

definition read_pte :: "u32 \<Rightarrow> unified_mem \<Rightarrow> bool \<times> u32" where
  "read_pte a m = (case read_phys_u32 (ucast a) m of None \<Rightarrow> (False, 0) | Some v \<Rightarrow> (True, v))"

definition emit_sv32_fault_walk :: "u32 \<Rightarrow> u32 \<Rightarrow> u32 \<Rightarrow> unified_mem \<Rightarrow> sv32_report option" where
  "emit_sv32_fault_walk cause satp fault_va m =
    (if cause \<noteq> 12 \<and> cause \<noteq> 13 \<and> cause \<noteq> 15 then None
     else
       (let sv32_enabled = (satp AND 0x80000000 \<noteq> 0);
            root_base = push_bit 12 (satp AND 0x003fffff);
            vpn1 = drop_bit 22 fault_va;
            vpn0 = drop_bit 12 fault_va AND 0x3ff;
            page_off = fault_va AND 0xfff;
            l1_addr = root_base + push_bit 2 vpn1;
            l1 = read_pte l1_addr m; l1_read = fst l1; l1_pte = snd l1;
            l1_ok = (l1_read \<and> pte_valid l1_pte);
            l1_is_leaf = (l1_ok \<and> pte_leaf l1_pte);
            r = \<lparr>rp_sv32 = sv32_enabled, rp_root_base = root_base, rp_vpn1 = vpn1, rp_vpn0 = vpn0,
                 rp_page_off = page_off, rp_l1_addr = l1_addr, rp_l1_pte = l1_pte, rp_l1_read = l1_read,
                 rp_l1_ok = l1_ok, rp_l1_leaf = l1_is_leaf, rp_l0_base = 0, rp_l0_addr = 0, rp_l0_pte = 0,
                 rp_l0_read = False, rp_l0_ok = False, rp_l0_leaf = False, rp_resolved = None\<rparr>
        in if l1_is_leaf then
             (let ppn1 = drop_bit 20 l1_pte AND 0xfff in
              Some (r\<lparr>rp_resolved := Some ((push_bit 22 ppn1 OR push_bit 12 vpn0) OR page_off)\<rparr>))
           else if l1_ok then
             (let l0_base = push_bit 12 (drop_bit 10 l1_pte AND 0x003fffff);
                  l0_addr = l0_base + push_bit 2 vpn0;
                  l0 = read_pte l0_addr m; l0_read = fst l0; l0_pte = snd l0;
                  l0_ok = (l0_read \<and> pte_valid l0_pte);
                  l0_is_leaf = (l0_ok \<and> pte_leaf l0_pte);
                  r = r\<lparr>rp_l0_base := l0_base, rp_l0_addr := l0_addr, rp_l0_pte := l0_pte,
                        rp_l0_read := l0_read, rp_l0_ok := l0_ok, rp_l0_leaf := l0_is_leaf\<rparr>
              in if l0_is_leaf then
                   (let ppn = drop_bit 10 l0_pte AND 0x003fffff in
                    Some (r\<lparr>rp_resolved := Some (push_bit 12 ppn OR page_off)\<rparr>))
                 else Some r)
           else Some r))"

section \<open>The translation of the privileged architecture\<close>

text \<open>
  The walk of the instruction set's manual, over the levels: the entry at \<open>a + vpn[i] * 4\<close>; an
  invalid one, or one that may be written but not read, ends the walk; one with R or X set is a
  leaf, at level 1 with its low ten page-number bits taken from the address and a fault if they
  are not zero in the entry (a misaligned superpage); any other names the table of the next
  level. Physical addresses are cut to 32 bits.
\<close>

definition vpn :: "nat \<Rightarrow> u32 \<Rightarrow> u32" where
  "vpn i va = take_bit 10 (drop_bit (12 + 10 * i) va)"

fun sv32_translate :: "nat \<Rightarrow> u32 \<Rightarrow> u32 \<Rightarrow> unified_mem \<Rightarrow> u32 option" where
  "sv32_translate levels a va m =
    (case levels of 0 \<Rightarrow> None | Suc i \<Rightarrow>
      (case read_phys_u32 (ucast (a + vpn i va * 4)) m of
         None \<Rightarrow> None
       | Some pte \<Rightarrow>
         if \<not> bit pte 0 \<or> (\<not> bit pte 1 \<and> bit pte 2) then None
         else if bit pte 1 \<or> bit pte 3 then
           if take_bit (10 * i) (drop_bit 10 pte) \<noteq> 0 then None
           else Some (push_bit (12 + 10 * i) (drop_bit (10 + 10 * i) pte) OR take_bit (12 + 10 * i) va)
         else sv32_translate i (push_bit 12 (drop_bit 10 pte)) va m))"

declare sv32_translate.simps [simp del]

lemma and_masks: "x AND 0x3ff = take_bit 10 x" "x AND 0xfff = take_bit 12 x" "x AND 0x003fffff = take_bit 22 x" for x :: u32
proof -
  have "(0x3ff :: u32) = mask 10" "(0xfff :: u32) = mask 12" "(0x003fffff :: u32) = mask 22"
    by (simp_all add: mask_eq_exp_minus_1)
  then show "x AND 0x3ff = take_bit 10 x" "x AND 0xfff = take_bit 12 x" "x AND 0x003fffff = take_bit 22 x"
    by (simp_all only: take_bit_eq_mask)
qed

lemma test_exp: "x AND 2 ^ n \<noteq> 0 \<longleftrightarrow> bit x n" for x :: u32
  by (simp add: and_exp_eq_0_iff_not_bit)

lemma or_zero: "x OR y = 0 \<longleftrightarrow> x = 0 \<and> y = 0" for x y :: u32
  by (metis or.right_neutral word_bw_same(2) or_eq_0_iff)

lemma test_bits:
  "pte AND 0x1 \<noteq> 0 \<longleftrightarrow> bit pte 0" "pte AND 0x2 \<noteq> 0 \<longleftrightarrow> bit pte 1" "pte AND 0x4 \<noteq> 0 \<longleftrightarrow> bit pte 2"
  "pte AND 0xa \<noteq> 0 \<longleftrightarrow> bit pte 1 \<or> bit pte 3" for pte :: u32
proof -
  show "pte AND 0x1 \<noteq> 0 \<longleftrightarrow> bit pte 0" "pte AND 0x2 \<noteq> 0 \<longleftrightarrow> bit pte 1" "pte AND 0x4 \<noteq> 0 \<longleftrightarrow> bit pte 2"
    using test_exp [of pte 0] test_exp [of pte 1] test_exp [of pte 2] by simp_all
  have "(0xa :: u32) = 2 ^ 1 OR 2 ^ 3" by simp
  then have "pte AND 0xa = (pte AND 2 ^ 1) OR (pte AND 2 ^ 3)" by (simp only: bit.conj_disj_distrib)
  then show "pte AND 0xa \<noteq> 0 \<longleftrightarrow> bit pte 1 \<or> bit pte 3"
    using test_exp [of pte 1] test_exp [of pte 3] by (simp only: or_zero) blast
qed

lemma pte_valid_iff: "pte_valid pte \<longleftrightarrow> bit pte 0 \<and> \<not> (bit pte 2 \<and> \<not> bit pte 1)"
  unfolding pte_valid_def Let_def test_bits ..

lemma pte_leaf_iff: "pte_leaf pte \<longleftrightarrow> bit pte 1 \<or> bit pte 3"
  unfolding pte_leaf_def test_bits ..

lemma walk_words:
  "drop_bit 22 va = vpn 1 va" "take_bit 10 (drop_bit 12 va) = vpn 0 va" "push_bit 2 x = x * 4"
  "push_bit 12 (take_bit 22 (drop_bit 10 x)) = push_bit 12 (drop_bit 10 x)"
  "(push_bit 22 (take_bit 12 (drop_bit 20 x)) OR push_bit 12 (vpn 0 va)) OR take_bit 12 va
     = push_bit 22 (drop_bit 20 x) OR take_bit 22 va"
  for va x :: u32
proof -
  show "drop_bit 22 va = vpn 1 va"
    by (rule bit_word_eqI) (auto simp: vpn_def bit_take_bit_iff bit_drop_bit_eq dest: bit_imp_le_length)
  show "take_bit 10 (drop_bit 12 va) = vpn 0 va" by (simp add: vpn_def)
  show "push_bit 2 x = x * 4" by (simp add: push_bit_eq_mult)
  show "push_bit 12 (take_bit 22 (drop_bit 10 x)) = push_bit 12 (drop_bit 10 x)"
    by (rule bit_word_eqI) (auto simp: bit_take_bit_iff bit_drop_bit_eq bit_push_bit_iff dest: bit_imp_le_length)
  show "(push_bit 22 (take_bit 12 (drop_bit 20 x)) OR push_bit 12 (vpn 0 va)) OR take_bit 12 va
     = push_bit 22 (drop_bit 20 x) OR take_bit 22 va"
    by (rule bit_word_eqI)
      (auto simp: vpn_def bit_take_bit_iff bit_drop_bit_eq bit_push_bit_iff bit_or_iff dest: bit_imp_le_length)
qed

lemma translate_1: "sv32_translate 2 a va m = (case read_phys_u32 (ucast (a + vpn 1 va * 4)) m of
      None \<Rightarrow> None
    | Some pte \<Rightarrow> if \<not> pte_valid pte then None
        else if pte_leaf pte then
          if take_bit 10 (drop_bit 10 pte) \<noteq> 0 then None
          else Some (push_bit 22 (drop_bit 20 pte) OR take_bit 22 va)
        else sv32_translate 1 (push_bit 12 (drop_bit 10 pte)) va m)"
  by (subst sv32_translate.simps)
    (simp add: pte_valid_iff pte_leaf_iff numeral_2_eq_2 split: option.split)

lemma translate_0: "sv32_translate 1 a va m = (case read_phys_u32 (ucast (a + vpn 0 va * 4)) m of
      None \<Rightarrow> None
    | Some pte \<Rightarrow> if \<not> pte_valid pte then None
        else if pte_leaf pte then Some (push_bit 12 (drop_bit 10 pte) OR take_bit 12 va) else None)"
  by (subst sv32_translate.simps)
    (simp add: pte_valid_iff pte_leaf_iff sv32_translate.simps [of 0] split: option.split)

text \<open>C14: For a fault of one of the three kinds the report resolves the address of the
  architecture's walk, and resolves none exactly when that walk faults, with one exception: it
  also resolves misaligned superpages.\<close>

theorem fault_walk_correct:
  assumes "cause \<in> {12, 13, 15}"
  shows "\<exists>r. emit_sv32_fault_walk cause satp va m = Some r
    \<and> sv32_translate 2 (push_bit 12 (take_bit 22 satp)) va m
      = (if rp_l1_leaf r \<and> take_bit 10 (drop_bit 10 (rp_l1_pte r)) \<noteq> 0 then None else rp_resolved r)"
proof -
  have "\<not> (cause \<noteq> 12 \<and> cause \<noteq> 13 \<and> cause \<noteq> 15)" using assms by auto
  then show ?thesis
    unfolding emit_sv32_fault_walk_def Let_def and_masks walk_words translate_1 translate_0 read_pte_def if_False
    by (auto split: option.split)
qed

definition superpage_mem :: unified_mem where
  "superpage_mem = UnifiedMem_init\<lparr>pmem_words := (\<lambda>_. 0x200000cf)\<rparr>"

lemma superpage_read: "read_phys_u32 0x80000000 superpage_mem = Some 0x200000cf"
proof -
  have u: "[0..<4] = [0, 1, 2, 3 :: nat]" by (simp add: upt_rec)
  have "read_phys_byte 0x80000000 superpage_mem = Some 0xcf" "read_phys_byte 0x80000001 superpage_mem = Some 0"
    "read_phys_byte 0x80000002 superpage_mem = Some 0" "read_phys_byte 0x80000003 superpage_mem = Some 0x20"
    by (simp_all add: read_phys_byte_def in_pmem_def superpage_mem_def byte_shift_def align4_def pmem_index_def Let_def)
  then show ?thesis unfolding read_phys_u32_def u by simp
qed

lemma fault_walk_witness:
  "sv32_translate 2 (push_bit 12 (take_bit 22 0x80080000)) 0x1234 superpage_mem = Some 0x80001234
   \<and> (\<exists>r. emit_sv32_fault_walk 13 0x80080000 0x1234 superpage_mem = Some r \<and> rp_resolved r = Some 0x80001234)"
proof -
  have t: "sv32_translate 2 (push_bit 12 (take_bit 22 0x80080000)) 0x1234 superpage_mem = Some 0x80001234"
    by (simp add: translate_1 vpn_def superpage_read pte_valid_iff pte_leaf_iff)
  show ?thesis
    using t fault_walk_correct [of 13 "0x80080000" "0x1234" superpage_mem] unfolding t
    by (auto split: if_splits)
qed

end
