(* ===== verification/Rv_Machine.thy ===== *)
theory Rv_Machine
  imports Prelude
begin

text \<open>
  The machine on which the minimal RISC-V tool chain (\<open>abstract-machine/tools/rvmini\<close>) runs its
  programs. The processor has eight instructions (add, addi, lui, lw, lbu, sw, sb, jalr); the
  assembler macros of \<open>inst-replace.h\<close> build the other instructions of RV32I from them
  (theory Rv_Macros). This theory holds the registers and the memory, the eight instructions, and
  the tables that the macros read, with the program \<open>gen-lut.c\<close> that generates most of them.
  The rest is a way of reasoning on runs: the 28 bytes below the stack pointer, in which every
  macro keeps its temporary values, are split off from the memory.
\<close>

section \<open>Bytes and words\<close>

definition byte_of :: "nat \<Rightarrow> u32 \<Rightarrow> u8" where
  "byte_of n w = ucast (drop_bit (8 * n) w)"

definition cat4 :: "u8 \<Rightarrow> u8 \<Rightarrow> u8 \<Rightarrow> u8 \<Rightarrow> u32" where
  "cat4 b0 b1 b2 b3 = ucast b0 OR push_bit 8 (ucast b1) OR push_bit 16 (ucast b2) OR push_bit 24 (ucast b3)"

lemma bit_byte_of: "bit (byte_of k w) n \<longleftrightarrow> n < 8 \<and> bit w (8 * k + n)"
  by (auto simp: byte_of_def bit_simps ac_simps dest: bit_imp_le_length)

lemma bit_cat4: "bit (cat4 b0 b1 b2 b3) n \<longleftrightarrow>
    (if n < 8 then bit b0 n else if n < 16 then bit b1 (n - 8)
     else if n < 24 then bit b2 (n - 16) else bit b3 (n - 24))"
  by (auto simp: cat4_def bit_simps dest: bit_imp_le_length)

lemma cat4_bytes [simp]: "cat4 (byte_of 0 w) (byte_of (Suc 0) w) (byte_of 2 w) (byte_of 3 w) = w"
  by (rule bit_word_eqI) (auto simp: bit_cat4 bit_byte_of dest: bit_imp_le_length)

lemma byte_cat4 [simp]: "byte_of 0 (cat4 b0 b1 b2 b3) = b0" "byte_of (Suc 0) (cat4 b0 b1 b2 b3) = b1"
    "byte_of 2 (cat4 b0 b1 b2 b3) = b2" "byte_of 3 (cat4 b0 b1 b2 b3) = b3"
  by (rule bit_word_eqI; auto simp: bit_cat4 bit_byte_of dest: bit_imp_le_length)+

lemma byte_ucast [simp]: "byte_of 0 (ucast b) = b"
  by (rule bit_word_eqI) (auto simp: bit_byte_of bit_simps)

lemma word_cases4: obtains b0 b1 b2 b3 where "w = cat4 b0 b1 b2 b3"
  using cat4_bytes [of w] by metis

section \<open>The processor\<close>

type_synonym mem = "u32 \<Rightarrow> u8"
type_synonym operand = "int \<times> nat"


datatype instr =
    ADD nat nat nat | ADDI nat nat int | LUI nat u32
  | LW nat operand | LBU nat operand | SW nat operand | SB nat operand
  | JALR nat operand

record mini =
  xreg :: "nat \<Rightarrow> u32"
  xmem :: mem

abbreviation (input) x0 :: nat where "x0 \<equiv> 0"
abbreviation (input) ra :: nat where "ra \<equiv> 1"
abbreviation (input) sp :: nat where "sp \<equiv> 2"
abbreviation (input) gp :: nat where "gp \<equiv> 3"
abbreviation (input) tp :: nat where "tp \<equiv> 4"
abbreviation (input) s0 :: nat where "s0 \<equiv> 8"
abbreviation (input) s1 :: nat where "s1 \<equiv> 9"

definition rget :: "(nat \<Rightarrow> u32) \<Rightarrow> nat \<Rightarrow> u32" where
  "rget R r = (if r = 0 then 0 else R r)"

definition rset :: "nat \<Rightarrow> u32 \<Rightarrow> (nat \<Rightarrow> u32) \<Rightarrow> nat \<Rightarrow> u32" where
  "rset r v R = (if r = 0 then R else R(r := v))"

definition ea :: "(nat \<Rightarrow> u32) \<Rightarrow> operand \<Rightarrow> u32" where
  "ea R x = rget R (snd x) + word_of_int (fst x)"

definition load32 :: "mem \<Rightarrow> u32 \<Rightarrow> u32" where
  "load32 M a = cat4 (M a) (M (a + 1)) (M (a + 2)) (M (a + 3))"

definition store32 :: "u32 \<Rightarrow> u32 \<Rightarrow> mem \<Rightarrow> mem" where
  "store32 a v M = M(a := byte_of 0 v, a + 1 := byte_of 1 v, a + 2 := byte_of 2 v, a + 3 := byte_of 3 v)"

fun exec :: "instr \<Rightarrow> mini \<Rightarrow> mini" where
  "exec (ADD d a b) s = s\<lparr>xreg := rset d (rget (xreg s) a + rget (xreg s) b) (xreg s)\<rparr>"
| "exec (ADDI d a i) s = s\<lparr>xreg := rset d (rget (xreg s) a + word_of_int i) (xreg s)\<rparr>"
| "exec (LUI d v) s = s\<lparr>xreg := rset d v (xreg s)\<rparr>"
| "exec (LW d x) s = s\<lparr>xreg := rset d (load32 (xmem s) (ea (xreg s) x)) (xreg s)\<rparr>"
| "exec (LBU d x) s = s\<lparr>xreg := rset d (ucast (xmem s (ea (xreg s) x))) (xreg s)\<rparr>"
| "exec (SW a x) s = s\<lparr>xmem := store32 (ea (xreg s) x) (rget (xreg s) a) (xmem s)\<rparr>"
| "exec (SB a x) s = s\<lparr>xmem := (xmem s)(ea (xreg s) x := byte_of 0 (rget (xreg s) a))\<rparr>"
| "exec (JALR d x) s = s"

declare exec.simps [simp del]

text \<open>A run of a piece of code at an address ends behind it or at its first jump.\<close>

fun run_code :: "u32 \<Rightarrow> instr list \<Rightarrow> mini \<Rightarrow> u32 \<times> mini" where
  "run_code pc [] s = (pc, s)"
| "run_code pc (i # is) s = (case i of
     JALR d x \<Rightarrow> (ea (xreg s) x AND NOT 1, s\<lparr>xreg := rset d (pc + 4) (xreg s)\<rparr>)
   | _ \<Rightarrow> run_code (pc + 4) is (exec i s))"

definition is_jump :: "instr \<Rightarrow> bool" where
  "is_jump i = (case i of JALR d x \<Rightarrow> True | _ \<Rightarrow> False)"

lemma is_jump_simps [simp]: "\<not> is_jump (ADD d a b)" "\<not> is_jump (ADDI d a i)" "\<not> is_jump (LUI d v)"
    "\<not> is_jump (LW d x)" "\<not> is_jump (LBU d x)" "\<not> is_jump (SW d x)" "\<not> is_jump (SB d x)" "is_jump (JALR d x)"
  by (simp_all add: is_jump_def)

lemma run_code_append:
  "list_all (\<lambda>i. \<not> is_jump i) c \<Longrightarrow> run_code pc (c @ c') s = run_code (pc + 4 * of_nat (length c)) c' (fold exec c s)"
  by (induction c arbitrary: pc s) (auto simp: is_jump_def algebra_simps split: instr.splits)

lemma run_code_straight:
  "list_all (\<lambda>i. \<not> is_jump i) c \<Longrightarrow> run_code pc c s = (pc + 4 * of_nat (length c), fold exec c s)"
  using run_code_append [of c pc "[]" s] by simp

lemma rget_rset [simp]: "rget (rset d v R) r = (if r = d \<and> d \<noteq> 0 then v else rget R r)"
  by (simp add: rget_def rset_def)

lemma rget_upd [simp]: "rget (R(d := v)) r = (if r = d \<and> d \<noteq> 0 then v else rget R r)"
  by (simp add: rget_def)

lemma rget_0 [simp]: "rget R 0 = 0"
  by (simp add: rget_def)

lemma rset_numeral: "rset (numeral n) v R = R(numeral n := v)"
  by (simp add: rset_def)

lemma rset_0 [simp]: "rset 0 v R = R"
  by (simp add: rset_def)

lemma ea_zero: "ea R (0, r) = rget R r"
  by (simp add: ea_def)

section \<open>The area below the stack pointer\<close>

definition overlay :: "u32 \<Rightarrow> (nat \<Rightarrow> u8) \<Rightarrow> mem \<Rightarrow> mem" where
  "overlay p f m = (\<lambda>a. if unat (p - a) \<in> {1..28} then f (unat (p - a)) else m a)"

definition get32 :: "nat \<Rightarrow> (nat \<Rightarrow> u8) \<Rightarrow> u32" where
  "get32 k f = cat4 (f k) (f (k - 1)) (f (k - 2)) (f (k - 3))"

definition put32 :: "nat \<Rightarrow> u32 \<Rightarrow> (nat \<Rightarrow> u8) \<Rightarrow> nat \<Rightarrow> u8" where
  "put32 k v f = f(k := byte_of 0 v, k - 1 := byte_of 1 v, k - 2 := byte_of 2 v, k - 3 := byte_of 3 v)"

lemma overlay_self: "overlay p (\<lambda>k. m (p - of_nat k)) m = m"
  by (rule ext) (simp add: overlay_def)

lemma scratch_offset:
  assumes "- 28 \<le> i" "i \<le> - 1"
  shows "unat (p - (p + word_of_int i) :: u32) = nat (- i)"
proof -
  have "p - (p + word_of_int i) = (of_nat (nat (- i)) :: u32)"
    using assms by (simp add: of_nat_nat)
  moreover have "nat (- i) < 2 ^ 32" using assms by simp
  ultimately show ?thesis by (simp add: unat_of_nat)
qed

lemma scratch_read: "- 28 \<le> i \<Longrightarrow> i \<le> - 1 \<Longrightarrow> overlay p f m (p + word_of_int i) = f (nat (- i))"
  unfolding overlay_def by (simp only: scratch_offset) (simp add: nat_le_iff le_nat_iff)

lemma scratch_write:
  assumes "- 28 \<le> i" "i \<le> - 1"
  shows "(overlay p f m)(p + word_of_int i := v) = overlay p (f(nat (- i) := v)) m"
proof (rule ext)
  fix a
  have "a = p + word_of_int i \<longleftrightarrow> unat (p - a) = nat (- i)"
  proof
    assume "unat (p - a) = nat (- i)"
    then have "of_nat (unat (p - a)) = (of_nat (nat (- i)) :: u32)" by (rule arg_cong)
    then have "p - a = of_nat (nat (- i))" by simp
    then have "p - a = - word_of_int i" using assms by (simp add: of_nat_nat)
    then show "a = p + word_of_int i" by (simp add: algebra_simps)
  qed (simp only: scratch_offset [OF assms])
  then show "((overlay p f m)(p + word_of_int i := v)) a = overlay p (f(nat (- i) := v)) m a"
    using assms by (auto simp: overlay_def nat_le_iff)
qed

lemma word_of_int_plus: "p + word_of_int i + 1 = p + word_of_int (i + 1)"
    "p + word_of_int i + 2 = p + word_of_int (i + 2)" "p + word_of_int i + 3 = p + word_of_int (i + 3)"
  for p :: u32
  by simp_all

lemma nat_uminus: "nat (- (i + 1)) = nat (- i) - 1" "nat (- (i + 2)) = nat (- i) - 2" "nat (- (i + 3)) = nat (- i) - 3"
  by simp_all

lemma scratch_load32: "- 28 \<le> i \<Longrightarrow> i \<le> - 4 \<Longrightarrow> load32 (overlay p f m) (p + word_of_int i) = get32 (nat (- i)) f"
  unfolding load32_def word_of_int_plus get32_def by (simp only: scratch_read nat_uminus)

lemma scratch_store32:
  "- 28 \<le> i \<Longrightarrow> i \<le> - 4 \<Longrightarrow> store32 (p + word_of_int i) v (overlay p f m) = overlay p (put32 (nat (- i)) v f) m"
  unfolding store32_def word_of_int_plus put32_def by (simp only: scratch_write nat_uminus)

named_theorems rv_step \<open>one step of a run, the scratch area split off\<close>

lemma scratch_ops [rv_step]:
  assumes "R 2 = p"
  shows "- 28 \<le> i \<Longrightarrow> i \<le> - 4 \<Longrightarrow> load32 (overlay p f m) (ea R (i, 2)) = get32 (nat (- i)) f"
    "- 28 \<le> i \<Longrightarrow> i \<le> - 1 \<Longrightarrow> overlay p f m (ea R (i, 2)) = f (nat (- i))"
    "- 28 \<le> i \<Longrightarrow> i \<le> - 4 \<Longrightarrow> store32 (ea R (i, 2)) v (overlay p f m) = overlay p (put32 (nat (- i)) v f) m"
    "- 28 \<le> i \<Longrightarrow> i \<le> - 1 \<Longrightarrow> (overlay p f m)(ea R (i, 2) := b) = overlay p (f(nat (- i) := b)) m"
  using assms by (simp_all add: ea_def rget_def scratch_load32 scratch_read scratch_store32 scratch_write)

lemma put32_at: "4 \<le> j \<Longrightarrow> put32 j v f k = (if k = j then byte_of 0 v else if k = j - 1 then byte_of 1 v
    else if k = j - 2 then byte_of 2 v else if k = j - 3 then byte_of 3 v else f k)"
  by (auto simp: put32_def)

lemma put32_outside: "q < j - 3 \<or> j < q \<Longrightarrow> put32 j v f q = f q"
  by (auto simp: put32_def)

lemma get_put32: "4 \<le> k \<Longrightarrow> get32 k (put32 k v f) = v"
  using cat4_bytes [of v] by (auto simp: get32_def put32_def dest!: le_Suc_ex)

lemma get_put32_other:
  assumes "4 \<le> k" "4 \<le> j" "k + 4 \<le> j \<or> j + 4 \<le> k"
  shows "get32 k (put32 j v f) = get32 k f"
proof -
  have "put32 j v f (k - i) = f (k - i)" if "i \<le> 3" for i
    using assms that by (intro put32_outside) arith
  from this [of 0] this [of 1] this [of 2] this [of 3] show ?thesis by (simp add: get32_def)
qed

lemma get_upd_other:
  assumes "4 \<le> k" "k < j \<or> j + 4 \<le> k"
  shows "get32 k (f(j := b)) = get32 k f"
proof -
  have "k - i \<noteq> j" if "i \<le> 3" for i using assms that by arith
  from this [of 0] this [of 1] this [of 2] this [of 3] show ?thesis by (simp add: get32_def)
qed

lemmas scratch_values [rv_step] = get_put32 get_put32_other get_upd_other put32_at

section \<open>The tables\<close>

text \<open>\<open>gen-lut.c\<close> writes the tables row by row, each entry with its low byte first.\<close>

definition entry_bytes :: "nat \<Rightarrow> u32 \<Rightarrow> u8 list" where
  "entry_bytes n res = List.map (\<lambda>b. byte_of b res) [0..<n]"

definition gen_table :: "nat \<Rightarrow> nat \<Rightarrow> nat \<Rightarrow> (u32 \<Rightarrow> u32 \<Rightarrow> u32) \<Rightarrow> u8 list" where
  "gen_table row col entry_size expr =
     concat (List.map (\<lambda>j. concat (List.map (\<lambda>i. entry_bytes entry_size (expr (of_nat j) (of_nat i))) [0..<col])) [0..<row])"

definition lut_bin :: "u8 list" where
  "lut_bin = gen_table 256 256 1 (\<lambda>j i. j AND i)
    @ gen_table 256 256 1 (\<lambda>j i. j OR i)
    @ gen_table 256 256 1 (\<lambda>j i. j XOR i)
    @ gen_table 32 256 4 (\<lambda>j i. push_bit (unat j) i)
    @ gen_table 32 256 4 (\<lambda>j i. drop_bit (unat j) (push_bit 24 i))
    @ gen_table 32 256 4 (\<lambda>j i. signed_drop_bit (unat j) (push_bit 24 i))"

definition same_result_table :: "u8 list" where
  "same_result_table = [1, 0, 0, 0, 0, 0, 0, 0]"

definition check_8bit_0_table :: "u8 list" where
  "check_8bit_0_table = 0 # replicate 255 1"

definition slt1_table :: "u8 list" where "slt1_table = [0, 1, 0, 0, 1, 1, 0, 1]"
definition sltu1_table :: "u8 list" where "sltu1_table = [0, 1, 1, 1, 0, 0, 0, 1]"
definition or1_table :: "u8 list" where "or1_table = [0, 1, 1, 1]"

text \<open>The addresses of the symbols. The linker chooses them; the tables of \<open>gen-lut.c\<close> follow one
  another.\<close>

record symbols =
  check_same_array :: u32
  same_result_addr :: u32
  check_8bit_0_addr :: u32
  slt1_addr :: u32
  sltu1_addr :: u32
  or1_addr :: u32
  logic_shift_table :: u32

definition and8_table :: "symbols \<Rightarrow> u32" where "and8_table y = logic_shift_table y"
definition or8_table :: "symbols \<Rightarrow> u32" where "or8_table y = and8_table y + 256 * 256"
definition xor8_table :: "symbols \<Rightarrow> u32" where "xor8_table y = or8_table y + 256 * 256"
definition sll8_table :: "symbols \<Rightarrow> u32" where "sll8_table y = xor8_table y + 256 * 256"
definition srl8_table :: "symbols \<Rightarrow> u32" where "srl8_table y = sll8_table y + 32 * 256 * 4"
definition sra8_table :: "symbols \<Rightarrow> u32" where "sra8_table y = srl8_table y + 32 * 256 * 4"

definition the_tables :: "symbols \<Rightarrow> (u32 \<times> u8 list) list" where
  "the_tables y = [(same_result_addr y, same_result_table), (check_8bit_0_addr y, check_8bit_0_table),
     (slt1_addr y, slt1_table), (sltu1_addr y, sltu1_table), (or1_addr y, or1_table), (logic_shift_table y, lut_bin)]"

text \<open>What the macros rely on: the tables are in memory, and neither they nor the array that
  \<open>seq\<close> writes overlap the area below the stack pointer or one another.\<close>

definition below_sp :: "u32 \<Rightarrow> u32 \<Rightarrow> bool" where
  "below_sp p a \<longleftrightarrow> unat (p - a) \<in> {1..28}"

definition in_check :: "symbols \<Rightarrow> u32 \<Rightarrow> bool" where
  "in_check y a \<longleftrightarrow> unat (a - check_same_array y) < 256"

definition table_ok :: "symbols \<Rightarrow> u32 \<Rightarrow> mem \<Rightarrow> u32 \<Rightarrow> u8 list \<Rightarrow> bool" where
  "table_ok y p M t xs \<longleftrightarrow> list_all (\<lambda>i. M (t + of_nat i) = xs ! i
     \<and> \<not> below_sp p (t + of_nat i) \<and> \<not> in_check y (t + of_nat i)) [0..<length xs]"

definition tables_ok :: "symbols \<Rightarrow> u32 \<Rightarrow> mem \<Rightarrow> bool" where
  "tables_ok y p M \<longleftrightarrow> list_all (\<lambda>(t, xs). table_ok y p M t xs) (the_tables y)
     \<and> list_all (\<lambda>i. \<not> below_sp p (check_same_array y + of_nat i)) [0..<256]"

lemma table_read:
  assumes "table_ok y p m t xs" "i < length xs"
  shows "overlay p f m (t + of_nat i) = xs ! i"
  using assms by (auto simp: table_ok_def list_all_iff overlay_def below_sp_def)

subsection \<open>The entries of the generated tables\<close>

lemma concat_length:
  assumes "\<And>i. i < n \<Longrightarrow> length (f i) = k"
  shows "length (concat (List.map f [0..<n])) = n * k"
proof -
  have "List.map (length \<circ> f) [0..<n] = replicate n k"
    using assms by (intro nth_equalityI) simp_all
  then show ?thesis by (simp add: length_concat sum_list_replicate)
qed

lemma block_below: "i < n \<Longrightarrow> b < k \<Longrightarrow> i * k + b < n * (k :: nat)"
proof -
  assume "i < n" "b < k"
  then have "i * k + b < Suc i * k" by simp
  also have "\<dots> \<le> n * k" using \<open>i < n\<close> by (intro mult_le_mono1 Suc_leI)
  finally show ?thesis .
qed

lemma concat_nth:
  assumes "\<And>i. i < n \<Longrightarrow> length (f i) = k" "i < n" "b < k"
  shows "concat (List.map f [0..<n]) ! (i * k + b) = f i ! b"
  using assms
proof (induction n)
  case (Suc n)
  have l: "length (concat (List.map f [0..<n])) = n * k"
    using Suc.prems(1) by (intro concat_length) simp
  show ?case
  proof (cases "i = n")
    case True
    then show ?thesis using l by (simp add: nth_append del: length_concat)
  next
    case False
    with Suc.prems have "i * k + b < n * k" by (intro block_below) simp_all
    with False Suc show ?thesis using l by (simp add: nth_append del: length_concat)
  qed
qed simp

lemma entry_length [simp]: "length (entry_bytes n r) = n"
  by (simp add: entry_bytes_def)

lemma gen_table_length [simp]: "length (gen_table row col sz e) = row * (col * sz)"
  unfolding gen_table_def by (intro concat_length) simp

lemma gen_table_nth:
  assumes "j < row" "i < col" "b < sz"
  shows "gen_table row col sz e ! (j * (col * sz) + (i * sz + b)) = byte_of b (e (of_nat j) (of_nat i))"
proof -
  have "i * sz + b < col * sz" using assms by (intro block_below)
  then show ?thesis
    unfolding gen_table_def using assms
    by (subst concat_nth [where k = "col * sz"])
      (simp_all add: concat_length concat_nth [where k = sz] entry_bytes_def)
qed

lemma lut_length [simp]: "length lut_bin = 294912"
  by (simp add: lut_bin_def)

lemma lut_entry8:
  assumes "j < 256" "i < 256"
  shows "lut_bin ! (j * 256 + i) = byte_of 0 (of_nat j AND of_nat i)"
    "lut_bin ! (65536 + (j * 256 + i)) = byte_of 0 (of_nat j OR of_nat i)"
    "lut_bin ! (131072 + (j * 256 + i)) = byte_of 0 (of_nat j XOR of_nat i)"
  using assms gen_table_nth [of j 256 i 256 0 1]
  by (simp_all add: lut_bin_def nth_append)

lemma lut_entry32:
  assumes "j < 32" "i < 256" "b < 4"
  shows "lut_bin ! (196608 + (j * 1024 + (i * 4 + b))) = byte_of b (push_bit j (of_nat i))"
    "lut_bin ! (229376 + (j * 1024 + (i * 4 + b))) = byte_of b (drop_bit j (push_bit 24 (of_nat i)))"
    "lut_bin ! (262144 + (j * 1024 + (i * 4 + b))) = byte_of b (signed_drop_bit j (push_bit 24 (of_nat i)))"
  using assms gen_table_nth [of j 32 i 256 b 4]
  by (simp_all add: lut_bin_def nth_append unat_of_nat)

subsection \<open>Reading the tables\<close>

lemma table_lengths: "length same_result_table = 8" "length check_8bit_0_table = 256" "length slt1_table = 8"
    "length sltu1_table = 8" "length or1_table = 4"
  by (simp_all add: same_result_table_def check_8bit_0_table_def slt1_table_def sltu1_table_def or1_table_def)

lemma table_reads:
  assumes "tables_ok y p m"
  shows "k < 294912 \<Longrightarrow> overlay p f m (logic_shift_table y + of_nat k) = lut_bin ! k"
    "k < 8 \<Longrightarrow> overlay p f m (same_result_addr y + of_nat k) = same_result_table ! k"
    "k < 256 \<Longrightarrow> overlay p f m (check_8bit_0_addr y + of_nat k) = check_8bit_0_table ! k"
    "k < 8 \<Longrightarrow> overlay p f m (slt1_addr y + of_nat k) = slt1_table ! k"
    "k < 8 \<Longrightarrow> overlay p f m (sltu1_addr y + of_nat k) = sltu1_table ! k"
    "k < 4 \<Longrightarrow> overlay p f m (or1_addr y + of_nat k) = or1_table ! k"
proof -
  have "table_ok y p m t xs" if "(t, xs) \<in> set (the_tables y)" for t xs
    using assms that unfolding tables_ok_def list_all_iff by blast
  then have r: "overlay p f m (t + of_nat k) = xs ! k" if "(t, xs) \<in> set (the_tables y)" "k < length xs" for t xs
    using that table_read by blast
  show "k < 294912 \<Longrightarrow> overlay p f m (logic_shift_table y + of_nat k) = lut_bin ! k"
    "k < 8 \<Longrightarrow> overlay p f m (same_result_addr y + of_nat k) = same_result_table ! k"
    "k < 256 \<Longrightarrow> overlay p f m (check_8bit_0_addr y + of_nat k) = check_8bit_0_table ! k"
    "k < 8 \<Longrightarrow> overlay p f m (slt1_addr y + of_nat k) = slt1_table ! k"
    "k < 8 \<Longrightarrow> overlay p f m (sltu1_addr y + of_nat k) = sltu1_table ! k"
    "k < 4 \<Longrightarrow> overlay p f m (or1_addr y + of_nat k) = or1_table ! k"
    by (rule r; simp add: the_tables_def table_lengths)+
qed

lemma of_nat_byte: "of_nat (unat b) = (ucast (b :: u8) :: u32)"
  by simp

lemma cat4_index: "cat4 b a 0 0 = of_nat (unat a * 256 + unat b)"
proof -
  have "(ucast b :: u32) AND push_bit 8 (ucast a) = 0"
    by (rule bit_word_eqI) (auto simp: bit_simps dest: bit_imp_le_length)
  from word_or_add [OF this] show ?thesis by (simp add: cat4_def push_bit_eq_mult algebra_simps)
qed

lemma table_addresses: "and8_table y + of_nat k = logic_shift_table y + of_nat k"
    "or8_table y + of_nat k = logic_shift_table y + of_nat (65536 + k)"
    "xor8_table y + of_nat k = logic_shift_table y + of_nat (131072 + k)"
    "sll8_table y + of_nat k = logic_shift_table y + of_nat (196608 + k)"
    "srl8_table y + of_nat k = logic_shift_table y + of_nat (229376 + k)"
    "sra8_table y + of_nat k = logic_shift_table y + of_nat (262144 + k)"
  by (simp_all add: sra8_table_def srl8_table_def sll8_table_def xor8_table_def or8_table_def and8_table_def)

lemma byte_index: "unat a * 256 + unat b < 65536" for a b :: u8
  using unat_lt_u8 [of a] unat_lt_u8 [of b] by simp

lemma byte_ops: "byte_of 0 (ucast a AND ucast b) = a AND b" "byte_of 0 (ucast a OR ucast b) = a OR b"
    "byte_of 0 (ucast a XOR ucast b) = a XOR b"
  by (rule bit_word_eqI; auto simp: bit_byte_of bit_simps)+

lemma logic_read:
  assumes "tables_ok y p m"
  shows "overlay p f m (and8_table y + cat4 b a 0 0) = a AND b"
    "overlay p f m (or8_table y + cat4 b a 0 0) = a OR b"
    "overlay p f m (xor8_table y + cat4 b a 0 0) = a XOR b"
proof -
  define k where "k = unat a * 256 + unat b"
  have k: "k < 65536" by (simp add: k_def byte_index)
  have "lut_bin ! k = a AND b" "lut_bin ! (65536 + k) = a OR b" "lut_bin ! (131072 + k) = a XOR b"
    unfolding k_def using lut_entry8 [of "unat a" "unat b"] unat_lt_u8 [of a] unat_lt_u8 [of b]
    by (simp_all add: byte_ops)
  moreover have c: "cat4 b a 0 0 = of_nat k" by (simp add: cat4_index k_def)
  ultimately show "overlay p f m (and8_table y + cat4 b a 0 0) = a AND b"
      "overlay p f m (or8_table y + cat4 b a 0 0) = a OR b"
      "overlay p f m (xor8_table y + cat4 b a 0 0) = a XOR b"
    unfolding c table_addresses using k by (subst table_reads(1) [OF assms]; simp)+
qed

lemma shift_read:
  fixes x :: u8
  assumes "tables_ok y p m" "j < 32"
  shows "load32 (overlay p f m) (sll8_table y + of_nat (j * 1024) + push_bit 2 (ucast x)) = push_bit j (ucast x)"
    "load32 (overlay p f m) (srl8_table y + of_nat (j * 1024) + push_bit 2 (ucast x)) = drop_bit j (push_bit 24 (ucast x))"
    "load32 (overlay p f m) (sra8_table y + of_nat (j * 1024) + push_bit 2 (ucast x))
      = signed_drop_bit j (push_bit 24 (ucast x))"
proof -
  define k where "k = j * 1024 + unat x * 4"
  have k: "k + 3 < 32768" using assms(2) unat_lt_u8 [of x] by (simp add: k_def)
  have e: "t + of_nat (j * 1024) + push_bit 2 (ucast x) = t + of_nat k" for t :: u32
    by (simp add: k_def push_bit_eq_mult)
  have w: "load32 (overlay p f m) (t + of_nat k) = v"
    if "\<And>c. c < 4 \<Longrightarrow> overlay p f m (t + of_nat (k + c)) = byte_of c v" for t v
    using that [of 0] that [of 1] that [of 2] that [of 3] by (simp add: load32_def ac_simps)
  note r = table_reads(1) [OF assms(1), of _ f]
  have l': "k + c < 32768 \<Longrightarrow> c < 4 \<Longrightarrow> lut_bin ! (196608 + (k + c)) = byte_of c (push_bit j (ucast x))"
      "k + c < 32768 \<Longrightarrow> c < 4 \<Longrightarrow> lut_bin ! (229376 + (k + c)) = byte_of c (drop_bit j (push_bit 24 (ucast x)))"
      "k + c < 32768 \<Longrightarrow> c < 4 \<Longrightarrow> lut_bin ! (262144 + (k + c)) = byte_of c (signed_drop_bit j (push_bit 24 (ucast x)))" for c
    using lut_entry32 [OF assms(2) unat_lt_u8, of c x] by (simp_all add: k_def add.assoc)
  show "load32 (overlay p f m) (sll8_table y + of_nat (j * 1024) + push_bit 2 (ucast x)) = push_bit j (ucast x)"
    unfolding e by (rule w) (use k l'(1) in \<open>simp add: table_addresses r del: of_nat_add\<close>)
  show "load32 (overlay p f m) (srl8_table y + of_nat (j * 1024) + push_bit 2 (ucast x)) = drop_bit j (push_bit 24 (ucast x))"
    unfolding e by (rule w) (use k l'(2) in \<open>simp add: table_addresses r del: of_nat_add\<close>)
  show "load32 (overlay p f m) (sra8_table y + of_nat (j * 1024) + push_bit 2 (ucast x))
      = signed_drop_bit j (push_bit 24 (ucast x))"
    unfolding e by (rule w) (use k l'(3) in \<open>simp add: table_addresses r del: of_nat_add\<close>)
qed

end
