(* ===== verification/Rv_Macros.thy ===== *)
theory Rv_Macros
  imports Rv_Machine
begin

text \<open>
  The macros of \<open>inst-replace.h\<close>, each as the list of base instructions into which the assembler
  expands it. A macro that refuses its operands (\<open>.abort\<close>) is \<open>None\<close>. The addresses of the tables
  come from the symbols \<open>y\<close>, the label behind a branch is an argument.
\<close>

section \<open>Variables below the stack pointer\<close>

definition SP_VAR_BYTE :: "nat \<Rightarrow> nat \<Rightarrow> operand" where
  "SP_VAR_BYTE n boffset = (- int n * 4 + int boffset, sp)"

definition SP_VAR :: "nat \<Rightarrow> operand" where "SP_VAR n = SP_VAR_BYTE n 0"

definition VAR_A :: nat where "VAR_A = 4"
definition VAR_B :: nat where "VAR_B = 5"
definition VAR_C :: nat where "VAR_C = 6"
definition VAR_D :: nat where "VAR_D = 7"

definition PUSH :: "nat \<Rightarrow> nat \<Rightarrow> instr" where "PUSH r n = SW r (SP_VAR n)"
definition POP :: "nat \<Rightarrow> nat \<Rightarrow> instr" where "POP r n = LW r (SP_VAR n)"

definition byte_after :: "int \<Rightarrow> operand \<Rightarrow> operand" where
  "byte_after k x = (k + fst x, snd x)"

section \<open>Pseudo-instructions\<close>

definition mv :: "nat \<Rightarrow> nat \<Rightarrow> instr" where "mv rd rs = ADDI rd rs 0"
definition li :: "nat \<Rightarrow> int \<Rightarrow> instr" where "li rd imm = ADDI rd x0 imm"
definition jr :: "nat \<Rightarrow> instr" where "jr rs = JALR x0 (0, rs)"

definition hi20 :: "u32 \<Rightarrow> u32" where "hi20 a = (a + 0x800) AND 0xfffff000"
definition lo12 :: "u32 \<Rightarrow> int" where "lo12 a = sint (ucast a :: 12 word)"

definition la :: "nat \<Rightarrow> u32 \<Rightarrow> instr list" where
  "la r addr = [LUI r (hi20 addr), ADDI r r (lo12 addr)]"

definition call_template :: "nat \<Rightarrow> u32 \<Rightarrow> instr list" where
  "call_template r addr = la r addr @ [JALR r (0, r)]"

definition j_macro :: "u32 \<Rightarrow> instr list" where "j_macro addr = call_template tp addr"
definition call_macro :: "u32 \<Rightarrow> instr list" where "call_macro addr = call_template ra addr"
definition tail_macro :: "u32 \<Rightarrow> instr list" where
  "tail_macro addr = la tp addr @ [jr tp] @ call_template ra addr"
definition jal_macro :: "nat \<Rightarrow> u32 \<Rightarrow> instr list" where
  "jal_macro rd addr = (if rd = x0 then j_macro addr else call_template rd addr)"

section \<open>Bytes, signs and small shifts\<close>

definition getbyte :: "nat \<Rightarrow> nat \<Rightarrow> nat \<Rightarrow> instr list" where
  "getbyte rd rs1 byte = [SW rs1 (SP_VAR VAR_C), LBU rd (SP_VAR_BYTE VAR_C byte)]"

definition sh_macro :: "nat \<Rightarrow> operand \<Rightarrow> instr list" where
  "sh_macro rs addr = [SB rs (byte_after 0 addr)] @ getbyte tp rs 1 @ [SB tp (byte_after 1 addr)]"

fun slli_macro :: "nat \<Rightarrow> nat \<Rightarrow> nat \<Rightarrow> instr list" where
  "slli_macro rd rs1 imm =
    (if imm = 0 then (if rd \<noteq> rs1 then [mv rd rs1] else [])
     else if 24 \<le> imm then
       [SW x0 (SP_VAR VAR_A), SB rs1 (SP_VAR_BYTE VAR_A 3), LW rd (SP_VAR VAR_A)] @ slli_macro rd rd (imm - 24)
     else if 16 \<le> imm then
       [SW x0 (SP_VAR VAR_A)] @ sh_macro rs1 (SP_VAR_BYTE VAR_A 2) @ [LW rd (SP_VAR VAR_A)] @ slli_macro rd rd (imm - 16)
     else ADD rd rs1 rs1 # replicate (imm - 1) (ADD rd rd rd))"

declare slli_macro.simps [simp del]

definition msb_macro :: "nat \<Rightarrow> nat \<Rightarrow> instr list" where
  "msb_macro rd rs1 = getbyte rd rs1 3 @ slli_macro rd rd 1 @ getbyte rd rd 1"

section \<open>Subtraction and comparison\<close>

definition not_byte :: "nat \<Rightarrow> instr list" where
  "not_byte boffset = [LBU gp (SP_VAR_BYTE VAR_C boffset), ADD gp gp tp, LBU gp (0, gp), SB gp (SP_VAR_BYTE VAR_D boffset)]"

definition not_macro :: "symbols \<Rightarrow> nat \<Rightarrow> nat \<Rightarrow> instr list" where
  "not_macro y rd rs1 = [PUSH gp 3, SW rs1 (SP_VAR VAR_C)] @ la tp (xor8_table y + push_bit 8 0xff)
     @ not_byte 3 @ not_byte 2 @ not_byte 1 @ not_byte 0 @ [POP gp 3, LW rd (SP_VAR VAR_D)]"

definition sub_macro :: "symbols \<Rightarrow> nat \<Rightarrow> nat \<Rightarrow> nat \<Rightarrow> instr list" where
  "sub_macro y rd rs1 rs2 = not_macro y tp rs2 @ [ADD rd rs1 tp, ADDI rd rd 1]"

definition slt_template :: "symbols \<Rightarrow> u32 \<Rightarrow> nat \<Rightarrow> nat \<Rightarrow> nat \<Rightarrow> instr list" where
  "slt_template y lut rd rs1 rs2 =
     [PUSH s0 1, PUSH s1 2, SW rs2 (SP_VAR VAR_A), mv s0 rs1, LW s1 (SP_VAR VAR_A)]
     @ msb_macro gp s0 @ slli_macro gp gp 1
     @ msb_macro tp s1 @ [ADD gp gp tp] @ slli_macro gp gp 1
     @ sub_macro y tp s0 s1 @ msb_macro tp tp @ [ADD gp gp tp]
     @ la tp lut @ [ADD tp tp gp, POP s1 2, POP s0 1, LBU rd (0, tp)]"

definition slt_macro :: "symbols \<Rightarrow> nat \<Rightarrow> nat \<Rightarrow> nat \<Rightarrow> instr list" where
  "slt_macro y rd rs1 rs2 = slt_template y (slt1_addr y) rd rs1 rs2"

definition sltu_macro :: "symbols \<Rightarrow> nat \<Rightarrow> nat \<Rightarrow> nat \<Rightarrow> instr list" where
  "sltu_macro y rd rs1 rs2 = slt_template y (sltu1_addr y) rd rs1 rs2"

section \<open>Bitwise operations\<close>

definition logic8_byte_internal :: "nat \<Rightarrow> nat \<Rightarrow> instr list" where
  "logic8_byte_internal lut_reg boffset =
     [LBU tp (SP_VAR_BYTE VAR_A boffset), SB tp (SP_VAR_BYTE VAR_D 1),
      LBU tp (SP_VAR_BYTE VAR_B boffset), SB tp (SP_VAR_BYTE VAR_D 0),
      LW tp (SP_VAR VAR_D), ADD tp lut_reg tp, LBU tp (0, tp), SB tp (SP_VAR_BYTE VAR_C boffset)]"

definition logic_macro :: "u32 \<Rightarrow> nat \<Rightarrow> nat \<Rightarrow> nat \<Rightarrow> instr list option" where
  "logic_macro lut rd rs1 rs2 =
    (if rd = x0 then Some []
     else if rd = sp \<or> rs1 = sp \<or> rs2 = sp then None
     else if rd = gp \<or> rs1 = gp \<or> rs2 = gp then None
     else if rd = tp \<or> rs1 = tp then None
     else Some ([SW rs1 (SP_VAR VAR_A), SW rs2 (SP_VAR VAR_B)] @ la rd lut @ [SW x0 (SP_VAR VAR_D)]
       @ logic8_byte_internal rd 3 @ logic8_byte_internal rd 2 @ logic8_byte_internal rd 1 @ logic8_byte_internal rd 0
       @ [LW rd (SP_VAR VAR_C)]))"

definition and_macro :: "symbols \<Rightarrow> nat \<Rightarrow> nat \<Rightarrow> nat \<Rightarrow> instr list option" where
  "and_macro y = logic_macro (and8_table y)"
definition or_macro :: "symbols \<Rightarrow> nat \<Rightarrow> nat \<Rightarrow> nat \<Rightarrow> instr list option" where
  "or_macro y = logic_macro (or8_table y)"
definition xor_macro :: "symbols \<Rightarrow> nat \<Rightarrow> nat \<Rightarrow> nat \<Rightarrow> instr list option" where
  "xor_macro y = logic_macro (xor8_table y)"

section \<open>Equality\<close>

definition check_8bit_same :: "nat \<Rightarrow> nat \<Rightarrow> nat \<Rightarrow> instr list" where
  "check_8bit_same table rd boffset =
     [LBU rd (SP_VAR_BYTE VAR_A boffset), ADD tp table rd, ADDI rd x0 1, SB rd (0, tp),
      LBU rd (SP_VAR_BYTE VAR_B boffset), ADD rd table rd, SB x0 (0, rd), LBU rd (0, tp)]"

definition seq_macro :: "symbols \<Rightarrow> nat \<Rightarrow> nat \<Rightarrow> nat \<Rightarrow> instr list" where
  "seq_macro y rd rs1 rs2 =
     [SW rs1 (SP_VAR VAR_A), SW rs2 (SP_VAR VAR_B), PUSH s0 1, PUSH s1 2] @ la s0 (check_same_array y)
     @ check_8bit_same s0 gp 0
     @ check_8bit_same s0 s1 1 @ [ADD gp gp s1]
     @ check_8bit_same s0 s1 2 @ [ADD gp gp s1]
     @ check_8bit_same s0 s1 3 @ [ADD gp gp s1]
     @ la tp (same_result_addr y) @ [ADD tp tp gp, LBU rd (0, tp), POP s1 2, POP s0 1]"

definition check_8bit_0 :: "nat \<Rightarrow> nat \<Rightarrow> nat \<Rightarrow> instr list" where
  "check_8bit_0 table rd boffset = [LBU rd (SP_VAR_BYTE VAR_A boffset), ADD rd table rd, LBU rd (0, rd)]"

definition seqz_macro :: "symbols \<Rightarrow> nat \<Rightarrow> nat \<Rightarrow> instr list" where
  "seqz_macro y rd rs1 =
     [SW rs1 (SP_VAR VAR_A), PUSH s0 1] @ la s0 (check_8bit_0_addr y)
     @ check_8bit_0 s0 gp 0
     @ check_8bit_0 s0 tp 1 @ [ADD gp gp tp]
     @ check_8bit_0 s0 tp 2 @ [ADD gp gp tp]
     @ check_8bit_0 s0 tp 3 @ [ADD gp gp tp]
     @ la tp (same_result_addr y) @ [ADD tp tp gp, LBU rd (0, tp), POP s0 1]"

section \<open>Branches\<close>

definition branch_resolve :: "symbols \<Rightarrow> u32 \<Rightarrow> bool \<Rightarrow> u32 \<Rightarrow> instr list" where
  "branch_resolve y target is_tp_high_sel_target label =
     slli_macro tp tp 2 @ [ADD tp sp tp]
     @ (if is_tp_high_sel_target
        then la gp target @ [SW gp (SP_VAR VAR_A)] @ la gp label @ [SW gp (SP_VAR VAR_B)]
        else la gp label @ [SW gp (SP_VAR VAR_A)] @ la gp target @ [SW gp (SP_VAR VAR_B)])
     @ [LW tp (- int VAR_B * 4, tp), jr tp]"

definition beq_macro :: "symbols \<Rightarrow> nat \<Rightarrow> nat \<Rightarrow> u32 \<Rightarrow> u32 \<Rightarrow> instr list" where
  "beq_macro y rs1 rs2 target label =
    (if rs2 = x0 then seqz_macro y tp rs1
     else if rs1 = x0 then seqz_macro y tp rs2
     else seq_macro y tp rs1 rs2) @ branch_resolve y target True label"

definition bne_macro :: "symbols \<Rightarrow> nat \<Rightarrow> nat \<Rightarrow> u32 \<Rightarrow> u32 \<Rightarrow> instr list" where
  "bne_macro y rs1 rs2 target label =
    (if rs2 = x0 then seqz_macro y tp rs1
     else if rs1 = x0 then seqz_macro y tp rs2
     else seq_macro y tp rs1 rs2) @ branch_resolve y target False label"

definition not_positive :: "symbols \<Rightarrow> nat \<Rightarrow> instr list" where
  "not_positive y rs2 = msb_macro gp rs2 @ [ADDI tp rs2 (- 1)] @ msb_macro tp tp
     @ [ADD gp gp tp] @ la tp (or1_addr y) @ [ADD tp gp tp, LBU tp (0, tp)]"

definition blt_macro :: "symbols \<Rightarrow> nat \<Rightarrow> nat \<Rightarrow> u32 \<Rightarrow> u32 \<Rightarrow> instr list" where
  "blt_macro y rs1 rs2 target label =
    (if rs2 = x0 then msb_macro tp rs1 @ branch_resolve y target True label
     else if rs1 = x0 then not_positive y rs2 @ branch_resolve y target False label
     else slt_macro y tp rs1 rs2 @ branch_resolve y target True label)"

definition bltu_macro :: "symbols \<Rightarrow> nat \<Rightarrow> nat \<Rightarrow> u32 \<Rightarrow> u32 \<Rightarrow> instr list" where
  "bltu_macro y rs1 rs2 target label = sltu_macro y tp rs1 rs2 @ branch_resolve y target True label"

definition bge_macro :: "symbols \<Rightarrow> nat \<Rightarrow> nat \<Rightarrow> u32 \<Rightarrow> u32 \<Rightarrow> instr list" where
  "bge_macro y rs1 rs2 target label =
    (if rs1 = x0 then not_positive y rs2 @ branch_resolve y target True label
     else slt_macro y tp rs1 rs2 @ branch_resolve y target False label)"

definition bgeu_macro :: "symbols \<Rightarrow> nat \<Rightarrow> nat \<Rightarrow> u32 \<Rightarrow> u32 \<Rightarrow> instr list" where
  "bgeu_macro y rs1 rs2 target label = sltu_macro y tp rs1 rs2 @ branch_resolve y target False label"

section \<open>Shifts\<close>

definition getshamt :: "symbols \<Rightarrow> nat \<Rightarrow> nat \<Rightarrow> instr list" where
  "getshamt y rd rs1 = [SB rs1 (SP_VAR_BYTE VAR_B 0), LBU rd (SP_VAR_BYTE VAR_B 0)]
     @ la tp (and8_table y + push_bit 8 0x1f) @ [ADD rd rd tp, LBU rd (0, rd)]"

definition get_shift_byte_in_tp :: "nat \<Rightarrow> nat \<Rightarrow> instr list" where
  "get_shift_byte_in_tp base boffset = [LBU tp (SP_VAR_BYTE VAR_A boffset)] @ slli_macro tp tp 2
     @ [ADD tp base tp, LW tp (0, tp)]"

definition sll_macro :: "symbols \<Rightarrow> nat \<Rightarrow> nat \<Rightarrow> nat \<Rightarrow> instr list" where
  "sll_macro y rd rs1 rs2 =
     [PUSH s0 1, SW rs1 (SP_VAR VAR_A)] @ getshamt y s0 rs2
     @ [SW x0 (SP_VAR VAR_B), SB s0 (SP_VAR_BYTE VAR_B 1), LW s0 (SP_VAR VAR_B)] @ slli_macro s0 s0 2
     @ la tp (sll8_table y) @ [ADD s0 s0 tp]
     @ [SW x0 (SP_VAR VAR_B)] @ get_shift_byte_in_tp s0 3
     @ [SB tp (SP_VAR_BYTE VAR_B 3), LW gp (SP_VAR VAR_B)]
     @ get_shift_byte_in_tp s0 2 @ sh_macro tp (SP_VAR_BYTE VAR_B 2) @ [LW tp (SP_VAR VAR_B), ADD gp gp tp]
     @ get_shift_byte_in_tp s0 1 @ slli_macro tp tp 8 @ [ADD gp gp tp]
     @ get_shift_byte_in_tp s0 0
     @ [POP s0 1, ADD rd gp tp]"

definition shift_right_template :: "symbols \<Rightarrow> nat \<Rightarrow> nat \<Rightarrow> nat \<Rightarrow> bool \<Rightarrow> bool \<Rightarrow> instr list" where
  "shift_right_template y rd rs1 rs2 is_arith is_rs2_imm =
    (if is_rs2_imm \<and> rs2 = 24 then
       (if is_arith then
          [SW rs1 (SP_VAR VAR_A)] @ la tp (sra8_table y + push_bit 10 (of_nat rs2))
          @ [LBU rd (SP_VAR_BYTE VAR_A 3)] @ slli_macro rd rd 2 @ [ADD tp tp rd, LW rd (0, tp)]
        else getbyte rd rs1 3)
     else
       [PUSH s0 1, SW rs1 (SP_VAR VAR_A)]
       @ (if \<not> is_rs2_imm then
            getshamt y s0 rs2 @ [SW x0 (SP_VAR VAR_B), SB s0 (SP_VAR_BYTE VAR_B 1), LW s0 (SP_VAR VAR_B)]
            @ slli_macro s0 s0 2 @ la tp (srl8_table y) @ [ADD s0 s0 tp]
          else la s0 (srl8_table y + push_bit 10 (of_nat rs2)))
       @ get_shift_byte_in_tp s0 2 @ [SW tp (SP_VAR VAR_B)]
       @ get_shift_byte_in_tp s0 1 @ [SW tp (SP_VAR VAR_C)]
       @ get_shift_byte_in_tp s0 0 @ [SW tp (SP_VAR VAR_D)]
       @ [LBU gp (SP_VAR_BYTE VAR_B 1), LBU tp (SP_VAR_BYTE VAR_C 2), ADD gp gp tp,
          LBU tp (SP_VAR_BYTE VAR_D 3), ADD gp gp tp, SW gp (SP_VAR VAR_D)]
       @ [LBU gp (SP_VAR_BYTE VAR_B 2), LBU tp (SP_VAR_BYTE VAR_C 3), ADD gp gp tp, SB gp (SP_VAR_BYTE VAR_D 1)]
       @ [LBU gp (SP_VAR_BYTE VAR_B 3), SB gp (SP_VAR_BYTE VAR_D 2)]
       @ [LW gp (SP_VAR VAR_D)]
       @ (if is_arith then la tp (sra8_table y - srl8_table y) @ [ADD s0 s0 tp] else [])
       @ get_shift_byte_in_tp s0 3
       @ [POP s0 1, ADD rd gp tp])"

definition srl_macro :: "symbols \<Rightarrow> nat \<Rightarrow> nat \<Rightarrow> nat \<Rightarrow> instr list" where
  "srl_macro y rd rs1 rs2 = shift_right_template y rd rs1 rs2 False False"
definition sra_macro :: "symbols \<Rightarrow> nat \<Rightarrow> nat \<Rightarrow> nat \<Rightarrow> instr list" where
  "sra_macro y rd rs1 rs2 = shift_right_template y rd rs1 rs2 True False"
definition srli_macro :: "symbols \<Rightarrow> nat \<Rightarrow> nat \<Rightarrow> nat \<Rightarrow> instr list" where
  "srli_macro y rd rs1 imm = shift_right_template y rd rs1 imm False True"
definition srai_macro :: "symbols \<Rightarrow> nat \<Rightarrow> nat \<Rightarrow> nat \<Rightarrow> instr list" where
  "srai_macro y rd rs1 imm = shift_right_template y rd rs1 imm True True"

section \<open>Operations with an immediate operand\<close>

definition slti_macro :: "symbols \<Rightarrow> nat \<Rightarrow> nat \<Rightarrow> int \<Rightarrow> instr list" where
  "slti_macro y rd rs1 imm = li tp imm # slt_macro y rd rs1 tp"
definition sltiu_macro :: "symbols \<Rightarrow> nat \<Rightarrow> nat \<Rightarrow> int \<Rightarrow> instr list" where
  "sltiu_macro y rd rs1 imm = li tp imm # sltu_macro y rd rs1 tp"
definition andi_macro :: "symbols \<Rightarrow> nat \<Rightarrow> nat \<Rightarrow> int \<Rightarrow> instr list option" where
  "andi_macro y rd rs1 imm = map_option ((#) (li tp imm)) (and_macro y rd rs1 tp)"
definition ori_macro :: "symbols \<Rightarrow> nat \<Rightarrow> nat \<Rightarrow> int \<Rightarrow> instr list option" where
  "ori_macro y rd rs1 imm = map_option ((#) (li tp imm)) (or_macro y rd rs1 tp)"
definition xori_macro :: "symbols \<Rightarrow> nat \<Rightarrow> nat \<Rightarrow> int \<Rightarrow> instr list option" where
  "xori_macro y rd rs1 imm = map_option ((#) (li tp imm)) (xor_macro y rd rs1 tp)"

section \<open>Loads\<close>

definition lb_macro :: "symbols \<Rightarrow> nat \<Rightarrow> operand \<Rightarrow> instr list" where
  "lb_macro y rd addr = [SW x0 (SP_VAR VAR_A), LBU rd addr, SB rd (SP_VAR_BYTE VAR_A 3), LW rd (SP_VAR VAR_A)]
     @ srai_macro y rd rd 24"

definition lhu_macro :: "nat \<Rightarrow> operand \<Rightarrow> instr list" where
  "lhu_macro rd addr = [SW x0 (SP_VAR VAR_A), LBU tp (byte_after 1 addr), SB tp (SP_VAR_BYTE VAR_A 1),
     LW tp (SP_VAR VAR_A), LBU rd (byte_after 0 addr), ADD rd rd tp]"

definition lh_macro :: "symbols \<Rightarrow> nat \<Rightarrow> operand \<Rightarrow> instr list" where
  "lh_macro y rd addr = [SW x0 (SP_VAR VAR_A), LBU gp (byte_after 1 addr), SB gp (SP_VAR_BYTE VAR_A 3),
     LW gp (SP_VAR VAR_A)] @ srai_macro y gp gp 16 @ [LBU rd (byte_after 0 addr), ADD rd rd gp]"

section \<open>Pseudo-instructions over the macros\<close>

definition neg_macro :: "symbols \<Rightarrow> nat \<Rightarrow> nat \<Rightarrow> instr list" where "neg_macro y rd rs = sub_macro y rd x0 rs"
definition snez_macro :: "symbols \<Rightarrow> nat \<Rightarrow> nat \<Rightarrow> instr list" where "snez_macro y rd rs = sltu_macro y rd x0 rs"
definition sltz_macro :: "nat \<Rightarrow> nat \<Rightarrow> instr list" where "sltz_macro rd rs = msb_macro rd rs"
definition sgt_macro :: "symbols \<Rightarrow> nat \<Rightarrow> nat \<Rightarrow> nat \<Rightarrow> instr list" where "sgt_macro y rd rs1 rs2 = slt_macro y rd rs2 rs1"
definition sgtu_macro :: "symbols \<Rightarrow> nat \<Rightarrow> nat \<Rightarrow> nat \<Rightarrow> instr list" where "sgtu_macro y rd rs1 rs2 = sltu_macro y rd rs2 rs1"
definition sgtz_macro :: "symbols \<Rightarrow> nat \<Rightarrow> nat \<Rightarrow> instr list" where "sgtz_macro y rd rs = slt_macro y rd x0 rs"

definition beqz_macro :: "symbols \<Rightarrow> nat \<Rightarrow> u32 \<Rightarrow> u32 \<Rightarrow> instr list" where "beqz_macro y rs = beq_macro y rs x0"
definition bnez_macro :: "symbols \<Rightarrow> nat \<Rightarrow> u32 \<Rightarrow> u32 \<Rightarrow> instr list" where "bnez_macro y rs = bne_macro y rs x0"
definition blez_macro :: "symbols \<Rightarrow> nat \<Rightarrow> u32 \<Rightarrow> u32 \<Rightarrow> instr list" where "blez_macro y rs = bge_macro y x0 rs"
definition bgez_macro :: "symbols \<Rightarrow> nat \<Rightarrow> u32 \<Rightarrow> u32 \<Rightarrow> instr list" where "bgez_macro y rs = bge_macro y rs x0"
definition bltz_macro :: "symbols \<Rightarrow> nat \<Rightarrow> u32 \<Rightarrow> u32 \<Rightarrow> instr list" where "bltz_macro y rs = blt_macro y rs x0"
definition bgtz_macro :: "symbols \<Rightarrow> nat \<Rightarrow> u32 \<Rightarrow> u32 \<Rightarrow> instr list" where "bgtz_macro y rs = blt_macro y x0 rs"
definition bgt_macro :: "symbols \<Rightarrow> nat \<Rightarrow> nat \<Rightarrow> u32 \<Rightarrow> u32 \<Rightarrow> instr list" where "bgt_macro y rs rt = blt_macro y rt rs"
definition ble_macro :: "symbols \<Rightarrow> nat \<Rightarrow> nat \<Rightarrow> u32 \<Rightarrow> u32 \<Rightarrow> instr list" where "ble_macro y rs rt = bge_macro y rt rs"
definition bgtu_macro :: "symbols \<Rightarrow> nat \<Rightarrow> nat \<Rightarrow> u32 \<Rightarrow> u32 \<Rightarrow> instr list" where "bgtu_macro y rs rt = bltu_macro y rt rs"
definition bleu_macro :: "symbols \<Rightarrow> nat \<Rightarrow> nat \<Rightarrow> u32 \<Rightarrow> u32 \<Rightarrow> instr list" where "bleu_macro y rs rt = bgeu_macro y rt rs"

end
