(* ===== verification/Rv_Alu.thy ===== *)
theory Rv_Alu
  imports Rv_Macros
begin

text \<open>
  The macros of theory Rv_Macros run: subtraction, comparison, bitwise operations and equality.
  A run is followed instruction by instruction by rewriting, the area below the stack pointer as
  a function from offsets to bytes; each macro gets one rule for the next to use.
\<close>

section \<open>Runs with the scratch area split off\<close>

definition st :: "(nat \<Rightarrow> u32) \<Rightarrow> u32 \<Rightarrow> (nat \<Rightarrow> u8) \<Rightarrow> mem \<Rightarrow> mini" where
  "st R p f m = \<lparr>xreg = R, xmem = overlay p f m\<rparr>"

lemma exec_reg [rv_step]:
  "exec (ADD d a b) (st R p f m) = st (rset d (rget R a + rget R b) R) p f m"
  "exec (ADDI d a i) (st R p f m) = st (rset d (rget R a + word_of_int i) R) p f m"
  "exec (LUI d v) (st R p f m) = st (rset d v R) p f m"
  "exec (LBU d (0, r)) (st R p f m) = st (rset d (ucast (overlay p f m (rget R r))) R) p f m"
  "exec (LW d (0, r)) (st R p f m) = st (rset d (load32 (overlay p f m) (rget R r)) R) p f m"
  by (simp_all add: st_def ea_zero exec.simps)

lemma exec_scratch [rv_step]:
  assumes "R 2 = p"
  shows "- 28 \<le> i \<Longrightarrow> i \<le> - 4 \<Longrightarrow> exec (LW d (i, 2)) (st R p f m) = st (rset d (get32 (nat (- i)) f) R) p f m"
    "- 28 \<le> i \<Longrightarrow> i \<le> - 1 \<Longrightarrow> exec (LBU d (i, 2)) (st R p f m) = st (rset d (ucast (f (nat (- i)))) R) p f m"
    "- 28 \<le> i \<Longrightarrow> i \<le> - 4 \<Longrightarrow> exec (SW a (i, 2)) (st R p f m) = st R p (put32 (nat (- i)) (rget R a) f) m"
    "- 28 \<le> i \<Longrightarrow> i \<le> - 1 \<Longrightarrow> exec (SB a (i, 2)) (st R p f m) = st R p (f(nat (- i) := byte_of 0 (rget R a))) m"
  using scratch_ops [where R = R and p = p, OF assms] by (simp_all add: st_def exec.simps)

lemma rset_sp [simp]: "d \<noteq> 2 \<Longrightarrow> rset d v R 2 = R 2"
  by (simp add: rset_def)

lemma rset_rset [simp]: "rset d v (rset d w R) = rset d v R"
  by (simp add: rset_def)

lemma rset_same [simp]: "rset d (rget R d) R = R"
  by (simp add: rset_def rget_def)

lemmas var_defs = SP_VAR_def SP_VAR_BYTE_def VAR_A_def VAR_B_def VAR_C_def VAR_D_def PUSH_def POP_def

declare var_defs [rv_step] rset_numeral [rv_step]

lemma and_high: "w AND NOT (mask n) = w - take_bit n w" for w :: u32
proof -
  have "(w AND NOT (mask n)) AND take_bit n w = 0"
    by (rule bit_word_eqI) (auto simp: bit_simps)
  from word_or_add [OF this] have "(w AND NOT (mask n)) + take_bit n w = (w AND NOT (mask n)) OR take_bit n w" .
  also have "\<dots> = w" by (rule bit_word_eqI) (auto simp: bit_simps)
  finally show ?thesis by (simp add: algebra_simps)
qed

lemma hi_lo: "hi20 a + word_of_int (lo12 a) = a"
proof -
  have m: "0xfffff000 = (NOT (mask 12) :: u32)" by (simp add: mask_eq_exp_minus_1)
  have "lo12 a = take_bit 12 (uint a + 2048) - 2048"
    by (simp add: lo12_def sint_uint unsigned_ucast_eq signed_take_bit_eq_take_bit_shift min_def)
      (simp add: take_bit_eq_mod mod_add_left_eq)
  moreover have "word_of_int (take_bit 12 (uint a + 2048)) = take_bit 12 (a + 0x800)"
    unfolding word_uint_eq_iff unsigned_take_bit_eq uint_word_of_int uint_word_ariths
    by (simp add: take_bit_eq_mod mod_mod_cancel)
  ultimately show ?thesis by (simp add: hi20_def m and_high)
qed

lemma exec_la [rv_step]: "r \<noteq> 0 \<Longrightarrow> fold exec (la r a) (st R p f m) = st (rset r a R) p f m"
  by (simp add: la_def rv_step hi_lo)

lemma byte_cases: "b < 4 \<Longrightarrow> b = 0 \<or> b = 1 \<or> b = 2 \<or> b = (3 :: nat)"
  by arith

lemma exec_getbyte:
  "R 2 = p \<Longrightarrow> b < 4 \<Longrightarrow> fold exec (getbyte d a b) (st R p f m)
    = st (rset d (ucast (byte_of b (rget R a))) R) p (put32 24 (rget R a) f) m"
  by (drule byte_cases, elim disjE) (simp_all add: getbyte_def rv_step)

lemma push_bit_twice: "push_bit n (2 * x) = push_bit (Suc n) x" for x :: u32
  by (simp only: push_bit_Suc mult.commute)

lemma exec_doubles: "d \<noteq> 0 \<Longrightarrow> (exec (ADD d d d) ^^ n) (st R p f m) = st (rset d (push_bit n (rget R d)) R) p f m"
  by (induction n arbitrary: R) (simp_all add: rv_step push_bit_twice funpow_Suc_right del: push_bit_Suc funpow.simps(2))

lemma exec_doubles_x0: "(exec (ADD 0 0 0) ^^ n) (st R p f m) = st R p f m"
  by (induction n) (simp_all add: rv_step)

lemma exec_slli_small [rv_step]:
  "n < 16 \<Longrightarrow> fold exec (slli_macro d a n) (st R p f m) = st (rset d (push_bit n (rget R a)) R) p f m"
  by (cases n; cases "d = 0")
    (auto simp: slli_macro.simps rv_step exec_doubles exec_doubles_x0 mv_def push_bit_twice simp del: push_bit_Suc)


lemma not_read [rv_step]:
  assumes "tables_ok y p m"
  shows "overlay p f m (ucast b + (xor8_table y + 65280)) = NOT b"
proof -
  have c: "ucast b + (xor8_table y + 65280) = xor8_table y + cat4 b 255 0 0"
    by (simp add: cat4_index)
  have m: "255 = (mask 8 :: u8)" by (simp add: mask_eq_exp_minus_1)
  show ?thesis unfolding c logic_read [OF assms] m by (rule bit_word_eqI) (auto simp: bit_xor_iff bit_not_iff bit_mask_iff)
qed

lemma byte_of_0 [simp]: "byte_of k 0 = 0"
  by (simp add: byte_of_def)

lemma get32_updates [rv_step]:
  "get32 28 (f(25 := b3, 26 := b2, 27 := b1, 28 := b0)) = cat4 b0 b1 b2 b3"
  "get32 24 (f(21 := b3, 22 := b2, 23 := b1, 24 := b0)) = cat4 b0 b1 b2 b3"
  "get32 28 (f(27 := b1, 28 := b0)) = cat4 b0 b1 (f 26) (f 25)"
  "get32 28 (f(27 := b1, 26 := b2)) = cat4 (f 28) b1 b2 (f 25)"
  "get32 16 (f(13 := b3)) = cat4 (f 16) (f 15) (f 14) b3"
  "get32 16 (f(15 := b1)) = cat4 (f 16) b1 (f 14) (f 13)"
  "get32 20 (f(19 := b1)) = cat4 (f 20) b1 (f 18) (f 17)"
  "get32 20 (f(17 := b3)) = cat4 (f 20) (f 19) (f 18) b3"
  by (simp_all add: get32_def)

lemma cat4_not: "cat4 (NOT (byte_of 0 x)) (NOT (byte_of 1 x)) (NOT (byte_of 2 x)) (NOT (byte_of 3 x)) = NOT x"
  by (rule bit_word_eqI) (auto simp: bit_cat4 bit_byte_of bit_simps dest: bit_imp_le_length)

lemma exec_not [rv_step]:
  "tables_ok y p m \<Longrightarrow> R 2 = p \<Longrightarrow>
   fold exec (not_macro y d a) (st R p f m)
    = st (rset d (NOT (rget R a)) (R(4 := xor8_table y + 65280, 3 := rget R 3))) p
        ((put32 24 (rget R a) (put32 12 (rget R 3) f))(25 := NOT (byte_of 3 (rget R a)), 26 := NOT (byte_of 2 (rget R a)),
           27 := NOT (byte_of 1 (rget R a)), 28 := NOT (byte_of 0 (rget R a)))) m"
  by (simp add: not_macro_def not_byte_def rv_step cat4_not [simplified])

lemma upd_same [simp]: "R(numeral n := rget R (numeral n)) = R"
  by (simp add: rget_def)

lemma add_not: "x + NOT y + 1 = x - (y :: u32)"
  by (simp add: not_eq_complement)

lemma exec_sub [rv_step]:
  "tables_ok y p m \<Longrightarrow> R 2 = p \<Longrightarrow> a \<noteq> 4 \<Longrightarrow>
   fold exec (sub_macro y d a b) (st R p f m)
    = st (rset d (rget R a - rget R b) (R(4 := NOT (rget R b)))) p
        ((put32 24 (rget R b) (put32 12 (rget R 3) f))(25 := NOT (byte_of 3 (rget R b)), 26 := NOT (byte_of 2 (rget R b)),
           27 := NOT (byte_of 1 (rget R b)), 28 := NOT (byte_of 0 (rget R b)))) m"
  by (cases "d = 0") (simp_all add: sub_macro_def rv_step add_not)

lemma msb_value: "ucast (byte_of (Suc 0) (ucast (byte_of 3 x) * 2)) = (of_bool (bit x 31) :: u32)"
proof (rule bit_word_eqI)
  fix n
  have "bit (2 * ucast (byte_of 3 x) :: u32) k = (0 < k \<and> k < 32 \<and> bit (byte_of 3 x) (k - 1))" for k
    by (cases k) (auto simp: bit_double_iff bit_simps dest: bit_imp_le_length)
  then have "bit (ucast (byte_of 3 x) * 2 :: u32) k = (0 < k \<and> k < 32 \<and> bit (byte_of 3 x) (k - 1))" for k
    by (simp only: mult.commute)
  then show "bit (ucast (byte_of (Suc 0) (ucast (byte_of 3 x) * 2)) :: u32) n = bit (of_bool (bit x 31) :: u32) n"
    by (cases n) (auto simp: bit_byte_of bit_simps)
qed

lemma exec_slli_one [rv_step]:
  "fold exec (slli_macro d a (Suc 0)) (st R p f m) = st (rset d (rget R a * 2) R) p f m"
  by (simp add: exec_slli_small)

lemma exec_msb [rv_step]: "R 2 = p \<Longrightarrow> d \<noteq> 0 \<Longrightarrow> d \<noteq> 2 \<Longrightarrow> fold exec (msb_macro d a) (st R p f m)
    = st (rset d (of_bool (bit (rget R a) 31)) R) p (put32 24 (ucast (byte_of 3 (rget R a)) * 2) (put32 24 (rget R a) f)) m"
  by (simp add: msb_macro_def rv_step exec_getbyte msb_value del: of_bool_eq_iff)

text \<open>What a macro promises: its result is in \<open>rd\<close>, and apart from it, the two temporary
  registers and the area below the stack pointer nothing has changed.\<close>

definition yields :: "nat \<Rightarrow> u32 \<Rightarrow> (nat \<Rightarrow> u32) \<Rightarrow> u32 \<Rightarrow> mem \<Rightarrow> mini \<Rightarrow> bool" where
  "yields d v R p m s \<longleftrightarrow> (\<exists>R' f'. s = st R' p f' m \<and> rget R' d = (if d = 0 then 0 else v)
     \<and> (\<forall>r. r \<notin> {3, 4, d} \<longrightarrow> rget R' r = rget R r))"

lemma yields_st [rv_step]: "yields d v R p m (st R' p f' m) \<longleftrightarrow> rget R' d = (if d = 0 then 0 else v)
     \<and> (\<forall>r. r \<notin> {3, 4, d} \<longrightarrow> rget R' r = rget R r)"
proof -
  have "st R' p f' m = st R'' p f'' m \<Longrightarrow> R'' = R'" for R'' f'' by (simp add: st_def)
  then show ?thesis unfolding yields_def by blast
qed

lemma exec_slt:
  assumes "tables_ok y p m" "R 2 = p" "a \<noteq> 3" "a \<noteq> 4" "b \<noteq> 3"
    and "\<And>f k. k < 8 \<Longrightarrow> overlay p f m (t + of_nat k) = tab ! k"
  shows "yields d (ucast (tab ! (4 * of_bool (bit (rget R a) 31) + 2 * of_bool (bit (rget R b) 31)
     + of_bool (bit (rget R a - rget R b) 31)))) R p m (fold exec (slt_template y t d a b) (st R p f m))"
  using assms(1-5) assms(6) [of 0] assms(6) [of 1] assms(6) [of 2] assms(6) [of 3]
     assms(6) [of 4] assms(6) [of 5] assms(6) [of 6] assms(6) [of 7]
  by (simp add: slt_template_def mv_def rv_step numeral_2_eq_2 [symmetric] numeral_3_eq_3 [symmetric])

lemma exec_logic:
  assumes ok: "tables_ok y p m" "R 2 = p" "logic_macro t d a b = Some c"
    and r: "\<And>f a b. overlay p f m (t + cat4 b a 0 0) = op a b"
    and v: "cat4 (op (byte_of 0 (rget R a)) (byte_of 0 (rget R b))) (op (byte_of 1 (rget R a)) (byte_of 1 (rget R b)))
      (op (byte_of 2 (rget R a)) (byte_of 2 (rget R b))) (op (byte_of 3 (rget R a)) (byte_of 3 (rget R b))) = v"
  shows "yields d v R p m (fold exec c (st R p f m))"
proof (cases "d = 0")
  case True
  with ok(3) show ?thesis by (simp add: logic_macro_def rv_step)
next
  case False
  have d: "d \<noteq> 2" "d \<noteq> 3" "d \<noteq> 4" using ok(3) False by (auto simp: logic_macro_def split: if_splits)
  have c: "c = [SW a (SP_VAR VAR_A), SW b (SP_VAR VAR_B)] @ la d t @ [SW x0 (SP_VAR VAR_D)]
       @ logic8_byte_internal d 3 @ logic8_byte_internal d 2 @ logic8_byte_internal d 1 @ logic8_byte_internal d 0
       @ [LW d (SP_VAR VAR_C)]"
    using ok(3) False by (auto simp: logic_macro_def split: if_splits)
  show ?thesis
    using d ok(1,2) False v unfolding c by (simp add: logic8_byte_internal_def rv_step r get32_def)
qed

lemma ucast_of_bool [rv_step]: "ucast (of_bool P :: u8) = (of_bool P :: u32)"
  by simp

lemma zero_read [rv_step]: "tables_ok y p m \<Longrightarrow> overlay p f m (check_8bit_0_addr y + ucast b) = of_bool (b \<noteq> 0)" for b :: u8
proof -
  assume ok: "tables_ok y p m"
  have "check_8bit_0_table ! unat b = of_bool (b \<noteq> 0)"
    using unat_lt_u8 [of b] by (cases "unat b") (auto simp: check_8bit_0_table_def unat_eq_0)
  then show ?thesis using table_reads(3) [OF ok unat_lt_u8, of f b] by simp
qed

lemma same_read [rv_step]: "tables_ok y p m \<Longrightarrow>
    overlay p f m (same_result_addr y + (of_bool b0 + of_bool b1 + of_bool b2 + of_bool b3)) = of_bool (\<not> b0 \<and> \<not> b1 \<and> \<not> b2 \<and> \<not> b3)"
  using table_reads(2) [of y p m 0 f] table_reads(2) [of y p m 1 f] table_reads(2) [of y p m 2 f]
     table_reads(2) [of y p m 3 f] table_reads(2) [of y p m 4 f]
  by (simp add: same_result_table_def)

lemma zero_bytes: "x = 0 \<longleftrightarrow> byte_of 0 x = 0 \<and> byte_of (Suc 0) x = 0 \<and> byte_of 2 x = 0 \<and> byte_of 3 x = 0"
proof -
  have "cat4 0 0 0 0 = 0" by (simp add: cat4_def)
  then show ?thesis using cat4_bytes [of x] by (auto simp: byte_of_def)
qed

lemma exec_seqz:
  assumes "tables_ok y p m" "R 2 = p" "d \<noteq> 8" "d \<noteq> 2"
  shows "yields d (of_bool (rget R a = 0)) R p m (fold exec (seqz_macro y d a) (st R p f m))"
  using assms
  by (simp add: seqz_macro_def check_8bit_0_def rv_step zero_bytes [of "rget R a"] split del: split_of_bool)

section \<open>Equality\<close>

text \<open>\<open>seq\<close> compares byte by byte: it writes 1 at the index of the one byte, then 0 at the index of
  the other, and reads at the first index.\<close>

lemma in_check_byte: "in_check y (check_same_array y + ucast (b :: u8))"
  using unat_lt_u8 [of b] by (simp add: in_check_def unat_ucast_up)

lemma check_not_below: "tables_ok y p m \<Longrightarrow> \<not> below_sp p (check_same_array y + ucast (b :: u8))"
  using unat_lt_u8 [of b] unfolding tables_ok_def list_all_iff
  by (metis (no_types, lifting) atLeastLessThan_iff of_nat_unat set_upt ucast_eq zero_le)

lemma tables_ok_upd [rv_step]:
  assumes "tables_ok y p m"
  shows "tables_ok y p (m(check_same_array y + ucast (b :: u8) := v))"
proof -
  have "table_ok y p (m(check_same_array y + ucast b := v)) t xs" if "table_ok y p m t xs" for t xs
    using that in_check_byte [of y b] unfolding table_ok_def list_all_iff by auto
  then show ?thesis using assms unfolding tables_ok_def list_all_iff by auto
qed

lemma exec_store_byte [rv_step]:
  "\<not> below_sp p (rget R r) \<Longrightarrow>
    exec (SB a (0, r)) (st R p f m) = st R p f (m(rget R r := byte_of 0 (rget R a)))"
  by (auto simp: st_def exec.simps ea_zero overlay_def below_sp_def fun_eq_iff)

lemma overlay_outside: "\<not> below_sp p a \<Longrightarrow> overlay p f m a = m a"
  by (auto simp: overlay_def below_sp_def)

lemma ucast_byte_eq [simp]: "(ucast a :: u32) = ucast b \<longleftrightarrow> a = b" for a b :: u8
  by (metis byte_ucast)

lemma byte_of_1 [simp]: "byte_of 0 1 = 1"
  by (simp add: byte_of_def)

lemma exec_check_same [rv_step]:
  assumes r: "rget R 8 = check_same_array y" "R 2 = p" and ok: "tables_ok y p m" and d: "d = 3 \<or> d = 9" and k: "k < 4"
  shows "fold exec (check_8bit_same 8 d k) (st R p f m)
    = st (R(4 := check_same_array y + ucast (f (16 - k)), d := of_bool (f (16 - k) \<noteq> f (20 - k)))) p f
        (m(check_same_array y + ucast (f (16 - k)) := 1, check_same_array y + ucast (f (20 - k)) := 0))"
proof -
  note nb = check_not_below [OF ok]
  show ?thesis
    using byte_cases [OF k] d
    by (elim disjE) (simp_all add: check_8bit_same_def rv_step r nb overlay_outside)
qed

lemma same_bytes: "x = z \<longleftrightarrow> byte_of 0 x = byte_of 0 z \<and> byte_of (Suc 0) x = byte_of (Suc 0) z
    \<and> byte_of 2 x = byte_of 2 z \<and> byte_of 3 x = byte_of 3 z"
  using cat4_bytes [of x] cat4_bytes [of z] by metis

lemma exec_seq:
  assumes "tables_ok y p m" "R 2 = p" "d \<notin> {2, 8, 9}"
  shows "\<exists>m'. yields d (of_bool (rget R a = rget R b)) R p m' (fold exec (seq_macro y d a b) (st R p f m))
    \<and> tables_ok y p m' \<and> (\<forall>x. \<not> in_check y x \<longrightarrow> m' x = m x)"
proof -
  define c where "c b = check_same_array y + ucast (b :: u8)" for b
  define m' where "m' = m(c (byte_of 0 (rget R a)) := 1, c (byte_of 0 (rget R b)) := 0, c (byte_of 1 (rget R a)) := 1,
      c (byte_of 1 (rget R b)) := 0, c (byte_of 2 (rget R a)) := 1, c (byte_of 2 (rget R b)) := 0,
      c (byte_of 3 (rget R a)) := 1, c (byte_of 3 (rget R b)) := 0)"
  have ok: "tables_ok y p m'" using assms(1) unfolding m'_def c_def by (intro tables_ok_upd)
  have "yields d (of_bool (rget R a = rget R b)) R p m' (fold exec (seq_macro y d a b) (st R p f m))"
    using assms ok
    by (simp add: seq_macro_def rv_step same_bytes [of "rget R a"] m'_def c_def split del: split_of_bool)
  moreover have "\<forall>x. \<not> in_check y x \<longrightarrow> m' x = m x"
    unfolding m'_def c_def using in_check_byte [of y] by auto
  ultimately show ?thesis using ok by blast
qed

section \<open>Comparison\<close>

lemma u32_bounds: "0 \<le> uint x" "uint x < 4294967296" for x :: u32
  using uint_lt2p [of x] by simp_all

lemma top_bit_div: "0 \<le> k \<Longrightarrow> k < 4294967296 \<Longrightarrow> k div 2147483648 = of_bool (2147483648 \<le> k)"
    "2147483648 \<le> k \<Longrightarrow> k < 4294967296 \<Longrightarrow> (k + 2147483648) mod 4294967296 = k - 2147483648" for k :: int
  by (cases "2147483648 \<le> k") (simp_all add: div_pos_pos_trivial int_div_pos_eq [of k _ 1 "k - 2147483648"]
      int_mod_pos_eq [of "k + 2147483648" _ 1 "k - 2147483648"])

lemma sign_bit: "bit x 31 \<longleftrightarrow> 2147483648 \<le> uint x" for x :: u32
proof -
  have "bit x 31 \<longleftrightarrow> bit (uint x) 31" by (simp add: bit_uint_iff)
  also have "\<dots> \<longleftrightarrow> odd (uint x div 2147483648)" unfolding bit_iff_odd by simp
  finally show ?thesis using top_bit_div(1) [OF u32_bounds [of x]] by simp
qed

lemma sint_sign: "sint x = uint x - (if bit x 31 then 4294967296 else 0)" for x :: u32
proof -
  have "sint x = (uint x + 2147483648) mod 4294967296 - 2147483648"
    by (simp add: sint_uint signed_take_bit_eq_take_bit_shift take_bit_eq_mod)
  then show ?thesis using top_bit_div(2) [of "uint x"] u32_bounds [of x]
    unfolding sign_bit by (cases "2147483648 \<le> uint x") (simp_all add: mod_pos_pos_trivial)
qed

lemma difference_sign: "bit (a - b) 31 \<longleftrightarrow> 2147483648 \<le> (uint a - uint b) mod 4294967296" for a b :: u32
  unfolding sign_bit by (simp add: uint_word_ariths)

lemma signs:
  fixes A B :: int
  assumes "0 \<le> A" "A < 4294967296" "0 \<le> B" "B < 4294967296"
  shows "A - (if 2147483648 \<le> A then 4294967296 else 0) < B - (if 2147483648 \<le> B then 4294967296 else 0)
      \<longleftrightarrow> (if (2147483648 \<le> A) = (2147483648 \<le> B)
        then 2147483648 \<le> (if A < B then A - B + 4294967296 else A - B) else 2147483648 \<le> A)"
    "A < B \<longleftrightarrow> (if (2147483648 \<le> A) = (2147483648 \<le> B)
        then 2147483648 \<le> (if A < B then A - B + 4294967296 else A - B) else 2147483648 \<le> B)"
  using assms by auto

lemma slt_value: "slt1_table ! (4 * of_bool (bit a 31) + 2 * of_bool (bit b 31) + of_bool (bit (a - b) 31))
    = of_bool (sint a < sint b)"
  "sltu1_table ! (4 * of_bool (bit a 31) + 2 * of_bool (bit b 31) + of_bool (bit (a - b) 31)) = of_bool (a < b)"
  for a b :: u32
proof -
  note b = u32_bounds [of a] u32_bounds [of b]
  have wrap: "(uint a - uint b) mod 4294967296 = (if uint a < uint b then uint a - uint b + 4294967296 else uint a - uint b)"
  proof (cases "uint a < uint b")
    case True
    have "(uint a - uint b) mod 4294967296 = uint a - uint b + 4294967296"
      by (intro int_mod_pos_eq [of _ _ "- 1"]) (use b True in linarith)+
    with True show ?thesis by simp
  next
    case False
    have "(uint a - uint b) mod 4294967296 = uint a - uint b"
      by (intro mod_pos_pos_trivial) (use b False in linarith)+
    with False show ?thesis by simp
  qed
  have d: "bit (a - b) 31 \<longleftrightarrow> 2147483648 \<le> (if uint a < uint b then uint a - uint b + 4294967296 else uint a - uint b)"
    unfolding difference_sign wrap ..
  have "sint a < sint b \<longleftrightarrow> (if bit a 31 = bit b 31 then bit (a - b) 31 else bit a 31)"
      "a < b \<longleftrightarrow> (if bit a 31 = bit b 31 then bit (a - b) 31 else bit b 31)"
    unfolding sint_sign d unfolding sign_bit word_less_def using signs [OF b] by simp_all
  then show "slt1_table ! (4 * of_bool (bit a 31) + 2 * of_bool (bit b 31) + of_bool (bit (a - b) 31))
      = of_bool (sint a < sint b)"
    "sltu1_table ! (4 * of_bool (bit a 31) + 2 * of_bool (bit b 31) + of_bool (bit (a - b) 31)) = of_bool (a < b)"
    by (auto simp: slt1_table_def sltu1_table_def)
qed

end
