(* ===== verification/Rv_Shift.thy ===== *)
theory Rv_Shift
  imports Rv_Alu
begin

text \<open>
  The shift macros run. A word is shifted byte by byte through the tables, and the parts are added:
  to the left the sum is exact modulo \<open>2 ^ 32\<close>, to the right no two parts share a bit.
\<close>

section \<open>Reading the shift tables\<close>

lemma shamt_read [rv_step]:
  assumes "tables_ok y p m"
  shows "overlay p f m (ucast b + (and8_table y + 7936)) = 31 AND b"
proof -
  have c: "ucast b + (and8_table y + 7936) = and8_table y + cat4 b 31 0 0"
    by (simp add: cat4_index)
  show ?thesis unfolding c logic_read [OF assms] ..
qed

lemma exec_getshamt [rv_step]:
  "tables_ok y p m \<Longrightarrow> R 2 = p \<Longrightarrow> fold exec (getshamt y 8 a) (st R p f m)
    = st (R(4 := and8_table y + 7936, 8 := ucast (31 AND byte_of 0 (rget R a)))) p (f(20 := byte_of 0 (rget R a))) m"
  by (simp add: getshamt_def rv_step)

lemma exec_get_shift_byte:
  assumes "R 2 = p" "tables_ok y p m" "k < 4" "j < 32"
  shows "rget R 8 = sll8_table y + of_nat j * 1024 \<Longrightarrow> fold exec (get_shift_byte_in_tp 8 k) (st R p f m)
      = st (R(4 := push_bit j (ucast (f (16 - k))))) p f m"
    "rget R 8 = srl8_table y + of_nat j * 1024 \<Longrightarrow> fold exec (get_shift_byte_in_tp 8 k) (st R p f m)
      = st (R(4 := drop_bit j (push_bit 24 (ucast (f (16 - k)))))) p f m"
    "rget R 8 = sra8_table y + of_nat j * 1024 \<Longrightarrow> fold exec (get_shift_byte_in_tp 8 k) (st R p f m)
      = st (R(4 := signed_drop_bit j (push_bit 24 (ucast (f (16 - k)))))) p f m"
proof -
  note r = shift_read [OF assms(2,4), simplified]
  have e: "fold exec (get_shift_byte_in_tp 8 k) (st R p f m)
      = st (R(4 := load32 (overlay p f m) (rget R 8 + push_bit 2 (ucast (f (16 - k)))))) p f m"
    using byte_cases [OF assms(3)] assms(1) by (elim disjE) (simp_all add: get_shift_byte_in_tp_def rv_step)
  show "rget R 8 = sll8_table y + of_nat j * 1024 \<Longrightarrow> fold exec (get_shift_byte_in_tp 8 k) (st R p f m)
      = st (R(4 := push_bit j (ucast (f (16 - k))))) p f m"
    "rget R 8 = srl8_table y + of_nat j * 1024 \<Longrightarrow> fold exec (get_shift_byte_in_tp 8 k) (st R p f m)
      = st (R(4 := drop_bit j (push_bit 24 (ucast (f (16 - k)))))) p f m"
    "rget R 8 = sra8_table y + of_nat j * 1024 \<Longrightarrow> fold exec (get_shift_byte_in_tp 8 k) (st R p f m)
      = st (R(4 := signed_drop_bit j (push_bit 24 (ucast (f (16 - k)))))) p f m"
    unfolding e by (simp_all add: r)
qed

lemma exec_sh_scratch [rv_step]:
  "R 2 = p \<Longrightarrow> - 28 \<le> i \<Longrightarrow> i < - 1 \<Longrightarrow> fold exec (sh_macro a (i, 2)) (st R p f m)
    = st (R(4 := ucast (byte_of 1 (rget R a)))) p
        ((put32 24 (rget R a) (f(nat (- i) := byte_of 0 (rget R a))))(nat (- (1 + i)) := byte_of 1 (rget R a))) m"
  by (simp add: sh_macro_def byte_after_def exec_getbyte rv_step)

lemma shift_base: "push_bit 2 (cat4 0 s 0 0) + t = t + of_nat (unat s) * 1024" for t :: u32
  by (simp add: cat4_index push_bit_eq_mult)

section \<open>Shifts to the left\<close>

lemma shamt_below: "unat (31 AND b) < 32" for b :: u8
  using unat_and_below [of "31 :: u8" 5 b] by (simp add: and.commute)

lemma add_disjoint: "(\<And>n. n < 32 \<Longrightarrow> \<not> (bit x n \<and> bit z n)) \<Longrightarrow> x + z = x OR z" for x z :: u32
  by (rule word_or_add) (auto simp: bit_eq_iff bit_simps dest: bit_imp_le_length)

lemma word_sum: "push_bit 24 (ucast (byte_of 3 x)) + push_bit 16 (ucast (byte_of 2 x))
    + push_bit 8 (ucast (byte_of (Suc 0) x)) + ucast (byte_of 0 x) = x"
proof -
  have b: "push_bit 24 (ucast (byte_of 3 x)) + push_bit 16 (ucast (byte_of 2 x)) =
      push_bit 24 (ucast (byte_of 3 x)) OR push_bit 16 (ucast (byte_of 2 x) :: u32)"
    by (rule add_disjoint) (auto simp: bit_simps bit_byte_of)
  have c: "(push_bit 24 (ucast (byte_of 3 x)) OR push_bit 16 (ucast (byte_of 2 x))) + push_bit 8 (ucast (byte_of (Suc 0) x)) =
      push_bit 24 (ucast (byte_of 3 x)) OR push_bit 16 (ucast (byte_of 2 x)) OR push_bit 8 (ucast (byte_of (Suc 0) x) :: u32)"
    by (subst add_disjoint) (auto simp: bit_simps bit_byte_of ac_simps)
  have d: "(push_bit 24 (ucast (byte_of 3 x)) OR push_bit 16 (ucast (byte_of 2 x)) OR push_bit 8 (ucast (byte_of (Suc 0) x))) + ucast (byte_of 0 x) =
      push_bit 24 (ucast (byte_of 3 x)) OR push_bit 16 (ucast (byte_of 2 x)) OR push_bit 8 (ucast (byte_of (Suc 0) x) :: u32) OR ucast (byte_of 0 x)"
    by (subst add_disjoint) (auto simp: bit_simps bit_byte_of ac_simps)
  show ?thesis unfolding b c d by (subst (5) cat4_bytes [of x, symmetric]) (simp add: cat4_def ac_simps)
qed

lemma high_parts: "cat4 0 0 0 (byte_of 0 w) = push_bit 24 w" "cat4 0 0 (byte_of 0 w) (byte_of (Suc 0) w) = push_bit 16 w"
  by (rule bit_word_eqI; auto simp: bit_cat4 bit_byte_of bit_simps; simp add: ac_simps)+

lemma sll_value: "push_bit (24 + j) (ucast (byte_of 3 x)) + push_bit (16 + j) (ucast (byte_of 2 x))
    + push_bit (8 + j) (ucast (byte_of (Suc 0) x)) + push_bit j (ucast (byte_of 0 x)) = push_bit j x"
  by (subst (5) word_sum [of x, symmetric]) (simp add: push_bit_eq_mult power_add algebra_simps)

lemma exec_sll:
  assumes "tables_ok y p m" "R 2 = p"
  shows "yields d (push_bit (unat (31 AND byte_of 0 (rget R b))) (rget R a)) R p m (fold exec (sll_macro y d a b) (st R p f m))"
proof -
  define j where "j = unat (31 AND byte_of 0 (rget R b))"
  have s: "push_bit 2 (cat4 0 (31 AND byte_of 0 (rget R b)) 0 0) + t = t + of_nat j * 1024" for t :: u32
    by (simp add: shift_base j_def)
  have j: "j < 32" unfolding j_def by (rule shamt_below)
  show ?thesis unfolding j_def [symmetric] 
    by (simp add: sll_macro_def var_defs  rv_step assms s j exec_get_shift_byte(1) [where y = y and j = j] high_parts sll_value)
qed

section \<open>Shifts to the right\<close>

definition shifted :: "nat \<Rightarrow> u8 \<Rightarrow> u32" where
  "shifted j b = drop_bit j (push_bit 24 (ucast b))"

lemma bit_shifted: "bit (shifted j b) n \<longleftrightarrow> 24 \<le> j + n \<and> j + n < 32 \<and> bit b (j + n - 24)"
  by (auto simp: shifted_def bit_simps dest: bit_imp_le_length)

lemma bit_part: "bit (ucast (byte_of k (shifted j b)) :: u32) n \<longleftrightarrow>
    n < 8 \<and> 24 \<le> j + 8 * k + n \<and> j + 8 * k + n < 32 \<and> bit b (j + 8 * k + n - 24)"
  by (auto simp: bit_simps bit_byte_of bit_shifted ac_simps)

lemma low_sums:
  "ucast (byte_of (Suc 0) (shifted j b2)) + ucast (byte_of 2 (shifted j b1)) + ucast (byte_of 3 (shifted j b0))
    = ucast (byte_of (Suc 0) (shifted j b2)) OR ucast (byte_of 2 (shifted j b1)) OR (ucast (byte_of 3 (shifted j b0)) :: u32)"
  "ucast (byte_of 2 (shifted j b2)) + ucast (byte_of 3 (shifted j b1))
    = ucast (byte_of 2 (shifted j b2)) OR (ucast (byte_of 3 (shifted j b1)) :: u32)"
proof -
  have a: "ucast (byte_of (Suc 0) (shifted j b2)) + ucast (byte_of 2 (shifted j b1))
      = ucast (byte_of (Suc 0) (shifted j b2)) OR (ucast (byte_of 2 (shifted j b1)) :: u32)"
    by (rule add_disjoint) (auto simp: bit_part)
  show "ucast (byte_of (Suc 0) (shifted j b2)) + ucast (byte_of 2 (shifted j b1)) + ucast (byte_of 3 (shifted j b0))
    = ucast (byte_of (Suc 0) (shifted j b2)) OR ucast (byte_of 2 (shifted j b1)) OR (ucast (byte_of 3 (shifted j b0)) :: u32)"
    unfolding a by (subst add_disjoint) (auto simp: bit_part bit_or_iff ac_simps)
  show "ucast (byte_of 2 (shifted j b2)) + ucast (byte_of 3 (shifted j b1))
    = ucast (byte_of 2 (shifted j b2)) OR (ucast (byte_of 3 (shifted j b1)) :: u32)"
    by (rule add_disjoint) (auto simp: bit_part)
qed

definition low_part :: "nat \<Rightarrow> u32 \<Rightarrow> u32" where
  "low_part j x = (let y0 = shifted j (byte_of 0 x); y1 = shifted j (byte_of (Suc 0) x); y2 = shifted j (byte_of 2 x);
     t = ucast (byte_of (Suc 0) y2) + ucast (byte_of 2 y1) + ucast (byte_of 3 y0)
   in cat4 (byte_of 0 t) (byte_of 0 (ucast (byte_of 2 y2) + ucast (byte_of 3 y1))) (byte_of 3 y2) (byte_of 3 t))"

lemma bit_low_part: "bit (low_part j x) n \<longleftrightarrow> j + n < 24 \<and> bit x (j + n)"
  unfolding low_part_def Let_def low_sums
  by (cases "16 \<le> j + n"; cases "8 \<le> j + n")
    (auto simp: bit_cat4 bit_byte_of bit_or_iff bit_part bit_shifted split: if_splits)

lemma shift_right_value:
  "low_part j x + drop_bit j (push_bit 24 (ucast (byte_of 3 x))) = drop_bit j x"
  "j < 32 \<Longrightarrow> low_part j x + signed_drop_bit j (push_bit 24 (ucast (byte_of 3 x))) = signed_drop_bit j x"
proof -
  show "low_part j x + drop_bit j (push_bit 24 (ucast (byte_of 3 x))) = drop_bit j x"
    by (subst add_disjoint)
      (auto simp: bit_low_part bit_simps bit_byte_of bit_eq_iff dest: bit_imp_le_length)
  show "low_part j x + signed_drop_bit j (push_bit 24 (ucast (byte_of 3 x))) = signed_drop_bit j x" if "j < 32"
    using that by (subst add_disjoint)
      (auto simp: bit_low_part bit_simps bit_byte_of bit_eq_iff bit_signed_drop_bit_iff dest: bit_imp_le_length)
qed

lemma exec_shift_right:
  assumes "tables_ok y p m" "R 2 = p"
  shows "yields d ((if ar then signed_drop_bit else drop_bit) (unat (31 AND byte_of 0 (rget R b))) (rget R a)) R p m
    (fold exec (shift_right_template y d a b ar False) (st R p f m))"
proof -
  define j where "j = unat (31 AND byte_of 0 (rget R b))"
  have s: "push_bit 2 (cat4 0 (31 AND byte_of 0 (rget R b)) 0 0) + t = t + of_nat j * 1024" for t :: u32
    by (simp add: shift_base j_def)
  have j: "j < 32" unfolding j_def by (rule shamt_below)
  have ra: "srl8_table y + of_nat j * 1024 + (sra8_table y - srl8_table y) = sra8_table y + of_nat j * 1024" 
    by (simp add: algebra_simps)
  note v = shift_right_value [of j "rget R a", unfolded low_part_def Let_def shifted_def]
  show ?thesis unfolding j_def [symmetric]
    by (cases ar) (simp_all add: shift_right_template_def var_defs rv_step assms s j ra v
      exec_get_shift_byte(2,3) [where y = y and j = j])
qed

lemma exec_shift_right_imm:
  assumes "tables_ok y p m" "R 2 = p" "j < 32" "d \<noteq> 4"
  shows "yields d ((if ar then signed_drop_bit else drop_bit) j (rget R a)) R p m
    (fold exec (shift_right_template y d a j ar True) (st R p f m))"
proof (cases "j = 24")
  case True
  have u: "ucast (byte_of 3 x) = drop_bit 24 x" for x :: u32
    by (rule bit_word_eqI) (auto simp: bit_byte_of bit_simps dest: bit_imp_le_length)
  have s: "signed_drop_bit 24 (push_bit 24 (ucast (byte_of 3 x))) = signed_drop_bit 24 x" for x :: u32
    by (rule bit_word_eqI) (auto simp: bit_byte_of bit_simps bit_signed_drop_bit_iff dest: bit_imp_le_length)
  have "yields d (signed_drop_bit 24 (rget R a)) R p m (fold exec (shift_right_template y d a 24 True True) (st R p f m))"
    using assms by (cases "d = 0") (simp_all add: shift_right_template_def rv_step shift_read(3) [where j = 24, simplified] s)
  moreover have "yields d (drop_bit 24 (rget R a)) R p m (fold exec (shift_right_template y d a 24 False True) (st R p f m))"
    using assms by (simp add: shift_right_template_def rv_step exec_getbyte u)
  ultimately show ?thesis using True by (cases ar) simp_all
next
  case False
  have s: "push_bit 10 (of_nat j) = (of_nat j * 1024 :: u32)" by (simp add: push_bit_eq_mult)
  have ra: "srl8_table y + of_nat j * 1024 + (sra8_table y - srl8_table y) = sra8_table y + of_nat j * 1024" 
    by (simp add: algebra_simps)
  note v = shift_right_value [of j "rget R a", unfolded low_part_def Let_def shifted_def]
  show ?thesis using False
    by (cases ar) (simp_all add: shift_right_template_def var_defs rv_step assms s ra v
      exec_get_shift_byte(2,3) [where y = y and j = j])
qed

section \<open>Shifts by a constant to the left\<close>

lemma exec_slli:
  assumes "R 2 = p" "n < 32" "d \<noteq> 2"
  shows "yields d (push_bit n (rget R a)) R p m (fold exec (slli_macro d a n) (st R p f m))"
proof -
  consider "n < 16" | "16 \<le> n" "n < 24" | "24 \<le> n" by linarith
  then show ?thesis
  proof cases
    case 1
    then show ?thesis by (simp add: rv_step)
  next
    case 2
    then have "push_bit (n - 16) (push_bit 16 (rget R a)) = push_bit n (rget R a)" by simp
    with 2 show ?thesis using assms
      by (subst slli_macro.simps) (simp add: rv_step high_parts)
  next
    case 3
    then have "push_bit (n - 24) (push_bit 24 (rget R a)) = push_bit n (rget R a)" by simp
    with 3 show ?thesis using assms
      by (subst slli_macro.simps) (simp add: rv_step high_parts)
  qed
qed

end
