(* ===== verification/Rv_Branch.thy ===== *)
theory Rv_Branch
  imports Rv_Shift
begin

text \<open>Loads, stores and branches of the minimal machine.\<close>

section \<open>Loads and stores\<close>

lemma ea_upd [rv_step]: "b \<noteq> c \<Longrightarrow> ea (R(c := v)) (i, b) = ea R (i, b)"
  by (simp add: ea_def rget_def)

lemma exec_lbu_at:
  "\<not> below_sp p (ea R x) \<Longrightarrow> exec (LBU d x) (st R p f m) = st (rset d (ucast (m (ea R x))) R) p f m"
  by (simp add: st_def exec.simps overlay_outside)

lemma exec_sb_at:
  "\<not> below_sp p (ea R x) \<Longrightarrow> exec (SB a x) (st R p f m) = st R p f (m(ea R x := byte_of 0 (rget R a)))"
  by (auto simp: st_def exec.simps overlay_def below_sp_def fun_eq_iff)

lemma byte_after_ea: "ea R (byte_after k x) = ea R x + word_of_int k"
  by (simp add: byte_after_def ea_def)

lemma ea_upd_at [rv_step]: "snd x \<noteq> c \<Longrightarrow> ea (R(c := v)) x = ea R x"
  by (simp add: ea_def rget_def)

lemma exec_srai:
  "tables_ok y p m \<Longrightarrow> R 2 = p \<Longrightarrow> j < 32 \<Longrightarrow> d \<noteq> 4 \<Longrightarrow>
    yields d (signed_drop_bit j (rget R a)) R p m (fold exec (srai_macro y d a j) (st R p f m))"
  unfolding srai_macro_def by (rule exec_shift_right_imm [where ar = True, unfolded if_True])

lemma load_values: "signed_drop_bit 24 (cat4 0 0 0 b) = scast b" "cat4 0 c 0 0 = push_bit 8 (ucast c)"
  for b c :: u8
   by (rule bit_word_eqI; auto simp: bit_cat4 bit_simps bit_signed_drop_bit_iff dest: bit_imp_le_length)+

lemma yields_from: "yields d v R1 p m s \<Longrightarrow> (\<And>r. r \<notin> {3, 4, d} \<Longrightarrow> rget R1 r = rget R r) \<Longrightarrow> yields d v R p m s"
  unfolding yields_def by metis

lemma exec_lb:
  assumes "tables_ok y p m" "R 2 = p" "d \<notin> {2, 4}" "\<not> below_sp p (ea R x)"
  shows "yields d (scast (m (ea R x))) R p m (fold exec (lb_macro y d x) (st R p f m))"
proof -
  let ?b = "if d = 0 then 0 else m (ea R x)"
  have e: "fold exec (lb_macro y d x) (st R p f m)
      = fold exec (srai_macro y d d 24) (st (rset d (cat4 0 0 0 ?b) R) p ((put32 16 0 f)(13 := ?b)) m)"
    using assms by (simp add: lb_macro_def rv_step exec_lbu_at)
  have "yields d (signed_drop_bit 24 (rget (rset d (cat4 0 0 0 ?b) R) d)) (rset d (cat4 0 0 0 ?b) R) p m
      (fold exec (lb_macro y d x) (st R p f m))"
    unfolding e using assms(1-3) by (intro exec_srai) simp_all
  then have "yields d (signed_drop_bit 24 (rget (rset d (cat4 0 0 0 ?b) R) d)) R p m (fold exec (lb_macro y d x) (st R p f m))"
    by (rule yields_from) simp
  then show ?thesis by (cases "d = 0") (simp_all add: load_values yields_def)
qed

lemma exec_lhu:
  assumes "tables_ok y p m" "R 2 = p" "d \<noteq> 4" "snd x \<noteq> 4" "\<not> below_sp p (ea R x)" "\<not> below_sp p (ea R x + 1)"
  shows "yields d (cat4 (m (ea R x)) (m (ea R x + 1)) 0 0) R p m (fold exec (lhu_macro d x) (st R p f m))"
proof -
  have "ucast b + cat4 0 c 0 0 = cat4 b c 0 0" for b c :: u8
    by (simp add: cat4_index)
  then show ?thesis
    using assms by (simp add: lhu_macro_def rv_step exec_lbu_at byte_after_ea)
qed

lemma exec_lh:
  assumes "tables_ok y p m" "R 2 = p" "d \<notin> {2, 3}" "snd x \<notin> {3, 4}" "\<not> below_sp p (ea R x)" "\<not> below_sp p (ea R x + 1)"
  shows "yields d (signed_drop_bit 16 (cat4 0 0 (m (ea R x)) (m (ea R x + 1)))) R p m (fold exec (lh_macro y d x) (st R p f m))"
proof -
  let ?R = "R(3 := cat4 0 0 0 (m (ea R x + 1)))"
  have "fold exec (lh_macro y d x) (st R p f m) = exec (ADD d d 3) (exec (LBU d (byte_after 0 x))
      (fold exec (srai_macro y 3 3 16) (st ?R p ((put32 16 0 f)(13 := m (ea R x + 1))) m)))"
    using assms by (simp add: lh_macro_def rv_step exec_lbu_at byte_after_ea)
  moreover have "yields 3 (signed_drop_bit 16 (rget ?R 3)) ?R p m
      (fold exec (srai_macro y 3 3 16) (st ?R p ((put32 16 0 f)(13 := m (ea R x + 1))) m))"
    using assms(1,2) by (intro exec_srai) simp_all
  ultimately obtain R' f' where s: "fold exec (lh_macro y d x) (st R p f m) = exec (ADD d d 3) (exec (LBU d (byte_after 0 x)) (st R' p f' m))"
    and R': "rget R' 3 = signed_drop_bit 16 (cat4 0 0 0 (m (ea R x + 1)))" "\<And>r. r \<notin> {3, 4} \<Longrightarrow> rget R' r = rget R r"
    unfolding yields_def by auto
  have x: "ea R' (byte_after 0 x) = ea R x" using assms(4) R'(2) by (simp add: byte_after_def ea_def)
  have v: "ucast b + signed_drop_bit 16 (cat4 0 0 0 c) = signed_drop_bit 16 (cat4 0 0 b c)" for b c :: u8
    by (subst add_disjoint) (auto simp: bit_eq_iff bit_cat4 bit_simps bit_signed_drop_bit_iff dest: bit_imp_le_length)
  show ?thesis
    unfolding s using assms R' by (simp add: rv_step exec_lbu_at x v)
qed

lemma exec_sh:
  assumes "R 2 = p" "a \<noteq> 4" "snd x \<noteq> 4" "\<not> below_sp p (ea R x)" "\<not> below_sp p (ea R x + 1)"
  shows "fold exec (sh_macro a x) (st R p f m) = st (R(4 := ucast (byte_of 1 (rget R a)))) p (put32 24 (rget R a) f)
    (m(ea R x := byte_of 0 (rget R a), ea R x + 1 := byte_of 1 (rget R a)))"
  using assms by (simp add: sh_macro_def rv_step exec_sb_at byte_after_ea exec_getbyte)

section \<open>Branches\<close>

definition straight :: "instr list \<Rightarrow> bool" where
  "straight c \<longleftrightarrow> list_all (\<lambda>i. \<not> is_jump i) c"

lemma straight_simps [simp]: "straight []" "straight (i # c) \<longleftrightarrow> \<not> is_jump i \<and> straight c"
    "straight (c @ c') \<longleftrightarrow> straight c \<and> straight c'" "straight (replicate n (ADD d a b))"
  by (auto simp: straight_def list_all_iff)

lemma straight_slli [simp]: "straight (slli_macro d a n)"
  by (induction d a n rule: slli_macro.induct)
    (subst slli_macro.simps, simp add: mv_def sh_macro_def getbyte_def)

lemma straight_parts [simp]: "straight (la d t)" "straight (getbyte d a k)" "straight (sh_macro a x)" "straight (msb_macro d a)"
    "straight (not_macro y d a)" "straight (sub_macro y d a b)" "straight (slt_template y t d a b)"
    "straight (seqz_macro y d a)" "straight (seq_macro y d a b)" "straight (not_positive y a)"
  by (simp_all add: la_def getbyte_def sh_macro_def msb_macro_def not_macro_def not_byte_def sub_macro_def slt_template_def
      PUSH_def POP_def mv_def seqz_macro_def seq_macro_def check_8bit_0_def check_8bit_same_def not_positive_def)

lemma straight_shifts [simp]: "straight (get_shift_byte_in_tp a k)" "straight (getshamt y d a)" "straight (sll_macro y d a b)"
    "straight (shift_right_template y d a b ar im)"
  by (simp_all add: get_shift_byte_in_tp_def getshamt_def sll_macro_def shift_right_template_def PUSH_def POP_def)

lemma exec_lw_at:
  "rget R r + word_of_int i = p + word_of_int k \<Longrightarrow> - 28 \<le> k \<Longrightarrow> k \<le> - 4 \<Longrightarrow>
    exec (LW d (i, r)) (st R p f m) = st (rset d (get32 (nat (- k)) f) R) p f m"
  by (simp add: st_def exec.simps ea_def scratch_load32)

lemma exec_branch_resolve:
  assumes "R 2 = p" "rget R 4 = of_bool c"
  shows "\<exists>R' f'. run_code pc (branch_resolve y target h label) (st R p f m)
    = ((if c = h then target else label) AND NOT 1, st R' p f' m) \<and> (\<forall>r. r \<notin> {3, 4} \<longrightarrow> rget R' r = rget R r)"
proof -
  have r: "rget R 2 = p" using assms(1) by (simp add: rget_def)
  note run = run_code_append [unfolded straight_def [symmetric]]
  have j: "run_code q [jr 4] (st R' p f' m) = (rget R' 4 AND NOT 1, st R' p f' m)" for q R' f'
    by (simp add: jr_def st_def ea_zero)
  define pre where "pre = slli_macro tp tp 2 @ [ADD tp sp tp]
     @ (if h then la gp target @ [SW gp (SP_VAR VAR_A)] @ la gp label @ [SW gp (SP_VAR VAR_B)]
        else la gp label @ [SW gp (SP_VAR VAR_A)] @ la gp target @ [SW gp (SP_VAR VAR_B)]) @ [LW tp (- int VAR_B * 4, tp)]"
  have b: "branch_resolve y target h label = pre @ [jr 4]" by (simp add: branch_resolve_def pre_def)
  have s: "straight pre" by (simp add: pre_def)
  have "\<exists>R' f'. fold exec pre (st R p f m) = st R' p f' m \<and> rget R' 4 = (if c = h then target else label)
      \<and> (\<forall>r. r \<notin> {3, 4} \<longrightarrow> rget R' r = rget R r)"
    using assms r
    by (cases c; cases h) (auto simp: pre_def rv_step exec_lw_at [where k = "- 16"] exec_lw_at [where k = "- 20"]
      intro!: exI)
  then obtain R' f' where e: "fold exec pre (st R p f m) = st R' p f' m" "rget R' 4 = (if c = h then target else label)"
      "\<forall>r. r \<notin> {3, 4} \<longrightarrow> rget R' r = rget R r"
    by blast
  have "run_code pc (branch_resolve y target h label) (st R p f m) = (rget R' 4 AND NOT 1, st R' p f' m)"
    by (simp only: b run [OF s] e(1) j)
  with e show ?thesis by auto
qed

lemma resolve:
  assumes "straight cond" "yields 4 (of_bool c) R p m' (fold exec cond (st R p f m))" "R 2 = p"
    and "target AND NOT 1 = target" "label AND NOT 1 = label"
  shows "\<exists>R' f'. run_code pc (cond @ branch_resolve y target h label) (st R p f m)
    = (if c = h then target else label, st R' p f' m') \<and> (\<forall>r. r \<notin> {3, 4} \<longrightarrow> rget R' r = rget R r)"
proof -
  obtain R1 f1 where 1: "fold exec cond (st R p f m) = st R1 p f1 m'" "rget R1 4 = of_bool c"
      "\<And>r. r \<notin> {3, 4} \<Longrightarrow> rget R1 r = rget R r"
    using assms(2) unfolding yields_def by auto
  have "R1 2 = p" using 1(3) [of 2] assms(3) by (simp add: rget_def)
  then obtain R' f' where "run_code (pc + 4 * of_nat (length cond)) (branch_resolve y target h label) (st R1 p f1 m')
      = ((if c = h then target else label) AND NOT 1, st R' p f' m')" "\<And>r. r \<notin> {3, 4} \<Longrightarrow> rget R' r = rget R1 r"
    using exec_branch_resolve [OF _ 1(2)] by blast
  then show ?thesis
    using run_code_append [OF assms(1) [unfolded straight_def]] 1 assms(4,5) by (cases "c = h") auto
qed

lemma or_read: "tables_ok y p m \<Longrightarrow> overlay p f m (of_bool b0 + of_bool b1 + or1_addr y) = of_bool (b0 \<or> b1)"
  using table_reads(6) [of y p m 0 f] table_reads(6) [of y p m 1 f] table_reads(6) [of y p m 2 f]
  by (simp add: or1_table_def add.commute)

lemma sign_facts: "bit x 31 \<longleftrightarrow> sint x < 0" "bit x 31 \<or> bit (x - 1) 31 \<longleftrightarrow> sint x \<le> 0" for x :: u32
proof -
  note b = u32_bounds [of x]
  show "bit x 31 \<longleftrightarrow> sint x < 0"
    unfolding sint_sign sign_bit using b by simp
  have "(uint x - 1) mod 4294967296 = (if uint x = 0 then 4294967295 else uint x - 1)"
    using b by (cases "uint x = 0") (simp, simp only: if_False, intro mod_pos_pos_trivial, linarith+)
  then have d: "bit (x - 1) 31 \<longleftrightarrow> 2147483648 \<le> (if uint x = 0 then 4294967295 else uint x - 1)"
    using difference_sign [of x 1] by simp
  show "bit x 31 \<or> bit (x - 1) 31 \<longleftrightarrow> sint x \<le> 0"
    unfolding sint_sign d unfolding sign_bit using b by auto
qed

lemma exec_not_positive:
  assumes "tables_ok y p m" "R 2 = p" "a \<noteq> 3"
  shows "yields 4 (of_bool (sint (rget R a) \<le> 0)) R p m (fold exec (not_positive y a) (st R p f m))"
  using assms by (simp add: not_positive_def rv_step or_read sign_facts(2) [symmetric])

lemma exec_signed_less:
  assumes "tables_ok y p m" "R 2 = p" "a \<notin> {3, 4}" "b \<noteq> 3"
  shows "yields d (of_bool (sint (rget R a) < sint (rget R b))) R p m (fold exec (slt_macro y d a b) (st R p f m))"
    "yields d (of_bool (rget R a < rget R b)) R p m (fold exec (sltu_macro y d a b) (st R p f m))"
proof -
  have u: "(of_bool P :: u32) = ucast (of_bool P :: u8)" for P by simp
  show "yields d (of_bool (sint (rget R a) < sint (rget R b))) R p m (fold exec (slt_macro y d a b) (st R p f m))"
    "yields d (of_bool (rget R a < rget R b)) R p m (fold exec (sltu_macro y d a b) (st R p f m))"
    unfolding slt_macro_def sltu_macro_def u slt_value [symmetric]
    by (rule exec_slt; use assms table_reads(4,5) [OF assms(1)] in simp)+
qed

section \<open>Branch instructions\<close>

datatype branch = Beq | Bne | Blt | Bltu | Bge | Bgeu

definition expand_branch :: "symbols \<Rightarrow> branch \<Rightarrow> nat \<Rightarrow> nat \<Rightarrow> u32 \<Rightarrow> u32 \<Rightarrow> instr list" where
  "expand_branch y b = (case b of Beq \<Rightarrow> beq_macro y | Bne \<Rightarrow> bne_macro y | Blt \<Rightarrow> blt_macro y
     | Bltu \<Rightarrow> bltu_macro y | Bge \<Rightarrow> bge_macro y | Bgeu \<Rightarrow> bgeu_macro y)"

definition branch_taken :: "branch \<Rightarrow> u32 \<Rightarrow> u32 \<Rightarrow> bool" where
  "branch_taken b x z = (case b of Beq \<Rightarrow> x = z | Bne \<Rightarrow> x \<noteq> z | Blt \<Rightarrow> sint x < sint z
     | Bltu \<Rightarrow> x < z | Bge \<Rightarrow> sint z \<le> sint x | Bgeu \<Rightarrow> z \<le> x)"

text \<open>The part of a branch before the choice of the target, and the value of \<open>tp\<close> that selects it.\<close>

definition branch_cond :: "symbols \<Rightarrow> branch \<Rightarrow> nat \<Rightarrow> nat \<Rightarrow> instr list" where
  "branch_cond y b a c = (case b of
     Blt \<Rightarrow> if c = 0 then msb_macro 4 a else if a = 0 then not_positive y c else slt_macro y 4 a c
   | Bge \<Rightarrow> if a = 0 then not_positive y c else slt_macro y 4 a c
   | Bltu \<Rightarrow> sltu_macro y 4 a c | Bgeu \<Rightarrow> sltu_macro y 4 a c
   | _ \<Rightarrow> if c = 0 then seqz_macro y 4 a else if a = 0 then seqz_macro y 4 c else seq_macro y 4 a c)"

definition branch_sel :: "branch \<Rightarrow> nat \<Rightarrow> nat \<Rightarrow> bool" where
  "branch_sel b a c = (case b of Beq \<Rightarrow> True | Bne \<Rightarrow> False | Blt \<Rightarrow> c = 0 \<or> a \<noteq> 0 | Bltu \<Rightarrow> True | Bge \<Rightarrow> a = 0 | Bgeu \<Rightarrow> False)"

lemma branch_split: "expand_branch y b a c target label = branch_cond y b a c @ branch_resolve y target (branch_sel b a c) label"
    "straight (branch_cond y b a c)"
  by (cases b; simp add: expand_branch_def beq_macro_def bne_macro_def blt_macro_def bltu_macro_def bge_macro_def
      bgeu_macro_def branch_cond_def branch_sel_def slt_macro_def sltu_macro_def)+

lemma branch_value:
  assumes ok: "tables_ok y p m" and R: "R 2 = p" and r: "a \<notin> {3, 4}" "c \<notin> {3, 4}"
  shows "\<exists>m'. yields 4 (of_bool (branch_taken b (rget R a) (rget R c) = branch_sel b a c)) R p m'
      (fold exec (branch_cond y b a c) (st R p f m)) \<and> tables_ok y p m' \<and> (\<forall>x. \<not> in_check y x \<longrightarrow> m' x = m x)"
proof -
  have same: "(v :: bool) = True \<longleftrightarrow> v" "v = False \<longleftrightarrow> \<not> v" for v by simp_all
  have z: "yields 4 (of_bool (rget R q = 0)) R p m (fold exec (seqz_macro y 4 q) (st R p f m))" for q
    by (rule exec_seqz [where R = R, OF ok R]) simp_all
  have e: "\<exists>m'. yields 4 (of_bool (rget R a = rget R c)) R p m' (fold exec (seq_macro y 4 a c) (st R p f m))
      \<and> tables_ok y p m' \<and> (\<forall>x. \<not> in_check y x \<longrightarrow> m' x = m x)"
    by (rule exec_seq [where R = R, OF ok R]) simp
  note l = exec_signed_less [where R = R and d = 4 and b = c and f = f, OF ok R r(1)]
  have np: "yields 4 (of_bool (sint (rget R c) \<le> 0)) R p m (fold exec (not_positive y c) (st R p f m))"
    using r by (intro exec_not_positive [where R = R, OF ok R]) simp
  have ms: "yields 4 (of_bool (sint (rget R a) < 0)) R p m (fold exec (msb_macro 4 a) (st R p f m))"
    using R by (simp add: rv_step sign_facts(1) [symmetric])
  show ?thesis
    using z z [of 0, simplified] e l np ms ok r
    by (cases b) (auto simp: branch_cond_def branch_sel_def branch_taken_def not_less not_le same
      simp del: of_bool_eq_iff split del: split_of_bool)
qed

lemma exec_branch:
  assumes "tables_ok y p m" "R 2 = p" "a \<notin> {3, 4}" "c \<notin> {3, 4}"
    and "target AND NOT 1 = target" "label AND NOT 1 = label"
  shows "\<exists>R' f' m'. run_code pc (expand_branch y b a c target label) (st R p f m)
      = (if branch_taken b (rget R a) (rget R c) then target else label, st R' p f' m')
    \<and> (\<forall>r. r \<notin> {3, 4} \<longrightarrow> rget R' r = rget R r) \<and> tables_ok y p m' \<and> (\<forall>x. \<not> in_check y x \<longrightarrow> m' x = m x)"
proof -
  obtain m' where v: "yields 4 (of_bool (branch_taken b (rget R a) (rget R c) = branch_sel b a c)) R p m'
      (fold exec (branch_cond y b a c) (st R p f m))" and m': "tables_ok y p m'" "\<forall>x. \<not> in_check y x \<longrightarrow> m' x = m x"
    using branch_value [where R = R, OF assms(1-4)] by blast
  have s: "((t = h) = h) = t" for t h :: bool by blast
  from resolve [OF branch_split(2) v assms(2,5,6), where h = "branch_sel b a c" and pc = pc] m'
  show ?thesis unfolding branch_split(1) s by blast
qed

end
