(* ===== verification/Rv_Block.thy ===== *)
theory Rv_Block
  imports Rv_Branch
begin

text \<open>
  Programs of the minimal machine. A straight-line sequence of RV32I instructions and its expansion
  compute the same, up to the two temporary registers, the area below the stack pointer and the
  array of \<open>seq\<close>; a branch expands to code that goes where the branch goes.
\<close>

section \<open>Instructions and their meaning\<close>

datatype rop = Sub | Slt | Sltu | And | Or | Xor | Sll | Srl | Sra
datatype iop = Slti | Sltiu | Andi | Ori | Xori | Slli | Srli | Srai

datatype inst = Base instr | Rop rop nat nat nat | Iop iop nat nat int
  | Lb nat operand | Lh nat operand | Lhu nat operand | Sh nat operand

definition rop_value :: "rop \<Rightarrow> u32 \<Rightarrow> u32 \<Rightarrow> u32" where
  "rop_value op a b = (case op of
     Sub \<Rightarrow> a - b | Slt \<Rightarrow> of_bool (sint a < sint b) | Sltu \<Rightarrow> of_bool (a < b)
   | And \<Rightarrow> a AND b | Or \<Rightarrow> a OR b | Xor \<Rightarrow> a XOR b
   | Sll \<Rightarrow> push_bit (unat (take_bit 5 b)) a | Srl \<Rightarrow> drop_bit (unat (take_bit 5 b)) a
   | Sra \<Rightarrow> signed_drop_bit (unat (take_bit 5 b)) a)"

definition iop_value :: "iop \<Rightarrow> u32 \<Rightarrow> int \<Rightarrow> u32" where
  "iop_value op a imm = (case op of
     Slti \<Rightarrow> rop_value Slt a (word_of_int imm) | Sltiu \<Rightarrow> rop_value Sltu a (word_of_int imm)
   | Andi \<Rightarrow> rop_value And a (word_of_int imm) | Ori \<Rightarrow> rop_value Or a (word_of_int imm)
   | Xori \<Rightarrow> rop_value Xor a (word_of_int imm)
   | Slli \<Rightarrow> push_bit (nat imm) a | Srli \<Rightarrow> drop_bit (nat imm) a | Srai \<Rightarrow> signed_drop_bit (nat imm) a)"

definition load16 :: "mem \<Rightarrow> u32 \<Rightarrow> u16" where
  "load16 M a = ucast (M a) OR push_bit 8 (ucast (M (a + 1)))"

fun isa :: "inst \<Rightarrow> mini \<Rightarrow> mini" where
  "isa (Base i) s = exec i s"
| "isa (Rop op d a b) s = s\<lparr>xreg := rset d (rop_value op (rget (xreg s) a) (rget (xreg s) b)) (xreg s)\<rparr>"
| "isa (Iop op d a imm) s = s\<lparr>xreg := rset d (iop_value op (rget (xreg s) a) imm) (xreg s)\<rparr>"
| "isa (Lb d x) s = s\<lparr>xreg := rset d (scast (xmem s (ea (xreg s) x))) (xreg s)\<rparr>"
| "isa (Lh d x) s = s\<lparr>xreg := rset d (scast (load16 (xmem s) (ea (xreg s) x))) (xreg s)\<rparr>"
| "isa (Lhu d x) s = s\<lparr>xreg := rset d (ucast (load16 (xmem s) (ea (xreg s) x))) (xreg s)\<rparr>"
| "isa (Sh a x) s = s\<lparr>xmem := (xmem s)(ea (xreg s) x := byte_of 0 (rget (xreg s) a),
     ea (xreg s) x + 1 := byte_of 1 (rget (xreg s) a))\<rparr>"

fun expand :: "symbols \<Rightarrow> inst \<Rightarrow> instr list option" where
  "expand y (Base i) = Some [i]"
| "expand y (Rop op d a b) = (case op of
     Sub \<Rightarrow> Some (sub_macro y d a b) | Slt \<Rightarrow> Some (slt_macro y d a b) | Sltu \<Rightarrow> Some (sltu_macro y d a b)
   | And \<Rightarrow> and_macro y d a b | Or \<Rightarrow> or_macro y d a b | Xor \<Rightarrow> xor_macro y d a b
   | Sll \<Rightarrow> Some (sll_macro y d a b) | Srl \<Rightarrow> Some (srl_macro y d a b) | Sra \<Rightarrow> Some (sra_macro y d a b))"
| "expand y (Iop op d a imm) = (case op of
     Slti \<Rightarrow> Some (slti_macro y d a imm) | Sltiu \<Rightarrow> Some (sltiu_macro y d a imm)
   | Andi \<Rightarrow> andi_macro y d a imm | Ori \<Rightarrow> ori_macro y d a imm | Xori \<Rightarrow> xori_macro y d a imm
   | Slli \<Rightarrow> Some (slli_macro d a (nat imm)) | Srli \<Rightarrow> Some (srli_macro y d a (nat imm))
   | Srai \<Rightarrow> Some (srai_macro y d a (nat imm)))"
| "expand y (Lb d x) = Some (lb_macro y d x)"
| "expand y (Lh d x) = Some (lh_macro y d x)"
| "expand y (Lhu d x) = Some (lhu_macro d x)"
| "expand y (Sh a x) = Some (sh_macro a x)"

section \<open>Which instructions a program may use\<close>

text \<open>The conventions of the tool chain: a program does not use \<open>gp\<close> and \<open>tp\<close>, leaves the stack
  pointer alone within the block, and touches neither the area below it nor the array of \<open>seq\<close>.\<close>

fun base_regs :: "instr \<Rightarrow> nat list" where
  "base_regs (ADD d a b) = [d, a, b]" | "base_regs (ADDI d a i) = [d, a]" | "base_regs (LUI d v) = [d]"
| "base_regs (LW d x) = [d, snd x]" | "base_regs (LBU d x) = [d, snd x]" | "base_regs (SW a x) = [a, snd x]"
| "base_regs (SB a x) = [a, snd x]" | "base_regs (JALR d x) = [d, snd x]"

fun regs_of :: "inst \<Rightarrow> nat list" where
  "regs_of (Base i) = base_regs i" | "regs_of (Rop op d a b) = [d, a, b]" | "regs_of (Iop op d a imm) = [d, a]"
| "regs_of (Lb d x) = [d, snd x]" | "regs_of (Lh d x) = [d, snd x]" | "regs_of (Lhu d x) = [d, snd x]"
| "regs_of (Sh a x) = [a, snd x]"

fun dest_of :: "inst \<Rightarrow> nat" where
  "dest_of (Base i) = (case i of ADD d a b \<Rightarrow> d | ADDI d a imm \<Rightarrow> d | LUI d v \<Rightarrow> d | LW d x \<Rightarrow> d | LBU d x \<Rightarrow> d | _ \<Rightarrow> 0)"
| "dest_of (Rop op d a b) = d" | "dest_of (Iop op d a imm) = d"
| "dest_of (Lb d x) = d" | "dest_of (Lh d x) = d" | "dest_of (Lhu d x) = d" | "dest_of (Sh a x) = 0"

fun touched :: "inst \<Rightarrow> (nat \<Rightarrow> u32) \<Rightarrow> u32 list" where
  "touched (Base i) R = (case i of LBU d x \<Rightarrow> [ea R x] | SB a x \<Rightarrow> [ea R x]
     | LW d x \<Rightarrow> [ea R x, ea R x + 1, ea R x + 2, ea R x + 3]
     | SW a x \<Rightarrow> [ea R x, ea R x + 1, ea R x + 2, ea R x + 3] | _ \<Rightarrow> [])"
| "touched (Lb d x) R = [ea R x]"
| "touched (Lh d x) R = [ea R x, ea R x + 1]" | "touched (Lhu d x) R = [ea R x, ea R x + 1]"
| "touched (Sh a x) R = [ea R x, ea R x + 1]"
| "touched i R = []"

fun shift_ok :: "inst \<Rightarrow> bool" where
  "shift_ok (Iop op d a imm) = (op \<in> {Slli, Srli, Srai} \<longrightarrow> 0 \<le> imm \<and> imm < 32)"
| "shift_ok (Base i) = (\<not> is_jump i)"
| "shift_ok i = True"

definition usable :: "symbols \<Rightarrow> u32 \<Rightarrow> inst \<Rightarrow> mini \<Rightarrow> bool" where
  "usable y p i s \<longleftrightarrow> list_all (\<lambda>r. r \<noteq> gp \<and> r \<noteq> tp) (regs_of i) \<and> dest_of i \<noteq> sp \<and> shift_ok i
     \<and> list_all (\<lambda>a. \<not> below_sp p a \<and> \<not> in_check y a) (touched i (xreg s))"

section \<open>One instruction\<close>

definition simulates :: "u32 \<Rightarrow> mini \<Rightarrow> mini \<Rightarrow> bool" where
  "simulates p t s \<longleftrightarrow> (\<exists>R' f' m'. s = st R' p f' m' \<and> (\<forall>r. r \<notin> {3, 4} \<longrightarrow> rget R' r = rget (xreg t) r)
     \<and> (\<forall>a. \<not> below_sp p a \<longrightarrow> m' a = xmem t a))"

lemma yields_simulates:
  "yields d v R p m s \<Longrightarrow> d \<notin> {3, 4} \<Longrightarrow> simulates p (st R p f m\<lparr>xreg := rset d v R\<rparr>) s"
  unfolding yields_def simulates_def
  by (auto simp: st_def overlay_outside) (metis rget_0 rget_rset)

lemma shamt_eq: "unat (31 AND byte_of 0 x) = unat (take_bit 5 x)"
proof -
  have m: "31 = (mask 5 :: u8)" by (simp add: mask_eq_exp_minus_1)
  have "ucast (31 AND byte_of 0 x) = take_bit 5 x"
    unfolding m by (rule bit_word_eqI) (auto simp: bit_simps bit_byte_of bit_mask_iff)
  then have "unat (take_bit 5 x) = unat (ucast (31 AND byte_of 0 x) :: u32)" by simp
  then show ?thesis by (simp add: unat_ucast_up)
qed

lemma load16_values: "cat4 (M a) (M (a + 1)) 0 0 = ucast (load16 M a)"
    "signed_drop_bit 16 (cat4 0 0 (M a) (M (a + 1))) = scast (load16 M a)"
  by (rule bit_word_eqI; auto simp: load16_def bit_cat4 bit_simps bit_signed_drop_bit_iff dest: bit_imp_le_length)+

lemma cat4_ops:
  "cat4 (byte_of 0 x AND byte_of 0 z) (byte_of 1 x AND byte_of 1 z) (byte_of 2 x AND byte_of 2 z) (byte_of 3 x AND byte_of 3 z) = x AND z"
  "cat4 (byte_of 0 x OR byte_of 0 z) (byte_of 1 x OR byte_of 1 z) (byte_of 2 x OR byte_of 2 z) (byte_of 3 x OR byte_of 3 z) = x OR z"
  "cat4 (byte_of 0 x XOR byte_of 0 z) (byte_of 1 x XOR byte_of 1 z) (byte_of 2 x XOR byte_of 2 z) (byte_of 3 x XOR byte_of 3 z) = x XOR z"
  by (rule bit_word_eqI; auto simp: bit_cat4 bit_byte_of bit_simps dest: bit_imp_le_length)+

lemma straight_logic: "logic_macro t d a b = Some c \<Longrightarrow> straight c"
  by (auto simp: logic_macro_def logic8_byte_internal_def split: if_splits)

lemma logic_correct:
  assumes "tables_ok y p m" "R 2 = p"
  shows "and_macro y d a b = Some c \<Longrightarrow> yields d (rget R a AND rget R b) R p m (fold exec c (st R p f m))"
    "or_macro y d a b = Some c \<Longrightarrow> yields d (rget R a OR rget R b) R p m (fold exec c (st R p f m))"
    "xor_macro y d a b = Some c \<Longrightarrow> yields d (rget R a XOR rget R b) R p m (fold exec c (st R p f m))"
  unfolding and_macro_def or_macro_def xor_macro_def
  by (rule exec_logic [where op = "(AND)" and R = R, OF assms _ logic_read(1) [OF assms(1)] cat4_ops(1)]
      exec_logic [where op = "(OR)" and R = R, OF assms _ logic_read(2) [OF assms(1)] cat4_ops(2)]
      exec_logic [where op = "(XOR)" and R = R, OF assms _ logic_read(3) [OF assms(1)] cat4_ops(3)]; assumption)+

lemma rop_correct:
  assumes "tables_ok y p m" "R 2 = p" "expand y (Rop op d a b) = Some c" "a \<notin> {3, 4}" "b \<noteq> 3"
  shows "yields d (rop_value op (rget R a) (rget R b)) R p m (fold exec c (st R p f m))"
proof (cases op)
  case Sub
  then show ?thesis using assms by (auto simp: rop_value_def rv_step)
next
  case Sll
  then show ?thesis using assms(3) exec_sll [where R = R and f = f and d = d and a = a and b = b, OF assms(1,2)] by (auto simp: rop_value_def shamt_eq)
next
  case Srl
  then show ?thesis using assms(3) exec_shift_right [where R = R and ar = False and f = f and d = d and a = a and b = b, OF assms(1,2)]
    by (auto simp: rop_value_def shamt_eq srl_macro_def)
next
  case Sra
  then show ?thesis using assms(3) exec_shift_right [where R = R and ar = True and f = f and d = d and a = a and b = b, OF assms(1,2)]
    by (auto simp: rop_value_def shamt_eq sra_macro_def)
qed (use assms(3) exec_signed_less [where R = R, OF assms(1,2,4,5)] logic_correct [where R = R, OF assms(1,2)]
  in \<open>auto simp: rop_value_def split del: split_of_bool\<close>)

lemma expand_straight: "expand y i = Some c \<Longrightarrow> shift_ok i \<Longrightarrow> straight c"
  by (cases i) (auto simp: slt_macro_def sltu_macro_def and_macro_def or_macro_def xor_macro_def srl_macro_def sra_macro_def
      slti_macro_def sltiu_macro_def andi_macro_def ori_macro_def xori_macro_def srli_macro_def srai_macro_def li_def
      lb_macro_def lh_macro_def lhu_macro_def straight_logic split: rop.splits iop.splits)

lemma iop_rop:
  assumes "expand y (Iop op d a imm) = Some c" "op \<notin> {Slli, Srli, Srai}"
  shows "\<exists>r c'. expand y (Rop r d a 4) = Some c' \<and> c = ADDI 4 0 imm # c' \<and> iop_value op x imm = rop_value r x (word_of_int imm)"
  using assms
  by (cases op) (force simp: slti_macro_def sltiu_macro_def andi_macro_def ori_macro_def xori_macro_def li_def iop_value_def
      intro: exI [of _ Slt] exI [of _ Sltu] exI [of _ And] exI [of _ Or] exI [of _ Xor])+

lemma iop_correct:
  assumes "tables_ok y p m" "R 2 = p" "expand y (Iop op d a imm) = Some c" "a \<notin> {3, 4}" "d \<notin> {2, 4}"
    "op \<in> {Slli, Srli, Srai} \<Longrightarrow> 0 \<le> imm \<and> imm < 32"
  shows "yields d (iop_value op (rget R a) imm) R p m (fold exec c (st R p f m))"
proof (cases "op \<in> {Slli, Srli, Srai}")
  case True
  then have n: "nat imm < 32" using assms(6) by auto
  show ?thesis
    using True assms(3,5) exec_slli [where R = R, OF assms(2) n] exec_srai [where R = R, OF assms(1,2) n]
      exec_shift_right_imm [where R = R and ar = False, OF assms(1,2) n]
    by (auto simp: iop_value_def srli_macro_def)
next
  case False
  then obtain r c' where r: "expand y (Rop r d a 4) = Some c'" "c = ADDI 4 0 imm # c'"
      "iop_value op (rget R a) imm = rop_value r (rget R a) (word_of_int imm)"
    using iop_rop [OF assms(3), of "rget R a"] by blast
  let ?R = "R(4 := word_of_int imm)"
  have "yields d (rop_value r (rget ?R a) (rget ?R 4)) ?R p m (fold exec c' (st ?R p f m))"
    using assms by (intro rop_correct [OF _ _ r(1)]) simp_all
  then have "yields d (rop_value r (rget ?R a) (rget ?R 4)) R p m (fold exec c' (st ?R p f m))"
    by (rule yields_from) simp
  then show ?thesis using assms(4) by (simp add: r(2,3) rv_step)
qed

lemma split_state: "\<exists>f. s = st (xreg s) p f (xmem s)" for s :: mini
  by (rule exI [of _ "\<lambda>k. xmem s (p - of_nat k)"]) (simp add: st_def overlay_self)

lemma simulates_refl: "simulates p t t"
  using split_state [of t p] unfolding simulates_def by blast

lemma expand_correct:
  assumes ok: "tables_ok y p m" "R 2 = p" and u: "usable y p i (st R p f m)" and e: "expand y i = Some c"
  shows "simulates p (isa i (st R p f m)) (fold exec c (st R p f m))"
proof (cases i)
  case (Base b)
  then show ?thesis using e by (auto simp: simulates_refl)
next
  case (Rop op d a b)
  then show ?thesis
    using yields_simulates [OF rop_correct [where R = R, OF ok]] e u by (auto simp: usable_def st_def)
next
  case (Iop op d a imm)
  then have r: "d \<notin> {3, 4}" "a \<notin> {3, 4}" "d \<notin> {2, 4}" "op \<in> {Slli, Srli, Srai} \<Longrightarrow> 0 \<le> imm \<and> imm < 32"
    using u by (auto simp: usable_def)
  from iop_correct [where R = R, OF ok e [unfolded Iop] r(2,3,4)] r(1)
  show ?thesis using yields_simulates [of d _ R p m _ f] by (simp add: Iop st_def)
next
  case (Lb d x)
  then have r: "d \<notin> {2, 4}" "\<not> below_sp p (ea R x)" "d \<notin> {3, 4}" using u by (auto simp: usable_def st_def)
  from yields_simulates [OF exec_lb [where R = R, OF ok r(1,2)] r(3), of f f] e
  show ?thesis using r by (simp add: Lb st_def overlay_outside)
next
  case (Lh d x)
  then have r: "d \<notin> {2, 3}" "snd x \<notin> {3, 4}" "\<not> below_sp p (ea R x)" "\<not> below_sp p (ea R x + 1)" "d \<notin> {3, 4}"
    using u by (auto simp: usable_def st_def)
  from yields_simulates [OF exec_lh [where R = R, OF ok r(1-4)] r(5), of f f] e
  show ?thesis using r by (simp add: Lh st_def overlay_outside load16_values load16_def)
next
  case (Lhu d x)
  then have r: "d \<noteq> 4" "snd x \<noteq> 4" "\<not> below_sp p (ea R x)" "\<not> below_sp p (ea R x + 1)" "d \<notin> {3, 4}"
    using u by (auto simp: usable_def st_def)
  from yields_simulates [OF exec_lhu [where R = R, OF ok r(1-4)] r(5), of f f] e
  show ?thesis using r by (simp add: Lhu st_def overlay_outside load16_values load16_def)
next
  case (Sh a x)
  then have c: "c = sh_macro a x" using e by simp
  have "\<not> below_sp p (ea R x)" "\<not> below_sp p (ea R x + 1)" "a \<noteq> 4" "snd x \<noteq> 4"
    using u Sh by (simp_all add: usable_def st_def)
  then show ?thesis
    unfolding c Sh using exec_sh [where R = R, OF ok(2)]
    by (auto simp: simulates_def st_def overlay_outside intro!: exI)
qed

section \<open>Blocks\<close>

definition agree :: "symbols \<Rightarrow> u32 \<Rightarrow> mini \<Rightarrow> mini \<Rightarrow> bool" where
  "agree y p t s \<longleftrightarrow> (\<forall>r. r \<notin> {3, 4} \<longrightarrow> rget (xreg s) r = rget (xreg t) r)
     \<and> (\<forall>a. \<not> below_sp p a \<and> \<not> in_check y a \<longrightarrow> xmem s a = xmem t a)"

lemma agree_tables: "agree y p t s \<Longrightarrow> tables_ok y p (xmem t) \<Longrightarrow> tables_ok y p (xmem s)"
  unfolding agree_def tables_ok_def table_ok_def list_all_iff by auto

lemma agree_simulates: "agree y p t s \<Longrightarrow> simulates p s s' \<Longrightarrow> agree y p t s'"
  unfolding agree_def simulates_def by (auto simp: st_def overlay_outside)

lemma agree_sp: "agree y p t s \<Longrightarrow> xreg s 2 = xreg t 2"
  unfolding agree_def rget_def by (auto dest!: spec [of _ "2 :: nat"])

lemma agree_ea: "agree y p t s \<Longrightarrow> snd x \<noteq> 3 \<Longrightarrow> snd x \<noteq> 4 \<Longrightarrow> ea (xreg s) x = ea (xreg t) x"
  by (simp add: agree_def ea_def)

lemma agree_touched: "agree y p t s \<Longrightarrow> usable y p i t \<Longrightarrow> touched i (xreg s) = touched i (xreg t)"
  by (cases i) (auto simp: usable_def agree_ea split: instr.splits)

lemma agree_usable: "agree y p t s \<Longrightarrow> usable y p i t \<Longrightarrow> usable y p i s"
  using agree_touched [of y p t s i] by (simp add: usable_def)

lemma isa_agree:
  assumes a: "agree y p t s" and u: "usable y p i t"
  shows "agree y p (isa i t) (isa i s)"
proof -
  have r: "rget (xreg s) q = rget (xreg t) q" if "q \<noteq> 3" "q \<noteq> 4" for q using a that by (simp add: agree_def)
  have m: "xmem s q = xmem t q" if "\<not> below_sp p q" "\<not> in_check y q" for q using a that by (simp add: agree_def)
  note e = agree_ea [OF a]
  show ?thesis
  proof (cases i)
    case (Base b)
    then show ?thesis using u
      by (cases b) (auto simp: usable_def agree_def exec.simps r m e load32_def store32_def)
  qed (use u in \<open>auto simp: usable_def agree_def r m e load16_def\<close>)
qed

lemma isa_sp: "usable y p i t \<Longrightarrow> xreg (isa i t) 2 = xreg t 2"
  by (cases i) (auto simp: usable_def exec.simps split: instr.splits)

fun expand_block :: "symbols \<Rightarrow> inst list \<Rightarrow> instr list option" where
  "expand_block y [] = Some []"
| "expand_block y (i # is) = (case expand y i of None \<Rightarrow> None
     | Some c \<Rightarrow> (case expand_block y is of None \<Rightarrow> None | Some c' \<Rightarrow> Some (c @ c')))"

text \<open>A block may be run from a state: every instruction is usable when its turn comes, and no store
  destroys a table.\<close>

fun block_ok :: "symbols \<Rightarrow> u32 \<Rightarrow> inst list \<Rightarrow> mini \<Rightarrow> bool" where
  "block_ok y p [] t = True"
| "block_ok y p (i # is) t = (usable y p i t \<and> tables_ok y p (xmem (isa i t)) \<and> block_ok y p is (isa i t))"

lemma block_step:
  assumes "agree y p t s" "tables_ok y p (xmem t)" "xreg t 2 = p" "usable y p i t" "expand y i = Some c"
  shows "agree y p (isa i t) (fold exec c s)" "straight c"
proof -
  obtain f where s: "s = st (xreg s) p f (xmem s)" using split_state by blast
  have "xreg s 2 = p" using agree_sp [OF assms(1)] assms(3) by simp
  moreover have "usable y p i (st (xreg s) p f (xmem s))"
    using agree_usable [OF assms(1,4)] s by metis
  ultimately have "simulates p (isa i (st (xreg s) p f (xmem s))) (fold exec c (st (xreg s) p f (xmem s)))"
    by (intro expand_correct [OF agree_tables [OF assms(1,2)]] assms(5))
  then have "simulates p (isa i s) (fold exec c s)" unfolding s [symmetric] .
  with isa_agree [OF assms(1,4)] show "agree y p (isa i t) (fold exec c s)"
    by (rule agree_simulates)
  show "straight c" using expand_straight [OF assms(5)] assms(4) by (simp add: usable_def)
qed

text \<open>C3: A straight-line block of RV32I instructions, base instructions and replaced ones, and its
  expansion by the macros compute the same: run from states that agree on all registers but gp and
  tp and on the memory outside the area below the stack pointer and the array of \<open>seq\<close>, the
  expansion ends behind its last instruction in a state that agrees with the block's, the tables
  still in place.\<close>

theorem block_correct:
  assumes "agree y p t s" "tables_ok y p (xmem t)" "xreg t 2 = p" "block_ok y p is t" "expand_block y is = Some c"
  shows "\<exists>s'. run_code pc c s = (pc + 4 * of_nat (length c), s') \<and> agree y p (fold isa is t) s'
    \<and> tables_ok y p (xmem s') \<and> xreg s' 2 = p"
  using assms
proof (induction "is" arbitrary: t s c pc)
  case Nil
  then show ?case using agree_tables agree_sp by auto
next
  case (Cons i "is")
  from Cons.prems(5) obtain ci c' where c: "expand y i = Some ci" "expand_block y is = Some c'" "c = ci @ c'"
    by (auto split: option.splits)
  note step = block_step [OF Cons.prems(1-3) _ c(1)]
  from Cons.prems(4) have u: "usable y p i t" "tables_ok y p (xmem (isa i t))" "block_ok y p is (isa i t)" by simp_all
  from Cons.IH [OF step(1) [OF u(1)] u(2) _ u(3) c(2)] Cons.prems(3)
  obtain s' where "run_code (pc + 4 * of_nat (length ci)) c' (fold exec ci s)
      = (pc + 4 * of_nat (length ci) + 4 * of_nat (length c'), s')"
      "agree y p (fold isa is (isa i t)) s'" "tables_ok y p (xmem s')" "xreg s' 2 = p"
    unfolding isa_sp [OF u(1)] by blast
  moreover have "run_code pc c s = run_code (pc + 4 * of_nat (length ci)) c' (fold exec ci s)"
    using step(2) [OF u(1)] unfolding c(3) straight_def by (rule run_code_append)
  ultimately show ?case by (simp add: c(3) algebra_simps)
qed

section \<open>Branches and jumps\<close>

text \<open>C9: The expansion of each of the six branches, with any of its operands \<open>x0\<close> or not, ends at the
  target when the branch of the instruction set is taken and at the label behind it otherwise, and
  changes only gp, tp, the area below the stack pointer and the array of \<open>seq\<close>.\<close>

theorem branch_correct:
  assumes "agree y p t s" "tables_ok y p (xmem t)" "xreg t 2 = p" "a \<notin> {gp, tp}" "c \<notin> {gp, tp}"
    and "target AND NOT 1 = target" "label AND NOT 1 = label"
  shows "\<exists>s'. run_code pc (expand_branch y b a c target label) s
      = (if branch_taken b (rget (xreg t) a) (rget (xreg t) c) then target else label, s')
    \<and> agree y p t s' \<and> tables_ok y p (xmem s')"
proof -
  obtain f where s: "s = st (xreg s) p f (xmem s)" using split_state by blast
  have sp: "xreg s 2 = p" using agree_sp [OF assms(1)] assms(3) by simp
  have r: "rget (xreg s) a = rget (xreg t) a" "rget (xreg s) c = rget (xreg t) c"
    using assms(1,4,5) by (simp_all add: agree_def)
  obtain R' f' m' where run: "run_code pc (expand_branch y b a c target label) (st (xreg s) p f (xmem s))
        = (if branch_taken b (rget (xreg s) a) (rget (xreg s) c) then target else label, st R' p f' m')"
      and R': "\<forall>r. r \<notin> {3, 4} \<longrightarrow> rget R' r = rget (xreg s) r" and m': "\<forall>x. \<not> in_check y x \<longrightarrow> m' x = xmem s x"
    using exec_branch [where R = "xreg s" and f = f and b = b and pc = pc, OF agree_tables [OF assms(1,2)] sp assms(4-7)] by blast
  have "agree y p t (st R' p f' m')"
    using assms(1) R' m' by (simp add: agree_def st_def overlay_outside)
  with run [folded s, unfolded r] agree_tables [OF _ assms(2)] show ?thesis by blast
qed

text \<open>A jump goes to its target and leaves the address behind its own code in the link register.\<close>

lemma jal_correct:
  assumes "addr AND NOT 1 = addr"
  shows "\<exists>s'. run_code pc (jal_macro rd addr) s = (addr, s') \<and> xmem s' = xmem s
    \<and> rget (xreg s') (if rd = 0 then tp else rd) = pc + 4 * of_nat (length (jal_macro rd addr))
    \<and> (\<forall>r. r \<noteq> (if rd = 0 then tp else rd) \<longrightarrow> rget (xreg s') r = rget (xreg s) r)"
  using assms hi_lo [of addr]
  by (cases "rd = 0") (auto simp: jal_macro_def j_macro_def call_template_def la_def exec.simps ea_zero algebra_simps)

lemma tail_correct:
  "addr AND NOT 1 = addr \<Longrightarrow> \<exists>s'. run_code pc (tail_macro addr) s = (addr, s') \<and> xmem s' = xmem s
    \<and> (\<forall>r. r \<noteq> tp \<longrightarrow> rget (xreg s') r = rget (xreg s) r)"
  using hi_lo [of addr] by (simp add: tail_macro_def la_def jr_def exec.simps ea_zero)

text \<open>The pseudo-instructions are instances.\<close>

lemma pseudo_instructions:
  "expand y (Rop Sub d 0 a) = Some (neg_macro y d a)" "expand y (Rop Sltu d 0 a) = Some (snez_macro y d a)"
  "expand y (Rop Slt d b a) = Some (sgt_macro y d a b)" "expand y (Rop Sltu d b a) = Some (sgtu_macro y d a b)"
  "expand y (Rop Slt d 0 a) = Some (sgtz_macro y d a)" "jal_macro ra target = call_macro target"
  "expand_branch y Beq a 0 = beqz_macro y a" "expand_branch y Bne a 0 = bnez_macro y a"
  "expand_branch y Bge 0 a = blez_macro y a" "expand_branch y Bge a 0 = bgez_macro y a"
  "expand_branch y Blt a 0 = bltz_macro y a" "expand_branch y Blt 0 a = bgtz_macro y a"
  "expand_branch y Blt b a = bgt_macro y a b" "expand_branch y Bge b a = ble_macro y a b"
  "expand_branch y Bltu b a = bgtu_macro y a b" "expand_branch y Bgeu b a = bleu_macro y a b"
  by (simp_all add: neg_macro_def snez_macro_def sgt_macro_def sgtu_macro_def sgtz_macro_def call_macro_def jal_macro_def
      expand_branch_def beqz_macro_def bnez_macro_def blez_macro_def bgez_macro_def bltz_macro_def bgtz_macro_def
      bgt_macro_def ble_macro_def bgtu_macro_def bleu_macro_def)

text \<open>\<open>seqz\<close> restores its saved register after it has written its result, so the result is lost when
  it was meant for \<open>s0\<close>.\<close>

lemma seqz_loses_s0:
  assumes "tables_ok y (xreg s 2) (xmem s)"
  shows "rget (xreg (fold exec (seqz_macro y s0 a) s)) s0 = rget (xreg s) s0"
proof -
  obtain f where s: "s = st (xreg s) (xreg s 2) f (xmem s)" using split_state by blast
  have "rget (xreg (fold exec (seqz_macro y s0 a) (st (xreg s) (xreg s 2) f (xmem s)))) s0 = rget (xreg s) s0"
    using assms by (simp add: seqz_macro_def check_8bit_0_def rv_step) (simp add: st_def)
  then show ?thesis unfolding s [symmetric] .
qed

section \<open>A program\<close>

definition demo_symbols :: symbols where
  "demo_symbols = \<lparr>check_same_array = 0x100, same_result_addr = 0x200, check_8bit_0_addr = 0x300, slt1_addr = 0x210,
     sltu1_addr = 0x220, or1_addr = 0x230, logic_shift_table = 0x1000\<rparr>"

definition demo_byte :: "nat \<Rightarrow> u8" where
  "demo_byte n = (if 0x1000 \<le> n \<and> n < 0x1000 + 294912 then lut_bin ! (n - 0x1000)
     else if 0x300 \<le> n \<and> n < 0x400 then check_8bit_0_table ! (n - 0x300)
     else if 0x200 \<le> n \<and> n < 0x208 then same_result_table ! (n - 0x200)
     else if 0x210 \<le> n \<and> n < 0x218 then slt1_table ! (n - 0x210)
     else if 0x220 \<le> n \<and> n < 0x228 then sltu1_table ! (n - 0x220)
     else if 0x230 \<le> n \<and> n < 0x234 then or1_table ! (n - 0x230) else 0)"

definition demo_state :: mini where
  "demo_state = \<lparr>xreg = (\<lambda>r. if r = 2 then 0x80000000 else if r = 10 then 0xfffffff6 else if r = 11 then 5 else 0),
     xmem = (\<lambda>a. demo_byte (unat a))\<rparr>"

lemma low_address: "unat (of_nat b + of_nat i :: u32) = b + i" if "b + i < 0x80000000"
  using that by (simp add: unat_of_nat flip: of_nat_add)

lemma unat_small: "n < 4294967296 \<Longrightarrow> unat (of_nat n :: u32) = n"
  by (simp add: unat_of_nat)

lemma low_not_below: "n < 0x7fff0000 \<Longrightarrow> \<not> below_sp 0x80000000 (of_nat n)"
proof -
  assume n: "n < 0x7fff0000"
  then have "0x80000000 - of_nat n = (of_nat (0x80000000 - n) :: u32)" by (simp add: of_nat_diff)
  then have "unat (0x80000000 - of_nat n :: u32) = unat (of_nat (0x80000000 - n) :: u32)" by (rule arg_cong)
  also have "\<dots> = 0x80000000 - n" using n by (intro unat_small) simp
  finally have "unat (0x80000000 - of_nat n :: u32) = 0x80000000 - n" .
  moreover have "28 < 0x80000000 - n" using n by arith
  ultimately show ?thesis by (simp add: below_sp_def)
qed

lemma low_not_check: "0x200 \<le> n \<Longrightarrow> n < 0x7fff0000 \<Longrightarrow> \<not> in_check demo_symbols (of_nat n)"
proof -
  assume n: "0x200 \<le> n" "n < 0x7fff0000"
  then have "of_nat n - 0x100 = (of_nat (n - 0x100) :: u32)" by (simp add: of_nat_diff)
  then have "unat (of_nat n - 0x100 :: u32) = unat (of_nat (n - 0x100) :: u32)" by (rule arg_cong)
  also have "\<dots> = n - 0x100" using n by (intro unat_small) simp
  finally have "unat (of_nat n - 0x100 :: u32) = n - 0x100" .
  then show ?thesis using n by (simp add: in_check_def demo_symbols_def)
qed

lemma demo_table:
  assumes "\<And>i. i < length xs \<Longrightarrow> demo_byte (b + i) = xs ! i" "0x200 \<le> b" "b + length xs < 0x7fff0000"
  shows "table_ok demo_symbols 0x80000000 (\<lambda>a. demo_byte (unat a)) (of_nat b) xs"
proof -
  have "\<not> below_sp 0x80000000 (of_nat b + of_nat i) \<and> \<not> in_check demo_symbols (of_nat b + of_nat i)
      \<and> unat (of_nat b + of_nat i :: u32) = b + i" if "i < length xs" for i
    using low_not_below [of "b + i"] low_not_check [of "b + i"] low_address [of b i] that assms(2,3) by simp
  then show ?thesis using assms(1) by (auto simp: table_ok_def list_all_iff)
qed

lemma demo_tables_ok: "tables_ok demo_symbols 0x80000000 (xmem demo_state)"
proof -
  have c: "\<not> below_sp 0x80000000 (0x100 + of_nat i)" if "i < 256" for i
    using low_not_below [of "0x100 + i"] that by simp
  have t: "table_ok demo_symbols 0x80000000 (\<lambda>a. demo_byte (unat a)) 0x200 same_result_table"
    "table_ok demo_symbols 0x80000000 (\<lambda>a. demo_byte (unat a)) 0x300 check_8bit_0_table"
    "table_ok demo_symbols 0x80000000 (\<lambda>a. demo_byte (unat a)) 0x210 slt1_table"
    "table_ok demo_symbols 0x80000000 (\<lambda>a. demo_byte (unat a)) 0x220 sltu1_table"
    "table_ok demo_symbols 0x80000000 (\<lambda>a. demo_byte (unat a)) 0x230 or1_table"
    "table_ok demo_symbols 0x80000000 (\<lambda>a. demo_byte (unat a)) 0x1000 lut_bin"
    using demo_table [of same_result_table "0x200"] demo_table [of check_8bit_0_table "0x300"] demo_table [of slt1_table "0x210"]
      demo_table [of sltu1_table "0x220"] demo_table [of or1_table "0x230"] demo_table [of lut_bin "0x1000"]
    by (simp_all add: demo_byte_def table_lengths)
  show ?thesis
    using t c by (simp add: tables_ok_def the_tables_def demo_symbols_def [symmetric] list_all_iff)
      (simp add: demo_symbols_def demo_state_def)
qed

lemma block_witness:
  "\<exists>c s'. expand_block demo_symbols [Rop Slt 12 10 11, Iop Srai 13 10 1, Rop Xor 14 10 11] = Some c
     \<and> run_code 0x80000000 c demo_state = (0x80000000 + 4 * of_nat (length c), s')
     \<and> rget (xreg s') 12 = 1 \<and> rget (xreg s') 13 = 0xfffffffb \<and> rget (xreg s') 14 = 0xfffffff3"
proof -
  let ?is = "[Rop Slt 12 10 11, Iop Srai 13 10 1, Rop Xor 14 10 11]"
  have e: "\<exists>c. expand_block demo_symbols ?is = Some c" by (simp add: xor_macro_def logic_macro_def)
  then obtain c where c: "expand_block demo_symbols ?is = Some c" ..
  have k: "block_ok demo_symbols 0x80000000 ?is demo_state" using demo_tables_ok by (simp add: usable_def)
  have a: "agree demo_symbols 0x80000000 demo_state demo_state" by (simp add: agree_def)
  have "xreg demo_state 2 = 0x80000000" by (simp add: demo_state_def)
  from block_correct [OF a demo_tables_ok this k c, of "0x80000000"]
  obtain s' where s': "run_code 0x80000000 c demo_state = (0x80000000 + 4 * of_nat (length c), s')"
    "agree demo_symbols 0x80000000 (fold isa ?is demo_state) s'" by blast
  then have "rget (xreg s') 12 = rget (xreg (fold isa ?is demo_state)) 12"
      "rget (xreg s') 13 = rget (xreg (fold isa ?is demo_state)) 13"
      "rget (xreg s') 14 = rget (xreg (fold isa ?is demo_state)) 14"
    by (simp_all only: agree_def) simp_all
  then have "rget (xreg s') 12 = 1 \<and> rget (xreg s') 13 = 0xfffffffb \<and> rget (xreg s') 14 = 0xfffffff3"
    by (simp add: rop_value_def iop_value_def demo_state_def rget_def rset_def)
  with c s'(1) show ?thesis by blast
qed

lemma branch_witness:
  "\<exists>s'. run_code 0x80000000 (expand_branch demo_symbols Blt 10 11 0x80000400 0x80000100) demo_state = (0x80000400, s')
     \<and> rget (xreg s') 10 = 0xfffffff6"
proof -
  have a: "agree demo_symbols 0x80000000 demo_state demo_state" by (simp add: agree_def)
  have "xreg demo_state 2 = 0x80000000" by (simp add: demo_state_def)
  from branch_correct [OF a demo_tables_ok this, of 10 11 "0x80000400" "0x80000100" "0x80000000" Blt]
  obtain s' where s': "run_code 0x80000000 (expand_branch demo_symbols Blt 10 11 0x80000400 0x80000100) demo_state = (0x80000400, s')"
      "agree demo_symbols 0x80000000 demo_state s'"
    by (auto simp: branch_taken_def demo_state_def rget_def)
  then have "rget (xreg s') 10 = rget (xreg demo_state) 10" by (simp add: agree_def)
  with s'(1) show ?thesis by (simp add: demo_state_def rget_def)
qed

end
