(* ===== verification/Spec2Isabelle.thy ===== *)
theory Spec2Isabelle
  imports Klib_Stdio Klib_Int64 Nes_Alu Nes_Bus Nes_Video Coremark_Bench
    Bench_Main Npc_Main Npc_Sv32 Rv_Block
begin

text \<open>
  The C and C++ software around Triathlon, an out-of-order RV32IMAC processor.

  \<^bold>\<open>The program.\<close> The processor itself is SystemVerilog and is not modelled. Its software has four
  parts. The simulator (\<open>src/npc/csrc\<close>) drives the module that Verilator generates from the
  processor, gives it memory and devices, starts a system on it, compares every committed
  instruction with a reference simulator and collects a profile. The abstract machine
  (\<open>src/abstract-machine\<close>) is the bare-metal runtime: a small C library (\<open>klib\<close>), and a tool chain
  for a processor of eight instructions whose assembler macros (\<open>tools/rvmini\<close>) build the rest of
  RV32I. The programs that run on it (\<open>src/am-kernels\<close>) are a NES emulator (\<open>kernels/litenes\<close>) and
  the benchmark suites CoreMark and MicroBench (\<open>benchmarks\<close>). They call klib, and the simulator
  runs them.

  \<^bold>\<open>Conventions\<close> (Prelude). The target is ILP32: \<open>int\<close>, \<open>unsigned\<close>, pointers and \<open>size_t\<close> are words
  of 32 bits, and \<open>+\<close> wraps where the code's does. A C structure is a record, an enumeration a
  datatype. An operation that changes state returns the new state. An array is a function on its
  indices; where nothing in the code keeps an index inside it, an access outside is a failure of the
  model (\<open>None\<close>, or a ghost flag that stays set) and a property says when it cannot happen. An
  \<open>assert\<close>, a panic and an early return are values of an option or sum type. A loop whose end depends
  on the data is a partial function with values in an option type, so that not returning is \<open>None\<close>,
  and that it returns is proved; the other loops are folds or terminating recursions. No definition
  has fuel but the scan of a descriptor chain, whose 128 steps are the code's. The locale \<open>machine\<close>
  turns preservation by each step into an invariant of every run; the components interpret it.

  \<^bold>\<open>klib.\<close> Klib_Int64 (\<open>int64.c\<close>): division and remainder of 64-bit words on a 32-bit machine on every
  path of the routine, proved against integer division (locale \<open>unsigned_division\<close> carries it to the
  signed and the wrapper routines). Klib_String (\<open>string.c\<close>): each routine against lists of bytes,
  overlapping blocks included. Klib_Stdlib (\<open>stdlib.c\<close>): random numbers, \<open>atoi\<close>, and the bump
  allocator, whose contract is the locale \<open>bump_allocator\<close> (blocks are aligned and disjoint).
  Klib_Stdio (\<open>stdio.c\<close>): \<open>printf\<close> and \<open>sprintf\<close>, and reading back what was printed.

  \<^bold>\<open>litenes.\<close> Nes_State (\<open>common.c\<close>, the globals as one record), Nes_Io (\<open>memory.c\<close>, \<open>mmc.c\<close>, \<open>psg.c\<close>
  and the register side of \<open>ppu.c\<close>), Nes_Cpu (\<open>cpu.c\<close>, \<open>cpu-addressing.c\<close>: every handler, the three
  decode tables, the run loop), Nes_Video (the renderers of \<open>ppu.c\<close>, \<open>fce.c\<close>). The lemmas: the run loop
  returns after the instructions its cycles pay for and no memory access leaves an array (Nes_Cpu,
  Nes_Alu; reads of the controller port raise their own flag \<open>psg_fault\<close>, since nothing in the code
  bounds the port's counter), the arithmetic and the flags (Nes_Alu),
  what a program sees through the bus (Nes_Bus, locale \<open>byte_bus\<close>), the picture side, the scanline
  cycle and the loader (Nes_Video).

  \<^bold>\<open>CoreMark.\<close> Coremark_Util (\<open>core_util.c\<close>: seeds, data types, CRC), Coremark_Matrix (\<open>core_matrix.c\<close>),
  Coremark_State (\<open>core_state.c\<close>), Coremark_List (\<open>core_list_join.c\<close>, and the main program of
  \<open>core_main.c\<close>), Coremark_Sort (the merge sort, whose comparison may run the two other benchmarks and
  cache their result: locale \<open>comparator\<close>, interpreted on both comparisons) and Coremark_Bench (the
  list benchmark as a whole).

  \<^bold>\<open>MicroBench.\<close> Bench_Lib (\<open>bench.c\<close>: allocator, random numbers, checksum), one theory for each
  benchmark in C (Bench_Qsort, Bench_Bits for the sieve and the queens, Bench_Fib, Bench_Bf, Bench_Md5),
  each with its preparation, run and validation, and Bench_Main (the table and the main program).
  Undefined behaviour the code does not exclude is a value: the board set-up of the queens fails above
  30, and an access of the interpreter's program outside its input or output raises \<open>io_fault\<close>.

  \<^bold>\<open>The simulator.\<close> Npc_Mem (\<open>platform_contract.h\<close>, \<open>memory_models.h\<close>: address map, physical accesses as
  the locale \<open>byte_memory\<close>, UART, timer, interrupt controller), Npc_Virtio (the block device), Npc_Bus
  (the processor's loads and stores, the loaders, the memory behind the caches), Npc_Boot
  (\<open>boot_loader.h\<close>, \<open>trap_decode.h\<close>, the set-up part of \<open>npc_main.cpp\<close>), Npc_Linux
  (\<open>linux_boot_stage.h\<close>), Npc_Args (\<open>lib/args_parser.cpp\<close>), Npc_Difftest (\<open>lib/difftest_client.cpp\<close>),
  Npc_Ports (the output ports of the generated module), Npc_Profile and Npc_Stall
  (\<open>lib/profile_collector_runtime.cpp\<close>, \<open>lib/profile_collector_stall.cpp\<close>), Npc_Sv32 (the page-table walk
  of the fault report) and Npc_Main (\<open>npc_main.cpp\<close>: one clock cycle with all that hangs on it, the
  loop, the exit code). The lemmas: stores refine a byte memory that the devices share; a disk request
  moves exactly its sectors; invariants of the devices, of the profile counters and of the boot stages
  over every sequence of operations; the boot stub reaches the firmware; a run is accepted exactly when
  it is the reference's; and for the whole loop the lock-step with the reference, and which cycles end
  it with which exit code.

  \<^bold>\<open>rvmini.\<close> Rv_Machine (the eight instructions, the tables and \<open>gen-lut.c\<close>), Rv_Macros (every macro of
  \<open>inst-replace.h\<close>), then their runs: Rv_Alu (subtraction, comparison, bitwise operations, equality),
  Rv_Shift, Rv_Branch, and Rv_Block, where a block of RV32I instructions, given by the meaning of the
  instruction set, is simulated by its expansion. The 28 bytes below the stack pointer are split off
  from the memory (\<open>overlay\<close>), so that a run is followed by rewriting (collection \<open>rv_step\<close>).

  \<^bold>\<open>Parameters.\<close> What is not part of the sources is an argument of the definitions: the generated module
  (its evaluation and output ports), the reference library (its entry points and state), files,
  clocks, the keyboard, the heap area, the addresses the linker chooses, the MicroBench programs in
  C++ and the compressor library. Hypotheses on them are named in the properties, and their witnesses
  use concrete ones.

  \<^bold>\<open>Not modelled.\<close> The processor (SystemVerilog); text that is only printed: log lines, the profile
  summary, the progress report, the waveform dump; the timing of CoreMark; \<open>snprintf\<close>, \<open>vsprintf\<close> and
  \<open>vsnprintf\<close>, which only panic; waiting for the clock in \<open>fce.c\<close>. Left aside as whole parts: the
  vendored emulator (\<open>src/fceux-am\<close>), the compiler runtime (\<open>libgcc\<close>), the drivers of the other
  platforms of the abstract machine, the demonstration kernels, Dhrystone and the test programs.
\<close>

end
